(* ===== verification/Wf_Prelude.thy ===== *)
theory Wf_Prelude
  imports Main "HOL-Library.Word" "HOL-Library.State_Monad"
begin

text \<open>
  Shared vocabulary of the development: the machine word, the collections of
  facts that carry the component proofs, arithmetic of 64-bit words read as
  natural numbers, and intrusive singly linked chains in a memory of link words.
\<close>

unbundle bit_operations_syntax

section \<open>Machine words\<close>

text \<open>
  The crate asserts \<^verbatim>\<open>usize::BITS >= 64\<close> (\<^verbatim>\<open>config.rs\<close>); a \<^verbatim>\<open>usize\<close> is a
  64-bit word, and so is the two's complement \<^verbatim>\<open>isize\<close> of the span accounting.
  Addresses, sizes, tagged words, versions, phases and atomic counters are words and
  wrap around.  Array indices, class numbers and loop counters, whose values the
  code bounds by array lengths, are natural numbers.
\<close>

type_synonym usize = "64 word"
type_synonym isize = "64 word"
type_synonym address = usize

text \<open>Collections: unfolding of the operations, facts on words, facts on chains.\<close>

named_theorems wf_ops \<open>definitions of the modelled operations\<close>
named_theorems wf_word \<open>words read as natural numbers\<close>
named_theorems wf_chain \<open>linked chains in memory\<close>
named_theorems wf_get \<open>what an accessor reads after an update\<close>

lemma unat_word_lt [simp, wf_word]: "unat (x :: usize) < 18446744073709551616"
  using unsigned_less [of x, where ?'a = nat] by simp

lemma unat_add_nowrap [wf_word]:
  "unat (x :: usize) + unat y < 2 ^ 64 \<Longrightarrow> unat (x + y) = unat x + unat y"
  by (simp add: unat_word_ariths)

lemma unat_mult_nowrap [wf_word]:
  "unat (x :: usize) * unat y < 2 ^ 64 \<Longrightarrow> unat (x * y) = unat x * unat y"
  by (simp add: unat_word_ariths)

lemma unat_inc [wf_word]:
  "unat (x :: usize) < 2 ^ 64 - 1 \<Longrightarrow> unat (x + 1) = Suc (unat x)"
  by (simp add: unat_word_ariths)

lemma unat_dec [wf_word]: "(x :: usize) \<noteq> 0 \<Longrightarrow> unat (x - 1) = unat x - 1"
  by (rule unat_minus_one)

lemma unat_sub_le [wf_word]:
  "unat (y :: usize) \<le> unat x \<Longrightarrow> unat (x - y) = unat x - unat y"
  by (simp add: unat_sub_if')

lemma unat_of_nat_small [wf_word]: "n < 2 ^ 64 \<Longrightarrow> unat (of_nat n :: usize) = n"
  by (simp add: unat_of_nat)

lemma unat_exp [wf_word]: "k < 64 \<Longrightarrow> unat (2 ^ k :: usize) = 2 ^ k"
proof -
  assume k: "k < 64"
  have "(2 ^ k :: usize) = of_nat (2 ^ k)" by simp
  moreover have "(2 ^ k :: nat) < 2 ^ 64" using k by (rule power_strict_increasing) simp
  ultimately show ?thesis by (simp only: unat_of_nat_small)
qed

lemma exp_inj_word: "j < 64 \<Longrightarrow> k < 64 \<Longrightarrow> (2 ^ j :: usize) = 2 ^ k \<longleftrightarrow> j = k"
  by (metis numeral_2_eq_2 power_inject_exp unat_exp one_less_numeral_iff semiring_norm(76))

lemma exp_not_zero_word: "k < 64 \<Longrightarrow> (2 ^ k :: usize) \<noteq> 0"
  using unat_exp [of k] by (metis power_not_zero unat_0 zero_neq_numeral)

lemma word_eq_iff_unat: "(x :: usize) = y \<longleftrightarrow> unat x = unat y"
  by (simp add: word_unat_eq_iff)

lemma unat_zero_iff: "unat (x :: usize) = 0 \<longleftrightarrow> x = 0"
  by (simp add: word_unat_eq_iff)

subsection \<open>Masking: rounding an address to a power of two\<close>

lemma and_not_mask: "(x :: usize) AND NOT (mask k) = push_bit k (drop_bit k x)"
  by (rule bit_eqI)
    (auto simp: bit_and_iff bit_not_iff bit_mask_iff bit_push_bit_iff bit_drop_bit_eq)

lemma unat_and_not_mask:
  assumes "k < 64"
  shows "unat ((x :: usize) AND NOT (2 ^ k - 1)) = unat x div 2 ^ k * 2 ^ k"
proof -
  have "unat x div 2 ^ k * 2 ^ k \<le> unat x" by (rule div_times_less_eq_dividend)
  then have q: "unat x div 2 ^ k * 2 ^ k < 18446744073709551616"
    using unat_word_lt [of x] by linarith
  have "(x AND NOT (2 ^ k - 1)) = drop_bit k x * 2 ^ k"
    by (simp add: and_not_mask push_bit_eq_mult flip: mask_eq_decr_exp)
  moreover have d: "unat (drop_bit k x) = unat x div 2 ^ k"
    by (simp only: unat_drop_bit_eq) (simp add: drop_bit_eq_div)
  ultimately show ?thesis
    using q assms unat_mult_nowrap [of "drop_bit k x" "2 ^ k"] by (simp only: unat_exp d) simp
qed

lemma unat_and_mask:
  assumes "k < 64"
  shows "unat ((x :: usize) AND (2 ^ k - 1)) = unat x mod 2 ^ k"
  by (simp flip: mask_eq_decr_exp take_bit_eq_mask add: unsigned_take_bit_eq)
    (simp add: take_bit_eq_mod)

lemma div_mult_round_up:
  fixes x a :: nat
  assumes "0 < a"
  shows "x \<le> (x + a - 1) div a * a" "(x + a - 1) div a * a < x + a"
    "a dvd (x + a - 1) div a * a"
proof -
  define y where "y = x + a - 1"
  have e: "y = y div a * a + y mod a" by simp
  have m: "y mod a < a" using assms by simp
  show "x \<le> (x + a - 1) div a * a" "(x + a - 1) div a * a < x + a"
    using e m assms unfolding y_def by linarith+
  show "a dvd (x + a - 1) div a * a" by simp
qed

section \<open>Linked chains\<close>

text \<open>
  \<open>chain nxt p xs q\<close>: following the link words \<open>nxt\<close> from \<open>p\<close> visits exactly the
  non-null cells \<open>xs\<close>, pairwise distinct, and arrives at \<open>q\<close>.  Every intrusive list
  of the crate (blocks, spans, nodes) is such a chain in one link field.
\<close>

fun path :: "(address \<Rightarrow> address) \<Rightarrow> address \<Rightarrow> address list \<Rightarrow> address \<Rightarrow> bool" where
  "path nxt p [] q \<longleftrightarrow> p = q"
| "path nxt p (x # xs) q \<longleftrightarrow> p = x \<and> x \<noteq> 0 \<and> path nxt (nxt x) xs q"

definition chain :: "(address \<Rightarrow> address) \<Rightarrow> address \<Rightarrow> address list \<Rightarrow> address \<Rightarrow> bool" where
  "chain nxt p xs q \<longleftrightarrow> path nxt p xs q \<and> distinct xs"

lemma path_append [simp]:
  "path nxt p (xs @ ys) q \<longleftrightarrow> (\<exists>r. path nxt p xs r \<and> path nxt r ys q)"
  by (induction xs arbitrary: p) auto

lemma path_upd_notin [simp]: "x \<notin> set xs \<Longrightarrow> path (nxt(x := v)) p xs q = path nxt p xs q"
  by (induction xs arbitrary: p) auto

lemma path_cong:
  "(\<And>x. x \<in> set xs \<Longrightarrow> nxt x = nxt' x) \<Longrightarrow> path nxt p xs q = path nxt' p xs q"
  by (induction xs arbitrary: p) auto

lemma path_null_free: "path nxt p xs q \<Longrightarrow> 0 \<notin> set xs"
  by (induction xs arbitrary: p) auto

lemma path_unique:
  "path nxt p xs 0 \<Longrightarrow> path nxt p ys 0 \<Longrightarrow> xs = ys"
proof (induction xs arbitrary: p ys)
  case Nil
  then show ?case by (cases ys) auto
next
  case (Cons x xs)
  then show ?case by (cases ys) auto
qed

lemma chain_Nil [simp, wf_chain]: "chain nxt p [] q \<longleftrightarrow> p = q"
  by (simp add: chain_def)

lemma chain_Cons [simp, wf_chain]:
  "chain nxt p (x # xs) q \<longleftrightarrow> p = x \<and> x \<noteq> 0 \<and> x \<notin> set xs \<and> chain nxt (nxt x) xs q"
  by (auto simp: chain_def)

lemma chain_null [wf_chain]: "chain nxt 0 xs 0 \<longleftrightarrow> xs = []"
  by (cases xs) auto

lemma chain_nonnull [wf_chain]:
  "p \<noteq> 0 \<Longrightarrow> chain nxt p xs 0 \<longleftrightarrow>
     (\<exists>ys. xs = p # ys \<and> p \<notin> set ys \<and> chain nxt (nxt p) ys 0)"
  by (cases xs) auto

lemma chain_upd_notin [simp, wf_chain]:
  "x \<notin> set xs \<Longrightarrow> chain (nxt(x := v)) p xs q = chain nxt p xs q"
  by (simp add: chain_def)

lemma chain_cong:
  "(\<And>x. x \<in> set xs \<Longrightarrow> nxt x = nxt' x) \<Longrightarrow> chain nxt p xs q = chain nxt' p xs q"
  using path_cong [of xs nxt nxt'] by (simp add: chain_def)

lemma chain_distinct: "chain nxt p xs q \<Longrightarrow> distinct xs"
  by (simp add: chain_def)

lemma chain_null_free: "chain nxt p xs q \<Longrightarrow> 0 \<notin> set xs"
  by (auto simp: chain_def dest: path_null_free)

lemma chain_unique: "chain nxt p xs 0 \<Longrightarrow> chain nxt p ys 0 \<Longrightarrow> xs = ys"
  by (auto simp: chain_def intro: path_unique)

text \<open>Pushing a fresh cell in front, appending one behind the last cell.\<close>

lemma chain_push:
  "chain nxt p xs 0 \<Longrightarrow> x \<noteq> 0 \<Longrightarrow> x \<notin> set xs \<Longrightarrow> chain (nxt(x := p)) x (x # xs) 0"
  by simp

lemma chain_snoc_iff:
  "chain nxt p (xs @ [x]) q \<longleftrightarrow> chain nxt p xs x \<and> x \<noteq> 0 \<and> x \<notin> set xs \<and> nxt x = q"
  by (auto simp: chain_def)

lemma chain_append_last:
  assumes "chain nxt p (xs @ [t]) 0" "x \<noteq> 0" "x \<notin> set xs" "x \<noteq> t"
  shows "chain (nxt(x := 0, t := x)) p (xs @ [t, x]) 0"
  using assms by (auto simp: chain_def)

lemma chain_split_append:
  "chain nxt p (xs @ ys) q \<Longrightarrow> \<exists>r. chain nxt p xs r \<and> chain nxt r ys q"
  by (auto simp: chain_def)

text \<open>Unlinking a cell from the middle.\<close>

lemma chain_remove:
  assumes "chain nxt p (xs @ [a, b] @ ys) q"
  shows "chain (nxt(a := nxt b)) p (xs @ [a] @ ys) q"
  using assms by (auto simp: chain_def)

section \<open>State monad\<close>

text \<open>
  Operations that thread the whole program state are written in the state monad; a
  proof unfolds a run with these equations.
\<close>

lemmas run_simps = run_state_bind run_state_return run_state_get run_state_set

abbreviation ret :: "'a \<Rightarrow> ('s, 'a) state" where
  "ret \<equiv> State_Monad.return"

abbreviation final_state :: "('s, 'a) state \<Rightarrow> 's \<Rightarrow> 's" where
  "final_state m s \<equiv> snd (run_state m s)"

abbreviation result_of :: "('s, 'a) state \<Rightarrow> 's \<Rightarrow> 'a" where
  "result_of m s \<equiv> fst (run_state m s)"

section \<open>Transition systems\<close>

text \<open>
  Protocols between threads are step relations; \<open>reachable init step\<close> are the states some
  interleaving leads to, and a condition that holds at the start and that every step
  keeps holds in all of them.
\<close>

inductive reachable :: "('s \<Rightarrow> bool) \<Rightarrow> ('s \<Rightarrow> 's \<Rightarrow> bool) \<Rightarrow> 's \<Rightarrow> bool" for init step where
  start: "init s \<Longrightarrow> reachable init step s"
| step: "reachable init step s \<Longrightarrow> step s t \<Longrightarrow> reachable init step t"

locale inductive_invariant =
  fixes init :: "'s \<Rightarrow> bool" and step :: "'s \<Rightarrow> 's \<Rightarrow> bool" and inv :: "'s \<Rightarrow> bool"
  assumes inv_init: "init s \<Longrightarrow> inv s"
    and inv_step: "inv s \<Longrightarrow> step s t \<Longrightarrow> inv t"
begin

lemma always: "reachable init step s \<Longrightarrow> inv s"
  by (induction rule: reachable.induct) (auto intro: inv_init inv_step)

lemma step_from_reachable: "reachable init step s \<Longrightarrow> step s t \<Longrightarrow> inv s \<and> inv t"
  using always inv_step by blast

end

end
