(* ===== verification/Rust_Std.thy ===== *)
theory Rust_Std
  imports Wf_Prelude
begin

text \<open>
  The integer operations of the Rust standard library that the crate uses, on
  64-bit words, and \<^verbatim>\<open>core::alloc::Layout\<close>.  Every operation computes; the lemmas
  read the results as natural numbers.
\<close>

unbundle bit_operations_syntax

section \<open>Checked, saturating and rounding arithmetic\<close>

definition usize_max :: usize where
  "usize_max = - 1"

definition checked_add :: "usize \<Rightarrow> usize \<Rightarrow> usize option" where
  "checked_add a b = (if unat a + unat b < 2 ^ 64 then Some (a + b) else None)"

definition checked_mul :: "usize \<Rightarrow> usize \<Rightarrow> usize option" where
  "checked_mul a b = (if unat a * unat b < 2 ^ 64 then Some (a * b) else None)"

definition saturating_add :: "usize \<Rightarrow> usize \<Rightarrow> usize" where
  "saturating_add a b = (if unat a + unat b < 2 ^ 64 then a + b else usize_max)"

definition saturating_sub :: "usize \<Rightarrow> usize \<Rightarrow> usize" where
  "saturating_sub a b = (if b \<le> a then a - b else 0)"

definition div_ceil :: "usize \<Rightarrow> usize \<Rightarrow> usize" where
  "div_ceil a b = (let q = a div b in if a mod b \<noteq> 0 then q + 1 else q)"

definition is_power_of_two :: "usize \<Rightarrow> bool" where
  "is_power_of_two x \<longleftrightarrow> list_ex (\<lambda>k. x = 2 ^ k) [0..<64]"

definition checked_next_power_of_two :: "usize \<Rightarrow> usize option" where
  "checked_next_power_of_two x =
     (case find (\<lambda>k. x \<le> 2 ^ k) [0..<64] of None \<Rightarrow> None | Some k \<Rightarrow> Some (2 ^ k))"

definition trailing_zeros :: "usize \<Rightarrow> nat" where
  "trailing_zeros x = (case find (bit x) [0..<64] of None \<Rightarrow> 64 | Some k \<Rightarrow> k)"

lemma unat_usize_max [simp]: "unat usize_max = 2 ^ 64 - 1"
  by (simp add: usize_max_def unsigned_minus_1_eq_mask mask_nat_def)

lemma checked_add_Some [wf_word]:
  "checked_add a b = Some c \<longleftrightarrow> unat a + unat b < 2 ^ 64 \<and> c = a + b"
  by (auto simp: checked_add_def)

lemma checked_add_unat: "checked_add a b = Some c \<Longrightarrow> unat c = unat a + unat b"
  by (auto simp: checked_add_def unat_add_nowrap split: if_splits)

lemma checked_mul_unat: "checked_mul a b = Some c \<Longrightarrow> unat c = unat a * unat b"
  by (auto simp: checked_mul_def unat_mult_nowrap split: if_splits)

lemma saturating_sub_unat [wf_word]: "unat (saturating_sub a b) = unat a - unat b"
  by (simp add: saturating_sub_def word_le_nat_alt unat_sub_le)

lemma saturating_add_unat [wf_word]:
  "unat (saturating_add a b) = min (unat a + unat b) (2 ^ 64 - 1)"
  by (simp add: saturating_add_def unat_add_nowrap)

lemma div_ceil_unat:
  assumes "0 < unat b"
  shows "unat (div_ceil a b) = (unat a + unat b - 1) div unat b"
proof -
  define m n where "m = unat a" and "n = unat b"
  have mn: "m < 2 ^ 64" "0 < n" using assms by (simp_all add: m_def n_def)
  have z: "a mod b = 0 \<longleftrightarrow> m mod n = 0"
    by (simp add: m_def n_def unat_mod_distrib flip: unat_zero_iff)
  have d: "unat (a div b) = m div n" by (simp add: m_def n_def unat_div_distrib)
  show ?thesis
  proof (cases "m mod n = 0")
    case True
    then obtain k where k: "m = n * k" by auto
    then have "(m + n - 1) div n = k"
      using mn(2) by (intro div_nat_eqI) (auto simp: algebra_simps)
    with True z d k mn(2) show ?thesis by (simp add: div_ceil_def Let_def m_def n_def)
  next
    case False
    then have "n \<noteq> 1" by auto
    with mn(2) have n2: "2 \<le> n" by linarith
    have "m div n * 2 \<le> m div n * n" using n2 by (rule mult_le_mono2)
    also have "\<dots> \<le> m" by (rule div_times_less_eq_dividend)
    finally have small: "m div n < 2 ^ 64 - 1" using mn(1) by simp
    have "(m + n - 1) div n = Suc (m div n)"
    proof (intro div_nat_eqI)
      have e: "n * (m div n) = m - m mod n" by (rule minus_mod_eq_mult_div [symmetric])
      have lt: "0 < m mod n" "m mod n < n" "m mod n \<le> m" using False mn(2) by auto
      show "n * Suc (m div n) \<le> m + n - 1" using e lt by simp
      show "m + n - 1 < n * Suc (Suc (m div n))" using e lt by simp
    qed
    with False z d small show ?thesis
      by (simp add: div_ceil_def Let_def unat_inc m_def n_def)
  qed
qed

section \<open>Powers of two\<close>

lemma is_power_of_two_iff: "is_power_of_two x \<longleftrightarrow> (\<exists>k < 64. x = 2 ^ k)"
  by (auto simp: is_power_of_two_def list_ex_iff)

lemma is_power_of_twoE:
  assumes "is_power_of_two x"
  obtains k where "k < 64" "x = 2 ^ k" "unat x = 2 ^ k"
  using assms by (auto simp: is_power_of_two_iff unat_exp)

lemma is_power_of_two_exp [simp]: "k < 64 \<Longrightarrow> is_power_of_two (2 ^ k)"
  by (auto simp: is_power_of_two_iff)

lemma is_power_of_two_pos: "is_power_of_two x \<Longrightarrow> 0 < unat x"
  by (elim is_power_of_twoE) simp

lemma find_upt_Some:
  "find P [i..<j] = Some k \<longleftrightarrow> i \<le> k \<and> k < j \<and> P k \<and> (\<forall>m. i \<le> m \<and> m < k \<longrightarrow> \<not> P m)"
proof (induction "j - i" arbitrary: i)
  case 0
  then show ?case by simp
next
  case (Suc d)
  then have u: "[i..<j] = i # [Suc i..<j]" by (simp add: upt_conv_Cons)
  have IH: "find P [Suc i..<j] = Some k \<longleftrightarrow>
      Suc i \<le> k \<and> k < j \<and> P k \<and> (\<forall>m. Suc i \<le> m \<and> m < k \<longrightarrow> \<not> P m)"
    using Suc by (intro Suc.hyps(1)) auto
  show ?case
    using Suc(2) by (auto simp: u IH Suc_le_eq order.order_iff_strict [of i])
qed

lemma find_exp_Some:
  "find (\<lambda>k. x \<le> 2 ^ k) [0..<64] = Some k \<longleftrightarrow>
     k < 64 \<and> unat (x :: usize) \<le> 2 ^ k \<and> (\<forall>j < k. 2 ^ j < unat x)"
  by (auto simp: find_upt_Some word_le_nat_alt unat_exp not_le)

lemma checked_next_power_of_two_Some:
  "checked_next_power_of_two x = Some y \<longleftrightarrow>
     (\<exists>k < 64. y = 2 ^ k \<and> unat x \<le> 2 ^ k \<and> (\<forall>j < k. 2 ^ j < unat x))"
proof -
  have "checked_next_power_of_two x = Some y \<longleftrightarrow>
      (\<exists>k. find (\<lambda>k. x \<le> 2 ^ k) [0..<64] = Some k \<and> y = 2 ^ k)"
    by (auto simp: checked_next_power_of_two_def split: option.splits)
  then show ?thesis by (auto simp: find_exp_Some)
qed

lemma checked_next_power_of_two_None:
  "checked_next_power_of_two x = None \<longleftrightarrow> 2 ^ 63 < unat x"
proof -
  have "checked_next_power_of_two x = None \<longleftrightarrow> find (\<lambda>k. x \<le> 2 ^ k) [0..<64] = None"
    by (cases "find (\<lambda>k. x \<le> 2 ^ k) [0..<64]") (simp_all add: checked_next_power_of_two_def)
  also have "\<dots> \<longleftrightarrow> (\<forall>k < 64. \<not> x \<le> 2 ^ k)"
    by (auto simp: find_None_iff)
  also have "\<dots> \<longleftrightarrow> (\<forall>k < 64. 2 ^ k < unat x)"
    by (auto simp: word_le_nat_alt unat_exp not_le)
  also have "\<dots> \<longleftrightarrow> 2 ^ 63 < unat x"
  proof
    assume r: "2 ^ 63 < unat x"
    have "(2 :: nat) ^ k \<le> 2 ^ 63" if "k < 64" for k
      using that by (intro power_increasing) auto
    with r show "\<forall>k < 64. 2 ^ k < unat x" by (meson order.strict_trans1)
  next
    assume "\<forall>k < 64. 2 ^ k < unat x"
    from this [rule_format, of 63] show "2 ^ 63 < unat x" by simp
  qed
  finally show ?thesis .
qed

lemma trailing_zeros_exp [simp]: "k < 64 \<Longrightarrow> trailing_zeros (2 ^ k) = k"
proof -
  assume "k < 64"
  then have "find (bit (2 ^ k :: usize)) [0..<64] = Some k"
    by (auto simp: find_upt_Some bit_exp_iff possible_bit_word)
  then show ?thesis by (simp add: trailing_zeros_def)
qed

section \<open>Layouts\<close>

text \<open>
  \<^verbatim>\<open>core::alloc::Layout\<close>: a size and a power-of-two alignment such that the size
  rounded up to the alignment does not exceed \<^verbatim>\<open>isize::MAX\<close>.
\<close>

record layout =
  lay_size :: usize
  lay_align :: usize

definition layout_valid :: "layout \<Rightarrow> bool" where
  "layout_valid l \<longleftrightarrow> is_power_of_two (lay_align l) \<and> unat (lay_size l) + unat (lay_align l) \<le> 2 ^ 63"

definition from_size_align :: "usize \<Rightarrow> usize \<Rightarrow> layout option" where
  "from_size_align sz algn =
     (let l = \<lparr>lay_size = sz, lay_align = algn\<rparr> in if layout_valid l then Some l else None)"

lemma from_size_align_Some:
  "from_size_align s a = Some l \<longleftrightarrow> l = \<lparr>lay_size = s, lay_align = a\<rparr> \<and> layout_valid l"
  by (auto simp: from_size_align_def Let_def)

lemma layout_validD:
  assumes "layout_valid l"
  shows "is_power_of_two (lay_align l)" "unat (lay_size l) + unat (lay_align l) \<le> 2 ^ 63"
  using assms by (simp_all add: layout_valid_def)

end
