(* ===== verification/Size_Classes.thy ===== *)
theory Size_Classes
  imports Rust_Std
begin

text \<open>
  The fixed parameters (\<^verbatim>\<open>src/config.rs\<close>), the alignment helpers
  (\<^verbatim>\<open>src/align.rs\<close>) and the segregated power-of-two size classes
  (\<^verbatim>\<open>src/size_class.rs\<close>).  The lemmas show that the rounding helpers compute the
  neighbouring multiples of the alignment, that \<^verbatim>\<open>size_to_class\<close> picks the least class
  whose blocks hold and align the request, and how blocks tile a span.
\<close>

unbundle bit_operations_syntax

section \<open>Configuration\<close>

named_theorems wf_config \<open>values of the configuration constants\<close>

definition SPAN_SIZE :: usize where
  "SPAN_SIZE = 64 * 1024"

definition SPAN_ALIGN :: usize where
  "SPAN_ALIGN = SPAN_SIZE"

definition LOCAL_SPAN_LIMIT_K :: usize where
  "LOCAL_SPAN_LIMIT_K = 40"

definition HELP_BUDGET_H :: nat where
  "HELP_BUDGET_H = 1"

definition MIN_BLOCK_SIZE :: usize where
  "MIN_BLOCK_SIZE = 16"

definition MAX_BLOCK_SIZE :: usize where
  "MAX_BLOCK_SIZE = SPAN_SIZE div 4"

definition MAX_LARGE_RUN_CLASSES :: nat where
  "MAX_LARGE_RUN_CLASSES = 17"

definition MAX_LARGE_SPANS :: usize where
  "MAX_LARGE_SPANS = push_bit (MAX_LARGE_RUN_CLASSES - 1) 1"

definition MAX_LARGE_SIZE :: usize where
  "MAX_LARGE_SIZE = MAX_LARGE_SPANS * SPAN_SIZE"

definition LARGE_LOCAL_RUN_LIMIT_K :: usize where
  "LARGE_LOCAL_RUN_LIMIT_K = 8"

definition DEFAULT_HUGE_GRANULE_SPANS :: usize where
  "DEFAULT_HUGE_GRANULE_SPANS = 16 * 1024"

definition MAX_HUGE_RUN_CLASSES :: nat where
  "MAX_HUGE_RUN_CLASSES = 3"

definition MAX_HUGE_GRANULES :: usize where
  "MAX_HUGE_GRANULES = push_bit (MAX_HUGE_RUN_CLASSES - 1) 1"

definition MAX_HUGE_RUNS_PER_CLASS :: nat where
  "MAX_HUGE_RUNS_PER_CLASS = 4"

definition SPAN_HEADER_RESERVE :: usize where
  "SPAN_HEADER_RESERVE = 1024"

definition MAX_SUPPORTED_CLASSES :: nat where
  "MAX_SUPPORTED_CLASSES = trailing_zeros MAX_BLOCK_SIZE - trailing_zeros MIN_BLOCK_SIZE + 1"

definition OWNER_NONE :: usize where
  "OWNER_NONE = usize_max"

definition OWNER_PUBLIC :: usize where
  "OWNER_PUBLIC = usize_max - 1"

text \<open>\<^verbatim>\<open>align.rs\<close>; the arithmetic wraps around, as in a release build.\<close>

definition round_up :: "usize \<Rightarrow> usize \<Rightarrow> usize" where
  "round_up x align = (x + align - 1) AND NOT (align - 1)"

definition round_down :: "usize \<Rightarrow> usize \<Rightarrow> usize" where
  "round_down x align = x AND NOT (align - 1)"

definition is_aligned :: "usize \<Rightarrow> usize \<Rightarrow> bool" where
  "is_aligned x align \<longleftrightarrow> x AND (align - 1) = 0"

text \<open>\<^verbatim>\<open>size_class.rs\<close>.\<close>

definition class_to_size :: "nat \<Rightarrow> usize" where
  "class_to_size class = push_bit class MIN_BLOCK_SIZE"

definition size_to_class :: "usize \<Rightarrow> usize \<Rightarrow> nat option" where
  "size_to_class sz algn =
     (if algn > MAX_BLOCK_SIZE then None
      else case checked_next_power_of_two (max (max sz algn) MIN_BLOCK_SIZE) of
        None \<Rightarrow> None
      | Some needed \<Rightarrow>
          if needed > MAX_BLOCK_SIZE then None
          else Some (trailing_zeros needed - trailing_zeros MIN_BLOCK_SIZE))"

definition first_block_offset :: "usize \<Rightarrow> usize" where
  "first_block_offset block_size = round_up SPAN_HEADER_RESERVE block_size"

definition blocks_per_span :: "usize \<Rightarrow> usize" where
  "blocks_per_span block_size = (SPAN_SIZE - first_block_offset block_size) div block_size"

section \<open>Values of the parameters\<close>

lemma config_sizes [wf_config]:
  "SPAN_SIZE = 65536" "SPAN_ALIGN = 65536" "MIN_BLOCK_SIZE = 16" "MAX_BLOCK_SIZE = 16384"
  "MAX_LARGE_SPANS = 65536" "MAX_LARGE_SIZE = 4294967296" "MAX_HUGE_GRANULES = 4"
  "SPAN_HEADER_RESERVE = 1024"
  by (simp_all add: SPAN_SIZE_def SPAN_ALIGN_def MIN_BLOCK_SIZE_def MAX_BLOCK_SIZE_def
      MAX_LARGE_SPANS_def MAX_LARGE_SIZE_def MAX_HUGE_GRANULES_def SPAN_HEADER_RESERVE_def
      MAX_LARGE_RUN_CLASSES_def MAX_HUGE_RUN_CLASSES_def push_bit_eq_mult)

lemma config_exps:
  "SPAN_SIZE = 2 ^ 16" "MIN_BLOCK_SIZE = 2 ^ 4" "MAX_BLOCK_SIZE = 2 ^ 14"
  "MAX_LARGE_SPANS = 2 ^ 16" "SPAN_HEADER_RESERVE = 2 ^ 10"
  by (simp_all add: wf_config)

lemma config_counts [wf_config]:
  "LOCAL_SPAN_LIMIT_K = 40" "LARGE_LOCAL_RUN_LIMIT_K = 8" "HELP_BUDGET_H = 1"
  "MAX_LARGE_RUN_CLASSES = 17" "MAX_HUGE_RUN_CLASSES = 3" "MAX_HUGE_RUNS_PER_CLASS = 4"
  by (simp_all add: LOCAL_SPAN_LIMIT_K_def LARGE_LOCAL_RUN_LIMIT_K_def HELP_BUDGET_H_def
      MAX_LARGE_RUN_CLASSES_def MAX_HUGE_RUN_CLASSES_def MAX_HUGE_RUNS_PER_CLASS_def)

lemma MAX_SUPPORTED_CLASSES_eq [wf_config]: "MAX_SUPPORTED_CLASSES = 11"
proof -
  have "trailing_zeros MAX_BLOCK_SIZE = 14" "trailing_zeros MIN_BLOCK_SIZE = 4"
    by (simp_all only: config_exps trailing_zeros_exp)
  then show ?thesis by (simp add: MAX_SUPPORTED_CLASSES_def)
qed

lemma owner_sentinels_distinct: "OWNER_NONE \<noteq> OWNER_PUBLIC"
  by (simp add: OWNER_NONE_def OWNER_PUBLIC_def)

text \<open>Thread ids are neither of the two marks, and different threads have different words.\<close>

lemma tid_words:
  assumes "t < n" "n < 2 ^ 62"
  shows "(of_nat t :: usize) \<noteq> OWNER_NONE" "(of_nat t :: usize) \<noteq> OWNER_PUBLIC" "u < n \<Longrightarrow> (of_nat u :: usize) = of_nat t \<longleftrightarrow> u = t"
proof -
  have u: "unat (of_nat k :: usize) = k" if "k < n" for k using that assms(2) by (intro unat_of_nat_small) simp
  have o: "unat OWNER_NONE = 2 ^ 64 - 1" "unat OWNER_PUBLIC = 2 ^ 64 - 2"
    by (simp_all add: OWNER_NONE_def OWNER_PUBLIC_def unat_dec unat_zero_iff [symmetric])
  show "(of_nat t :: usize) \<noteq> OWNER_NONE" "(of_nat t :: usize) \<noteq> OWNER_PUBLIC"
    using u [OF assms(1)] o assms by auto
  show "u < n \<Longrightarrow> (of_nat u :: usize) = of_nat t \<longleftrightarrow> u = t"
    using u assms(1) by (auto simp: word_eq_iff_unat)
qed

section \<open>Alignment\<close>

lemma round_down_unat:
  "is_power_of_two a \<Longrightarrow> unat (round_down x a) = unat x div unat a * unat a"
  by (elim is_power_of_twoE) (simp add: round_down_def unat_and_not_mask)

lemma round_up_unat:
  assumes "is_power_of_two a" "unat x + unat a \<le> 2 ^ 64"
  shows "unat (round_up x a) = (unat x + unat a - 1) div unat a * unat a"
proof -
  have pos: "0 < unat a" using assms(1) by (rule is_power_of_two_pos)
  then have "unat (a - 1) = unat a - 1" by (simp add: unat_dec unat_zero_iff [symmetric])
  then have "unat (x + (a - 1)) = unat x + unat a - 1"
    using assms(2) pos by (subst unat_add_nowrap) auto
  then have "unat (x + a - 1) = unat x + unat a - 1" by (simp add: algebra_simps)
  with assms(1) show ?thesis
    by (elim is_power_of_twoE) (simp add: round_up_def unat_and_not_mask)
qed

lemma is_aligned_unat: "is_power_of_two a \<Longrightarrow> is_aligned x a \<longleftrightarrow> unat a dvd unat x"
  by (elim is_power_of_twoE)
    (simp add: is_aligned_def unat_and_mask dvd_eq_mod_eq_0 flip: unat_zero_iff)

lemma round_up_bounds:
  assumes "is_power_of_two a" "unat x + unat a \<le> 2 ^ 64"
  shows "unat x \<le> unat (round_up x a)" "unat (round_up x a) < unat x + unat a"
    "unat a dvd unat (round_up x a)"
  using div_mult_round_up [of "unat a" "unat x"] is_power_of_two_pos [OF assms(1)]
  by (simp_all add: round_up_unat [OF assms])

text \<open>
  The rounding helpers are exact wherever the sum does not overflow: \<^verbatim>\<open>round_up\<close> is the least
  aligned address not below its argument, \<^verbatim>\<open>round_down\<close> the greatest one not above it.
\<close>

theorem rounding_exact:
  assumes "is_power_of_two a" and "unat x + unat a \<le> 2 ^ 64"
  shows "is_aligned (round_up x a) a \<and> x \<le> round_up x a
      \<and> (\<forall>y. is_aligned y a \<and> x \<le> y \<longrightarrow> round_up x a \<le> y)
      \<and> is_aligned (round_down x a) a \<and> round_down x a \<le> x
      \<and> (\<forall>y. is_aligned y a \<and> y \<le> x \<longrightarrow> y \<le> round_down x a)"
proof -
  note up = round_up_bounds [OF assms]
  have down: "unat (round_down x a) = unat x div unat a * unat a"
    by (rule round_down_unat [OF assms(1)])
  have pos: "0 < unat a" using assms(1) by (rule is_power_of_two_pos)
  have least: "unat (round_up x a) \<le> unat y" if "unat a dvd unat y" "unat x \<le> unat y" for y
  proof (rule ccontr)
    assume "\<not> ?thesis"
    with that(1) up(3) have "unat y + unat a \<le> unat (round_up x a)"
      using pos by (metis add.commute dvd_def less_eq_Suc_le linorder_not_le mult_Suc_right
          nat_mult_le_cancel_disj nat_mult_less_cancel_disj)
    with up(2) that(2) show False by linarith
  qed
  have greatest: "unat y \<le> unat (round_down x a)" if "unat a dvd unat y" "unat y \<le> unat x" for y
    using that pos by (metis down div_le_mono dvd_div_mult_self mult_le_mono1)
  show ?thesis
    using up assms(1) least greatest
    by (auto simp: is_aligned_unat word_le_nat_alt down)
qed

theorem rounding_exact_witness:
  "is_power_of_two 16 \<and> unat (17 :: usize) + unat (16 :: usize) \<le> 2 ^ 64
   \<and> is_aligned (round_up 17 16) 16 \<and> round_up 17 16 = 32 \<and> round_down 17 16 = 16"
proof -
  have p: "is_power_of_two 16" using is_power_of_two_exp [of 4] by simp
  have s: "unat (17 :: usize) + unat (16 :: usize) \<le> 2 ^ 64" by simp
  show ?thesis
    using rounding_exact [OF p s] p by (simp add: round_up_def round_down_def)
qed

section \<open>Size classes\<close>

lemma class_to_size_exp: "class_to_size c = 2 ^ (c + 4)"
  by (simp add: class_to_size_def wf_config push_bit_eq_mult power_add)

lemma class_to_size_unat: "c < 60 \<Longrightarrow> unat (class_to_size c) = 2 ^ (c + 4)"
  unfolding class_to_size_exp by (rule unat_exp) simp

lemma class_to_size_pow2: "c < 60 \<Longrightarrow> is_power_of_two (class_to_size c)"
  by (simp add: class_to_size_exp)

lemma exp_gt_iff: "(2 :: nat) ^ j < 2 ^ k \<longleftrightarrow> j < k"
  by simp

lemma next_power_exponent:
  "checked_next_power_of_two (max n MIN_BLOCK_SIZE) = Some (2 ^ k) \<and> k < 64 \<longleftrightarrow>
     4 \<le> k \<and> k < 64 \<and> unat n \<le> 2 ^ k \<and> (\<forall>c < k - 4. 2 ^ (c + 4) < unat n)"
  (is "?L \<longleftrightarrow> ?R")
proof -
  have n: "unat (max n MIN_BLOCK_SIZE) = max (unat n) (2 ^ 4)"
    by (simp add: wf_config max_def word_le_nat_alt)
  have L: "?L \<longleftrightarrow> k < 64 \<and> max (unat n) (2 ^ 4) \<le> 2 ^ k \<and> (\<forall>j < k. 2 ^ j < max (unat n) (2 ^ 4))"
    by (auto simp: checked_next_power_of_two_Some exp_inj_word n simp del: max.bounded_iff)
  have low: "(2 :: nat) ^ 4 \<le> 2 ^ k \<longleftrightarrow> 4 \<le> k"
    using power_increasing_iff [of 2 4 k] by simp
  have all: "(\<forall>j < k. 2 ^ j < max (unat n) (2 ^ 4)) \<longleftrightarrow> (\<forall>c < k - 4. 2 ^ (c + 4) < unat n)"
  proof safe
    fix c assume "\<forall>j < k. 2 ^ j < max (unat n) (2 ^ 4)" "c < k - 4"
    then have "2 ^ (c + 4) < max (unat n) (2 ^ 4)" by simp
    moreover have "\<not> (2 :: nat) ^ (c + 4) < 2 ^ 4" unfolding exp_gt_iff by simp
    ultimately show "2 ^ (c + 4) < unat n" by (auto simp: less_max_iff_disj)
  next
    fix j assume r: "\<forall>c < k - 4. 2 ^ (c + 4) < unat n" "j < k"
    show "2 ^ j < max (unat n) (2 ^ 4)"
    proof (cases "j < 4")
      case True
      then have "(2 :: nat) ^ j < 2 ^ 4" by (simp only: exp_gt_iff)
      then show ?thesis by (simp only: less_max_iff_disj) simp
    next
      case False
      with r(1) [rule_format, of "j - 4"] r(2) show ?thesis by (simp add: less_max_iff_disj)
    qed
  qed
  show ?thesis unfolding L all using low by auto
qed

lemma size_to_class_exponent:
  "size_to_class s a = Some c \<longleftrightarrow>
     a \<le> MAX_BLOCK_SIZE \<and>
     (\<exists>k \<le> 14. checked_next_power_of_two (max (max s a) MIN_BLOCK_SIZE) = Some (2 ^ k) \<and> c = k - 4)"
proof (cases "checked_next_power_of_two (max (max s a) MIN_BLOCK_SIZE)")
  case None
  then show ?thesis by (simp add: size_to_class_def)
next
  case (Some y)
  then obtain k where k: "k < 64" "y = 2 ^ k" by (auto simp: checked_next_power_of_two_Some)
  have t4: "trailing_zeros MIN_BLOCK_SIZE = 4" by (simp only: config_exps trailing_zeros_exp)
  have cmp: "2 ^ k > MAX_BLOCK_SIZE \<longleftrightarrow> 14 < k"
    using k(1) by (simp only: config_exps(3) word_less_nat_alt unat_exp exp_gt_iff)
  have "(\<exists>k' \<le> 14. y = 2 ^ k' \<and> c = k' - 4) \<longleftrightarrow> k \<le> 14 \<and> c = k - 4"
  proof safe
    fix k' assume "k' \<le> 14" "y = 2 ^ k'"
    then have "k = k'" using k exp_inj_word [of k k'] by simp
    then show "k \<le> 14" "k' - 4 = k - 4" using \<open>k' \<le> 14\<close> by simp_all
  qed (use k in auto)
  then show ?thesis
    using k(1) by (auto simp: size_to_class_def Some t4 cmp k(2) not_less)
qed

lemma size_to_class_Some:
  "size_to_class s a = Some c \<longleftrightarrow>
     c < 11 \<and> max (unat s) (unat a) \<le> 2 ^ (c + 4) \<and> (\<forall>c' < c. 2 ^ (c' + 4) < max (unat s) (unat a))"
proof -
  define m where "m = max (unat s) (unat a)"
  have m: "unat (max s a) = m" by (simp add: max_def word_le_nat_alt m_def)
  have e: "checked_next_power_of_two (max (max s a) MIN_BLOCK_SIZE) = Some (2 ^ k) \<longleftrightarrow>
      4 \<le> k \<and> m \<le> 2 ^ k \<and> (\<forall>c < k - 4. 2 ^ (c + 4) < m)" if "k \<le> 14" for k
    using next_power_exponent [of "max s a" k] that unfolding m by simp
  have R: "(\<exists>k \<le> 14. checked_next_power_of_two (max (max s a) MIN_BLOCK_SIZE) = Some (2 ^ k) \<and> c = k - 4) \<longleftrightarrow>
      c < 11 \<and> m \<le> 2 ^ (c + 4) \<and> (\<forall>c' < c. 2 ^ (c' + 4) < m)"
  proof (rule iffI)
    assume "\<exists>k \<le> 14. checked_next_power_of_two (max (max s a) MIN_BLOCK_SIZE) = Some (2 ^ k) \<and> c = k - 4"
    then obtain k where "k \<le> 14" "4 \<le> k \<and> m \<le> 2 ^ k \<and> (\<forall>c < k - 4. 2 ^ (c + 4) < m)" "c = k - 4"
      using e by blast
    then show "c < 11 \<and> m \<le> 2 ^ (c + 4) \<and> (\<forall>c' < c. 2 ^ (c' + 4) < m)" by auto
  next
    assume "c < 11 \<and> m \<le> 2 ^ (c + 4) \<and> (\<forall>c' < c. 2 ^ (c' + 4) < m)"
    then show "\<exists>k \<le> 14. checked_next_power_of_two (max (max s a) MIN_BLOCK_SIZE) = Some (2 ^ k) \<and> c = k - 4"
      by (intro exI [of _ "c + 4"]) (simp add: e)
  qed
  have "a \<le> MAX_BLOCK_SIZE" if "c < 11" "m \<le> 2 ^ (c + 4)"
  proof -
    have "(2 :: nat) ^ (c + 4) \<le> 2 ^ 14" using that(1) by (intro power_increasing) auto
    with that(2) show ?thesis by (simp add: wf_config word_le_nat_alt m_def)
  qed
  then show ?thesis unfolding size_to_class_exponent R m_def [symmetric] by blast
qed

text \<open>
  \<^verbatim>\<open>size_to_class\<close> returns a class exactly when one of the supported classes can hold and
  align the request, and then the least such class.
\<close>

theorem size_to_class_least:
  "size_to_class s a = Some c \<longleftrightarrow>
     c < MAX_SUPPORTED_CLASSES \<and> s \<le> class_to_size c \<and> a \<le> class_to_size c
     \<and> (\<forall>c' < c. \<not> (s \<le> class_to_size c' \<and> a \<le> class_to_size c'))"
proof (cases "c < 11")
  case True
  then have "unat (class_to_size c') = 2 ^ (c' + 4)" if "c' \<le> c" for c'
    using that by (intro class_to_size_unat) simp
  with True show ?thesis
    by (auto simp: size_to_class_Some wf_config word_le_nat_alt not_le)
next
  case False
  then show ?thesis by (simp add: size_to_class_Some wf_config)
qed

theorem size_to_class_least_witness:
  "size_to_class 100 32 = Some 3 \<and> class_to_size 3 = 128"
proof -
  have "\<forall>c' < 3. \<not> (100 \<le> class_to_size c' \<and> 32 \<le> class_to_size c')"
    by (auto simp: class_to_size_exp numeral_3_eq_3 less_Suc_eq word_le_nat_alt)
  then show ?thesis
    using size_to_class_least [of 100 32 3] by (simp add: class_to_size_exp wf_config word_le_nat_alt)
qed

lemma size_to_class_None:
  "size_to_class s a = None \<longleftrightarrow> MAX_BLOCK_SIZE < max s a"
proof
  assume l: "size_to_class s a = None"
  show "MAX_BLOCK_SIZE < max s a"
  proof (rule ccontr)
    assume "\<not> ?thesis"
    then have b: "max (unat s) (unat a) \<le> 2 ^ (10 + 4)"
      by (auto simp: wf_config max_def word_le_nat_alt word_less_nat_alt split: if_splits)
    define c where "c = (LEAST c. max (unat s) (unat a) \<le> 2 ^ (c + 4))"
    have "max (unat s) (unat a) \<le> 2 ^ (c + 4)"
      unfolding c_def by (rule LeastI [where k = 10]) (rule b)
    moreover have "c \<le> 10" unfolding c_def by (rule Least_le) (rule b)
    moreover have "\<forall>c' < c. 2 ^ (c' + 4) < max (unat s) (unat a)"
      unfolding c_def using not_less_Least not_le_imp_less by blast
    ultimately have "size_to_class s a = Some c" by (auto simp: size_to_class_Some)
    with l show False by simp
  qed
next
  assume "MAX_BLOCK_SIZE < max s a"
  then have b: "2 ^ 14 < max (unat s) (unat a)"
    by (auto simp: wf_config max_def word_le_nat_alt word_less_nat_alt split: if_splits)
  have "\<not> max (unat s) (unat a) \<le> 2 ^ (c + 4)" if "c < 11" for c
  proof -
    have "(2 :: nat) ^ (c + 4) \<le> 2 ^ 14" using that by (intro power_increasing) auto
    with b show ?thesis by linarith
  qed
  then have "size_to_class s a \<noteq> Some c" for c by (auto simp: size_to_class_Some)
  then show "size_to_class s a = None" by (cases "size_to_class s a") auto
qed

section \<open>Tiling of a span\<close>

text \<open>
  For every supported class the blocks start behind the header reserve, at a multiple of
  the block size, and the last one ends within the span.
\<close>

lemma first_block_offset_unat:
  "c < 11 \<Longrightarrow> unat (first_block_offset (class_to_size c)) = max 1024 (2 ^ (c + 4))"
proof -
  assume c: "c < 11"
  have p: "is_power_of_two (class_to_size c)" and u: "unat (class_to_size c) = 2 ^ (c + 4)"
    using c by (simp_all add: class_to_size_pow2 class_to_size_unat)
  have "(2 :: nat) ^ (c + 4) \<le> 2 ^ 14" using c by (intro power_increasing) auto
  then have eq: "unat (first_block_offset (class_to_size c)) =
      (1024 + 2 ^ (c + 4) - 1) div 2 ^ (c + 4) * 2 ^ (c + 4)"
    using p by (simp add: first_block_offset_def wf_config round_up_unat u)
  have "c = 0 \<or> c = 1 \<or> c = 2 \<or> c = 3 \<or> c = 4 \<or> c = 5 \<or> c = 6 \<or> c = 7 \<or> c = 8 \<or> c = 9 \<or> c = 10"
    using c by arith
  then show ?thesis unfolding eq by (elim disjE) simp_all
qed

lemma blocks_per_span_unat:
  assumes "c < 11"
  shows "unat (blocks_per_span (class_to_size c)) = (65536 - max 1024 (2 ^ (c + 4))) div 2 ^ (c + 4)"
proof -
  have "(2 :: nat) ^ (c + 4) \<le> 2 ^ 14" using assms by (intro power_increasing) auto
  then show ?thesis
    using assms
    by (simp add: blocks_per_span_def unat_div_distrib unat_sub_le first_block_offset_unat
        class_to_size_unat wf_config)
qed

lemma block_fits:
  assumes "c < 11" "i < unat (blocks_per_span (class_to_size c))"
  shows "unat (first_block_offset (class_to_size c)) + Suc i * 2 ^ (c + 4) \<le> 65536"
proof -
  let ?s = "(2 :: nat) ^ (c + 4)"
  have "Suc i \<le> (65536 - max 1024 ?s) div ?s"
    using assms by (simp add: blocks_per_span_unat)
  then have "Suc i * ?s \<le> (65536 - max 1024 ?s) div ?s * ?s" by (rule mult_le_mono1)
  also have "\<dots> \<le> 65536 - max 1024 ?s" by (rule div_times_less_eq_dividend)
  finally have le: "Suc i * ?s \<le> 65536 - max 1024 ?s" .
  have "?s \<le> 2 ^ 14" using assms by (intro power_increasing) auto
  with le show ?thesis
    using assms(1) by (simp only: first_block_offset_unat) simp
qed

end
