(* ===== verification/Stats.thy ===== *)
theory Stats
  imports Size_Classes
begin

text \<open>
  Step accounting and allocator statistics (\<^verbatim>\<open>src/stats.rs\<close>).  A step counter belongs to
  one operation and starts at zero; its fields are natural numbers, since the bounds
  proved in the path theories keep them far below the word size.  The three
  \<^verbatim>\<open>assert_*_bounds\<close> methods are predicates: false where the Rust assertion panics.
\<close>

section \<open>Step counters\<close>

record step_counter =
  local_steps :: nat
  remote_steps :: nat
  cas_attempts :: nat
  cas2_attempts :: nat
  swap_ops :: nat
  faa_ops :: nat
  help_steps :: nat
  query_steps :: nat
  blocks_scanned :: nat
  large_class_steps :: nat
  huge_slot_scans :: nat

definition step_new :: step_counter where
  "step_new = \<lparr>local_steps = 0, remote_steps = 0, cas_attempts = 0, cas2_attempts = 0,
     swap_ops = 0, faa_ops = 0, help_steps = 0, query_steps = 0, blocks_scanned = 0,
     large_class_steps = 0, huge_slot_scans = 0\<rparr>"

definition assert_bounds :: "step_counter \<Rightarrow> nat \<Rightarrow> nat \<Rightarrow> nat \<Rightarrow> nat \<Rightarrow> nat \<Rightarrow> bool" where
  "assert_bounds s n h p bps k \<longleftrightarrow>
     help_steps s \<le> h * n + p + 1
   \<and> query_steps s \<le> p + n + 1
   \<and> cas2_attempts s \<le> help_steps s + query_steps s + 2
   \<and> blocks_scanned s \<le> bps * (k + 2)"

definition assert_large_bounds :: "step_counter \<Rightarrow> nat \<Rightarrow> nat \<Rightarrow> nat \<Rightarrow> nat \<Rightarrow> bool" where
  "assert_large_bounds s n h p r \<longleftrightarrow>
     large_class_steps s \<le> r
   \<and> help_steps s \<le> r * (h * n + p + 1)
   \<and> query_steps s \<le> r * (p + n + 1)
   \<and> cas2_attempts s \<le> help_steps s + query_steps s + 2 * r
   \<and> cas_attempts s \<le> help_steps s + query_steps s + 2 * r + 1
   \<and> faa_ops s \<le> r + 2
   \<and> blocks_scanned s = 0"

definition assert_huge_bounds :: "step_counter \<Rightarrow> nat \<Rightarrow> nat \<Rightarrow> bool" where
  "assert_huge_bounds s r slots \<longleftrightarrow>
     huge_slot_scans s \<le> r * slots
   \<and> cas_attempts s \<le> 2 * huge_slot_scans s
   \<and> faa_ops s \<le> huge_slot_scans s
   \<and> help_steps s = 0
   \<and> query_steps s = 0
   \<and> cas2_attempts s = 0
   \<and> blocks_scanned s = 0
   \<and> large_class_steps s = 0"

section \<open>Allocator-wide counters\<close>

record allocator_stats =
  allocated_spans :: usize
  discarded_spans :: usize
  claimed_spans :: usize
  published_spans :: usize
  acquired_public_spans :: usize
  help_record_spans :: usize
  help_record_reclaimed :: usize
  remote_blocked_events :: usize
  allocated_runs :: usize
  published_runs :: usize
  acquired_public_runs :: usize
  run_help_record_runs :: usize
  run_help_record_reclaimed :: usize
  allocated_huge_runs :: usize

definition stats_new :: allocator_stats where
  "stats_new = \<lparr>allocated_spans = 0, discarded_spans = 0, claimed_spans = 0,
     published_spans = 0, acquired_public_spans = 0, help_record_spans = 0,
     help_record_reclaimed = 0, remote_blocked_events = 0, allocated_runs = 0,
     published_runs = 0, acquired_public_runs = 0, run_help_record_runs = 0,
     run_help_record_reclaimed = 0, allocated_huge_runs = 0\<rparr>"

text \<open>\<^verbatim>\<open>AllocatorStats::bump\<close>: one relaxed fetch-and-add on a counter, which wraps around.\<close>

definition stat_inc :: "usize \<Rightarrow> usize" where
  "stat_inc counter = counter + 1"

text \<open>\<^verbatim>\<open>theoretical_extra_bound\<close>, in wrapping word arithmetic as in a release build.\<close>

definition theoretical_extra_bound :: "usize \<Rightarrow> usize \<Rightarrow> usize \<Rightarrow> usize \<Rightarrow> usize" where
  "theoretical_extra_bound n c s p =
     (let ceil_n_p = div_ceil n p
      in (n + (ceil_n_p + n - 1) * (n - 1)) * c * s)"

section \<open>The footprint bound\<close>

text \<open>
  The bound is the sum of the three sources of extra memory that
  \<^verbatim>\<open>docs/memory-footprint.md\<close> lists: spans left in help records, failed span-list
  queries, and blocked remote lists.
\<close>

lemma div_ceil_nat_pos: "0 < n \<Longrightarrow> 0 < p \<Longrightarrow> 0 < (n + p - 1) div (p :: nat)"
  by (simp add: div_greater_zero_iff)

lemma footprint_sum_nat:
  fixes a q cs :: nat
  assumes "0 < a" "0 < q"
  shows "(a + (q + a - 1) * (a - 1)) * cs = a * cs + (q - 1) * (a - 1) * cs + a * (a - 1) * cs"
proof -
  have "q + a - 1 = (q - 1) + a" using assms by simp
  then show ?thesis by (simp add: algebra_simps)
qed

lemma extra_bound_unat:
  fixes n c s p :: usize
  defines "a \<equiv> unat n" and "q \<equiv> (unat n + unat p - 1) div unat p"
  assumes pos: "1 < a" "0 < q" "0 < unat p" "0 < unat c" "0 < unat s"
    and fits: "(a + (q + a - 1) * (a - 1)) * unat c * unat s < 2 ^ 64"
  shows "unat (theoretical_extra_bound n c s p) = (a + (q + a - 1) * (a - 1)) * unat c * unat s"
proof -
  let ?r = "a + (q + a - 1) * (a - 1)"
  have "?r * unat c \<le> ?r * unat c * unat s" "?r \<le> ?r * unat c" using pos by simp_all
  then have t1: "?r * unat c < 2 ^ 64" and t2: "?r < 2 ^ 64" using fits by linarith+
  have d: "unat (div_ceil n p) = q" using pos by (simp add: div_ceil_unat q_def)
  have n1: "unat (n - 1) = a - 1"
    using pos(1) by (simp add: a_def unat_dec unat_zero_iff [symmetric])
  have w1: "div_ceil n p + n - 1 = div_ceil n p + (n - 1)" by simp
  have "q + a - 1 \<le> (q + a - 1) * (a - 1)" using pos(1) by simp
  then have s1: "q + (a - 1) < 2 ^ 64" using t2 pos by linarith
  have u1: "unat (div_ceil n p + n - 1) = q + a - 1"
    unfolding w1 using s1 pos by (subst unat_add_nowrap) (simp_all add: d n1)
  have u2: "unat ((div_ceil n p + n - 1) * (n - 1)) = (q + a - 1) * (a - 1)"
    using t2 by (subst unat_mult_nowrap) (simp_all add: u1 n1)
  have u3: "unat (n + (div_ceil n p + n - 1) * (n - 1)) = ?r"
    using t2 by (subst unat_add_nowrap) (simp_all add: u2 a_def)
  have u4: "unat ((n + (div_ceil n p + n - 1) * (n - 1)) * c) = ?r * unat c"
    using t1 by (subst unat_mult_nowrap) (simp_all only: u3)
  show ?thesis
    unfolding theoretical_extra_bound_def Let_def
    using fits by (subst unat_mult_nowrap) (simp_all only: u4)
qed

text \<open>
  Whenever the result fits a word, the bound the crate reports is exactly
  \<^verbatim>\<open>A*C*S + (ceil(A/P) - 1)*(A - 1)*C*S + A*(A - 1)*C*S\<close>, the three documented terms.
\<close>

theorem extra_bound_sum:
  assumes "0 < unat n" and "0 < unat p"
    and "(unat n + ((unat n + unat p - 1) div unat p + unat n - 1) * (unat n - 1))
          * unat c * unat s < 2 ^ 64"
    and "0 < unat c" and "0 < unat s"
  shows "unat (theoretical_extra_bound n c s p) =
      (let a = unat n; q = (a + unat p - 1) div unat p; cs = unat c * unat s
       in a * cs + (q - 1) * (a - 1) * cs + a * (a - 1) * cs)"
proof (cases "unat n = 1")
  case True
  then have "n = 1" by (simp add: word_eq_iff_unat)
  with assms(3) show ?thesis
    by (simp add: theoretical_extra_bound_def unat_mult_nowrap Let_def)
next
  case False
  define q where "q = (unat n + unat p - 1) div unat p"
  have q: "0 < q" unfolding q_def using assms(1,2) by (rule div_ceil_nat_pos)
  have "unat (theoretical_extra_bound n c s p) =
      (unat n + (q + unat n - 1) * (unat n - 1)) * (unat c * unat s)"
    unfolding q_def mult.assoc [symmetric]
    by (rule extra_bound_unat) (insert assms False q, simp_all add: q_def)
  then show ?thesis
    unfolding Let_def q_def [symmetric] using footprint_sum_nat [OF assms(1) q] by simp
qed

theorem extra_bound_sum_witness:
  "unat (theoretical_extra_bound 4 8 65536 4) = 16 * 8 * 65536"
  using extra_bound_sum [of 4 4 8 65536] by (simp add: Let_def)

end
