(* ===== verification/Wf_State.thy ===== *)
theory Wf_State
  imports Stats
begin

text \<open>
  The data of the crate and the machine that runs its operations: every struct as a
  record, the memory as one map per kind of cell, the allocator's fields, and the state
  monad in which the operations are written.

  Memory is split by the kind of cell the code accesses through a typed pointer: span
  headers, the link word of a free block, list nodes, hidden headers of large
  allocations.  That the kinds never overlap is a matter of address arithmetic, shown in
  the theories \<^verbatim>\<open>Spans\<close> and \<^verbatim>\<open>Large_Path\<close>.
\<close>

section \<open>Structs\<close>

text \<open>\<^verbatim>\<open>HeadWord\<close> (\<^verbatim>\<open>tagged.rs\<close>): pointer and version, compared and exchanged as one value.\<close>

record head_word =
  hw_ptr :: address
  hw_version :: usize

definition head_zero :: head_word where
  "head_zero = \<lparr>hw_ptr = 0, hw_version = 0\<rparr>"

definition head_new :: "address \<Rightarrow> usize \<Rightarrow> head_word" where
  "head_new p v = \<lparr>hw_ptr = p, hw_version = v\<rparr>"

text \<open>\<^verbatim>\<open>block.rs\<close>: the link value of a block between the SWAP and the link store of a push.\<close>

definition UNLINKED :: address where
  "UNLINKED = usize_max"

definition block_payload :: "address \<Rightarrow> address" where
  "block_payload block = block"

definition block_from_payload :: "address \<Rightarrow> address" where
  "block_from_payload ptr = ptr"

text \<open>\<^verbatim>\<open>SpanNode\<close> (\<^verbatim>\<open>spmc_span_list.rs\<close>).\<close>

record span_node =
  nd_next :: address
  nd_span :: address

definition span_node_new :: span_node where
  "span_node_new = \<lparr>nd_next = 0, nd_span = 0\<rparr>"

text \<open>\<^verbatim>\<open>span.rs\<close>.\<close>

datatype span_state = Raw | FullLocal | NonEmptyLocal | FullPublic | NonEmptyPublic
  | Discarded | RunAllocated | RunFreeLocal | RunFreePublic

text \<open>The discriminants of the enum, and the order they give.\<close>

primrec span_state_code :: "span_state \<Rightarrow> usize" where
  "span_state_code Raw = 0"
| "span_state_code FullLocal = 1"
| "span_state_code NonEmptyLocal = 2"
| "span_state_code FullPublic = 3"
| "span_state_code NonEmptyPublic = 4"
| "span_state_code Discarded = 5"
| "span_state_code RunAllocated = 6"
| "span_state_code RunFreeLocal = 7"
| "span_state_code RunFreePublic = 8"

lemma span_state_code_inj: "span_state_code a = span_state_code b \<Longrightarrow> a = b"
  by (cases a; cases b) simp_all

instantiation span_state :: linorder
begin

definition less_eq_span_state :: "span_state \<Rightarrow> span_state \<Rightarrow> bool" where
  "less_eq_span_state a b \<longleftrightarrow> span_state_code a \<le> span_state_code b"

definition less_span_state :: "span_state \<Rightarrow> span_state \<Rightarrow> bool" where
  "less_span_state a b \<longleftrightarrow> span_state_code a < span_state_code b"

instance
  by standard (auto simp: less_eq_span_state_def less_span_state_def span_state_code_inj)

end

record local_meta =
  lm_free :: address
  lm_free_count :: usize
  lm_pending_remote :: address
  lm_next_local :: address

record remote_meta =
  rm_free :: address
  rm_free_count :: isize

record span_header =
  sh_owner :: usize
  sh_size_class :: nat
  sh_block_size :: usize
  sh_block_count :: usize
  sh_state :: span_state
  sh_node :: address
  sh_local :: local_meta
  sh_remote :: remote_meta

text \<open>
  \<^verbatim>\<open>SpanHeader\<close> is \<^verbatim>\<open>repr(C)\<close>: six words precede the embedded node storage, so the node of
  a span lies 48 bytes behind the header's address.
\<close>

definition node_storage_of :: "address \<Rightarrow> address" where
  "node_storage_of span = span + 48"

text \<open>\<^verbatim>\<open>LargeAllocHeader\<close> (\<^verbatim>\<open>large.rs\<close>).\<close>

record large_alloc_header =
  lh_magic :: usize
  lh_run :: address
  lh_run_class :: nat
  lh_span_count :: usize

text \<open>\<^verbatim>\<open>LocalSpanList\<close> and \<^verbatim>\<open>ThreadHeap\<close> (\<^verbatim>\<open>heap.rs\<close>), \<^verbatim>\<open>SpmcSpanList\<close> (\<^verbatim>\<open>spmc_span_list.rs\<close>).
  The embedded dummy node of a public list is represented by its address; arrays are maps
  from the index.\<close>

record local_span_list =
  ls_head :: address
  ls_tail :: address
  ls_len :: usize

record spmc_list =
  sl_head :: head_word
  sl_tail :: address
  sl_dummy :: address

record thread_heap =
  th_local_spans :: "nat \<Rightarrow> local_span_list"
  th_public_spans :: "nat \<Rightarrow> spmc_list"
  th_cur_query :: "nat \<Rightarrow> nat"
  th_helping_pos :: "nat \<Rightarrow> nat"
  th_local_runs :: "nat \<Rightarrow> local_span_list"
  th_public_runs :: "nat \<Rightarrow> spmc_list"
  th_cur_query_runs :: "nat \<Rightarrow> nat"
  th_helping_pos_runs :: "nat \<Rightarrow> nat"

text \<open>\<^verbatim>\<open>HelpRecord\<close> (\<^verbatim>\<open>help_record.rs\<close>), \<^verbatim>\<open>FixedSpanPool\<close> (\<^verbatim>\<open>pagemap.rs\<close>), \<^verbatim>\<open>ThreadRegistry\<close>
  (\<^verbatim>\<open>thread.rs\<close>), \<^verbatim>\<open>HugeRunSlot\<close> (\<^verbatim>\<open>huge.rs\<close>).\<close>

record help_record =
  hr_word :: usize
  hr_last_phase :: usize

record span_pool =
  pool_base :: address
  pool_count :: usize
  pool_next :: usize

record thread_registry =
  reg_next :: usize
  reg_max :: usize

record huge_slot =
  hs_state :: usize
  hs_base :: address
  hs_owner :: usize
  hs_requested_size :: usize
  hs_requested_align :: usize

section \<open>Program state\<close>

text \<open>
  The state all threads share: the typed memory and the fields of \<^verbatim>\<open>WfSpanAllocator\<close>.
\<close>

record shared =
  g_hdr :: "address \<Rightarrow> span_header"
  g_block :: "address \<Rightarrow> address"
  g_node :: "address \<Rightarrow> span_node"
  g_lhdr :: "address \<Rightarrow> large_alloc_header"
  g_active :: nat
  g_heaps :: "nat \<Rightarrow> thread_heap"
  g_records :: "nat \<Rightarrow> nat \<Rightarrow> help_record"
  g_run_records :: "nat \<Rightarrow> nat \<Rightarrow> help_record"
  g_pool :: span_pool
  g_registry :: thread_registry
  g_stats :: allocator_stats
  g_huge :: "nat \<Rightarrow> nat \<Rightarrow> huge_slot"

text \<open>
  One operation of one thread runs against an environment: the list \<open>w_env\<close> holds, for each
  access to a location other threads write too, what those threads did to the shared state
  since the previous one (an arbitrary function; an exhausted list is a quiet
  environment).  \<open>w_sc_fail\<close> holds the outcomes of the store-exclusive instructions of the
  LL/SC backend: \<open>True\<close> is a spurious failure.
\<close>

record world =
  w_sh :: shared
  w_step :: step_counter
  w_env :: "(shared \<Rightarrow> shared) list"
  w_sc_fail :: "bool list"

type_synonym 'a prog = "(world, 'a) state"

definition interfere :: "world \<Rightarrow> world" where
  "interfere w = w\<lparr>w_sh := (case w_env w of [] \<Rightarrow> w_sh w | e # _ \<Rightarrow> e (w_sh w)),
                   w_env := tl (w_env w)\<rparr>"

text \<open>An atomic access to a shared location; an access to a location only its owner writes.\<close>

definition shared_op :: "(shared \<Rightarrow> 'a \<times> shared) \<Rightarrow> 'a prog" where
  "shared_op f = State (\<lambda>w. let w' = interfere w; r = f (w_sh w') in (fst r, w'\<lparr>w_sh := snd r\<rparr>))"

definition owner_op :: "(shared \<Rightarrow> 'a \<times> shared) \<Rightarrow> 'a prog" where
  "owner_op f = State (\<lambda>w. let r = f (w_sh w) in (fst r, w\<lparr>w_sh := snd r\<rparr>))"

abbreviation shared_get :: "(shared \<Rightarrow> 'a) \<Rightarrow> 'a prog" where
  "shared_get f \<equiv> shared_op (\<lambda>s. (f s, s))"

abbreviation shared_put :: "(shared \<Rightarrow> shared) \<Rightarrow> unit prog" where
  "shared_put f \<equiv> shared_op (\<lambda>s. ((), f s))"

abbreviation owner_get :: "(shared \<Rightarrow> 'a) \<Rightarrow> 'a prog" where
  "owner_get f \<equiv> owner_op (\<lambda>s. (f s, s))"

abbreviation owner_put :: "(shared \<Rightarrow> shared) \<Rightarrow> unit prog" where
  "owner_put f \<equiv> owner_op (\<lambda>s. ((), f s))"

text \<open>Counting a step of the running operation; bumping a statistics counter.\<close>

definition tick :: "((nat \<Rightarrow> nat) \<Rightarrow> step_counter \<Rightarrow> step_counter) \<Rightarrow> unit prog" where
  "tick fld = State (\<lambda>w. ((), w\<lparr>w_step := fld Suc (w_step w)\<rparr>))"

definition bump :: "((usize \<Rightarrow> usize) \<Rightarrow> allocator_stats \<Rightarrow> allocator_stats) \<Rightarrow> unit prog" where
  "bump fld = shared_put (\<lambda>s. s\<lparr>g_stats := fld stat_inc (g_stats s)\<rparr>)"

text \<open>
  The small-span lanes and the large-run lanes are index spaces of the same machinery
  (\<^verbatim>\<open>acquire.rs\<close>); \<open>SpanLane c\<close> and \<open>RunLane c\<close> name the arrays of class \<open>c\<close>.
\<close>

datatype lane = SpanLane nat | RunLane nat

text \<open>The number of contiguous spans of a cell of a lane.\<close>

fun lane_pages :: "lane \<Rightarrow> nat" where
  "lane_pages (SpanLane c) = 1"
| "lane_pages (RunLane c) = 2 ^ c"

section \<open>Constructors\<close>

text \<open>
  The \<^verbatim>\<open>new\<close> functions.  A public list owns an embedded dummy node, whose address depends on where
  the metadata was placed; that placement is the argument \<open>dummy_at\<close>.
\<close>

definition local_span_list_new :: local_span_list where
  "local_span_list_new = \<lparr>ls_head = 0, ls_tail = 0, ls_len = 0\<rparr>"

definition spmc_span_list_new :: "address \<Rightarrow> spmc_list" where
  "spmc_span_list_new dummy = \<lparr>sl_head = head_zero, sl_tail = 0, sl_dummy = dummy\<rparr>"

definition thread_heap_new :: "(lane \<Rightarrow> address) \<Rightarrow> thread_heap" where
  "thread_heap_new dummy = \<lparr>
     th_local_spans = \<lambda>_. local_span_list_new,
     th_public_spans = \<lambda>c. spmc_span_list_new (dummy (SpanLane c)),
     th_cur_query = \<lambda>_. 0, th_helping_pos = \<lambda>_. 0,
     th_local_runs = \<lambda>_. local_span_list_new,
     th_public_runs = \<lambda>c. spmc_span_list_new (dummy (RunLane c)),
     th_cur_query_runs = \<lambda>_. 0, th_helping_pos_runs = \<lambda>_. 0\<rparr>"

definition help_record_new :: help_record where
  "help_record_new = \<lparr>hr_word = 0, hr_last_phase = 0\<rparr>"

definition huge_slot_new :: huge_slot where
  "huge_slot_new = \<lparr>hs_state = 0, hs_base = 0, hs_owner = usize_max,
     hs_requested_size = 0, hs_requested_align = 0\<rparr>"

definition pool_new :: span_pool where
  "pool_new = \<lparr>pool_base = 0, pool_count = 0, pool_next = 0\<rparr>"

definition registry_new :: "usize \<Rightarrow> thread_registry" where
  "registry_new max_threads = \<lparr>reg_next = 0, reg_max = max_threads\<rparr>"

definition local_meta_new :: local_meta where
  "local_meta_new = \<lparr>lm_free = 0, lm_free_count = 0, lm_pending_remote = 0, lm_next_local = 0\<rparr>"

definition remote_meta_new :: remote_meta where
  "remote_meta_new = \<lparr>rm_free = 0, rm_free_count = 0\<rparr>"

text \<open>
  \<^verbatim>\<open>WfSpanAllocator::from_uninit\<close>: fresh metadata rows over the memory \<open>mem\<close> as it is; each
  list brings its dummy node.
\<close>

definition lanes :: "nat \<Rightarrow> lane list" where
  "lanes classes = List.map SpanLane [0..<classes] @ List.map RunLane [0..<MAX_LARGE_RUN_CLASSES]"

definition dummy_nodes :: "nat \<Rightarrow> nat \<Rightarrow> (lane \<Rightarrow> nat \<Rightarrow> address) \<Rightarrow> address list" where
  "dummy_nodes classes active_threads dummy_at =
     List.map (\<lambda>(i, l). dummy_at l i) (List.product [0..<active_threads] (lanes classes))"

definition from_uninit :: "nat \<Rightarrow> nat \<Rightarrow> (lane \<Rightarrow> nat \<Rightarrow> address) \<Rightarrow> shared \<Rightarrow> shared" where
  "from_uninit classes active_threads dummy_at mem = mem\<lparr>
     g_node := fold (\<lambda>a m. m(a := span_node_new)) (dummy_nodes classes active_threads dummy_at) (g_node mem),
     g_active := active_threads,
     g_heaps := \<lambda>i. thread_heap_new (\<lambda>l. dummy_at l i),
     g_records := \<lambda>_ _. help_record_new, g_run_records := \<lambda>_ _. help_record_new,
     g_pool := pool_new, g_registry := registry_new (of_nat active_threads),
     g_stats := stats_new, g_huge := \<lambda>_ _. huge_slot_new\<rparr>"

text \<open>Memory that holds zeros only, without any metadata: a state to start examples from.\<close>

definition zero_memory :: shared where
  "zero_memory = \<lparr>
     g_hdr = \<lambda>_. \<lparr>sh_owner = 0, sh_size_class = 0, sh_block_size = 0, sh_block_count = 0, sh_state = Raw,
       sh_node = 0, sh_local = local_meta_new, sh_remote = remote_meta_new\<rparr>,
     g_block = \<lambda>_. 0, g_node = \<lambda>_. span_node_new,
     g_lhdr = \<lambda>_. \<lparr>lh_magic = 0, lh_run = 0, lh_run_class = 0, lh_span_count = 0\<rparr>,
     g_active = 0, g_heaps = \<lambda>_. thread_heap_new (\<lambda>_. 0),
     g_records = \<lambda>_ _. help_record_new, g_run_records = \<lambda>_ _. help_record_new,
     g_pool = pool_new, g_registry = registry_new 0, g_stats = stats_new, g_huge = \<lambda>_ _. huge_slot_new\<rparr>"

section \<open>Accessors\<close>

definition upd_hdr :: "(span_header \<Rightarrow> span_header) \<Rightarrow> address \<Rightarrow> shared \<Rightarrow> shared" where
  "upd_hdr f a s = s\<lparr>g_hdr := (g_hdr s)(a := f (g_hdr s a))\<rparr>"

definition upd_node :: "(span_node \<Rightarrow> span_node) \<Rightarrow> address \<Rightarrow> shared \<Rightarrow> shared" where
  "upd_node f a s = s\<lparr>g_node := (g_node s)(a := f (g_node s a))\<rparr>"

definition set_block :: "address \<Rightarrow> address \<Rightarrow> shared \<Rightarrow> shared" where
  "set_block a v s = s\<lparr>g_block := (g_block s)(a := v)\<rparr>"

abbreviation set_owner :: "address \<Rightarrow> usize \<Rightarrow> shared \<Rightarrow> shared" where
  "set_owner a v \<equiv> upd_hdr (sh_owner_update (\<lambda>_. v)) a"

abbreviation set_span_state :: "address \<Rightarrow> span_state \<Rightarrow> shared \<Rightarrow> shared" where
  "set_span_state a v \<equiv> upd_hdr (sh_state_update (\<lambda>_. v)) a"

abbreviation upd_local :: "(local_meta \<Rightarrow> local_meta) \<Rightarrow> address \<Rightarrow> shared \<Rightarrow> shared" where
  "upd_local f a \<equiv> upd_hdr (sh_local_update f) a"

abbreviation upd_remote :: "(remote_meta \<Rightarrow> remote_meta) \<Rightarrow> address \<Rightarrow> shared \<Rightarrow> shared" where
  "upd_remote f a \<equiv> upd_hdr (sh_remote_update f) a"

abbreviation local_of :: "shared \<Rightarrow> address \<Rightarrow> local_meta" where
  "local_of s a \<equiv> sh_local (g_hdr s a)"

abbreviation remote_of :: "shared \<Rightarrow> address \<Rightarrow> remote_meta" where
  "remote_of s a \<equiv> sh_remote (g_hdr s a)"

fun local_list :: "shared \<Rightarrow> lane \<Rightarrow> nat \<Rightarrow> local_span_list" where
  "local_list s (SpanLane c) i = th_local_spans (g_heaps s i) c"
| "local_list s (RunLane c) i = th_local_runs (g_heaps s i) c"

fun upd_local_list :: "lane \<Rightarrow> nat \<Rightarrow> (local_span_list \<Rightarrow> local_span_list) \<Rightarrow> shared \<Rightarrow> shared" where
  "upd_local_list (SpanLane c) i f s = s\<lparr>g_heaps := (g_heaps s)(i := (g_heaps s i)
     \<lparr>th_local_spans := (th_local_spans (g_heaps s i))(c := f (th_local_spans (g_heaps s i) c))\<rparr>)\<rparr>"
| "upd_local_list (RunLane c) i f s = s\<lparr>g_heaps := (g_heaps s)(i := (g_heaps s i)
     \<lparr>th_local_runs := (th_local_runs (g_heaps s i))(c := f (th_local_runs (g_heaps s i) c))\<rparr>)\<rparr>"

fun public_list :: "shared \<Rightarrow> lane \<Rightarrow> nat \<Rightarrow> spmc_list" where
  "public_list s (SpanLane c) i = th_public_spans (g_heaps s i) c"
| "public_list s (RunLane c) i = th_public_runs (g_heaps s i) c"

fun upd_public_list :: "lane \<Rightarrow> nat \<Rightarrow> (spmc_list \<Rightarrow> spmc_list) \<Rightarrow> shared \<Rightarrow> shared" where
  "upd_public_list (SpanLane c) i f s = s\<lparr>g_heaps := (g_heaps s)(i := (g_heaps s i)
     \<lparr>th_public_spans := (th_public_spans (g_heaps s i))(c := f (th_public_spans (g_heaps s i) c))\<rparr>)\<rparr>"
| "upd_public_list (RunLane c) i f s = s\<lparr>g_heaps := (g_heaps s)(i := (g_heaps s i)
     \<lparr>th_public_runs := (th_public_runs (g_heaps s i))(c := f (th_public_runs (g_heaps s i) c))\<rparr>)\<rparr>"

fun record_at :: "shared \<Rightarrow> lane \<Rightarrow> nat \<Rightarrow> help_record" where
  "record_at s (SpanLane c) i = g_records s i c"
| "record_at s (RunLane c) i = g_run_records s i c"

fun upd_record :: "lane \<Rightarrow> nat \<Rightarrow> (help_record \<Rightarrow> help_record) \<Rightarrow> shared \<Rightarrow> shared" where
  "upd_record (SpanLane c) i f s =
     s\<lparr>g_records := (g_records s)(i := (g_records s i)(c := f (g_records s i c)))\<rparr>"
| "upd_record (RunLane c) i f s =
     s\<lparr>g_run_records := (g_run_records s)(i := (g_run_records s i)(c := f (g_run_records s i c)))\<rparr>"

fun positions :: "shared \<Rightarrow> lane \<Rightarrow> nat \<Rightarrow> nat \<times> nat" where
  "positions s (SpanLane c) i = (th_cur_query (g_heaps s i) c, th_helping_pos (g_heaps s i) c)"
| "positions s (RunLane c) i = (th_cur_query_runs (g_heaps s i) c, th_helping_pos_runs (g_heaps s i) c)"

fun set_positions :: "lane \<Rightarrow> nat \<Rightarrow> nat \<Rightarrow> nat \<Rightarrow> shared \<Rightarrow> shared" where
  "set_positions (SpanLane c) i q h s = s\<lparr>g_heaps := (g_heaps s)(i := (g_heaps s i)
     \<lparr>th_cur_query := (th_cur_query (g_heaps s i))(c := q),
      th_helping_pos := (th_helping_pos (g_heaps s i))(c := h)\<rparr>)\<rparr>"
| "set_positions (RunLane c) i q h s = s\<lparr>g_heaps := (g_heaps s)(i := (g_heaps s i)
     \<lparr>th_cur_query_runs := (th_cur_query_runs (g_heaps s i))(c := q),
      th_helping_pos_runs := (th_helping_pos_runs (g_heaps s i))(c := h)\<rparr>)\<rparr>"

section \<open>Reading after writing\<close>

lemma g_hdr_upd_hdr [simp, wf_get]:
  "g_hdr (upd_hdr f a s) b = (if b = a then f (g_hdr s a) else g_hdr s b)"
  by (simp add: upd_hdr_def)

lemma upd_hdr_frame [simp, wf_get]:
  "g_block (upd_hdr f a s) = g_block s" "g_node (upd_hdr f a s) = g_node s"
  "g_lhdr (upd_hdr f a s) = g_lhdr s" "g_active (upd_hdr f a s) = g_active s"
  "g_heaps (upd_hdr f a s) = g_heaps s" "g_records (upd_hdr f a s) = g_records s"
  "g_run_records (upd_hdr f a s) = g_run_records s" "g_pool (upd_hdr f a s) = g_pool s"
  "g_registry (upd_hdr f a s) = g_registry s" "g_stats (upd_hdr f a s) = g_stats s"
  "g_huge (upd_hdr f a s) = g_huge s"
  by (simp_all add: upd_hdr_def)

lemma set_block_frame [simp, wf_get]:
  "g_block (set_block a v s) = (g_block s)(a := v)" "g_hdr (set_block a v s) = g_hdr s"
  "g_node (set_block a v s) = g_node s" "g_lhdr (set_block a v s) = g_lhdr s"
  "g_active (set_block a v s) = g_active s" "g_heaps (set_block a v s) = g_heaps s"
  "g_records (set_block a v s) = g_records s" "g_run_records (set_block a v s) = g_run_records s"
  "g_pool (set_block a v s) = g_pool s" "g_registry (set_block a v s) = g_registry s"
  "g_stats (set_block a v s) = g_stats s" "g_huge (set_block a v s) = g_huge s"
  by (simp_all add: set_block_def)

lemma upd_node_frame [simp, wf_get]:
  "g_node (upd_node f a s) b = (if b = a then f (g_node s a) else g_node s b)"
  "g_hdr (upd_node f a s) = g_hdr s" "g_block (upd_node f a s) = g_block s"
  "g_lhdr (upd_node f a s) = g_lhdr s" "g_active (upd_node f a s) = g_active s"
  "g_heaps (upd_node f a s) = g_heaps s" "g_records (upd_node f a s) = g_records s"
  "g_run_records (upd_node f a s) = g_run_records s" "g_pool (upd_node f a s) = g_pool s"
  "g_registry (upd_node f a s) = g_registry s" "g_stats (upd_node f a s) = g_stats s"
  "g_huge (upd_node f a s) = g_huge s"
  by (simp_all add: upd_node_def)

lemma upd_local_list_frame [simp, wf_get]:
  "g_hdr (upd_local_list l i f s) = g_hdr s" "g_block (upd_local_list l i f s) = g_block s"
  "g_node (upd_local_list l i f s) = g_node s" "g_active (upd_local_list l i f s) = g_active s"
  "g_lhdr (upd_local_list l i f s) = g_lhdr s" "g_pool (upd_local_list l i f s) = g_pool s"
  "g_records (upd_local_list l i f s) = g_records s" "g_huge (upd_local_list l i f s) = g_huge s"
  "g_run_records (upd_local_list l i f s) = g_run_records s"
  "g_registry (upd_local_list l i f s) = g_registry s" "g_stats (upd_local_list l i f s) = g_stats s"
  by (cases l; simp)+

lemma upd_public_list_frame [simp, wf_get]:
  "g_hdr (upd_public_list l i f s) = g_hdr s" "g_block (upd_public_list l i f s) = g_block s"
  "g_node (upd_public_list l i f s) = g_node s" "g_active (upd_public_list l i f s) = g_active s"
  "g_lhdr (upd_public_list l i f s) = g_lhdr s" "g_pool (upd_public_list l i f s) = g_pool s"
  "g_records (upd_public_list l i f s) = g_records s" "g_huge (upd_public_list l i f s) = g_huge s"
  "g_run_records (upd_public_list l i f s) = g_run_records s"
  "g_registry (upd_public_list l i f s) = g_registry s" "g_stats (upd_public_list l i f s) = g_stats s"
  by (cases l; simp)+

lemma upd_record_frame [simp, wf_get]:
  "g_hdr (upd_record l i f s) = g_hdr s" "g_block (upd_record l i f s) = g_block s"
  "g_node (upd_record l i f s) = g_node s" "g_active (upd_record l i f s) = g_active s"
  "g_lhdr (upd_record l i f s) = g_lhdr s" "g_pool (upd_record l i f s) = g_pool s"
  "g_heaps (upd_record l i f s) = g_heaps s" "g_huge (upd_record l i f s) = g_huge s"
  "g_registry (upd_record l i f s) = g_registry s" "g_stats (upd_record l i f s) = g_stats s"
  by (cases l; simp)+

lemma local_list_upd [simp, wf_get]:
  "local_list (upd_local_list l i f s) l' j =
     (if l = l' \<and> i = j then f (local_list s l i) else local_list s l' j)"
  by (cases l; cases l') auto

lemma public_list_upd [simp, wf_get]:
  "public_list (upd_public_list l i f s) l' j =
     (if l = l' \<and> i = j then f (public_list s l i) else public_list s l' j)"
  by (cases l; cases l') auto

lemma record_at_upd [simp, wf_get]:
  "record_at (upd_record l i f s) l' j =
     (if l = l' \<and> i = j then f (record_at s l i) else record_at s l' j)"
  by (cases l; cases l') auto

lemma lists_cross [simp, wf_get]:
  "local_list (upd_public_list l i g s) l' j = local_list s l' j"
  "public_list (upd_local_list l i f s) l' j = public_list s l' j"
  "local_list (upd_record l i h s) l' j = local_list s l' j"
  "public_list (upd_record l i h s) l' j = public_list s l' j"
  "record_at (upd_local_list l i f s) l' j = record_at s l' j"
  "record_at (upd_public_list l i g s) l' j = record_at s l' j"
  by (cases l; cases l'; simp)+

lemma lists_of_memory_update [simp, wf_get]:
  "local_list (upd_hdr f a s) l j = local_list s l j"
  "public_list (upd_hdr f a s) l j = public_list s l j"
  "record_at (upd_hdr f a s) l j = record_at s l j"
  "local_list (upd_node n a s) l j = local_list s l j"
  "public_list (upd_node n a s) l j = public_list s l j"
  "record_at (upd_node n a s) l j = record_at s l j"
  "local_list (set_block a v s) l j = local_list s l j"
  "public_list (set_block a v s) l j = public_list s l j"
  "record_at (set_block a v s) l j = record_at s l j"
  by (cases l; simp)+

lemma set_positions_frame [simp, wf_get]:
  "g_hdr (set_positions l i q h s) = g_hdr s" "g_block (set_positions l i q h s) = g_block s"
  "g_node (set_positions l i q h s) = g_node s" "g_active (set_positions l i q h s) = g_active s"
  "g_lhdr (set_positions l i q h s) = g_lhdr s" "g_pool (set_positions l i q h s) = g_pool s"
  "g_huge (set_positions l i q h s) = g_huge s" "g_registry (set_positions l i q h s) = g_registry s"
  "g_stats (set_positions l i q h s) = g_stats s"
  by (cases l; simp)+

lemma lists_of_positions [simp, wf_get]:
  "local_list (set_positions l i q h s) l' j = local_list s l' j"
  "public_list (set_positions l i q h s) l' j = public_list s l' j"
  "record_at (set_positions l i q h s) l' j = record_at s l' j"
  by (cases l; cases l'; simp)+

lemma positions_set [simp, wf_get]:
  "positions (set_positions l i q h s) l' j = (if l = l' \<and> i = j then (q, h) else positions s l' j)"
  by (cases l; cases l') auto

section \<open>Running programs\<close>

lemma run_shared_op:
  "run_state (shared_op f) w =
     (fst (f (w_sh (interfere w))), (interfere w)\<lparr>w_sh := snd (f (w_sh (interfere w)))\<rparr>)"
  by (simp add: shared_op_def Let_def)

lemma run_owner_op [simp]:
  "run_state (owner_op f) w = (fst (f (w_sh w)), w\<lparr>w_sh := snd (f (w_sh w))\<rparr>)"
  by (simp add: owner_op_def Let_def)

lemma run_tick [simp]: "run_state (tick fld) w = ((), w\<lparr>w_step := fld Suc (w_step w)\<rparr>)"
  by (simp add: tick_def)

lemma interfere_step [simp]: "w_step (interfere w) = w_step w"
  by (simp add: interfere_def)

lemma interfere_quiet [simp]: "w_env w = [] \<Longrightarrow> interfere w = w"
  by (simp add: interfere_def)

lemma run_shared_op_quiet [simp]:
  "w_env w = [] \<Longrightarrow> run_state (shared_op f) w = (fst (f (w_sh w)), w\<lparr>w_sh := snd (f (w_sh w))\<rparr>)"
  by (simp add: run_shared_op)

lemma run_bump_quiet [simp]:
  "w_env w = [] \<Longrightarrow>
     run_state (bump fld) w = ((), w\<lparr>w_sh := (w_sh w)\<lparr>g_stats := fld stat_inc (g_stats (w_sh w))\<rparr>\<rparr>)"
  by (simp add: bump_def)

lemma lists_of_stats [simp]:
  "local_list (s\<lparr>g_stats := x\<rparr>) l j = local_list s l j"
  "public_list (s\<lparr>g_stats := x\<rparr>) l j = public_list s l j"
  "record_at (s\<lparr>g_stats := x\<rparr>) l j = record_at s l j"
  "positions (s\<lparr>g_stats := x\<rparr>) l j = positions s l j"
  by (cases l; simp)+

end
