(* ===== verification/Step_Bounds.thy ===== *)
theory Step_Bounds
  imports Wf_State
begin

text \<open>
  A calculus for step bounds that hold in every environment.  \<open>within ok f m d\<close> says: one
  run of the program \<open>m\<close>, whatever the other threads do between its accesses, raises the
  measure \<open>f\<close> of the step counter by at most \<open>d\<close>, provided the other threads keep
  the condition \<open>ok\<close> on the shared state, and then \<open>m\<close> keeps it too.  The rules follow the
  structure of the program; for most bounds \<open>ok\<close> is \<open>True\<close> and nothing at all is asked of the
  other threads.
\<close>

definition env_ok :: "(shared \<Rightarrow> bool) \<Rightarrow> world \<Rightarrow> bool" where
  "env_ok ok w \<longleftrightarrow> ok (w_sh w) \<and> (\<forall>e \<in> set (w_env w). \<forall>s. ok s \<longrightarrow> ok (e s))"

definition within :: "(shared \<Rightarrow> bool) \<Rightarrow> (step_counter \<Rightarrow> int) \<Rightarrow> 'a prog \<Rightarrow> int \<Rightarrow> bool" where
  "within ok f m d \<longleftrightarrow> (\<forall>w. env_ok ok w \<longrightarrow>
     env_ok ok (final_state m w) \<and> f (w_step (final_state m w)) \<le> f (w_step w) + d)"

abbreviation anything :: "shared \<Rightarrow> bool" where
  "anything \<equiv> (\<lambda>_. True)"

named_theorems wf_within \<open>structural rules of the step-bound calculus\<close>

lemma env_ok_anything [simp]: "env_ok anything w"
  by (simp add: env_ok_def)

lemma withinD:
  "within ok f m d \<Longrightarrow> env_ok ok w \<Longrightarrow> f (w_step (final_state m w)) \<le> f (w_step w) + d"
  by (simp add: within_def)

lemma within_mono: "within ok f m d \<Longrightarrow> d \<le> d' \<Longrightarrow> within ok f m d'"
  unfolding within_def by force

lemma env_ok_interfere: "env_ok ok w \<Longrightarrow> env_ok ok (interfere w)"
  by (cases "w_env w") (auto simp: env_ok_def interfere_def)

lemma within_bind [wf_within]:
  assumes "within ok f m d" and "\<And>a. within ok f (g a) e"
  shows "within ok f (State_Monad.bind m g) (d + e)"
  unfolding within_def
proof (intro allI impI)
  fix w assume w: "env_ok ok w"
  obtain a w' where m: "run_state m w = (a, w')" by (cases "run_state m w")
  from assms(1) w have 1: "env_ok ok w'" "f (w_step w') \<le> f (w_step w) + d"
    using m unfolding within_def by (metis snd_conv)+
  from assms(2) [of a] 1(1)
  have "env_ok ok (final_state (g a) w')" "f (w_step (final_state (g a) w')) \<le> f (w_step w') + e"
    by (simp_all add: within_def)
  with 1 show "env_ok ok (final_state (State_Monad.bind m g) w) \<and>
      f (w_step (final_state (State_Monad.bind m g) w)) \<le> f (w_step w) + (d + e)"
    by (simp add: m)
qed

lemma within_ret [wf_within]: "within ok f (ret a) 0"
  by (simp add: within_def)

lemma within_shared_op [wf_within]:
  assumes "\<And>s. ok s \<Longrightarrow> ok (snd (g s))"
  shows "within ok f (shared_op g) 0"
proof -
  have "env_ok ok ((interfere w)\<lparr>w_sh := snd (g (w_sh (interfere w)))\<rparr>)" if "env_ok ok w" for w
    using env_ok_interfere [OF that] assms by (simp add: env_ok_def)
  then show ?thesis by (simp add: within_def run_shared_op)
qed

lemma within_owner_op [wf_within]:
  "(\<And>s. ok s \<Longrightarrow> ok (snd (g s))) \<Longrightarrow> within ok f (owner_op g) 0"
  by (simp add: within_def env_ok_def)

lemma within_read:
  "(\<And>s. ok s \<Longrightarrow> within ok f (g (h s)) e) \<Longrightarrow> within ok f (State_Monad.bind (owner_get h) g) e"
  unfolding within_def
proof (intro allI impI)
  fix w
  assume r: "\<And>s. ok s \<Longrightarrow> \<forall>w. env_ok ok w \<longrightarrow> env_ok ok (final_state (g (h s)) w)
      \<and> f (w_step (final_state (g (h s)) w)) \<le> f (w_step w) + e" and w: "env_ok ok w"
  have "ok (w_sh w)" using w by (simp add: env_ok_def)
  from r [OF this] w show "env_ok ok (final_state (State_Monad.bind (owner_get h) g) w)
      \<and> f (w_step (final_state (State_Monad.bind (owner_get h) g) w)) \<le> f (w_step w) + e" by simp
qed

lemma within_bump [wf_within]:
  "(\<And>s st. ok s \<Longrightarrow> ok (s\<lparr>g_stats := st\<rparr>)) \<Longrightarrow> within ok f (bump fld) 0"
  unfolding bump_def by (rule within_shared_op) simp

lemma within_if [wf_within]:
  "within ok f m d \<Longrightarrow> within ok f n e \<Longrightarrow> within ok f (if b then m else n) (max d e)"
  by (auto intro: within_mono)

lemma within_option [wf_within]:
  "within ok f m d \<Longrightarrow> (\<And>x. within ok f (n x) e) \<Longrightarrow>
     within ok f (case v of None \<Rightarrow> m | Some x \<Rightarrow> n x) (max d e)"
  using within_mono [of ok f m d "max d e"] within_mono [of ok f "n (the v)" e "max d e"]
  by (cases v) simp_all

lemma within_prod [wf_within]:
  "(\<And>x y. within ok f (n x y) e) \<Longrightarrow> within ok f (case v of (x, y) \<Rightarrow> n x y) e"
  by (cases v) auto

lemma within_let [wf_within]: "within ok f (n v) e \<Longrightarrow> within ok f (let x = v in n x) e"
  by simp

text \<open>
  The measures are the linear combinations of the fields of the step counter; a rule for each
  field gives the weight of one step of it.
\<close>

datatype step_kind = Local | Remote | Cas | Cas2 | Swap | Faa | Help | Query | Scan | LargeClass | HugeScan

definition weigh :: "(step_kind \<Rightarrow> int) \<Rightarrow> step_counter \<Rightarrow> int" where
  "weigh c s = c Local * int (local_steps s) + c Remote * int (remote_steps s)
     + c Cas * int (cas_attempts s) + c Cas2 * int (cas2_attempts s) + c Swap * int (swap_ops s)
     + c Faa * int (faa_ops s) + c Help * int (help_steps s) + c Query * int (query_steps s)
     + c Scan * int (blocks_scanned s) + c LargeClass * int (large_class_steps s)
     + c HugeScan * int (huge_slot_scans s)"

lemma within_tick:
  "(\<And>s. f (fld Suc s) = f s + d) \<Longrightarrow> within ok f (tick fld) d"
  by (simp add: within_def env_ok_def)

lemma within_ticks [wf_within]:
  "within ok (weigh c) (tick local_steps_update) (c Local)"
  "within ok (weigh c) (tick remote_steps_update) (c Remote)"
  "within ok (weigh c) (tick cas_attempts_update) (c Cas)"
  "within ok (weigh c) (tick cas2_attempts_update) (c Cas2)"
  "within ok (weigh c) (tick swap_ops_update) (c Swap)"
  "within ok (weigh c) (tick faa_ops_update) (c Faa)"
  "within ok (weigh c) (tick help_steps_update) (c Help)"
  "within ok (weigh c) (tick query_steps_update) (c Query)"
  "within ok (weigh c) (tick blocks_scanned_update) (c Scan)"
  "within ok (weigh c) (tick large_class_steps_update) (c LargeClass)"
  "within ok (weigh c) (tick huge_slot_scans_update) (c HugeScan)"
  by (rule within_tick, simp add: weigh_def algebra_simps)+

lemma weigh_new [simp]: "weigh c step_new = 0"
  by (simp add: weigh_def step_new_def)

text \<open>One operation, from a fresh counter: the bound on the measure at its end.\<close>

lemma within_fresh:
  "within anything (weigh c) m d \<Longrightarrow> w_step w = step_new \<Longrightarrow> weigh c (w_step (final_state m w)) \<le> d"
  using withinD [of anything "weigh c" m d w] by simp

text \<open>
  A condition on the shared state that every update of the code keeps, except the ones that set the
  block count of a header.  \<open>True\<close> is one; that no block count exceeds a bound is another.
\<close>

locale env_condition =
  fixes ok :: "shared \<Rightarrow> bool"
  assumes ok_set_block [simp]: "ok s \<Longrightarrow> ok (set_block b v s)"
    and ok_upd_hdr: "ok s \<Longrightarrow> (\<And>h. sh_block_count (f h) = sh_block_count h) \<Longrightarrow> ok (upd_hdr f a s)"
    and ok_upd_node [simp]: "ok s \<Longrightarrow> ok (upd_node nf a s)"
    and ok_upd_lists [simp]: "ok s \<Longrightarrow> ok (upd_public_list l i pf s)" "ok s \<Longrightarrow> ok (upd_local_list l i lf s)"
    and ok_upd_record [simp]: "ok s \<Longrightarrow> ok (upd_record l i rf s)" "ok s \<Longrightarrow> ok (set_positions l i q h s)"
    and ok_upd_fields [simp]: "ok s \<Longrightarrow> ok (s\<lparr>g_stats := st\<rparr>)" "ok s \<Longrightarrow> ok (s\<lparr>g_pool := pool\<rparr>)"
      "ok s \<Longrightarrow> ok (s\<lparr>g_huge := hg\<rparr>)" "ok s \<Longrightarrow> ok (s\<lparr>g_lhdr := lh\<rparr>)"
begin

lemma ok_hdr_fields [simp]:
  "ok s \<Longrightarrow> ok (set_owner a ow s)" "ok s \<Longrightarrow> ok (set_span_state a st s)"
  "ok s \<Longrightarrow> ok (upd_local f a s)" "ok s \<Longrightarrow> ok (upd_remote g a s)"
  "ok s \<Longrightarrow> ok (upd_hdr (sh_node_update k) a s)"
  by (simp_all add: ok_upd_hdr)

lemma within_stat_bump [wf_within]: "within ok f (bump fld) 0"
  by (rule within_bump) simp

end

definition block_counts_below :: "nat \<Rightarrow> shared \<Rightarrow> bool" where
  "block_counts_below M s \<longleftrightarrow> (\<forall>a. unat (sh_block_count (g_hdr s a)) \<le> M)"

interpretation any_env: env_condition anything
  by unfold_locales simp_all

interpretation capped_env: env_condition "block_counts_below M" for M
  by unfold_locales (auto simp: block_counts_below_def)

abbreviation only :: "step_kind \<Rightarrow> step_kind \<Rightarrow> int" where
  "only k \<equiv> (\<lambda>_. 0)(k := 1)"

end
