(* ===== verification/Quiet_Runs.thy ===== *)
theory Quiet_Runs
  imports Wf_State
begin

text \<open>
  A calculus for what an operation does when the other threads leave the shared state alone
  while it runs.  \<open>quietly m s Q\<close> says: the program \<open>m\<close>, started in the shared state \<open>s\<close>
  with any step counter and whatever store-exclusive instructions fail spuriously, ends with a
  result and a shared state related by \<open>Q\<close>.  Programs are total, so this includes that they end.
\<close>

definition quietly :: "'a prog \<Rightarrow> shared \<Rightarrow> ('a \<Rightarrow> shared \<Rightarrow> bool) \<Rightarrow> bool" where
  "quietly m s Q \<longleftrightarrow> (\<forall>w. w_env w = [] \<and> w_sh w = s \<longrightarrow>
     w_env (final_state m w) = [] \<and> Q (result_of m w) (w_sh (final_state m w)))"

named_theorems wf_quiet \<open>structural rules of the quiet-run calculus\<close>

lemma quietlyD:
  "quietly m s Q \<Longrightarrow> w_env w = [] \<Longrightarrow> w_sh w = s \<Longrightarrow> run_state m w = (a, w') \<Longrightarrow> Q a (w_sh w') \<and> w_env w' = []"
  by (auto simp: quietly_def)

lemma quietly_mono: "quietly m s P \<Longrightarrow> (\<And>a t. P a t \<Longrightarrow> Q a t) \<Longrightarrow> quietly m s Q"
  by (fastforce simp: quietly_def)

lemma quietly_conj: "quietly m s P \<Longrightarrow> quietly m s Q \<Longrightarrow> quietly m s (\<lambda>a t. P a t \<and> Q a t)"
  by (fastforce simp: quietly_def)

lemma quietly_bind [wf_quiet]:
  "quietly m s (\<lambda>a t. quietly (g a) t Q) \<Longrightarrow> quietly (State_Monad.bind m g) s Q"
  by (simp add: quietly_def split_beta)

text \<open>Sequencing behind a program whose contract is known.\<close>

lemma quietly_then:
  "quietly m s P \<Longrightarrow> (\<And>a t. P a t \<Longrightarrow> quietly (g a) t Q) \<Longrightarrow> quietly (State_Monad.bind m g) s Q"
  by (rule quietly_bind) (rule quietly_mono)

lemma quietly_ret [simp, wf_quiet]: "quietly (ret a) s Q \<longleftrightarrow> Q a s"
proof -
  obtain w :: world where "w_env w = []" "w_sh w = s"
    by (rule that [of "\<lparr>w_sh = s, w_step = step_new, w_env = [], w_sc_fail = []\<rparr>"]) simp_all
  then show ?thesis by (auto simp: quietly_def)
qed

lemma quietly_shared_op [wf_quiet]: "Q (fst (f s)) (snd (f s)) \<Longrightarrow> quietly (shared_op f) s Q"
  by (simp add: quietly_def)

lemma quietly_owner_op [wf_quiet]: "Q (fst (f s)) (snd (f s)) \<Longrightarrow> quietly (owner_op f) s Q"
  by (simp add: quietly_def)

lemma quietly_tick [wf_quiet]: "Q () s \<Longrightarrow> quietly (tick fld) s Q"
  by (simp add: quietly_def)

lemma quietly_bump [wf_quiet]:
  "Q () (s\<lparr>g_stats := fld stat_inc (g_stats s)\<rparr>) \<Longrightarrow> quietly (bump fld) s Q"
  by (simp add: quietly_def)

lemma quietly_if [simp, wf_quiet]:
  "quietly (if b then m else n) s Q \<longleftrightarrow> (b \<longrightarrow> quietly m s Q) \<and> (\<not> b \<longrightarrow> quietly n s Q)"
  by simp

lemma quietly_option:
  "quietly (case v of None \<Rightarrow> m | Some x \<Rightarrow> n x) s Q \<longleftrightarrow>
     (v = None \<longrightarrow> quietly m s Q) \<and> (\<forall>x. v = Some x \<longrightarrow> quietly (n x) s Q)"
  by (cases v) simp_all

lemma quietly_prod [simp]:
  "quietly (case v of (x, y) \<Rightarrow> n x y) s Q \<longleftrightarrow> quietly (n (fst v) (snd v)) s Q"
  by (cases v) simp

lemma quietly_ifI:
  "(b \<Longrightarrow> quietly m s Q) \<Longrightarrow> (\<not> b \<Longrightarrow> quietly k s Q) \<Longrightarrow> quietly (if b then m else k) s Q"
  by simp

lemma quietly_pairI:
  "case_prod P a t \<Longrightarrow> (\<And>x y. P x y t \<Longrightarrow> quietly (k x y) t Q) \<Longrightarrow> quietly (case a of (x, y) \<Rightarrow> k x y) t Q"
  by (cases a) simp

lemmas quiet_intros = quietly_bind quietly_shared_op quietly_owner_op quietly_tick quietly_bump

end
