(* ===== verification/Free_Lists.thy ===== *)
theory Free_Lists
  imports Step_Bounds Quiet_Runs
begin

text \<open>
  The free lists of one span: the owner-only stack (\<^verbatim>\<open>src/local_list.rs\<close>) and the
  multi-producer remote list (\<^verbatim>\<open>src/remote_mpsc.rs\<close>).  A producer publishes a block with a
  SWAP and links it with a later store; between the two the block's link is \<^verbatim>\<open>UNLINKED\<close> and the
  consumer must stop there.  The theorems: the local list is a stack, and absorbing a
  detached chain moves exactly its resolved prefix, loses nothing, and keeps the suffix.
\<close>

section \<open>Local free list\<close>

definition local_new :: address where
  "local_new = 0"

definition local_is_empty :: "address \<Rightarrow> shared \<Rightarrow> bool" where
  "local_is_empty span s \<longleftrightarrow> lm_free (local_of s span) = 0"

definition local_push :: "address \<Rightarrow> address \<Rightarrow> shared \<Rightarrow> shared" where
  "local_push span block s =
     (let old = lm_free (local_of s span)
      in upd_local (lm_free_update (\<lambda>_. block)) span (set_block block old s))"

definition peek_for_verify :: "address \<Rightarrow> shared \<Rightarrow> address" where
  "peek_for_verify span s = lm_free (local_of s span)"

definition push_chain_head_for_init :: "address \<Rightarrow> address \<Rightarrow> shared \<Rightarrow> shared" where
  "push_chain_head_for_init span head = upd_local (lm_free_update (\<lambda>_. head)) span"

definition local_pop :: "address \<Rightarrow> shared \<Rightarrow> address \<times> shared" where
  "local_pop span s =
     (let block = lm_free (local_of s span)
      in if block = 0 then (block, s)
         else (block, upd_local (lm_free_update (\<lambda>_. g_block s block)) span s))"

section \<open>Remote free list\<close>

definition remote_new :: address where
  "remote_new = 0"

definition remote_swap :: "address \<Rightarrow> address \<Rightarrow> shared \<Rightarrow> address \<times> shared" where
  "remote_swap span v s =
     (rm_free (remote_of s span), upd_remote (rm_free_update (\<lambda>_. v)) span s)"

definition push_publish :: "address \<Rightarrow> address \<Rightarrow> address prog" where
  "push_publish span block = do {
     owner_put (set_block block UNLINKED);
     shared_op (remote_swap span block) }"

definition push_link :: "address \<Rightarrow> address \<Rightarrow> unit prog" where
  "push_link block old_head = shared_put (set_block block old_head)"

definition remote_push :: "address \<Rightarrow> address \<Rightarrow> unit prog" where
  "remote_push span block = do {
     old \<leftarrow> push_publish span block;
     push_link block old }"

definition reclaim_all :: "address \<Rightarrow> address prog" where
  "reclaim_all span = shared_op (remote_swap span 0)"

definition inc_free_count :: "address \<Rightarrow> shared \<Rightarrow> shared" where
  "inc_free_count span = upd_local (lm_free_count_update (\<lambda>q. q + 1)) span"

fun append_loop :: "nat \<Rightarrow> address \<Rightarrow> address \<Rightarrow> usize \<Rightarrow> (usize \<times> address) prog" where
  "append_loop 0 span cur appended = ret (appended, cur)"
| "append_loop (Suc k) span cur appended =
     (if cur = 0 then ret (appended, cur)
      else do {
        tick blocks_scanned_update;
        nxt \<leftarrow> shared_get (\<lambda>s. g_block s cur);
        if nxt = UNLINKED then ret (appended, cur)
        else do {
          owner_put (local_push span cur);
          owner_put (inc_free_count span);
          append_loop k span nxt (appended + 1) } })"

definition append_remote_to_local_bounded :: "address \<Rightarrow> address \<Rightarrow> (usize \<times> address) prog" where
  "append_remote_to_local_bounded span head = do {
     limit \<leftarrow> owner_get (\<lambda>s. sh_block_count (g_hdr s span));
     append_loop (unat limit) span head 0 }"

lemmas free_list_ops [wf_ops] = local_push_def local_pop_def remote_swap_def push_publish_def
  push_link_def remote_push_def reclaim_all_def inc_free_count_def

section \<open>The local list is a stack\<close>

text \<open>The contract of a stack of non-null cells, kept behind a representation relation.\<close>

locale cell_stack =
  fixes rep :: "'s \<Rightarrow> address list \<Rightarrow> bool"
    and push :: "address \<Rightarrow> 's \<Rightarrow> 's"
    and pop :: "'s \<Rightarrow> address \<times> 's"
  assumes rep_push: "rep s xs \<Longrightarrow> x \<noteq> 0 \<Longrightarrow> x \<notin> set xs \<Longrightarrow> rep (push x s) (x # xs)"
    and pop_empty: "rep s [] \<Longrightarrow> pop s = (0, s)"
    and pop_top: "rep s (x # xs) \<Longrightarrow> fst (pop s) = x \<and> rep (snd (pop s)) xs"
    and rep_cells: "rep s xs \<Longrightarrow> distinct xs \<and> 0 \<notin> set xs"
begin

lemma pop_push: "rep s xs \<Longrightarrow> x \<noteq> 0 \<Longrightarrow> x \<notin> set xs \<Longrightarrow> fst (pop (push x s)) = x \<and> rep (snd (pop (push x s))) xs"
  using pop_top rep_push by blast

lemma push_many:
  "rep s xs \<Longrightarrow> distinct ys \<Longrightarrow> 0 \<notin> set ys \<Longrightarrow> set ys \<inter> set xs = {} \<Longrightarrow>
     rep (fold push ys s) (rev ys @ xs)"
proof (induction ys arbitrary: s xs)
  case (Cons y ys)
  then have "rep (push y s) (y # xs)" by (auto intro: rep_push)
  from Cons.IH [OF this] Cons.prems show ?case by auto
qed simp

lemma pop_null_iff: "rep s xs \<Longrightarrow> fst (pop s) = 0 \<longleftrightarrow> xs = []"
  using pop_empty pop_top rep_cells by (cases xs) fastforce+

end

definition local_blocks :: "address \<Rightarrow> shared \<Rightarrow> address list \<Rightarrow> bool" where
  "local_blocks span s xs \<longleftrightarrow> chain (g_block s) (lm_free (local_of s span)) xs 0"

interpretation local_free: cell_stack "local_blocks span" "local_push span" "local_pop span" for span
proof
  fix s xs x
  show "local_blocks span s xs \<Longrightarrow> x \<noteq> 0 \<Longrightarrow> x \<notin> set xs \<Longrightarrow> local_blocks span (local_push span x s) (x # xs)"
    by (simp add: local_blocks_def local_push_def Let_def)
  show "local_blocks span s [] \<Longrightarrow> local_pop span s = (0, s)"
    by (simp add: local_blocks_def local_pop_def Let_def)
  show "local_blocks span s (x # xs) \<Longrightarrow>
      fst (local_pop span s) = x \<and> local_blocks span (snd (local_pop span s)) xs"
    by (auto simp: local_blocks_def local_pop_def Let_def)
  show "local_blocks span s xs \<Longrightarrow> distinct xs \<and> 0 \<notin> set xs"
    using chain_distinct chain_null_free by (auto simp: local_blocks_def)
qed

text \<open>The list with its counter \<^verbatim>\<open>q\<close>.\<close>

definition local_counted :: "address \<Rightarrow> shared \<Rightarrow> address list \<Rightarrow> bool" where
  "local_counted span s xs \<longleftrightarrow> local_blocks span s xs \<and> lm_free_count (local_of s span) = of_nat (length xs)"

lemma local_counted_push:
  "local_counted span s xs \<Longrightarrow> x \<noteq> 0 \<Longrightarrow> x \<notin> set xs \<Longrightarrow>
     local_counted span (inc_free_count span (local_push span x s)) (x # xs)"
  using local_free.rep_push [of span s xs x]
  by (simp add: local_counted_def local_blocks_def inc_free_count_def local_push_def Let_def add.commute)

section \<open>Absorbing a remote chain\<close>

text \<open>
  A detached chain: its resolved cells \<open>xs\<close>, then either the end or the first block whose
  producer has not stored its link yet.
\<close>

definition remote_chain :: "shared \<Rightarrow> address \<Rightarrow> address list \<Rightarrow> address \<Rightarrow> bool" where
  "remote_chain s head xs rest \<longleftrightarrow> chain (g_block s) head xs rest \<and> (\<forall>x \<in> set xs. g_block s x \<noteq> UNLINKED)
     \<and> (rest = 0 \<or> g_block s rest = UNLINKED \<and> rest \<notin> set xs)"

definition absorb :: "address \<Rightarrow> address \<Rightarrow> shared \<Rightarrow> shared" where
  "absorb span b s = inc_free_count span (local_push span b s)"

lemma absorb_simps [simp]:
  "g_block (absorb span b s) = (g_block s)(b := lm_free (local_of s span))"
  "sh_block_count (g_hdr (absorb span b s) a) = sh_block_count (g_hdr s a)"
  by (simp_all add: absorb_def inc_free_count_def local_push_def Let_def)

lemma append_loop_quietly:
  assumes "remote_chain s cur xs rest" "length xs \<le> k"
  shows "quietly (append_loop k span cur n) s
    (\<lambda>r t. r = (n + of_nat (length xs), rest) \<and> t = fold (absorb span) xs s)"
  using assms
proof (induction xs arbitrary: k cur n s)
  case Nil
  then show ?case by (cases k) (auto simp: remote_chain_def intro!: quiet_intros)
next
  case (Cons x xs)
  then obtain k' where k: "k = Suc k'" by (cases k) auto
  from Cons.prems have x: "cur = x" "x \<noteq> 0" "x \<notin> set xs" "g_block s x \<noteq> UNLINKED"
    and c: "remote_chain s (g_block s x) xs rest" "rest \<noteq> x"
    by (auto simp: remote_chain_def)
  have "remote_chain (absorb span x s) (g_block s x) xs rest"
    using c x by (auto simp: remote_chain_def)
  from Cons.IH [OF this, of k' "n + 1"] Cons.prems k x
  show ?case by (auto simp: absorb_def algebra_simps intro!: quiet_intros)
qed

lemma absorb_all:
  assumes "local_counted span s ys" "distinct xs" "0 \<notin> set xs" "set xs \<inter> set ys = {}"
  shows "local_counted span (fold (absorb span) xs s) (rev xs @ ys)"
  using assms
proof (induction xs arbitrary: s ys)
  case (Cons x xs)
  then have "local_counted span (absorb span x s) (x # ys)"
    unfolding absorb_def by (intro local_counted_push) auto
  from Cons.IH [OF this] Cons.prems show ?case by auto
qed simp

text \<open>
  C20. Absorbing a detached remote chain moves exactly the blocks whose links are resolved onto the
  local free list, in one pass bounded by the block count of the span: the list grows by
  them, the counter \<^verbatim>\<open>q\<close> with it, the number reported is their number, and the suffix from the
  first unresolved block on is handed back untouched.
\<close>

theorem append_moves_resolved_prefix:
  assumes "local_counted span s ys" and "remote_chain s head xs rest"
    and "set xs \<inter> set ys = {}" and "length xs \<le> unat (sh_block_count (g_hdr s span))"
  shows "quietly (append_remote_to_local_bounded span head) s (\<lambda>(appended, leftover) t.
     local_counted span t (rev xs @ ys) \<and> appended = of_nat (length xs) \<and> leftover = rest
     \<and> (rest \<noteq> 0 \<longrightarrow> g_block t rest = UNLINKED))"
proof -
  have xs: "distinct xs" "0 \<notin> set xs" "rest \<notin> set xs \<or> rest = 0" "rest \<noteq> 0 \<Longrightarrow> g_block s rest = UNLINKED"
    using assms(2) chain_distinct chain_null_free by (auto simp: remote_chain_def)
  have frame: "g_block (fold (absorb span) xs s) b = g_block s b" if "b \<notin> set xs" for b xs s
    using that by (induction xs arbitrary: s) auto
  have "local_counted span (fold (absorb span) xs s) (rev xs @ ys)"
    using assms(1,3) xs by (intro absorb_all) auto
  with xs frame [of rest xs s] show ?thesis
    unfolding append_remote_to_local_bounded_def
    by (intro quietly_bind quietly_owner_op, simp)
      (rule quietly_mono [OF append_loop_quietly [OF assms(2,4)]], auto)
qed

theorem append_moves_resolved_prefix_witness:
  "\<exists>s. quietly (append_remote_to_local_bounded 65536 67584) s (\<lambda>(appended, leftover) t.
     local_counted 65536 t [66560, 67584, 68608] \<and> appended = 2 \<and> leftover = 69632)"
proof -
  define s where "s = zero_memory\<lparr>g_block := (\<lambda>_. 0)(67584 := 66560, 66560 := 69632, 69632 := UNLINKED),
    g_hdr := (g_hdr zero_memory)(65536 := (g_hdr zero_memory 65536)\<lparr>sh_block_count := 4,
      sh_local := local_meta_new\<lparr>lm_free := 68608, lm_free_count := 1\<rparr>\<rparr>)\<rparr>"
  have l: "local_counted 65536 s [68608]"
    by (simp add: local_counted_def local_blocks_def s_def zero_memory_def local_meta_new_def)
  have r: "remote_chain s 67584 [67584, 66560] 69632"
    by (simp add: remote_chain_def s_def UNLINKED_def usize_max_def)
  have b: "length [67584, 66560 :: address] \<le> unat (sh_block_count (g_hdr s 65536))"
    by (simp add: s_def)
  from append_moves_resolved_prefix [OF l r _ b] show ?thesis
    by (intro exI [of _ s]) (auto elim!: quietly_mono)
qed

section \<open>Step bounds\<close>

context env_condition
begin

lemma ok_free_lists [simp]:
  "ok s \<Longrightarrow> ok (local_push span b s)" "ok s \<Longrightarrow> ok (inc_free_count span s)"
  "ok s \<Longrightarrow> ok (snd (local_pop span s))" "ok s \<Longrightarrow> ok (snd (remote_swap span v s))"
  by (simp_all add: local_push_def inc_free_count_def local_pop_def remote_swap_def Let_def)

lemma within_append_loop:
  assumes "0 \<le> c Scan"
  shows "within ok (weigh c) (append_loop k span cur n) (int k * c Scan)"
proof (induction k arbitrary: cur n)
  case 0
  then show ?case by (simp add: wf_within)
next
  case (Suc k)
  show ?case
    unfolding append_loop.simps
    by (rule within_mono, (rule wf_within Suc.IH | simp)+) (simp add: assms algebra_simps)
qed

lemma within_remote_ops [wf_within]:
  "within ok (weigh c) (remote_push span b) 0" "within ok (weigh c) (reclaim_all span) 0"
  unfolding remote_push_def push_publish_def push_link_def reclaim_all_def
  by (rule within_mono, (rule wf_within | simp)+)+

end

end
