(* ===== verification/Mpsc_Protocol.thy ===== *)
theory Mpsc_Protocol
  imports Free_Lists
begin

text \<open>
  The remote free list of one span with any number of producers, interleaved with its owner
  and with the users of the blocks.  The steps are the atomic accesses of
  \<^verbatim>\<open>push_publish\<close>, \<^verbatim>\<open>push_link\<close>, \<^verbatim>\<open>reclaim_all\<close>, of one iteration of
  \<^verbatim>\<open>append_remote_to_local_bounded\<close>, and the owner's local pop and push, on the memory of
  the model.  A user may overwrite any block it holds.  The theorem: no interleaving loses
  or duplicates a block.
\<close>

section \<open>The system\<close>

datatype producer = PrIdle | PrPublished address address

record mpsc =
  mp_sh :: shared
  mp_pc :: "nat \<Rightarrow> producer"
  mp_cursor :: address
  mp_out :: "address set"

definition mpsc_init :: "address \<Rightarrow> address set \<Rightarrow> mpsc \<Rightarrow> bool" where
  "mpsc_init span blocks m \<longleftrightarrow> mp_pc m = (\<lambda>_. PrIdle) \<and> mp_cursor m = 0 \<and> 0 \<notin> blocks \<and> UNLINKED \<notin> blocks
     \<and> rm_free (remote_of (mp_sh m) span) = 0 \<and> lm_free (local_of (mp_sh m) span) = 0 \<and> mp_out m = blocks"

inductive mpsc_step :: "address \<Rightarrow> mpsc \<Rightarrow> mpsc \<Rightarrow> bool" for span where
  publish: "mp_pc m t = PrIdle \<Longrightarrow> b \<in> mp_out m \<Longrightarrow>
     remote_swap span b (set_block b UNLINKED (mp_sh m)) = (old, s') \<Longrightarrow>
     mpsc_step span m (m\<lparr>mp_sh := s', mp_pc := (mp_pc m)(t := PrPublished b old), mp_out := mp_out m - {b}\<rparr>)"
| link: "mp_pc m t = PrPublished b old \<Longrightarrow>
     mpsc_step span m (m\<lparr>mp_sh := set_block b old (mp_sh m), mp_pc := (mp_pc m)(t := PrIdle)\<rparr>)"
| reclaim: "mp_cursor m = 0 \<Longrightarrow> remote_swap span 0 (mp_sh m) = (head, s') \<Longrightarrow>
     mpsc_step span m (m\<lparr>mp_sh := s', mp_cursor := head\<rparr>)"
| absorb_one: "mp_cursor m = c \<Longrightarrow> c \<noteq> 0 \<Longrightarrow> g_block (mp_sh m) c = nxt \<Longrightarrow> nxt \<noteq> UNLINKED \<Longrightarrow>
     mpsc_step span m (m\<lparr>mp_sh := absorb span c (mp_sh m), mp_cursor := nxt\<rparr>)"
| pop_local: "local_pop span (mp_sh m) = (b, s') \<Longrightarrow> b \<noteq> 0 \<Longrightarrow>
     mpsc_step span m (m\<lparr>mp_sh := s', mp_out := insert b (mp_out m)\<rparr>)"
| push_local: "b \<in> mp_out m \<Longrightarrow>
     mpsc_step span m (m\<lparr>mp_sh := local_push span b (mp_sh m), mp_out := mp_out m - {b}\<rparr>)"
| user_write: "b \<in> mp_out m \<Longrightarrow> mpsc_step span m (m\<lparr>mp_sh := set_block b v (mp_sh m)\<rparr>)"

section \<open>Where every block is\<close>

text \<open>
  The logical successor of a block is its link, or, while its producer has not stored the
  link yet, the old head that producer holds.  Along the logical successors the local
  list, the live remote list and the detached chain are three disjoint chains.
\<close>

definition logical_link :: "mpsc \<Rightarrow> (address \<Rightarrow> address) \<Rightarrow> bool" where
  "logical_link m nxt \<longleftrightarrow>
     (\<forall>t b old. mp_pc m t = PrPublished b old \<longrightarrow> nxt b = old \<and> g_block (mp_sh m) b = UNLINKED)
   \<and> (\<forall>b. b \<notin> mp_out m \<longrightarrow> (\<forall>t old. mp_pc m t \<noteq> PrPublished b old) \<longrightarrow> nxt b = g_block (mp_sh m) b)"

definition accounts :: "address \<Rightarrow> address set \<Rightarrow> mpsc \<Rightarrow> (address \<Rightarrow> address)
    \<Rightarrow> address list \<Rightarrow> address list \<Rightarrow> address list \<Rightarrow> bool" where
  "accounts span blocks m nxt ls rs cs \<longleftrightarrow>
     chain nxt (lm_free (local_of (mp_sh m) span)) ls 0
   \<and> chain nxt (rm_free (remote_of (mp_sh m) span)) rs 0
   \<and> chain nxt (mp_cursor m) cs 0
   \<and> set ls \<inter> set rs = {} \<and> set ls \<inter> set cs = {} \<and> set rs \<inter> set cs = {}
   \<and> (set ls \<union> set rs \<union> set cs) \<inter> mp_out m = {}
   \<and> set ls \<union> set rs \<union> set cs \<union> mp_out m = blocks"

definition mpsc_inv_at :: "address \<Rightarrow> address set \<Rightarrow> mpsc \<Rightarrow> (address \<Rightarrow> address)
    \<Rightarrow> address list \<Rightarrow> address list \<Rightarrow> address list \<Rightarrow> bool" where
  "mpsc_inv_at span blocks m nxt ls rs cs \<longleftrightarrow> 0 \<notin> blocks \<and> UNLINKED \<notin> blocks
   \<and> accounts span blocks m nxt ls rs cs \<and> logical_link m nxt
   \<and> (\<forall>t u b o1 o2. mp_pc m t = PrPublished b o1 \<longrightarrow> mp_pc m u = PrPublished b o2 \<longrightarrow> t = u)
   \<and> (\<forall>t b old. mp_pc m t = PrPublished b old \<longrightarrow> b \<in> set rs \<union> set cs)"

definition mpsc_inv :: "address \<Rightarrow> address set \<Rightarrow> mpsc \<Rightarrow> bool" where
  "mpsc_inv span blocks m \<longleftrightarrow> (\<exists>nxt ls rs cs. mpsc_inv_at span blocks m nxt ls rs cs)"

lemma published_not_out:
  "mpsc_inv_at span blocks m nxt ls rs cs \<Longrightarrow> b \<in> mp_out m \<Longrightarrow> mp_pc m t \<noteq> PrPublished b old"
  unfolding mpsc_inv_at_def accounts_def by blast

lemma published_not_local:
  "mpsc_inv_at span blocks m nxt ls rs cs \<Longrightarrow> b \<in> set ls \<Longrightarrow> mp_pc m t \<noteq> PrPublished b old"
  unfolding mpsc_inv_at_def accounts_def by blast

lemma out_fresh:
  "mpsc_inv_at span blocks m nxt ls rs cs \<Longrightarrow> b \<in> mp_out m \<Longrightarrow>
     b \<noteq> 0 \<and> b \<notin> set ls \<and> b \<notin> set rs \<and> b \<notin> set cs"
  unfolding mpsc_inv_at_def accounts_def by blast

lemma inv_publish:
  assumes i: "mpsc_inv_at span blocks m nxt ls rs cs" and "mp_pc m t = PrIdle" "b \<in> mp_out m"
  defines "old \<equiv> rm_free (remote_of (mp_sh m) span)"
  shows "mpsc_inv_at span blocks
    (m\<lparr>mp_sh := upd_remote (rm_free_update (\<lambda>_. b)) span (set_block b UNLINKED (mp_sh m)),
       mp_pc := (mp_pc m)(t := PrPublished b old), mp_out := mp_out m - {b}\<rparr>) (nxt(b := old)) ls (b # rs) cs"
    (is "mpsc_inv_at _ _ ?m _ _ _ _")
proof -
  note fresh = out_fresh [OF i assms(3)] and nb = published_not_out [OF i assms(3)]
  have "logical_link ?m (nxt(b := old))"
    using i nb assms(2,3) unfolding mpsc_inv_at_def logical_link_def
    by (auto; metis producer.distinct(1))
  moreover have "accounts span blocks ?m (nxt(b := old)) ls (b # rs) cs"
    using i fresh assms(3) by (auto simp: mpsc_inv_at_def accounts_def old_def)
  ultimately show ?thesis
    using i nb assms(2) unfolding mpsc_inv_at_def by auto
qed

lemma inv_link:
  assumes i: "mpsc_inv_at span blocks m nxt ls rs cs" and t: "mp_pc m t = PrPublished b old"
  shows "mpsc_inv_at span blocks
    (m\<lparr>mp_sh := set_block b old (mp_sh m), mp_pc := (mp_pc m)(t := PrIdle)\<rparr>) nxt ls rs cs"
    (is "mpsc_inv_at _ _ ?m _ _ _ _")
proof -
  have "nxt b = old" and u: "\<And>u x. mp_pc m u = PrPublished b x \<Longrightarrow> u = t"
    using i t unfolding mpsc_inv_at_def logical_link_def by blast+
  then have "logical_link ?m nxt"
    using i t unfolding mpsc_inv_at_def logical_link_def
    by (auto split: if_splits; metis producer.inject)
  with i show ?thesis unfolding mpsc_inv_at_def accounts_def by (auto split: if_splits)
qed

lemma inv_reclaim:
  assumes i: "mpsc_inv_at span blocks m nxt ls rs cs" and "mp_cursor m = 0"
  shows "mpsc_inv_at span blocks (m\<lparr>mp_sh := upd_remote (rm_free_update (\<lambda>_. 0)) span (mp_sh m),
    mp_cursor := rm_free (remote_of (mp_sh m) span)\<rparr>) nxt ls [] rs"
  using assms by (auto simp: mpsc_inv_at_def accounts_def logical_link_def chain_null; blast)

lemma inv_absorb:
  assumes i: "mpsc_inv_at span blocks m nxt ls rs (c # cs)" and "g_block (mp_sh m) c \<noteq> UNLINKED"
  shows "mpsc_inv_at span blocks (m\<lparr>mp_sh := absorb span c (mp_sh m), mp_cursor := g_block (mp_sh m) c\<rparr>)
    (nxt(c := lm_free (local_of (mp_sh m) span))) (c # ls) rs cs" (is "mpsc_inv_at _ _ ?m ?nxt _ _ _")
proof -
  have nb: "mp_pc m t \<noteq> PrPublished c old" for t old
    using i assms(2) unfolding mpsc_inv_at_def logical_link_def by blast
  moreover have "c \<notin> mp_out m" using i by (auto simp: mpsc_inv_at_def accounts_def)
  ultimately have c: "nxt c = g_block (mp_sh m) c"
    using i unfolding mpsc_inv_at_def logical_link_def by blast
  have "logical_link ?m ?nxt"
    using i nb unfolding mpsc_inv_at_def logical_link_def by (auto simp: nb)
  moreover have "accounts span blocks ?m ?nxt (c # ls) rs cs"
    using i c by (auto simp: mpsc_inv_at_def accounts_def absorb_def inc_free_count_def local_push_def Let_def)
  ultimately show ?thesis using i nb unfolding mpsc_inv_at_def by (auto; blast)
qed

lemma inv_pop:
  assumes i: "mpsc_inv_at span blocks m nxt (b # ls) rs cs"
  shows "mpsc_inv_at span blocks
    (m\<lparr>mp_sh := upd_local (lm_free_update (\<lambda>_. g_block (mp_sh m) b)) span (mp_sh m), mp_out := insert b (mp_out m)\<rparr>)
    nxt ls rs cs"
proof -
  have "mp_pc m t \<noteq> PrPublished b old" for t old using published_not_local [OF i] by simp
  moreover have "b \<notin> mp_out m" using i by (simp add: mpsc_inv_at_def accounts_def)
  ultimately have "nxt b = g_block (mp_sh m) b"
    using i unfolding mpsc_inv_at_def logical_link_def by blast
  with i show ?thesis by (auto simp: mpsc_inv_at_def accounts_def logical_link_def)
qed

lemma inv_user_write:
  assumes i: "mpsc_inv_at span blocks m nxt ls rs cs" and "b \<in> mp_out m"
  shows "mpsc_inv_at span blocks (m\<lparr>mp_sh := set_block b v (mp_sh m)\<rparr>) nxt ls rs cs"
  using assms published_not_out [OF assms]
  by (auto simp: mpsc_inv_at_def accounts_def logical_link_def)

lemma inv_push:
  assumes i: "mpsc_inv_at span blocks m nxt ls rs cs" and "b \<in> mp_out m"
  shows "mpsc_inv_at span blocks (m\<lparr>mp_sh := local_push span b (mp_sh m), mp_out := mp_out m - {b}\<rparr>)
    (nxt(b := lm_free (local_of (mp_sh m) span))) (b # ls) rs cs" (is "mpsc_inv_at _ _ ?m ?nxt _ _ _")
proof -
  note fresh = out_fresh [OF assms] and nb = published_not_out [OF assms]
  have "logical_link ?m ?nxt"
    using i nb unfolding mpsc_inv_at_def logical_link_def local_push_def by (auto simp: Let_def nb)
  moreover have "accounts span blocks ?m ?nxt (b # ls) rs cs"
    using i fresh assms(2) by (auto simp: mpsc_inv_at_def accounts_def local_push_def Let_def)
  ultimately show ?thesis using i nb unfolding mpsc_inv_at_def by auto
qed

lemma mpsc_inv_step:
  assumes "mpsc_inv span blocks m" "mpsc_step span m m'"
  shows "mpsc_inv span blocks m'"
proof -
  from assms(1) obtain nxt ls rs cs where i: "mpsc_inv_at span blocks m nxt ls rs cs"
    by (auto simp: mpsc_inv_def)
  then have ch: "chain nxt (lm_free (local_of (mp_sh m) span)) ls 0" "chain nxt (mp_cursor m) cs 0"
    by (simp_all add: mpsc_inv_at_def accounts_def)
  from assms(2) have "\<exists>nxt' ls' rs' cs'. mpsc_inv_at span blocks m' nxt' ls' rs' cs'"
  proof cases
    case (publish t b old s')
    then show ?thesis using inv_publish [OF i, of t b] by (auto simp: remote_swap_def)
  next
    case (absorb_one c n)
    then obtain cs' where "cs = c # cs'" using ch(2) by (auto simp: chain_nonnull)
    with absorb_one i show ?thesis using inv_absorb [of span blocks m nxt ls rs c cs'] by auto
  next
    case (pop_local b s')
    then obtain ls' where "ls = b # ls'" using ch(1)
      by (auto simp: local_pop_def Let_def chain_nonnull split: if_splits)
    with pop_local i show ?thesis using inv_pop [of span blocks m nxt b ls' rs cs]
      by (auto simp: local_pop_def Let_def split: if_splits)
  next
    case (reclaim head s')
    then show ?thesis using inv_reclaim [OF i] by (auto simp: remote_swap_def)
  qed (use inv_link [OF i] inv_user_write [OF i] inv_push [OF i] in blast)+
  then show ?thesis by (simp add: mpsc_inv_def)
qed

interpretation mpsc_threads: inductive_invariant "mpsc_init span blocks" "mpsc_step span" "mpsc_inv span blocks"
  for span blocks
proof
  show "mpsc_init span blocks s \<Longrightarrow> mpsc_inv span blocks s" for s
    unfolding mpsc_inv_def
    by (rule exI [of _ "g_block (mp_sh s)"], rule exI [of _ "[]"], rule exI [of _ "[]"], rule exI [of _ "[]"])
      (auto simp: mpsc_init_def mpsc_inv_at_def accounts_def logical_link_def)
  show "mpsc_inv span blocks s \<Longrightarrow> mpsc_step span s t \<Longrightarrow> mpsc_inv span blocks t" for s t
    by (rule mpsc_inv_step)
qed

section \<open>Nothing is lost\<close>

lemma stalled_producer:
  assumes i: "mpsc_inv_at span blocks m nxt ls rs cs"
    and c: "mp_cursor m = c" "c \<noteq> 0" "g_block (mp_sh m) c = UNLINKED"
  shows "\<exists>t old. mp_pc m t = PrPublished c old"
proof (rule ccontr)
  assume np: "\<not> ?thesis"
  obtain cs' where cs: "cs = c # cs'" and ch: "chain nxt (nxt c) cs' 0"
    using i c by (auto simp: mpsc_inv_at_def accounts_def chain_nonnull)
  have "c \<notin> mp_out m" using i cs by (auto simp: mpsc_inv_at_def accounts_def)
  then have "nxt c = UNLINKED" using i np c(3) unfolding mpsc_inv_at_def logical_link_def by metis
  moreover have "UNLINKED \<noteq> 0" by (simp add: UNLINKED_def usize_max_def)
  moreover have "set cs \<subseteq> blocks" "UNLINKED \<notin> blocks" using i by (auto simp: mpsc_inv_at_def accounts_def)
  ultimately show False using ch cs by (auto simp: chain_nonnull)
qed

lemma idle_links_physical:
  assumes "mpsc_inv_at span blocks m nxt ls rs cs" "\<forall>t. mp_pc m t = PrIdle"
  shows "accounts span blocks m (g_block (mp_sh m)) ls rs cs"
proof -
  have "nxt b = g_block (mp_sh m) b" if "b \<in> set ls \<union> set rs \<union> set cs" for b
    using assms that unfolding mpsc_inv_at_def logical_link_def accounts_def by (metis (no_types, lifting)
        disjoint_iff producer.distinct(1))
  then have "chain nxt p xs 0 = chain (g_block (mp_sh m)) p xs 0" if "set xs \<subseteq> set ls \<union> set rs \<union> set cs" for p xs
    using that by (intro chain_cong) blast
  with assms(1) show ?thesis by (auto simp: mpsc_inv_at_def accounts_def)
qed

text \<open>
  C9. Whatever the interleaving of publishing, linking, reclaiming, absorbing and of the users'
  writes into their own blocks, every block of the span is at every moment in exactly one
  place: held by a user, on the local list, on the live remote list, or on the detached
  chain.  When no producer is between its SWAP and its link store the three lists are
  chains of the memory itself, and the consumer finds an unlinked block only while that
  block's producer is between the two.
\<close>

theorem mpsc_no_block_lost:
  assumes "reachable (mpsc_init span blocks) (mpsc_step span) m"
  shows "\<exists>nxt ls rs cs. accounts span blocks m nxt ls rs cs \<and> logical_link m nxt
      \<and> ((\<forall>t. mp_pc m t = PrIdle) \<longrightarrow> accounts span blocks m (g_block (mp_sh m)) ls rs cs)
      \<and> (mp_cursor m \<noteq> 0 \<and> g_block (mp_sh m) (mp_cursor m) = UNLINKED \<longrightarrow>
           (\<exists>t old. mp_pc m t = PrPublished (mp_cursor m) old))"
proof -
  from mpsc_threads.always [OF assms] obtain nxt ls rs cs
    where i: "mpsc_inv_at span blocks m nxt ls rs cs" by (auto simp: mpsc_inv_def)
  then have "accounts span blocks m nxt ls rs cs" "logical_link m nxt" by (simp_all add: mpsc_inv_at_def)
  with idle_links_physical [OF i] stalled_producer [OF i] show ?thesis by blast
qed

text \<open>A producer that stopped between its SWAP and its link store, met by the consumer.\<close>

lemma stall_reachable:
  "\<exists>m. reachable (mpsc_init 65536 {66560, 67584}) (mpsc_step 65536) m
     \<and> mp_cursor m = 66560 \<and> g_block (mp_sh m) 66560 = UNLINKED"
proof -
  define m0 :: mpsc where
    "m0 = \<lparr>mp_sh = zero_memory, mp_pc = \<lambda>_. PrIdle, mp_cursor = 0, mp_out = {66560, 67584}\<rparr>"
  define m1 where "m1 = m0\<lparr>mp_sh := snd (remote_swap 65536 66560 (set_block 66560 UNLINKED (mp_sh m0))),
    mp_pc := (mp_pc m0)(3 := PrPublished 66560 0), mp_out := mp_out m0 - {66560}\<rparr>"
  define m2 where "m2 = m1\<lparr>mp_sh := snd (remote_swap 65536 0 (mp_sh m1)), mp_cursor := 66560\<rparr>"
  note defs = m0_def m1_def m2_def zero_memory_def remote_meta_new_def local_meta_new_def
    remote_swap_def UNLINKED_def usize_max_def
  have "reachable (mpsc_init 65536 {66560, 67584}) (mpsc_step 65536) m0"
    by (rule reachable.start) (simp add: mpsc_init_def defs)
  moreover have "mpsc_step 65536 m0 m1"
    unfolding m1_def by (rule mpsc_step.publish) (simp_all add: defs)
  moreover have "mpsc_step 65536 m1 m2"
    unfolding m2_def by (rule mpsc_step.reclaim) (simp_all add: defs)
  ultimately have "reachable (mpsc_init 65536 {66560, 67584}) (mpsc_step 65536) m2" by (meson reachable.step)
  then show ?thesis by (intro exI [of _ m2]) (simp add: defs)
qed

theorem mpsc_no_block_lost_witness:
  "\<exists>m. reachable (mpsc_init 65536 {66560, 67584}) (mpsc_step 65536) m
     \<and> g_block (mp_sh m) (mp_cursor m) = UNLINKED \<and> (\<exists>t old. mp_pc m t = PrPublished 66560 old)"
proof -
  obtain m where m: "reachable (mpsc_init 65536 {66560, 67584}) (mpsc_step 65536) m"
    "mp_cursor m = 66560" "g_block (mp_sh m) 66560 = UNLINKED" using stall_reachable by blast
  then show ?thesis using mpsc_no_block_lost [OF m(1)] by (intro exI [of _ m]) auto
qed

end
