(* ===== verification/Spans.thy ===== *)
theory Spans
  imports Free_Lists
begin

text \<open>
  Spans and runs (\<^verbatim>\<open>src/span.rs\<close>): recovery of the header from a pointer, initialisation of a
  span and of a run, owner-local allocation and free.  The theorems: the blocks of a span tile
  it without overlap behind the header, every block leads back to its span, a fresh span's
  free list holds all of them, and a local free undoes a local allocation.
\<close>

unbundle bit_operations_syntax

section \<open>Operations\<close>

definition span_from_ptr :: "address \<Rightarrow> address" where
  "span_from_ptr ptr = ptr AND NOT (SPAN_SIZE - 1)"

definition span_header_fresh :: "nat \<Rightarrow> usize \<Rightarrow> usize \<Rightarrow> usize \<Rightarrow> span_state \<Rightarrow> span_header" where
  "span_header_fresh sclass block_size block_count owner st = \<lparr>sh_owner = owner,
     sh_size_class = sclass, sh_block_size = block_size, sh_block_count = block_count,
     sh_state = st, sh_node = 0, sh_local = local_meta_new, sh_remote = remote_meta_new\<rparr>"

text \<open>\<^verbatim>\<open>ptr::write\<close> of a fresh header: the header cell and the node embedded in it.\<close>

definition write_header :: "address \<Rightarrow> span_header \<Rightarrow> shared \<Rightarrow> shared" where
  "write_header span h s = upd_node (\<lambda>_. span_node_new) (node_storage_of span) (upd_hdr (\<lambda>_. h) span s)"

fun link_blocks :: "nat \<Rightarrow> address \<Rightarrow> usize \<Rightarrow> usize \<Rightarrow> address \<Rightarrow> shared \<Rightarrow> address \<times> shared" where
  "link_blocks 0 base_addr first block_size head s = (head, s)"
| "link_blocks (Suc i) base_addr first block_size head s =
     (let b = base_addr + first + of_nat i * block_size
      in link_blocks i base_addr first block_size b (set_block b head s))"

definition init_span :: "address \<Rightarrow> nat \<Rightarrow> usize \<Rightarrow> usize \<Rightarrow> shared \<Rightarrow> address \<times> shared" where
  "init_span base sclass block_size owner s =
     (let span = base;
          s1 = write_header span (span_header_fresh sclass block_size 0 owner FullLocal) s;
          s2 = upd_hdr (sh_node_update (\<lambda>_. node_storage_of span)) span s1;
          first = first_block_offset block_size;
          count = (SPAN_SIZE - first) div block_size;
          s3 = upd_hdr (sh_block_count_update (\<lambda>_. count)) span s2;
          (head, s4) = link_blocks (unat count) base first block_size 0 s3;
          s5 = push_chain_head_for_init span head s4;
          s6 = upd_local (lm_free_count_update (\<lambda>_. count)) span s5
      in (span, s6))"

definition init_run :: "address \<Rightarrow> nat \<Rightarrow> usize \<Rightarrow> usize \<Rightarrow> shared \<Rightarrow> address \<times> shared" where
  "init_run base run_class span_count owner s =
     (let run = base;
          s1 = write_header run (span_header_fresh run_class (span_count * SPAN_SIZE) span_count owner RunAllocated) s;
          s2 = upd_hdr (sh_node_update (\<lambda>_. node_storage_of run)) run s1
      in (run, s2))"

definition alloc_from_local_span :: "address \<Rightarrow> address prog" where
  "alloc_from_local_span span = do {
     tick local_steps_update;
     block \<leftarrow> owner_op (local_pop span);
     if block = 0 then ret 0
     else do {
       q \<leftarrow> owner_get (\<lambda>s. lm_free_count (local_of s span));
       owner_put (upd_local (lm_free_count_update (\<lambda>_. q - 1)) span);
       owner_put (set_span_state span NonEmptyLocal);
       ret (block_payload block) } }"

definition dealloc_to_local_span :: "address \<Rightarrow> address \<Rightarrow> unit prog" where
  "dealloc_to_local_span span block = do {
     owner_put (local_push span block);
     q \<leftarrow> owner_get (\<lambda>s. lm_free_count (local_of s span));
     owner_put (upd_local (lm_free_count_update (\<lambda>_. q + 1)) span) }"

definition span_counts :: "address \<Rightarrow> shared \<Rightarrow> usize \<times> isize \<times> usize" where
  "span_counts span s = (lm_free_count (local_of s span), rm_free_count (remote_of s span),
     sh_block_count (g_hdr s span))"

lemmas span_ops [wf_ops] = alloc_from_local_span_def dealloc_to_local_span_def write_header_def
  span_header_fresh_def push_chain_head_for_init_def

section \<open>Geometry\<close>

text \<open>Block \<open>i\<close> of a span of class \<open>c\<close>.\<close>

definition block_at :: "address \<Rightarrow> nat \<Rightarrow> nat \<Rightarrow> address" where
  "block_at span c i = span + first_block_offset (class_to_size c) + of_nat i * class_to_size c"

definition block_total :: "nat \<Rightarrow> nat" where
  "block_total c = unat (blocks_per_span (class_to_size c))"

text \<open>A span address: aligned, not null, and with its whole span inside the address space.\<close>

definition span_base :: "address \<Rightarrow> bool" where
  "span_base a \<longleftrightarrow> 65536 dvd unat a \<and> a \<noteq> 0"

lemma span_base_room: "span_base a \<Longrightarrow> unat a + 65536 \<le> 2 ^ 64"
proof -
  assume "span_base a"
  then obtain m where m: "unat a = 65536 * m" by (auto simp: span_base_def)
  have "65536 * m < 65536 * 2 ^ 48" using unat_word_lt [of a] unfolding m by simp
  then have "Suc m \<le> 2 ^ 48" by simp
  then show ?thesis unfolding m by simp
qed

lemma span_from_ptr_unat: "unat (span_from_ptr p) = unat p div 65536 * 65536"
proof -
  have "unat (span_from_ptr p) = unat p div 2 ^ 16 * 2 ^ 16"
    unfolding span_from_ptr_def config_exps(1) by (rule unat_and_not_mask) simp
  then show ?thesis by simp
qed

lemma span_from_interior:
  assumes "span_base span" "unat span \<le> unat p" "unat p < unat span + 65536"
  shows "span_from_ptr p = span"
proof -
  obtain m where m: "unat span = 65536 * m" using assms(1) by (auto simp: span_base_def)
  then have "unat p div 65536 = m" using assms(2,3) by (intro div_nat_eqI) auto
  then show ?thesis unfolding word_eq_iff_unat span_from_ptr_unat m by simp
qed

lemma block_offset_bound:
  assumes "c < 11" "i < block_total c"
  shows "max 1024 (2 ^ (c + 4)) + i * 2 ^ (c + 4) + 2 ^ (c + 4) \<le> 65536"
  using block_fits [OF assms(1), of i] assms by (simp add: block_total_def first_block_offset_unat algebra_simps)

lemma block_at_unat:
  assumes "span_base span" "c < 11" "i < block_total c"
  shows "unat (block_at span c i) = unat span + max 1024 (2 ^ (c + 4)) + i * 2 ^ (c + 4)"
proof -
  note b = block_offset_bound [OF assms(2,3)] and r = span_base_room [OF assms(1)]
  have f: "unat (first_block_offset (class_to_size c)) = max 1024 (2 ^ (c + 4))"
    using assms(2) by (rule first_block_offset_unat)
  have k: "unat (class_to_size c) = 2 ^ (c + 4)" using assms(2) by (intro class_to_size_unat) simp
  have "i \<le> i * 2 ^ (c + 4)" by simp
  with b have "i \<le> 65536" by linarith
  then have i: "unat (of_nat i :: usize) = i" by (intro unat_of_nat_small) simp
  have m: "unat (of_nat i * class_to_size c) = i * 2 ^ (c + 4)"
    using b by (subst unat_mult_nowrap) (simp_all add: i k)
  have s: "unat (span + first_block_offset (class_to_size c)) = unat span + max 1024 (2 ^ (c + 4))"
    using b r by (subst unat_add_nowrap) (simp_all add: f)
  have "0 < (2 :: nat) ^ (c + 4)" by simp
  with b r have "unat span + max 1024 (2 ^ (c + 4)) + i * 2 ^ (c + 4) < 2 ^ 64" by linarith
  then show ?thesis unfolding block_at_def by (subst unat_add_nowrap) (simp_all add: s m)
qed

lemma block_at_aligned:
  assumes "span_base span" "c < 11" "i < block_total c"
  shows "is_aligned (block_at span c i) (class_to_size c)"
proof -
  let ?s = "2 ^ (c + 4) :: nat"
  have k: "unat (class_to_size c) = ?s" using assms(2) by (intro class_to_size_unat) simp
  note c = assms(2) and ui = block_at_unat [OF assms]
  have "?s dvd 2 ^ 16" using c by (intro le_imp_power_dvd) simp
  moreover have "(2 :: nat) ^ 16 = 65536" by simp
  ultimately have "?s dvd 65536" by simp
  then have "?s dvd unat span" using assms(1) unfolding span_base_def by (meson dvd_trans)
  moreover have "?s dvd max 1024 ?s"
  proof (cases "c \<le> 6")
    case True
    then have "?s dvd 2 ^ 10" by (intro le_imp_power_dvd) simp
    moreover have "?s \<le> 2 ^ 10" using True by (intro power_increasing) auto
    ultimately show ?thesis by (simp add: max_def)
  next
    case False
    then have "(2 :: nat) ^ 10 \<le> ?s" by (intro power_increasing) auto
    then show ?thesis by (simp add: max_def)
  qed
  ultimately have al: "?s dvd unat (block_at span c i)" unfolding ui by simp
  show ?thesis using al c by (subst is_aligned_unat) (simp_all add: class_to_size_pow2 k)
qed

text \<open>
  C29. For every supported class the blocks of a span are aligned to their size, lie between the
  header reserve and the end of the span, do not overlap, and masking any address inside a
  block gives the span back.
\<close>

theorem blocks_tile_span:
  assumes "span_base span" and "c < MAX_SUPPORTED_CLASSES" and "i < block_total c" and "j < block_total c"
  shows "is_aligned (block_at span c i) (class_to_size c)
    \<and> unat span + unat SPAN_HEADER_RESERVE \<le> unat (block_at span c i)
    \<and> unat (block_at span c i) + unat (class_to_size c) \<le> unat span + unat SPAN_SIZE
    \<and> (i < j \<longrightarrow> unat (block_at span c i) + unat (class_to_size c) \<le> unat (block_at span c j))
    \<and> (\<forall>p. unat (block_at span c i) \<le> unat p \<and> unat p < unat (block_at span c i) + unat (class_to_size c)
         \<longrightarrow> span_from_ptr p = span)"
proof -
  have c: "c < 11" using assms(2) by (simp add: wf_config)
  let ?s = "2 ^ (c + 4) :: nat"
  have k: "unat (class_to_size c) = ?s" using c by (intro class_to_size_unat) simp
  note ui = block_at_unat [OF assms(1) c assms(3)] and uj = block_at_unat [OF assms(1) c assms(4)]
  note b = block_offset_bound [OF c assms(3)]
  have step: "i * ?s + ?s \<le> j * ?s" if "i < j"
    using that mult_le_mono1 [of "Suc i" j ?s] by simp
  have inside: "span_from_ptr p = span" if "unat (block_at span c i) \<le> unat p" "unat p < unat (block_at span c i) + ?s" for p
    using that b unfolding ui by (intro span_from_interior [OF assms(1)]) linarith+
  have "is_aligned (block_at span c i) (class_to_size c)"
    using assms(1,3) c by (intro block_at_aligned)
  moreover have "1024 \<le> max 1024 ?s + i * ?s" by (rule trans_le_add1) simp
  ultimately show ?thesis
    using b step inside by (simp add: k ui uj wf_config)
qed

theorem blocks_tile_span_witness:
  "block_total 10 = 3 \<and> block_at 65536 10 1 = 98304 \<and> is_aligned (block_at 65536 10 1) (class_to_size 10)
     \<and> unat (block_at 65536 10 1) + unat (class_to_size 10) \<le> unat (block_at 65536 10 2)
     \<and> span_from_ptr 100000 = 65536"
proof -
  have b: "block_total 10 = 3" by (simp add: block_total_def blocks_per_span_unat)
  have s: "span_base 65536" "10 < MAX_SUPPORTED_CLASSES" by (simp_all add: span_base_def wf_config)
  have f: "class_to_size 10 = 16384" "first_block_offset 16384 = 16384"
    by (simp_all add: class_to_size_exp first_block_offset_def round_up_def wf_config)
  have a: "block_at 65536 10 (Suc 0) = 98304" by (simp add: block_at_def f)
  show ?thesis
    using blocks_tile_span [OF s, of 1 2] by (simp add: b a f)
qed

section \<open>A fresh span\<close>

lemma link_blocks_frame:
  "link_blocks n base first bs head s = (h, t) \<Longrightarrow>
     g_hdr t = g_hdr s \<and> g_node t = g_node s \<and> g_lhdr t = g_lhdr s \<and> g_active t = g_active s
     \<and> g_heaps t = g_heaps s \<and> g_records t = g_records s \<and> g_run_records t = g_run_records s
     \<and> g_pool t = g_pool s \<and> g_registry t = g_registry s \<and> g_stats t = g_stats s \<and> g_huge t = g_huge s"
  by (induction n arbitrary: head s) (auto simp: Let_def)

lemma link_blocks_chain:
  assumes "chain (g_block s) head xs 0"
    and "\<And>i j. i < n \<Longrightarrow> j < n \<Longrightarrow> i \<noteq> j \<Longrightarrow> blk i \<noteq> blk j" "\<And>i. i < n \<Longrightarrow> blk i \<noteq> 0 \<and> blk i \<notin> set xs"
    and "\<And>i. blk i = base + first + of_nat i * bs"
    and "link_blocks n base first bs head s = (h, t)"
  shows "chain (g_block t) h (List.map blk [0..<n] @ xs) 0"
  using assms
proof (induction n arbitrary: head s xs)
  case (Suc n)
  let ?b = "blk n"
  have 1: "chain (g_block (set_block ?b head s)) ?b (?b # xs) 0"
    using Suc.prems(1,3) by (simp add: chain_push)
  have 2: "link_blocks n base first bs ?b (set_block ?b head s) = (h, t)"
    using Suc.prems(5) by (simp add: Suc.prems(4) Let_def)
  have "chain (g_block t) h (List.map blk [0..<n] @ (?b # xs)) 0"
    by (rule Suc.IH [OF 1 _ _ Suc.prems(4) 2]) (use Suc.prems(2,3) in auto)
  then show ?case by simp
qed simp

lemma link_blocks_outside:
  "link_blocks n base first bs head s = (h, t) \<Longrightarrow> (\<And>i. i < n \<Longrightarrow> b \<noteq> base + first + of_nat i * bs) \<Longrightarrow>
     g_block t b = g_block s b"
  by (induction n arbitrary: head s) (auto simp: Let_def)

lemma block_at_inj:
  assumes "span_base span" "c < 11" "i < block_total c" "j < block_total c" "i \<noteq> j"
  shows "block_at span c i \<noteq> block_at span c j"
  using assms by (simp add: word_eq_iff_unat block_at_unat)

lemma block_at_nonnull:
  assumes "span_base span" "c < 11" "i < block_total c"
  shows "block_at span c i \<noteq> 0" "block_at span c i \<noteq> UNLINKED"
proof -
  have "(2 :: nat) ^ 4 \<le> 2 ^ (c + 4)" by (intro power_increasing) auto
  with block_offset_bound [OF assms(2,3)] span_base_room [OF assms(1)] block_at_unat [OF assms]
  have "unat (block_at span c i) < 2 ^ 64 - 1" by simp
  moreover have "1024 \<le> unat (block_at span c i)"
    unfolding block_at_unat [OF assms] by (intro trans_le_add1 trans_le_add2 max.cobounded1)
  ultimately show "block_at span c i \<noteq> 0" "block_at span c i \<noteq> UNLINKED"
    by (auto simp: word_eq_iff_unat UNLINKED_def)
qed

text \<open>The blocks of a span in address order.\<close>

definition span_blocks :: "address \<Rightarrow> nat \<Rightarrow> address list" where
  "span_blocks span c = List.map (block_at span c) [0..<block_total c]"

lemma init_span_facts:
  assumes "span_base base" and "c < MAX_SUPPORTED_CLASSES"
    and "init_span base c (class_to_size c) owner s = (span, t)"
  shows "span = base \<and> local_counted span t (span_blocks span c) \<and> distinct (span_blocks span c)
    \<and> span_counts span t = (blocks_per_span (class_to_size c), 0, blocks_per_span (class_to_size c))
    \<and> sh_owner (g_hdr t span) = owner \<and> sh_size_class (g_hdr t span) = c \<and> sh_state (g_hdr t span) = FullLocal
    \<and> sh_node (g_hdr t span) = node_storage_of span \<and> g_node t (node_storage_of span) = span_node_new
    \<and> lm_pending_remote (local_of t span) = 0 \<and> rm_free (remote_of t span) = 0
    \<and> (\<forall>a. a \<noteq> span \<longrightarrow> g_hdr t a = g_hdr s a) \<and> (\<forall>b. b \<notin> set (span_blocks span c) \<longrightarrow> g_block t b = g_block s b)"
proof -
  have c: "c < 11" using assms(2) by (simp add: wf_config)
  let ?n = "block_total c" and ?bs = "class_to_size c"
  define s3 where "s3 = upd_hdr (sh_block_count_update (\<lambda>_. blocks_per_span ?bs)) base
    (upd_hdr (sh_node_update (\<lambda>_. node_storage_of base)) base
      (write_header base (span_header_fresh c ?bs 0 owner FullLocal) s))"
  obtain h s4 where l: "link_blocks ?n base (first_block_offset ?bs) ?bs 0 s3 = (h, s4)"
    by (cases "link_blocks ?n base (first_block_offset ?bs) ?bs 0 s3")
  have t: "span = base" "t = upd_local (lm_free_count_update (\<lambda>_. blocks_per_span ?bs)) base
      (push_chain_head_for_init base h s4)"
    using assms(3) l by (auto simp: init_span_def s3_def Let_def blocks_per_span_def block_total_def)
  have "chain (g_block s4) h (List.map (block_at base c) [0..<?n] @ []) 0"
    by (rule link_blocks_chain [OF _ _ _ _ l])
      (use block_at_inj [OF assms(1) c] block_at_nonnull [OF assms(1) c] in \<open>auto simp: block_at_def\<close>)
  moreover have "g_block s4 b = g_block s b" if "b \<notin> set (span_blocks base c)" for b
  proof -
    have "b \<noteq> block_at base c i" if "i < ?n" for i
      using \<open>b \<notin> set (span_blocks base c)\<close> that by (auto simp: span_blocks_def)
    then show ?thesis
      using link_blocks_outside [OF l, of b] by (simp add: block_at_def s3_def write_header_def)
  qed
  moreover have "distinct (span_blocks base c)"
    unfolding span_blocks_def distinct_map
    by (rule conjI, simp) (rule inj_onI, use block_at_inj [OF assms(1) c] in force)
  ultimately show ?thesis
    using link_blocks_frame [OF l]
    by (simp add: t local_counted_def local_blocks_def push_chain_head_for_init_def span_counts_def
        span_blocks_def s3_def write_header_def span_header_fresh_def local_meta_new_def
        remote_meta_new_def block_total_def)
qed

text \<open>
  C28. Initialising a raw span of a supported class hands it to its owner with a free list that holds
  every block of the span exactly once, in address order, with \<^verbatim>\<open>q = m\<close> and \<^verbatim>\<open>g = 0\<close>, its own
  node, nothing pending; it touches no other header and no link outside the span's blocks.
\<close>

theorem init_span_full:
  assumes "span_base base" and "c < MAX_SUPPORTED_CLASSES"
    and "init_span base c (class_to_size c) owner s = (span, t)"
  shows "span = base \<and> local_counted span t (span_blocks span c) \<and> distinct (span_blocks span c)
    \<and> span_counts span t = (blocks_per_span (class_to_size c), 0, blocks_per_span (class_to_size c))
    \<and> sh_owner (g_hdr t span) = owner \<and> sh_size_class (g_hdr t span) = c \<and> sh_state (g_hdr t span) = FullLocal
    \<and> sh_node (g_hdr t span) = node_storage_of span \<and> g_node t (node_storage_of span) = span_node_new
    \<and> lm_pending_remote (local_of t span) = 0 \<and> rm_free (remote_of t span) = 0
    \<and> (\<forall>a. a \<noteq> span \<longrightarrow> g_hdr t a = g_hdr s a) \<and> (\<forall>b. b \<notin> set (span_blocks span c) \<longrightarrow> g_block t b = g_block s b)"
  using assms by (rule init_span_facts)

theorem init_span_full_witness:
  "\<exists>t. init_span 65536 10 (class_to_size 10) 7 zero_memory = (65536, t)
     \<and> local_counted 65536 t [81920, 98304, 114688] \<and> span_counts 65536 t = (3, 0, 3)"
proof -
  obtain span t where i: "init_span 65536 10 (class_to_size 10) 7 zero_memory = (span, t)" by force
  have b: "block_total 10 = 3" "blocks_per_span (class_to_size 10) = 3"
    using blocks_per_span_unat [of 10] by (simp_all add: block_total_def word_eq_iff_unat)
  have f: "class_to_size 10 = 16384" "first_block_offset 16384 = 16384"
    by (simp_all add: class_to_size_exp first_block_offset_def round_up_def wf_config)
  have "span_blocks 65536 10 = [81920, 98304, 114688]"
    by (simp add: span_blocks_def b block_at_def f upt_rec)
  with init_span_full [OF _ _ i] i b show ?thesis by (auto simp: span_base_def wf_config)
qed

section \<open>Owner-local allocation\<close>

definition take_block :: "address \<Rightarrow> shared \<Rightarrow> shared" where
  "take_block span s = upd_hdr (\<lambda>h. h\<lparr>sh_local := (sh_local h)\<lparr>lm_free := g_block s (lm_free (sh_local h)),
     lm_free_count := lm_free_count (sh_local h) - 1\<rparr>, sh_state := NonEmptyLocal\<rparr>) span s"

definition give_block :: "address \<Rightarrow> address \<Rightarrow> shared \<Rightarrow> shared" where
  "give_block span b s = absorb span b s"

lemma alloc_from_local_span_quietly:
  "quietly (alloc_from_local_span span) s (\<lambda>p t. p = lm_free (local_of s span)
     \<and> t = (if p = 0 then s else take_block span s))"
  unfolding alloc_from_local_span_def
  by (cases "g_hdr s span"; cases "local_of s span")
    (auto intro!: quiet_intros simp: local_pop_def Let_def block_payload_def take_block_def upd_hdr_def)

lemma dealloc_to_local_span_quietly:
  "quietly (dealloc_to_local_span span b) s (\<lambda>_ t. t = give_block span b s)"
  unfolding dealloc_to_local_span_def
  by (cases "g_hdr s span"; cases "local_of s span")
    (auto intro!: quiet_intros simp: give_block_def absorb_def inc_free_count_def local_push_def
      Let_def upd_hdr_def set_block_def)

lemma local_counted_take:
  "local_counted span s (x # xs) \<Longrightarrow> local_counted span (take_block span s) xs"
  by (auto simp: local_counted_def local_blocks_def take_block_def)

lemma local_counted_give:
  "local_counted span s xs \<Longrightarrow> x \<noteq> 0 \<Longrightarrow> x \<notin> set xs \<Longrightarrow> local_counted span (give_block span x s) (x # xs)"
  unfolding give_block_def absorb_def by (rule local_counted_push)

text \<open>
  Allocating from a span with free blocks returns the top of its free list and freeing that block
  restores the free list and its count; allocating from a span without free blocks returns
  null and changes nothing.
\<close>

lemma local_alloc_free_round_trip:
  assumes "local_counted span s xs"
  shows "quietly (do { p \<leftarrow> alloc_from_local_span span;
                       if p = 0 then ret p else do { dealloc_to_local_span span (block_from_payload p); ret p } }) s
     (\<lambda>p t. local_counted span t xs \<and> (if xs = [] then p = 0 \<and> t = s else p = hd xs))"
proof (cases xs)
  case Nil
  with assms have "lm_free (local_of s span) = 0" by (simp add: local_counted_def local_blocks_def)
  with Nil assms show ?thesis
    by (intro quietly_then [OF alloc_from_local_span_quietly]) auto
next
  case (Cons x ys)
  with assms have x: "lm_free (local_of s span) = x" "x \<noteq> 0" "x \<notin> set ys"
    by (auto simp: local_counted_def local_blocks_def)
  have "local_counted span (give_block span x (take_block span s)) xs"
    using assms x unfolding Cons by (intro local_counted_give local_counted_take)
  with Cons x show ?thesis
    by (intro quietly_then [OF alloc_from_local_span_quietly])
      (auto simp: block_from_payload_def intro!: quietly_then [OF dealloc_to_local_span_quietly])
qed

context env_condition
begin

lemma within_local_span_ops [wf_within]:
  "within ok (weigh c) (alloc_from_local_span span) (c Local)"
  "within ok (weigh c) (dealloc_to_local_span span b) 0"
  unfolding alloc_from_local_span_def dealloc_to_local_span_def
  by (rule within_mono, (rule wf_within | simp)+)+

end

end
