(* ===== verification/Span_Lists.thy ===== *)
theory Span_Lists
  imports Spans
begin

text \<open>
  The owner-only lists of spans and runs (\<^verbatim>\<open>LocalSpanList\<close> of \<^verbatim>\<open>src/heap.rs\<close>), linked through the
  headers.  A list is named by its lane and the index of its thread.  The contract is that
  of a deque with removal; the interpretation shows that head, tail, length and links
  implement it.
\<close>

section \<open>Operations\<close>

definition next_local :: "shared \<Rightarrow> address \<Rightarrow> address" where
  "next_local s a = lm_next_local (local_of s a)"

definition set_next_local :: "address \<Rightarrow> address \<Rightarrow> shared \<Rightarrow> shared" where
  "set_next_local a v = upd_local (lm_next_local_update (\<lambda>_. v)) a"

definition list_front :: "lane \<Rightarrow> nat \<Rightarrow> shared \<Rightarrow> address" where
  "list_front l i s = ls_head (local_list s l i)"

definition list_len :: "lane \<Rightarrow> nat \<Rightarrow> shared \<Rightarrow> usize" where
  "list_len l i s = ls_len (local_list s l i)"

definition list_is_empty :: "lane \<Rightarrow> nat \<Rightarrow> shared \<Rightarrow> bool" where
  "list_is_empty l i s \<longleftrightarrow> list_len l i s = 0"

definition push_front :: "lane \<Rightarrow> nat \<Rightarrow> address \<Rightarrow> shared \<Rightarrow> shared" where
  "push_front l i span s =
     (let old = ls_head (local_list s l i);
          s1 = set_next_local span old s;
          s2 = upd_local_list l i (ls_head_update (\<lambda>_. span)) s1;
          s3 = (if old = 0 then upd_local_list l i (ls_tail_update (\<lambda>_. span)) s2 else s2)
      in upd_local_list l i (ls_len_update (\<lambda>n. n + 1)) s3)"

definition push_back :: "lane \<Rightarrow> nat \<Rightarrow> address \<Rightarrow> shared \<Rightarrow> shared" where
  "push_back l i span s =
     (let s1 = set_next_local span 0 s;
          tail = ls_tail (local_list s1 l i);
          s2 = (if tail = 0 then upd_local_list l i (ls_head_update (\<lambda>_. span)) s1
                else set_next_local tail span s1);
          s3 = upd_local_list l i (ls_tail_update (\<lambda>_. span)) s2
      in upd_local_list l i (ls_len_update (\<lambda>n. n + 1)) s3)"

definition pop_front :: "lane \<Rightarrow> nat \<Rightarrow> shared \<Rightarrow> address \<times> shared" where
  "pop_front l i s =
     (let span = ls_head (local_list s l i)
      in if span = 0 then (span, s)
         else let nxt = next_local s span;
                  s1 = upd_local_list l i (ls_head_update (\<lambda>_. nxt)) s;
                  s2 = (if nxt = 0 then upd_local_list l i (ls_tail_update (\<lambda>_. 0)) s1 else s1)
              in (span, upd_local_list l i (ls_len_update (\<lambda>n. n - 1)) s2))"

fun remove_loop :: "nat \<Rightarrow> lane \<Rightarrow> nat \<Rightarrow> address \<Rightarrow> address \<Rightarrow> address \<Rightarrow> shared \<Rightarrow> bool \<times> shared" where
  "remove_loop 0 l i span prev cur s = (False, s)"
| "remove_loop (Suc k) l i span prev cur s =
     (if cur = 0 then (False, s)
      else let nxt = next_local s cur
           in if cur = span then
                let s1 = (if prev = 0 then upd_local_list l i (ls_head_update (\<lambda>_. nxt)) s
                          else set_next_local prev nxt s);
                    s2 = (if nxt = 0 then upd_local_list l i (ls_tail_update (\<lambda>_. prev)) s1 else s1)
                in (True, upd_local_list l i (ls_len_update (\<lambda>n. n - 1)) s2)
              else remove_loop k l i span cur nxt s)"

definition remove_bounded :: "lane \<Rightarrow> nat \<Rightarrow> address \<Rightarrow> nat \<Rightarrow> shared \<Rightarrow> bool \<times> shared" where
  "remove_bounded l i span limit s = remove_loop limit l i span 0 (ls_head (local_list s l i)) s"

section \<open>The contract of a deque\<close>

locale cell_deque =
  fixes rep :: "'s \<Rightarrow> address list \<Rightarrow> bool"
    and front :: "'s \<Rightarrow> address"
    and push_front_op :: "address \<Rightarrow> 's \<Rightarrow> 's"
    and push_back_op :: "address \<Rightarrow> 's \<Rightarrow> 's"
    and pop_front_op :: "'s \<Rightarrow> address \<times> 's"
    and remove_op :: "address \<Rightarrow> nat \<Rightarrow> 's \<Rightarrow> bool \<times> 's"
  assumes rep_front: "rep s xs \<Longrightarrow> front s = (case xs of [] \<Rightarrow> 0 | x # _ \<Rightarrow> x)"
    and rep_push_front: "rep s xs \<Longrightarrow> x \<noteq> 0 \<Longrightarrow> x \<notin> set xs \<Longrightarrow> rep (push_front_op x s) (x # xs)"
    and rep_push_back: "rep s xs \<Longrightarrow> x \<noteq> 0 \<Longrightarrow> x \<notin> set xs \<Longrightarrow> rep (push_back_op x s) (xs @ [x])"
    and pop_front_empty: "rep s [] \<Longrightarrow> pop_front_op s = (0, s)"
    and pop_front_first: "rep s (x # xs) \<Longrightarrow> fst (pop_front_op s) = x \<and> rep (snd (pop_front_op s)) xs"
    and remove_found: "rep s xs \<Longrightarrow> x \<in> set xs \<Longrightarrow> length xs \<le> n \<Longrightarrow>
       fst (remove_op x n s) \<and> rep (snd (remove_op x n s)) (remove1 x xs)"
    and remove_absent: "rep s xs \<Longrightarrow> x \<notin> set xs \<Longrightarrow> remove_op x n s = (False, s)"
    and rep_proper: "rep s xs \<Longrightarrow> distinct xs \<and> 0 \<notin> set xs"
begin

text \<open>One turn of the rotation of the allocation path: the first element goes to the end.\<close>

lemma rotate_once:
  "rep s (x # xs) \<Longrightarrow> rep (push_back_op (fst (pop_front_op s)) (snd (pop_front_op s))) (xs @ [x])"
  using pop_front_first rep_push_back rep_proper by fastforce

lemma front_null_iff: "rep s xs \<Longrightarrow> front s = 0 \<longleftrightarrow> xs = []"
  using rep_front rep_proper by (cases xs) fastforce+

lemma push_then_remove:
  "rep s xs \<Longrightarrow> x \<noteq> 0 \<Longrightarrow> x \<notin> set xs \<Longrightarrow> length xs < n \<Longrightarrow> rep (snd (remove_op x n (push_front_op x s))) xs"
  using remove_found [OF rep_push_front, of s xs x x n] by simp

end

section \<open>The lists of spans implement it\<close>

definition span_list :: "lane \<Rightarrow> nat \<Rightarrow> shared \<Rightarrow> address list \<Rightarrow> bool" where
  "span_list l i s xs \<longleftrightarrow> chain (next_local s) (ls_head (local_list s l i)) xs 0
     \<and> ls_tail (local_list s l i) = (if xs = [] then 0 else last xs)
     \<and> ls_len (local_list s l i) = of_nat (length xs)"

lemma next_local_set [simp]:
  "next_local (set_next_local a v s) = (next_local s)(a := v)"
  "local_list (set_next_local a v s) l i = local_list s l i"
  by (auto simp: set_next_local_def next_local_def fun_eq_iff)

lemma next_local_frame [simp]:
  "next_local (upd_local_list l i f s) = next_local s"
  "next_local (set_block a v s) = next_local s"
  "next_local (upd_node nf a s) = next_local s"
  "next_local (upd_public_list l i g s) = next_local s"
  "next_local (upd_record l i h s) = next_local s"
  "next_local (upd_remote r a s) = next_local s"
  "next_local (set_owner a ow s) = next_local s"
  "next_local (set_span_state a st s) = next_local s"
  by (auto simp: next_local_def fun_eq_iff)

lemma span_list_push_front:
  "span_list l i s xs \<Longrightarrow> x \<noteq> 0 \<Longrightarrow> x \<notin> set xs \<Longrightarrow> span_list l i (push_front l i x s) (x # xs)"
  by (auto simp: span_list_def push_front_def Let_def chain_null add.commute)

lemma span_list_push_back:
  assumes "span_list l i s xs" "x \<noteq> 0" "x \<notin> set xs"
  shows "span_list l i (push_back l i x s) (xs @ [x])"
proof (cases xs rule: rev_cases)
  case Nil
  with assms show ?thesis by (simp add: span_list_def push_back_def Let_def)
next
  case (snoc ys t)
  with assms have t: "ls_tail (local_list s l i) = t" "t \<noteq> 0"
    by (auto simp: span_list_def chain_snoc_iff)
  have "chain ((next_local s)(x := 0, t := x)) (ls_head (local_list s l i)) (ys @ [t, x]) 0"
    using assms snoc by (intro chain_append_last) (auto simp: span_list_def)
  with assms snoc t show ?thesis
    by (simp add: span_list_def push_back_def Let_def add.commute)
qed

lemma span_list_pop_front:
  "span_list l i s (x # xs) \<Longrightarrow> fst (pop_front l i s) = x \<and> span_list l i (snd (pop_front l i s)) xs"
  by (auto simp: span_list_def pop_front_def Let_def chain_null chain_nonnull)

text \<open>
  The scan of \<^verbatim>\<open>remove_bounded\<close>, stopped in front of the suffix \<open>zs\<close> with the prefix \<open>ys\<close> behind it.
\<close>

lemma remove_loop_found:
  assumes "chain (next_local s) (ls_head (local_list s l i)) (ys @ zs) 0"
    and "prev = (if ys = [] then 0 else last ys)" "x \<in> set zs" "length zs \<le> k"
    and "ls_tail (local_list s l i) = last (ys @ zs)" "ls_len (local_list s l i) = of_nat (length (ys @ zs))"
    and "cur = hd zs"
  shows "fst (remove_loop k l i x prev cur s) \<and> span_list l i (snd (remove_loop k l i x prev cur s)) (ys @ remove1 x zs)"
  using assms
proof (induction zs arbitrary: k ys prev cur)
  case (Cons z zs)
  then obtain k' where k: "k = Suc k'" by (cases k) auto
  from Cons.prems(1) obtain r where r: "chain (next_local s) (ls_head (local_list s l i)) ys z"
      "z \<noteq> 0" "z \<notin> set zs" "chain (next_local s) (next_local s z) zs 0"
    by (auto dest!: chain_split_append)
  have d: "distinct (ys @ z # zs)" using Cons.prems(1) by (rule chain_distinct)
  have nz: "next_local s z = 0 \<longleftrightarrow> zs = []" using r(4) by (cases zs) auto
  show ?case
  proof (cases "z = x")
    case False
    have "remove_loop k l i x prev cur s = remove_loop k' l i x z (next_local s z) s"
      using False r(2) k Cons.prems(7) by (simp add: Let_def)
    moreover have "next_local s z = hd zs" using r(4) Cons.prems(3) False by (cases zs) auto
    moreover have "fst (remove_loop k' l i x z (next_local s z) s) \<and>
        span_list l i (snd (remove_loop k' l i x z (next_local s z) s)) ((ys @ [z]) @ remove1 x zs)"
      using Cons.prems False k \<open>next_local s z = hd zs\<close> by (intro Cons.IH) auto
    ultimately show ?thesis using False by simp
  next
    case True
    show ?thesis
    proof (cases ys rule: rev_cases)
      case Nil
      then show ?thesis
        using True Cons.prems r k nz by (auto simp: Let_def span_list_def)
    next
      case (snoc ys' p)
      then have "chain ((next_local s)(p := next_local s z)) (ls_head (local_list s l i)) (ys' @ [p] @ zs) 0"
        using Cons.prems(1) chain_remove [of "next_local s" _ ys' p z zs 0] by simp
      moreover have "p \<noteq> 0" using chain_null_free [OF Cons.prems(1)] snoc by auto
      ultimately show ?thesis
        using True Cons.prems r(2) snoc k nz by (auto simp: Let_def span_list_def last_append split: if_splits)
    qed
  qed
qed simp

lemma remove_loop_absent:
  "chain (next_local s) cur zs 0 \<Longrightarrow> x \<notin> set zs \<Longrightarrow> remove_loop k l i x prev cur s = (False, s)"
proof (induction zs arbitrary: k prev cur)
  case Nil
  then show ?case by (cases k) auto
next
  case (Cons z zs)
  then show ?case by (cases k) (auto simp: Let_def)
qed

interpretation span_deque: cell_deque "span_list l i" "list_front l i" "push_front l i" "push_back l i"
    "pop_front l i" "remove_bounded l i" for l i
proof
  fix s xs x n
  show "span_list l i s xs \<Longrightarrow> list_front l i s = (case xs of [] \<Rightarrow> 0 | x # _ \<Rightarrow> x)"
    by (cases xs) (auto simp: span_list_def list_front_def)
  show "span_list l i s [] \<Longrightarrow> pop_front l i s = (0, s)"
    by (simp add: span_list_def pop_front_def Let_def)
  show "span_list l i s xs \<Longrightarrow> x \<in> set xs \<Longrightarrow> length xs \<le> n \<Longrightarrow>
      fst (remove_bounded l i x n s) \<and> span_list l i (snd (remove_bounded l i x n s)) (remove1 x xs)"
    using remove_loop_found [of s l i "[]" xs 0 x n "ls_head (local_list s l i)"]
    by (cases xs) (auto simp: span_list_def remove_bounded_def)
  show "span_list l i s xs \<Longrightarrow> x \<notin> set xs \<Longrightarrow> remove_bounded l i x n s = (False, s)"
    by (auto simp: span_list_def remove_bounded_def intro: remove_loop_absent)
  show "span_list l i s xs \<Longrightarrow> distinct xs \<and> 0 \<notin> set xs"
    using chain_distinct chain_null_free by (auto simp: span_list_def)
qed (auto intro: span_list_push_front span_list_push_back dest: span_list_pop_front)

section \<open>Refinement of a list\<close>

text \<open>
  The abstract deque is a list.  A call is legal when a pushed span is not null and not listed
  and when a removal may scan the whole list, as the callers' contracts demand.
\<close>

datatype deque_call = PushFront address | PushBack address | PopFront | Remove address nat
datatype deque_answer = Done | Cell address | Found bool

fun deque_spec :: "deque_call \<Rightarrow> address list \<Rightarrow> deque_answer \<times> address list" where
  "deque_spec (PushFront x) xs = (Done, x # xs)"
| "deque_spec (PushBack x) xs = (Done, xs @ [x])"
| "deque_spec PopFront [] = (Cell 0, [])"
| "deque_spec PopFront (x # xs) = (Cell x, xs)"
| "deque_spec (Remove x n) xs = (Found (x \<in> set xs), remove1 x xs)"

fun deque_legal :: "deque_call \<Rightarrow> address list \<Rightarrow> bool" where
  "deque_legal (PushFront x) xs \<longleftrightarrow> x \<noteq> 0 \<and> x \<notin> set xs"
| "deque_legal (PushBack x) xs \<longleftrightarrow> x \<noteq> 0 \<and> x \<notin> set xs"
| "deque_legal PopFront xs \<longleftrightarrow> True"
| "deque_legal (Remove x n) xs \<longleftrightarrow> length xs \<le> n"

fun deque_impl :: "lane \<Rightarrow> nat \<Rightarrow> deque_call \<Rightarrow> shared \<Rightarrow> deque_answer \<times> shared" where
  "deque_impl l i (PushFront x) s = (Done, push_front l i x s)"
| "deque_impl l i (PushBack x) s = (Done, push_back l i x s)"
| "deque_impl l i PopFront s = (case pop_front l i s of (x, t) \<Rightarrow> (Cell x, t))"
| "deque_impl l i (Remove x n) s = (case remove_bounded l i x n s of (b, t) \<Rightarrow> (Found b, t))"

text \<open>A sequence of calls, with the answers in order; the legality of the whole sequence.\<close>

fun calls :: "('c \<Rightarrow> 's \<Rightarrow> 'r \<times> 's) \<Rightarrow> 'c list \<Rightarrow> 's \<Rightarrow> 'r list \<times> 's" where
  "calls f [] s = ([], s)"
| "calls f (c # cs) s = (case f c s of (r, t) \<Rightarrow> case calls f cs t of (rs, u) \<Rightarrow> (r # rs, u))"

fun legal_calls :: "deque_call list \<Rightarrow> address list \<Rightarrow> bool" where
  "legal_calls [] xs \<longleftrightarrow> True"
| "legal_calls (c # cs) xs \<longleftrightarrow> deque_legal c xs \<and> legal_calls cs (snd (deque_spec c xs))"

lemma deque_call_refines:
  assumes "span_list l i s xs" "deque_legal c xs"
  shows "fst (deque_impl l i c s) = fst (deque_spec c xs)
    \<and> span_list l i (snd (deque_impl l i c s)) (snd (deque_spec c xs))"
proof (cases c)
  case PopFront
  then show ?thesis using assms span_deque.pop_front_empty span_deque.pop_front_first
    by (cases xs) (fastforce simp: split_beta)+
next
  case (Remove x n)
  then show ?thesis
    using assms span_deque.remove_found [of l i s xs x n] span_deque.remove_absent [of l i s xs x n]
    by (cases "x \<in> set xs") (auto simp: split_beta remove1_idem)
qed (use assms in \<open>auto intro: span_list_push_front span_list_push_back\<close>)

text \<open>
  C17. The private span-lists refine a plain list: every legal sequence of pushes at either end, pops
  and bounded removals gives the answers the list gives, and afterwards head, tail, length
  and links represent the list's content.
\<close>

theorem span_lists_refine_deque:
  assumes "span_list l i s xs" and "legal_calls cs xs"
  shows "fst (calls (deque_impl l i) cs s) = fst (calls deque_spec cs xs)
    \<and> span_list l i (snd (calls (deque_impl l i) cs s)) (snd (calls deque_spec cs xs))"
  using assms
proof (induction cs arbitrary: s xs)
  case (Cons c cs)
  then show ?case
    using deque_call_refines [OF Cons.prems(1), of c]
      Cons.IH [of "snd (deque_impl l i c s)" "snd (deque_spec c xs)"]
    by (auto simp: split_beta)
qed simp

theorem span_lists_refine_deque_witness:
  "fst (calls (deque_impl (SpanLane 2) 0)
     [PushFront 65536, PushBack 131072, PushFront 196608, Remove 65536 3, PopFront, PopFront, PopFront] zero_memory) =
   [Done, Done, Done, Found True, Cell 196608, Cell 131072, Cell 0]"
proof -
  have z: "span_list (SpanLane 2) 0 zero_memory []"
    by (simp add: span_list_def zero_memory_def thread_heap_new_def local_span_list_new_def)
  show ?thesis
    using span_lists_refine_deque [OF z,
        of "[PushFront 65536, PushBack 131072, PushFront 196608, Remove 65536 3, PopFront, PopFront, PopFront]"]
    by simp
qed

end
