(* ===== verification/Cas2_Backend.thy ===== *)
theory Cas2_Backend
  imports Step_Bounds
begin

text \<open>
  The double-word compare-and-exchange (\<^verbatim>\<open>src/atomic_backend.rs\<close>).  The only head words of
  the crate are the heads of the public lists, so a location is a lane and a thread index.
  The four backends are transcribed instruction by instruction, each instruction that
  touches memory being one access against the environment: \<^verbatim>\<open>cmpxchg16b\<close> and \<^verbatim>\<open>caspal\<close> are
  single accesses, \<^verbatim>\<open>ldaxp\<close> reads the two halves separately (the pair may tear), and
  \<^verbatim>\<open>stlxp\<close> may fail without a reason.  The model lets \<^verbatim>\<open>stlxp\<close> succeed whenever the location
  holds the expected value again, which is more than the hardware allows.
\<close>

section \<open>Instructions and backends\<close>

definition head_at :: "shared \<Rightarrow> lane \<Rightarrow> nat \<Rightarrow> head_word" where
  "head_at s l i = sl_head (public_list s l i)"

definition set_head :: "lane \<Rightarrow> nat \<Rightarrow> head_word \<Rightarrow> shared \<Rightarrow> shared" where
  "set_head l i h = upd_public_list l i (sl_head_update (\<lambda>_. h))"

definition cas_at :: "lane \<Rightarrow> nat \<Rightarrow> head_word \<Rightarrow> head_word \<Rightarrow> shared \<Rightarrow> (head_word \<times> bool) \<times> shared" where
  "cas_at l i current new s =
     (let prev = head_at s l i
      in if prev = current then ((prev, True), set_head l i new s) else ((prev, False), s))"

definition cmpxchg16b :: "lane \<Rightarrow> nat \<Rightarrow> head_word \<Rightarrow> head_word \<Rightarrow> (head_word \<times> bool) prog" where
  "cmpxchg16b l i current new = shared_op (cas_at l i current new)"

definition caspal :: "lane \<Rightarrow> nat \<Rightarrow> head_word \<Rightarrow> head_word \<Rightarrow> (head_word \<times> bool) prog" where
  "caspal l i current new = do {
     prev \<leftarrow> shared_op (\<lambda>s. let r = cas_at l i current new s in (fst (fst r), snd r));
     ret (prev, prev = current) }"

text \<open>The status of one store-exclusive that is not refused for its value.\<close>

definition stlxp_spurious :: "bool prog" where
  "stlxp_spurious = State (\<lambda>w. (case w_sc_fail w of [] \<Rightarrow> False | b # _ \<Rightarrow> b,
                                w\<lparr>w_sc_fail := tl (w_sc_fail w)\<rparr>))"

definition ldaxp :: "lane \<Rightarrow> nat \<Rightarrow> head_word prog" where
  "ldaxp l i = do {
     lo \<leftarrow> shared_get (\<lambda>s. hw_ptr (head_at s l i));
     hi \<leftarrow> shared_get (\<lambda>s. hw_version (head_at s l i));
     ret (head_new lo hi) }"

definition cas2_once :: "lane \<Rightarrow> nat \<Rightarrow> head_word \<Rightarrow> head_word \<Rightarrow> (head_word \<times> bool) prog" where
  "cas2_once l i current new = do {
     old \<leftarrow> ldaxp l i;
     if old \<noteq> current then ret (old, False)
     else do {
       spurious \<leftarrow> stlxp_spurious;
       if spurious then ret (old, False)
       else do {
         (_, stored) \<leftarrow> shared_op (cas_at l i current new);
         ret (old, stored) } } }"

datatype backend = Cmpxchg16b | LdxpStxp | CaspLse | PlainCas2

text \<open>The two operations of each backend, \<^verbatim>\<open>B::load\<close> and \<^verbatim>\<open>B::compare_exchange\<close>; an \<^verbatim>\<open>Err\<close> is \<open>Inl\<close>.\<close>

definition cmpxchg16b_load :: "lane \<Rightarrow> nat \<Rightarrow> head_word prog" where
  [simp]: "cmpxchg16b_load l i = do { (prev, _) \<leftarrow> cmpxchg16b l i head_zero head_zero; ret prev }"

definition cmpxchg16b_compare_exchange :: "lane \<Rightarrow> nat \<Rightarrow> head_word \<Rightarrow> head_word \<Rightarrow> (head_word + head_word) prog" where
  [simp]: "cmpxchg16b_compare_exchange l i current new = do {
     (prev, ok) \<leftarrow> cmpxchg16b l i current new;
     ret (if ok then Inr prev else Inl prev) }"

definition ldxp_stxp_compare_exchange :: "lane \<Rightarrow> nat \<Rightarrow> head_word \<Rightarrow> head_word \<Rightarrow> (head_word + head_word) prog" where
  [simp]: "ldxp_stxp_compare_exchange l i current new = do {
     (prev, ok) \<leftarrow> cas2_once l i current new;
     ret (if ok then Inr prev else Inl prev) }"

definition casp_lse_load :: "lane \<Rightarrow> nat \<Rightarrow> head_word prog" where
  [simp]: "casp_lse_load l i = do { (prev, _) \<leftarrow> caspal l i head_zero head_zero; ret prev }"

definition casp_lse_compare_exchange :: "lane \<Rightarrow> nat \<Rightarrow> head_word \<Rightarrow> head_word \<Rightarrow> (head_word + head_word) prog" where
  [simp]: "casp_lse_compare_exchange l i current new = do {
     (prev, ok) \<leftarrow> caspal l i current new;
     ret (if ok then Inr prev else Inl prev) }"

definition plain_compare_exchange :: "lane \<Rightarrow> nat \<Rightarrow> head_word \<Rightarrow> head_word \<Rightarrow> (head_word + head_word) prog" where
  [simp]: "plain_compare_exchange l i current new = do {
     actual \<leftarrow> shared_get (\<lambda>s. head_at s l i);
     if actual = current then do { owner_put (set_head l i new); ret (Inr actual) }
     else ret (Inl actual) }"

fun cas2_load :: "backend \<Rightarrow> lane \<Rightarrow> nat \<Rightarrow> head_word prog" where
  "cas2_load Cmpxchg16b l i = cmpxchg16b_load l i"
| "cas2_load LdxpStxp l i = ldaxp l i"
| "cas2_load CaspLse l i = casp_lse_load l i"
| "cas2_load PlainCas2 l i = shared_get (\<lambda>s. head_at s l i)"

fun cas2_compare_exchange :: "backend \<Rightarrow> lane \<Rightarrow> nat \<Rightarrow> head_word \<Rightarrow> head_word \<Rightarrow> (head_word + head_word) prog" where
  "cas2_compare_exchange Cmpxchg16b l i current new = cmpxchg16b_compare_exchange l i current new"
| "cas2_compare_exchange LdxpStxp l i current new = ldxp_stxp_compare_exchange l i current new"
| "cas2_compare_exchange CaspLse l i current new = casp_lse_compare_exchange l i current new"
| "cas2_compare_exchange PlainCas2 l i current new = plain_compare_exchange l i current new"

section \<open>The contract of a backend\<close>

text \<open>
  \<open>env_run w n\<close> is the shared state after the environment alone made its next \<open>n\<close> moves.
  The contract says what a caller of a backend may rely on in every environment: a
  compare-exchange is at most one write of its own to the location, made at a moment when
  the location held exactly the expected pair, and a failed one writes nothing.
\<close>

definition env_run :: "world \<Rightarrow> nat \<Rightarrow> shared" where
  "env_run w n = fold (\<lambda>e s. e s) (take n (w_env w)) (w_sh w)"

lemma w_env_same [simp]: "w_env w = [] \<Longrightarrow> w\<lparr>w_env := []\<rparr> = w"
  by (cases w) simp

definition env_only :: "world \<Rightarrow> nat \<Rightarrow> world \<Rightarrow> bool" where
  "env_only w n w' \<longleftrightarrow> w_step w' = w_step w \<and> w_env w' = drop n (w_env w)"

locale cas2_backend =
  fixes load :: "lane \<Rightarrow> nat \<Rightarrow> head_word prog"
    and compare_exchange :: "lane \<Rightarrow> nat \<Rightarrow> head_word \<Rightarrow> head_word \<Rightarrow> (head_word + head_word) prog"
  assumes load_reads: "\<exists>n. env_only w n (final_state (load l i) w) \<and> w_sh (final_state (load l i) w) = env_run w n"
    and load_quiet: "w_env w = [] \<Longrightarrow> run_state (load l i) w = (head_at (w_sh w) l i, w)"
    and cas_err: "run_state (compare_exchange l i c h) w = (Inl a, w') \<Longrightarrow>
       \<exists>n. env_only w n w' \<and> w_sh w' = env_run w n"
    and cas_ok: "run_state (compare_exchange l i c h) w = (Inr a, w') \<Longrightarrow> a = c \<and>
       (\<exists>n. env_only w n w' \<and> head_at (env_run w n) l i = c \<and> w_sh w' = set_head l i h (env_run w n))"
    and cas_progress: "w_env w = [] \<Longrightarrow> w_sc_fail w = [] \<Longrightarrow> head_at (w_sh w) l i = c \<Longrightarrow>
       result_of (compare_exchange l i c h) w = Inr c"
begin

text \<open>No step counter moves inside a backend: its callers count the attempts.\<close>

lemma load_step: "w_step (final_state (load l i) w) = w_step w"
  using load_reads [of w l i] by (auto simp: env_only_def)

lemma cas_cases:
  obtains (err) a w' n where "run_state (compare_exchange l i c h) w = (Inl a, w')"
      "env_only w n w'" "w_sh w' = env_run w n"
  | (ok) w' n where "run_state (compare_exchange l i c h) w = (Inr c, w')"
      "env_only w n w'" "head_at (env_run w n) l i = c" "w_sh w' = set_head l i h (env_run w n)"
proof (cases "run_state (compare_exchange l i c h) w")
  case (Pair r w')
  then show thesis using cas_err cas_ok that by (cases r) blast+
qed

lemma cas_step: "w_step (final_state (compare_exchange l i c h) w) = w_step w"
  by (rule cas_cases [of l i c h w]) (auto simp: env_only_def)

lemma cas_quiet:
  assumes "w_env w = []"
  shows "(\<exists>a fs. run_state (compare_exchange l i c h) w = (Inl a, w\<lparr>w_sc_fail := fs\<rparr>)) \<or>
    (\<exists>fs. head_at (w_sh w) l i = c \<and> run_state (compare_exchange l i c h) w =
       (Inr c, w\<lparr>w_sh := set_head l i h (w_sh w), w_sc_fail := fs\<rparr>))"
proof (rule cas_cases [of l i c h w])
  fix a w' n
  assume "run_state (compare_exchange l i c h) w = (Inl a, w')" "env_only w n w'" "w_sh w' = env_run w n"
  moreover from this assms have "w' = w\<lparr>w_sc_fail := w_sc_fail w'\<rparr>"
    by (simp add: env_only_def env_run_def)
  ultimately show ?thesis by metis
next
  fix w' n
  assume "run_state (compare_exchange l i c h) w = (Inr c, w')" "env_only w n w'"
    "head_at (env_run w n) l i = c" "w_sh w' = set_head l i h (env_run w n)"
  moreover from this assms
  have "w' = w\<lparr>w_sh := set_head l i h (w_sh w), w_sc_fail := w_sc_fail w'\<rparr>" "head_at (w_sh w) l i = c"
    by (simp_all add: env_only_def env_run_def)
  ultimately show ?thesis by metis
qed

lemma cas_stale:
  "w_env w = [] \<Longrightarrow> head_at (w_sh w) l i \<noteq> c \<Longrightarrow>
     \<exists>a fs. run_state (compare_exchange l i c h) w = (Inl a, w\<lparr>w_sc_fail := fs\<rparr>)"
  using cas_quiet [of w l i c h] by auto

end

text \<open>A strong backend: a failure shows the value of the location, which differs.\<close>

locale strong_cas2_backend = cas2_backend +
  assumes cas_fails_for_a_reason:
    "result_of (compare_exchange l i c h) w = Inl a \<Longrightarrow> a \<noteq> c \<and> (\<exists>n. head_at (env_run w n) l i = a)"
begin

lemma cas_same_succeeds:
  "w_env w = [] \<Longrightarrow> head_at (w_sh w) l i = c \<Longrightarrow> result_of (compare_exchange l i c h) w = Inr c"
  using cas_fails_for_a_reason [of l i c h w]
  by (cases rule: cas_cases [of l i c h w]) (auto simp: env_run_def)

end

section \<open>The four backends keep the contract\<close>

lemma head_at_set_head [simp]:
  "head_at (set_head l i h s) l' j = (if l = l' \<and> i = j then h else head_at s l' j)"
  by (simp add: head_at_def set_head_def)

lemma set_head_same: "head_at s l i = h \<Longrightarrow> set_head l i h s = s"
  by (cases l) (auto simp: set_head_def head_at_def)

lemma env_run_0 [simp]: "env_run w 0 = w_sh w"
  by (simp add: env_run_def)

lemma interfere_env_run: "interfere w = w\<lparr>w_sh := env_run w 1, w_env := drop 1 (w_env w)\<rparr>"
  by (cases "w_env w") (simp_all add: interfere_def env_run_def)

lemma env_run_after: "env_run (w\<lparr>w_sh := env_run w m, w_env := drop m (w_env w)\<rparr>) n = env_run w (m + n)"
  by (simp add: env_run_def take_add)

lemma run_stlxp_spurious [simp]:
  "run_state stlxp_spurious w = (case w_sc_fail w of [] \<Rightarrow> False | b # _ \<Rightarrow> b, w\<lparr>w_sc_fail := tl (w_sc_fail w)\<rparr>)"
  by (simp add: stlxp_spurious_def)

lemma run_cmpxchg16b:
  "run_state (cmpxchg16b l i c h) w =
     (let s = env_run w 1 in
      if head_at s l i = c then ((c, True), w\<lparr>w_sh := set_head l i h s, w_env := drop 1 (w_env w)\<rparr>)
      else ((head_at s l i, False), w\<lparr>w_sh := s, w_env := drop 1 (w_env w)\<rparr>))"
  by (simp add: cmpxchg16b_def run_shared_op interfere_env_run cas_at_def Let_def)

lemma run_caspal: "run_state (caspal l i c h) w = run_state (cmpxchg16b l i c h) w"
  by (simp add: caspal_def cmpxchg16b_def run_shared_op cas_at_def Let_def)

lemma world_upd_comm:
  "w\<lparr>w_env := e, w_sh := s\<rparr> = w\<lparr>w_sh := s, w_env := e\<rparr>"
  "w\<lparr>w_sc_fail := b, w_sh := s\<rparr> = w\<lparr>w_sh := s, w_sc_fail := b\<rparr>"
  "w\<lparr>w_sc_fail := b, w_env := e\<rparr> = w\<lparr>w_env := e, w_sc_fail := b\<rparr>"
  by (cases w; simp)+

lemma run_ldaxp:
  "run_state (ldaxp l i) w =
     (head_new (hw_ptr (head_at (env_run w 1) l i)) (hw_version (head_at (env_run w 2) l i)),
      w\<lparr>w_sh := env_run w 2, w_env := drop 2 (w_env w)\<rparr>)"
  using env_run_after [where w = w and m = 1 and n = 1]
  by (simp add: ldaxp_def run_shared_op interfere_env_run world_upd_comm numeral_2_eq_2 drop_Suc)

lemma run_cas2_once:
  "run_state (cas2_once l i c h) w =
     (let old = head_new (hw_ptr (head_at (env_run w 1) l i)) (hw_version (head_at (env_run w 2) l i))
      in if old \<noteq> c then ((old, False), w\<lparr>w_sh := env_run w 2, w_env := drop 2 (w_env w)\<rparr>)
      else if w_sc_fail w \<noteq> [] \<and> hd (w_sc_fail w) then
        ((old, False), w\<lparr>w_sh := env_run w 2, w_env := drop 2 (w_env w), w_sc_fail := tl (w_sc_fail w)\<rparr>)
      else if head_at (env_run w 3) l i = c then
        ((old, True), w\<lparr>w_sh := set_head l i h (env_run w 3), w_env := drop 3 (w_env w), w_sc_fail := tl (w_sc_fail w)\<rparr>)
      else ((old, False), w\<lparr>w_sh := env_run w 3, w_env := drop 3 (w_env w), w_sc_fail := tl (w_sc_fail w)\<rparr>))"
  using env_run_after [where w = w and m = 2 and n = 1]
  by (simp add: cas2_once_def run_ldaxp run_shared_op interfere_env_run cas_at_def Let_def
      world_upd_comm env_run_def take_add numeral_3_eq_3 numeral_2_eq_2 drop_Suc split: list.splits)

lemma load_by_cas:
  "run_state (cmpxchg16b l i head_zero head_zero) w =
     ((head_at (env_run w 1) l i, head_at (env_run w 1) l i = head_zero),
      w\<lparr>w_sh := env_run w 1, w_env := drop 1 (w_env w)\<rparr>)"
  by (simp add: run_cmpxchg16b set_head_same Let_def)

lemma head_new_eta [simp]: "head_new (hw_ptr h) (hw_version h) = h"
  by (cases h) (simp add: head_new_def)

lemma env_run_quiet [simp]: "w_env w = [] \<Longrightarrow> env_run w n = w_sh w"
  by (simp add: env_run_def)

text \<open>The same instruction sequence, so the same contract, for \<^verbatim>\<open>cmpxchg16b\<close> and \<^verbatim>\<open>caspal\<close>.\<close>

lemma single_instruction_backend:
  assumes load: "\<And>l i w. run_state (ld l i) w =
      (head_at (env_run w 1) l i, w\<lparr>w_sh := env_run w 1, w_env := drop 1 (w_env w)\<rparr>)"
    and cas: "\<And>l i c h w. run_state (cx l i c h) w =
      (let s = env_run w 1 in
       if head_at s l i = c then (Inr c, w\<lparr>w_sh := set_head l i h s, w_env := drop 1 (w_env w)\<rparr>)
       else (Inl (head_at s l i), w\<lparr>w_sh := s, w_env := drop 1 (w_env w)\<rparr>))"
  shows "strong_cas2_backend ld cx"
  by standard (auto simp: load cas env_only_def Let_def split: if_splits)

interpretation x86: strong_cas2_backend "cas2_load Cmpxchg16b" "cas2_compare_exchange Cmpxchg16b"
  by (rule single_instruction_backend) (simp_all add: load_by_cas run_cmpxchg16b set_head_same Let_def)

interpretation lse: strong_cas2_backend "cas2_load CaspLse" "cas2_compare_exchange CaspLse"
  by (rule single_instruction_backend) (simp_all add: run_caspal load_by_cas run_cmpxchg16b set_head_same Let_def)

interpretation miri: strong_cas2_backend "cas2_load PlainCas2" "cas2_compare_exchange PlainCas2"
  by (rule single_instruction_backend)
    (simp_all add: run_shared_op interfere_env_run world_upd_comm Let_def)

interpretation llsc: cas2_backend "cas2_load LdxpStxp" "cas2_compare_exchange LdxpStxp"
  by standard (auto simp: run_ldaxp run_cas2_once env_only_def Let_def split: if_splits)

lemma every_backend: "cas2_backend (cas2_load B) (cas2_compare_exchange B)"
  by (cases B) (simp_all only: x86.cas2_backend_axioms lse.cas2_backend_axioms
      miri.cas2_backend_axioms llsc.cas2_backend_axioms)

interpretation cas2: cas2_backend "cas2_load B" "cas2_compare_exchange B" for B
  by (rule every_backend)

section \<open>What every caller relies on\<close>


end
