(* ===== verification/Spmc_List.thy ===== *)
theory Spmc_List
  imports Spans Cas2_Backend
begin

text \<open>
  The public span-lists (\<^verbatim>\<open>src/spmc_span_list.rs\<close>): a queue with one producer and many consumers,
  a dummy node in front, a plain tail for the producer and a versioned head for the
  consumers.  The theorems: left alone, the list is a queue, one pop attempt removes the
  oldest span or reports why not, every successful pop raises the version, and nodes are
  neither lost nor duplicated.
\<close>

section \<open>Operations\<close>

datatype try_pop = PopSpan address | PopEmpty | PopFailed

definition spmc_init :: "lane \<Rightarrow> nat \<Rightarrow> shared \<Rightarrow> shared" where
  "spmc_init l i = upd_public_list l i
     (\<lambda>q. q\<lparr>sl_head := head_new (sl_dummy q) 0, sl_tail := sl_dummy q\<rparr>)"

definition enqueue_by_owner :: "lane \<Rightarrow> nat \<Rightarrow> address \<Rightarrow> unit prog" where
  "enqueue_by_owner l i span = do {
     node \<leftarrow> owner_op (\<lambda>s. (sh_node (g_hdr s span), upd_hdr (sh_node_update (\<lambda>_. 0)) span s));
     owner_put (upd_node (nd_span_update (\<lambda>_. span)) node);
     owner_put (upd_node (nd_next_update (\<lambda>_. 0)) node);
     tail \<leftarrow> owner_get (\<lambda>s. sl_tail (public_list s l i));
     shared_put (upd_node (nd_next_update (\<lambda>_. node)) tail);
     owner_put (upd_public_list l i (sl_tail_update (\<lambda>_. node))) }"

definition try_pop_head_once :: "backend \<Rightarrow> lane \<Rightarrow> nat \<Rightarrow> try_pop prog" where
  "try_pop_head_once B l i = do {
     old \<leftarrow> cas2_load B l i;
     let head_node = hw_ptr old;
     if head_node = 0 then ret PopEmpty
     else do {
       nxt \<leftarrow> shared_get (\<lambda>s. nd_next (g_node s head_node));
       if nxt = 0 then ret PopEmpty
       else do {
         let new = head_new nxt (hw_version old + 1);
         tick cas2_attempts_update;
         r \<leftarrow> cas2_compare_exchange B l i old new;
         case r of
           Inr _ \<Rightarrow> do {
             span \<leftarrow> shared_get (\<lambda>s. nd_span (g_node s nxt));
             shared_put (upd_hdr (sh_node_update (\<lambda>_. head_node)) span);
             ret (PopSpan span) }
         | Inl _ \<Rightarrow> ret PopFailed } } }"

section \<open>The contract of a queue of spans\<close>

text \<open>
  \<open>ready s xs x\<close> is what a producer must know of a span before it enqueues it.
\<close>

locale span_queue =
  fixes rep :: "shared \<Rightarrow> address list \<Rightarrow> bool"
    and ready :: "shared \<Rightarrow> address \<Rightarrow> bool"
    and enq :: "address \<Rightarrow> unit prog"
    and pop :: "try_pop prog"
  assumes enq_last: "rep s xs \<Longrightarrow> ready s x \<Longrightarrow> quietly (enq x) s (\<lambda>_ t. rep t (xs @ [x]))"
    and pop_first: "rep s xs \<Longrightarrow> quietly pop s (\<lambda>r t. case r of
       PopSpan x \<Rightarrow> xs \<noteq> [] \<and> x = hd xs \<and> rep t (tl xs)
     | PopEmpty \<Rightarrow> xs = [] \<and> t = s
     | PopFailed \<Rightarrow> xs \<noteq> [] \<and> t = s)"
begin

lemma pop_empty: "rep s [] \<Longrightarrow> quietly pop s (\<lambda>r t. r = PopEmpty \<and> t = s)"
  by (rule quietly_mono [OF pop_first]) (auto split: try_pop.splits)

lemma pop_keeps_order:
  "rep s (x # xs) \<Longrightarrow> quietly pop s (\<lambda>r t. (r = PopSpan x \<and> rep t xs) \<or> (r = PopFailed \<and> t = s))"
  by (rule quietly_mono [OF pop_first]) (auto split: try_pop.splits)

text \<open>What goes in comes out: enqueueing behind \<open>xs\<close> and popping once.\<close>

lemma enq_pop:
  assumes "rep s xs" "ready s x"
  shows "quietly (do { enq x; pop }) s (\<lambda>r t. case r of
     PopSpan y \<Rightarrow> y = hd (xs @ [x]) \<and> rep t (tl (xs @ [x])) | PopEmpty \<Rightarrow> False | PopFailed \<Rightarrow> rep t (xs @ [x]))"
  by (rule quietly_then [OF enq_last [OF assms]], rule quietly_mono [OF pop_first])
    (auto split: try_pop.splits)

end

section \<open>The public lists implement it\<close>

text \<open>
  The nodes from the head on: the dummy, then one node per queued span, the last one being the
  producer's tail.
\<close>

definition node_next :: "shared \<Rightarrow> address \<Rightarrow> address" where
  "node_next s a = nd_next (g_node s a)"

definition public_nodes :: "lane \<Rightarrow> nat \<Rightarrow> shared \<Rightarrow> address list \<Rightarrow> bool" where
  "public_nodes l i s ns \<longleftrightarrow> ns \<noteq> [] \<and> chain (node_next s) (hw_ptr (head_at s l i)) ns 0
     \<and> sl_tail (public_list s l i) = last ns"

definition public_rep :: "lane \<Rightarrow> nat \<Rightarrow> address list \<Rightarrow> shared \<Rightarrow> address list \<Rightarrow> bool" where
  "public_rep l i ns s xs \<longleftrightarrow> public_nodes l i s ns
     \<and> List.map (\<lambda>n. nd_span (g_node s n)) (tl ns) = xs \<and> 0 \<notin> set xs"

lemma node_next_upd [simp]:
  "node_next (upd_node (nd_next_update (\<lambda>_. v)) a s) = (node_next s)(a := v)"
  "node_next (upd_node (nd_span_update g) a s) = node_next s"
  "node_next (upd_hdr f a s) = node_next s"
  "node_next (upd_public_list l i p s) = node_next s"
  by (auto simp: node_next_def fun_eq_iff)

lemma head_at_frame [simp]:
  "head_at (upd_node f a s) l i = head_at s l i"
  "head_at (upd_hdr h a s) l i = head_at s l i"
  "head_at (upd_public_list l' j (sl_tail_update v) s) l i = head_at s l i"
  by (auto simp: head_at_def)

lemma set_head_frame [simp]:
  "node_next (set_head l i h s) = node_next s" "g_node (set_head l i h s) = g_node s"
  "g_hdr (set_head l i h s) = g_hdr s" "sl_tail (public_list (set_head l i h s) l' j) = sl_tail (public_list s l' j)"
  by (auto simp: set_head_def)

lemma chain_tail_link:
  "chain nxt p (xs @ [t]) 0 \<Longrightarrow> n \<noteq> 0 \<Longrightarrow> n \<notin> set (xs @ [t]) \<Longrightarrow> chain (nxt(n := 0, t := n)) p (xs @ [t] @ [n]) 0"
  using chain_append_last [of nxt p xs t n] by simp

definition enqueued :: "lane \<Rightarrow> nat \<Rightarrow> address \<Rightarrow> shared \<Rightarrow> shared" where
  "enqueued l i x s = (let n = sh_node (g_hdr s x) in
     upd_public_list l i (sl_tail_update (\<lambda>_. n))
       (upd_node (nd_next_update (\<lambda>_. n)) (sl_tail (public_list s l i))
         (upd_node (nd_next_update (\<lambda>_. 0)) n
           (upd_node (nd_span_update (\<lambda>_. x)) n (upd_hdr (sh_node_update (\<lambda>_. 0)) x s)))))"

lemma enqueue_by_owner_quietly: "quietly (enqueue_by_owner l i x) s (\<lambda>_ t. t = enqueued l i x s)"
  unfolding enqueue_by_owner_def enqueued_def Let_def by (auto intro!: quiet_intros)

lemma enqueued_rep:
  assumes "public_rep l i ns s xs" "sh_node (g_hdr s x) = n" "n \<noteq> 0" "n \<notin> set ns" "x \<noteq> 0"
  shows "public_rep l i (ns @ [n]) (enqueued l i x s) (xs @ [x])"
proof -
  obtain ms d where ns: "ns = ms @ [d]" using assms(1)
    by (cases ns rule: rev_cases) (auto simp: public_rep_def public_nodes_def)
  have d: "sl_tail (public_list s l i) = d" "d \<noteq> n"
    using assms(1,4) ns by (auto simp: public_rep_def public_nodes_def)
  have c: "chain ((node_next s)(n := 0, d := n)) (hw_ptr (head_at s l i)) (ms @ [d] @ [n]) 0"
    using assms(1,3,4) ns by (intro chain_tail_link) (auto simp: public_rep_def public_nodes_def)
  have "List.map (\<lambda>m. nd_span (g_node (enqueued l i x s) m)) (tl ns) = xs"
    using assms(1,2,4) d by (cases ns) (auto simp: public_rep_def enqueued_def Let_def intro!: map_cong)
  moreover have "public_nodes l i (enqueued l i x s) (ns @ [n])"
    using c ns d assms(2) by (simp add: public_nodes_def enqueued_def Let_def)
  moreover have "nd_span (g_node (enqueued l i x s) n) = x"
    using assms(2) d by (simp add: enqueued_def Let_def)
  moreover have "ns \<noteq> []" using ns by simp
  ultimately show ?thesis using assms(1,5) by (simp add: public_rep_def tl_append2)
qed

lemma enqueued_other:
  assumes "public_rep l i ns s xs" "(l', j) \<noteq> (l, i)" "sh_node (g_hdr s x) \<notin> set ns"
    "sl_tail (public_list s l' j) \<notin> set ns"
  shows "public_rep l i ns (enqueued l' j x s) xs"
proof -
  let ?t = "enqueued l' j x s"
  have same: "g_node ?t m = g_node s m" if "m \<in> set ns" for m
    using assms(3,4) that by (auto simp: enqueued_def Let_def)
  have "chain (node_next ?t) p ns 0 = chain (node_next s) p ns 0" for p
    by (rule chain_cong) (simp add: node_next_def same)
  moreover have "List.map (\<lambda>m. nd_span (g_node ?t m)) (tl ns) = List.map (\<lambda>m. nd_span (g_node s m)) (tl ns)"
    using same by (cases ns) auto
  moreover have "public_list ?t l i = public_list s l i" using assms(2) by (auto simp: enqueued_def Let_def)
  ultimately show ?thesis using assms(1) by (auto simp: public_rep_def public_nodes_def head_at_def)
qed

lemma public_rep_upd_hdr [simp]: "public_rep l i ns (upd_hdr f a s) xs = public_rep l i ns s xs"
  by (simp add: public_rep_def public_nodes_def)

definition popped :: "lane \<Rightarrow> nat \<Rightarrow> shared \<Rightarrow> shared" where
  "popped l i s = (let old = head_at s l i; nxt = nd_next (g_node s (hw_ptr old)) in
     upd_hdr (sh_node_update (\<lambda>_. hw_ptr old)) (nd_span (g_node s nxt))
       (set_head l i (head_new nxt (hw_version old + 1)) s))"

lemma try_pop_quietly:
  "quietly (try_pop_head_once B l i) s (\<lambda>r t.
     let h = hw_ptr (head_at s l i); nxt = nd_next (g_node s h) in
     case r of PopEmpty \<Rightarrow> (h = 0 \<or> nxt = 0) \<and> t = s
     | PopFailed \<Rightarrow> h \<noteq> 0 \<and> nxt \<noteq> 0 \<and> t = s
     | PopSpan x \<Rightarrow> h \<noteq> 0 \<and> nxt \<noteq> 0 \<and> x = nd_span (g_node s nxt) \<and> t = popped l i s)"
proof -
  have load: "quietly (cas2_load B l i) s (\<lambda>h t. h = head_at s l i \<and> t = s)"
    by (auto simp: quietly_def cas2.load_quiet)
  have cas: "quietly (cas2_compare_exchange B l i c h) s
      (\<lambda>r t. (\<exists>a. r = Inl a \<and> t = s) \<or> (r = Inr c \<and> t = set_head l i h s))" for c h
    using cas2.cas_quiet [of _ B l i c h] unfolding quietly_def by fastforce
  show ?thesis
    unfolding try_pop_head_once_def Let_def
    by (rule quietly_then [OF load])
      (auto intro!: quiet_intros quietly_mono [OF cas] simp: popped_def Let_def)
qed

lemma popped_rep:
  assumes "public_rep l i (d # ns) s (x # xs)"
  shows "public_rep l i ns (popped l i s) xs \<and> nd_span (g_node s (node_next s d)) = x
    \<and> sh_node (g_hdr (popped l i s) x) = d \<and> hw_version (head_at (popped l i s) l i) = hw_version (head_at s l i) + 1"
proof -
  from assms obtain n ms where ns: "ns = n # ms" "nd_span (g_node s n) = x" "node_next s d = n" "hw_ptr (head_at s l i) = d"
    by (cases ns) (auto simp: public_rep_def public_nodes_def)
  with assms show ?thesis
    by (auto simp: public_rep_def public_nodes_def popped_def Let_def node_next_def head_new_def)
qed

definition public_spans :: "lane \<Rightarrow> nat \<Rightarrow> shared \<Rightarrow> address list \<Rightarrow> bool" where
  "public_spans l i s xs \<longleftrightarrow> (\<exists>ns. public_rep l i ns s xs)"

definition enqueue_ready :: "lane \<Rightarrow> nat \<Rightarrow> shared \<Rightarrow> address \<Rightarrow> bool" where
  "enqueue_ready l i s x \<longleftrightarrow> x \<noteq> 0 \<and> sh_node (g_hdr s x) \<noteq> 0
     \<and> (\<forall>ns. public_nodes l i s ns \<longrightarrow> sh_node (g_hdr s x) \<notin> set ns)"

lemma try_pop_rep:
  assumes "public_rep l i (d # ns) s xs"
  shows "quietly (try_pop_head_once B l i) s (\<lambda>r t. case r of
     PopSpan x \<Rightarrow> xs \<noteq> [] \<and> x = hd xs \<and> t = popped l i s \<and> public_rep l i ns t (tl xs)
       \<and> sh_node (g_hdr t x) = d \<and> hw_version (head_at t l i) = hw_version (head_at s l i) + 1
   | PopEmpty \<Rightarrow> xs = [] \<and> t = s
   | PopFailed \<Rightarrow> xs \<noteq> [] \<and> t = s)"
proof -
  have d: "hw_ptr (head_at s l i) = d" "d \<noteq> 0" "node_next s d = 0 \<longleftrightarrow> ns = []"
    using assms by (cases ns; auto simp: public_rep_def public_nodes_def)+
  have e: "ns = [] \<longleftrightarrow> xs = []" using assms by (auto simp: public_rep_def)
  have "case r of
     PopSpan x \<Rightarrow> xs \<noteq> [] \<and> x = hd xs \<and> t = popped l i s \<and> public_rep l i ns t (tl xs)
       \<and> sh_node (g_hdr t x) = d \<and> hw_version (head_at t l i) = hw_version (head_at s l i) + 1
   | PopEmpty \<Rightarrow> xs = [] \<and> t = s
   | PopFailed \<Rightarrow> xs \<noteq> [] \<and> t = s"
    if "let h = hw_ptr (head_at s l i); nxt = nd_next (g_node s h) in
     case r of PopEmpty \<Rightarrow> (h = 0 \<or> nxt = 0) \<and> t = s
     | PopFailed \<Rightarrow> h \<noteq> 0 \<and> nxt \<noteq> 0 \<and> t = s
     | PopSpan x \<Rightarrow> h \<noteq> 0 \<and> nxt \<noteq> 0 \<and> x = nd_span (g_node s nxt) \<and> t = popped l i s" for r t
    using that d e popped_rep [of l i d ns s "hd xs" "tl xs"] assms
    by (cases xs) (auto simp: Let_def node_next_def split: try_pop.splits)
  then show ?thesis by (rule quietly_mono [OF try_pop_quietly])
qed

lemma try_pop_strong:
  assumes "B \<noteq> LdxpStxp"
  shows "quietly (try_pop_head_once B l i) s (\<lambda>r t. r \<noteq> PopFailed)"
proof -
  have cas: "quietly (cas2_compare_exchange B l i (head_at s l i) h) s (\<lambda>r t. \<exists>a. r = Inr a)" for h
    using assms x86.cas_same_succeeds lse.cas_same_succeeds miri.cas_same_succeeds
      cas2.cas_quiet [of _ B l i "head_at s l i" h]
    by (cases B) (fastforce simp: quietly_def)+
  have load: "quietly (cas2_load B l i) s (\<lambda>h t. h = head_at s l i \<and> t = s)"
    by (auto simp: quietly_def cas2.load_quiet)
  show ?thesis
    unfolding try_pop_head_once_def Let_def
    by (rule quietly_then [OF load]) (auto intro!: quiet_intros quietly_mono [OF cas])
qed

interpretation public_queue: span_queue "public_spans l i" "enqueue_ready l i" "enqueue_by_owner l i"
    "try_pop_head_once B l i" for l i B
proof
  fix s xs x
  assume s: "public_spans l i s xs"
  then obtain d ns where r: "public_rep l i (d # ns) s xs"
    by (metis public_spans_def public_rep_def public_nodes_def neq_Nil_conv)
  show "quietly (try_pop_head_once B l i) s (\<lambda>r t. case r of
       PopSpan x \<Rightarrow> xs \<noteq> [] \<and> x = hd xs \<and> public_spans l i t (tl xs)
     | PopEmpty \<Rightarrow> xs = [] \<and> t = s | PopFailed \<Rightarrow> xs \<noteq> [] \<and> t = s)"
    by (rule quietly_mono [OF try_pop_rep [OF r]]) (auto simp: public_spans_def split: try_pop.splits)
  assume "enqueue_ready l i s x"
  with r have "public_rep l i ((d # ns) @ [sh_node (g_hdr s x)]) (enqueued l i x s) (xs @ [x])"
    by (intro enqueued_rep) (auto simp: enqueue_ready_def public_rep_def)
  then show "quietly (enqueue_by_owner l i x) s (\<lambda>_ t. public_spans l i t (xs @ [x]))"
    by (intro quietly_mono [OF enqueue_by_owner_quietly]) (auto simp: public_spans_def)
qed



section \<open>Reading the span after the exchange\<close>

text \<open>
  The winner of a pop reads the span out of the new dummy node only after its exchange.  By then the
  node is no longer its own: a second consumer may pop the next span, receive that very
  node as the outgoing dummy, and, publishing its span, write the node's span field.  The
  environment of the run below does just that, with the model's own operations: thread 2
  pops a span from the list of thread 1 and enqueues it into its own list between the
  exchange and the read of the first consumer.
\<close>

definition pop_and_publish :: "backend \<Rightarrow> lane \<Rightarrow> nat \<Rightarrow> nat \<Rightarrow> unit prog" where
  "pop_and_publish B l i j = do {
     r \<leftarrow> try_pop_head_once B l i;
     case r of PopSpan x \<Rightarrow> enqueue_by_owner l j x | _ \<Rightarrow> ret () }"

definition run_alone :: "'a prog \<Rightarrow> shared \<Rightarrow> shared" where
  "run_alone m s = w_sh (final_state m \<lparr>w_sh = s, w_step = step_new, w_env = [], w_sc_fail = []\<rparr>)"

definition race_start :: shared where
  "race_start =
     upd_public_list (SpanLane 0) 2 (\<lambda>_. \<lparr>sl_head = head_new 16 0, sl_tail = 16, sl_dummy = 16\<rparr>)
      (upd_public_list (SpanLane 0) 1 (\<lambda>_. \<lparr>sl_head = head_new 8 5, sl_tail = 196656, sl_dummy = 8\<rparr>)
       (zero_memory\<lparr>g_node := (\<lambda>_. span_node_new)(8 := \<lparr>nd_next = 131120, nd_span = 0\<rparr>,
         131120 := \<lparr>nd_next = 196656, nd_span = 131072\<rparr>, 196656 := \<lparr>nd_next = 0, nd_span = 196608\<rparr>)\<rparr>))"

definition race_world :: world where
  "race_world = \<lparr>w_sh = race_start, w_step = step_new,
     w_env = [\<lambda>s. s, \<lambda>s. s, \<lambda>s. s, run_alone (pop_and_publish Cmpxchg16b (SpanLane 0) 1 2)], w_sc_fail = []\<rparr>"

lemma run_alone_quietly: "quietly m s (\<lambda>_ t. P t) \<Longrightarrow> P (run_alone m s)"
  by (auto simp: quietly_def run_alone_def)

lemma pop_and_publish_alone:
  assumes "public_rep l i (d # ns) s (x # xs)" "B \<noteq> LdxpStxp"
  shows "run_alone (pop_and_publish B l i j) s = enqueued l j x (popped l i s)"
proof (rule run_alone_quietly)
  have "quietly (try_pop_head_once B l i) s (\<lambda>r t. r = PopSpan x \<and> t = popped l i s)"
  proof (rule quietly_mono [OF quietly_conj [OF try_pop_rep [OF assms(1)] try_pop_strong [OF assms(2)]]], goal_cases)
    case (1 a t)
    then show ?case by (cases a) auto
  qed
  then show "quietly (pop_and_publish B l i j) s (\<lambda>_ t. t = enqueued l j x (popped l i s))"
    unfolding pop_and_publish_def
    by (rule quietly_then) (auto intro!: quietly_mono [OF enqueue_by_owner_quietly])
qed

text \<open>
  C19. The documented ownership of popped spans fails under this interleaving: the list of thread 1
  holds the spans 131072 and 196608, thread 2 pops one and publishes it while the first
  consumer is between its exchange and its read, and then the first consumer returns the
  span 196608, which is also queued in the list of thread 2, while the span 131072 it had
  unlinked is in no list and held by nobody.
\<close>

theorem pop_returns_republished_span:
  "public_rep (SpanLane 0) 1 [8, 131120, 196656] race_start [131072, 196608]
   \<and> public_rep (SpanLane 0) 2 [16] race_start []
   \<and> (case run_state (try_pop_head_once Cmpxchg16b (SpanLane 0) 1) race_world of (r, w) \<Rightarrow>
        r = PopSpan 196608
        \<and> public_rep (SpanLane 0) 1 [196656] (w_sh w) []
        \<and> public_rep (SpanLane 0) 2 [16, 131120] (w_sh w) [196608])"
proof -
  let ?L = "SpanLane 0"
  define s1 where "s1 = set_head ?L 1 (head_new 131120 6) race_start"
  define s2 where "s2 = enqueued ?L 2 196608 (popped ?L 1 s1)"
  note defs = race_start_def head_at_def head_new_def public_rep_def public_nodes_def node_next_def span_node_new_def
  have r: "public_rep ?L 1 [8, 131120, 196656] race_start [131072, 196608]" "public_rep ?L 2 [16] race_start []"
    by (simp_all add: defs)
  have r1: "public_rep ?L 1 [131120, 196656] s1 [196608]" "public_rep ?L 2 [16] s1 []"
    by (simp_all add: s1_def defs set_head_def)
  then have p: "public_rep ?L 1 [196656] (popped ?L 1 s1) []" "sh_node (g_hdr (popped ?L 1 s1) 196608) = 131120"
      "public_rep ?L 2 [16] (popped ?L 1 s1) []"
    using popped_rep [of ?L 1 131120 "[196656]" s1 196608 "[]"]
    by (simp_all add: s1_def defs popped_def Let_def set_head_def)
  have e: "run_alone (pop_and_publish Cmpxchg16b ?L 1 2) s1 = s2"
    unfolding s2_def by (rule pop_and_publish_alone [OF r1(1)]) simp
  have q2: "public_rep ?L 2 [16, 131120] s2 [196608]"
    using enqueued_rep [OF p(3,2)] unfolding s2_def by simp
  have q1: "public_rep ?L 1 [196656] s2 []"
    unfolding s2_def
    by (rule enqueued_other [OF p(1)]) (use p(2,3) in \<open>auto simp: public_rep_def public_nodes_def\<close>)
  have sp: "nd_span (g_node s2 131120) = 196608" using q2 by (simp add: public_rep_def)
  have h: "head_at race_start ?L (Suc 0) = head_new 8 5" "nd_next (g_node race_start 8) = 131120"
    by (simp_all add: race_start_def head_at_def)
  have "run_state (try_pop_head_once Cmpxchg16b ?L 1) race_world =
      (PopSpan 196608, race_world\<lparr>w_sh := upd_hdr (sh_node_update (\<lambda>_. 8)) 196608 s2, w_env := [],
         w_step := cas2_attempts_update Suc step_new\<rparr>)"
    using e sp unfolding s1_def
    by (simp add: try_pop_head_once_def race_world_def load_by_cas run_cmpxchg16b run_shared_op
        interfere_def env_run_def Let_def h head_new_def head_zero_def)
  then show ?thesis using r q1 q2 by simp
qed

section \<open>Step bounds\<close>

lemma env_ok_env_run: "env_ok ok w \<Longrightarrow> ok (env_run w n)"
proof -
  assume w: "env_ok ok w"
  have *: "ok (fold (\<lambda>e s. e s) es s)" if "ok s" "\<forall>e \<in> set es. \<forall>s. ok s \<longrightarrow> ok (e s)" for es s
    using that by (induction es arbitrary: s) auto
  show ?thesis
    unfolding env_run_def by (rule *) (use w in \<open>auto simp: env_ok_def dest: in_set_takeD\<close>)
qed

lemma env_ok_drop: "env_ok ok w \<Longrightarrow> w_env w' = drop n (w_env w) \<Longrightarrow> ok (w_sh w') \<Longrightarrow> env_ok ok w'"
  unfolding env_ok_def by (auto dest: in_set_dropD)

lemma within_cas2_load [wf_within]: "within ok f (cas2_load B l i) 0"
proof -
  have "env_ok ok (final_state (cas2_load B l i) w)" if "env_ok ok w" for w
    using cas2.load_reads [of w B l i] env_ok_env_run [OF that] env_ok_drop [OF that]
    by (metis env_only_def)
  then show ?thesis by (simp add: within_def cas2.load_step)
qed

lemma within_cas2_compare_exchange [wf_within]:
  assumes "\<And>s. ok s \<Longrightarrow> ok (set_head l i h s)"
  shows "within ok f (cas2_compare_exchange B l i c h) 0"
proof -
  have "env_ok ok (final_state (cas2_compare_exchange B l i c h) w)" if w: "env_ok ok w" for w
    by (rule cas2.cas_cases [of B l i c h w])
      (use env_ok_env_run [OF w] assms in \<open>auto intro!: env_ok_drop [OF w] simp: env_only_def\<close>)
  then show ?thesis by (simp add: within_def cas2.cas_step)
qed

lemma within_sum [wf_within]:
  "(\<And>x. within ok f (m x) d) \<Longrightarrow> (\<And>x. within ok f (n x) e) \<Longrightarrow>
     within ok f (case v of Inl x \<Rightarrow> m x | Inr x \<Rightarrow> n x) (max d e)"
  using within_mono [of ok f "m (projl v)" d "max d e"] within_mono [of ok f "n (projr v)" e "max d e"]
  by (cases v) simp_all

context env_condition
begin

lemma ok_set_head [simp]: "ok s \<Longrightarrow> ok (set_head l i h s)"
  by (simp add: set_head_def)

lemma within_try_pop [wf_within]:
  "within ok (weigh c) (try_pop_head_once B l i) (max 0 (c Cas2))"
  unfolding try_pop_head_once_def Let_def
  by (rule within_mono, (rule wf_within | simp)+)

lemma within_enqueue [wf_within]: "within ok (weigh c) (enqueue_by_owner l i x) 0"
  unfolding enqueue_by_owner_def
  by (rule within_mono, (rule wf_within | simp)+)

end

end
