(* ===== verification/Span_Pool.thy ===== *)
theory Span_Pool
  imports Step_Bounds
begin

text \<open>
  The fixed span pool (\<^verbatim>\<open>src/pagemap.rs\<close>), the source of all spans and runs.  The four
  atomic accesses of the pool's cursor are functions on the pool record; the operations
  run them against the environment, and the step relation at the end interleaves them
  instruction by instruction for any number of threads.  The theorems: the region is the
  largest aligned array in the memory given, a sequential request gets the next spans or
  null, and under every interleaving, rollbacks included, no span is handed out twice.
\<close>

section \<open>Operations\<close>

definition set_region :: "address \<Rightarrow> usize \<Rightarrow> span_pool \<Rightarrow> span_pool" where
  "set_region ptr len p =
     (let start = round_up ptr SPAN_ALIGN;
          e = saturating_add ptr len;
          count = saturating_sub e start div SPAN_SIZE
      in p\<lparr>pool_base := start, pool_count := count, pool_next := 0\<rparr>)"

definition next_fetch_add :: "usize \<Rightarrow> span_pool \<Rightarrow> usize \<times> span_pool" where
  "next_fetch_add n p = (pool_next p, p\<lparr>pool_next := pool_next p + n\<rparr>)"

definition next_compare_exchange :: "usize \<Rightarrow> usize \<Rightarrow> span_pool \<Rightarrow> span_pool" where
  "next_compare_exchange current new p =
     (if pool_next p = current then p\<lparr>pool_next := new\<rparr> else p)"

definition on_pool :: "(span_pool \<Rightarrow> 'a \<times> span_pool) \<Rightarrow> shared \<Rightarrow> 'a \<times> shared" where
  "on_pool f s = (case f (g_pool s) of (a, p) \<Rightarrow> (a, s\<lparr>g_pool := p\<rparr>))"

definition acquire_raw_span :: "address prog" where
  "acquire_raw_span = do {
     tick faa_ops_update;
     i \<leftarrow> shared_op (on_pool (next_fetch_add 1));
     count \<leftarrow> shared_get (\<lambda>s. pool_count (g_pool s));
     if i \<ge> count then ret 0
     else do {
       base \<leftarrow> shared_get (\<lambda>s. pool_base (g_pool s));
       ret (base + i * SPAN_SIZE) } }"

definition acquire_raw_run :: "usize \<Rightarrow> address prog" where
  "acquire_raw_run span_count = do {
     count0 \<leftarrow> shared_get (\<lambda>s. pool_count (g_pool s));
     if span_count > count0 then ret 0
     else do {
       tick faa_ops_update;
       i \<leftarrow> shared_op (on_pool (next_fetch_add span_count));
       count \<leftarrow> shared_get (\<lambda>s. pool_count (g_pool s));
       if i \<ge> count \<or> count - i < span_count then do {
         tick cas_attempts_update;
         shared_put (\<lambda>s. s\<lparr>g_pool := next_compare_exchange (i + span_count) i (g_pool s)\<rparr>);
         ret 0 }
       else do {
         base \<leftarrow> shared_get (\<lambda>s. pool_base (g_pool s));
         ret (base + i * SPAN_SIZE) } } }"

definition spans_total :: "span_pool \<Rightarrow> usize" where
  "spans_total p = pool_count p"

definition spans_used :: "span_pool \<Rightarrow> usize" where
  "spans_used p = min (pool_next p) (spans_total p)"

definition base_addr :: "span_pool \<Rightarrow> address" where
  "base_addr p = pool_base p"

lemmas pool_ops [wf_ops] = acquire_raw_span_def acquire_raw_run_def next_fetch_add_def
  next_compare_exchange_def on_pool_def

section \<open>The region\<close>

text \<open>The whole array of spans lies in the address space and starts at an aligned address.\<close>

definition pool_wf :: "span_pool \<Rightarrow> bool" where
  "pool_wf p \<longleftrightarrow> is_aligned (pool_base p) SPAN_ALIGN \<and>
     unat (pool_base p) + unat (pool_count p) * unat SPAN_SIZE < 2 ^ 64"

lemma span_align_pow2: "is_power_of_two SPAN_ALIGN" "SPAN_ALIGN = SPAN_SIZE"
  using is_power_of_two_exp [of 16] by (simp_all add: wf_config)

lemma unat_SPAN_SIZE [simp]: "unat SPAN_SIZE = 65536"
  by (simp add: wf_config)

lemma span_aligned_iff: "is_aligned a SPAN_ALIGN \<longleftrightarrow> 65536 dvd unat a"
  using is_aligned_unat [OF span_align_pow2(1), of a] by (simp add: span_align_pow2(2))

lemma set_region_unat:
  fixes p :: span_pool
  assumes "unat ptr + unat len < 2 ^ 64" "unat ptr + 65536 \<le> 2 ^ 64"
  defines "p' \<equiv> set_region ptr len p"
  shows "unat (pool_base p') = (unat ptr + 65535) div 65536 * 65536"
    "unat (pool_count p') = (unat ptr + unat len - unat (pool_base p')) div 65536"
proof -
  show b: "unat (pool_base p') = (unat ptr + 65535) div 65536 * 65536"
    using round_up_unat [OF span_align_pow2(1), of ptr] assms(2)
    by (simp add: p'_def set_region_def Let_def span_align_pow2(2))
  have "unat (saturating_add ptr len) = unat ptr + unat len"
    using assms(1) by (simp add: saturating_add_unat)
  then show "unat (pool_count p') = (unat ptr + unat len - unat (pool_base p')) div 65536"
    by (simp add: p'_def set_region_def Let_def unat_div_distrib saturating_sub_unat)
qed

text \<open>
  Given memory that ends inside the address space, \<^verbatim>\<open>set_region\<close> installs an array of spans
  that is aligned, lies inside the memory, and is as long as any aligned array of spans
  inside it.
\<close>

lemma set_region_largest:
  fixes p :: span_pool
  assumes "unat ptr + unat len < 2 ^ 64" and "unat ptr + unat SPAN_SIZE \<le> 2 ^ 64"
  defines "p' \<equiv> set_region ptr len p"
  shows "(0 < pool_count p' \<longrightarrow> pool_wf p') \<and> pool_next p' = 0 \<and> ptr \<le> pool_base p'
    \<and> is_aligned (pool_base p') SPAN_ALIGN
    \<and> (0 < pool_count p' \<longrightarrow>
        unat (pool_base p') + unat (pool_count p') * unat SPAN_SIZE \<le> unat ptr + unat len)
    \<and> (\<forall>a k. is_aligned a SPAN_ALIGN \<and> ptr \<le> a \<and> unat a + k * unat SPAN_SIZE \<le> unat ptr + unat len
        \<longrightarrow> k \<le> unat (pool_count p'))"
proof -
  note u = set_region_unat [of ptr len p, folded p'_def]
  let ?b = "unat (pool_base p')" and ?c = "unat (pool_count p')" and ?e = "unat ptr + unat len"
  have b: "?b = (unat ptr + 65535) div 65536 * 65536" and c: "?c = (?e - ?b) div 65536"
    using u assms(1,2) by simp_all
  have up: "unat ptr \<le> ?b" "65536 dvd ?b"
    using div_mult_round_up [of 65536 "unat ptr"] unfolding b by simp_all
  have al: "is_aligned (pool_base p') SPAN_ALIGN"
    using up(2) by (simp add: span_aligned_iff)
  have fits: "?b + ?c * 65536 \<le> ?e" if "0 < ?c"
  proof -
    have "?c * 65536 \<le> ?e - ?b" unfolding c by (rule div_times_less_eq_dividend)
    with that show ?thesis by linarith
  qed
  have best: "k \<le> ?c" if "65536 dvd unat a" "unat ptr \<le> unat a" "unat a + k * 65536 \<le> ?e" for a k
  proof -
    from that(1) obtain m where m: "unat a = 65536 * m" by (elim dvdE)
    then have "(unat ptr + 65535) div 65536 \<le> m" using that(2) by simp
    then have "?b \<le> unat a" unfolding b m by simp
    then have "k * 65536 \<le> ?e - ?b" using that(3) by linarith
    then show ?thesis unfolding c by (simp add: less_eq_div_iff_mult_less_eq)
  qed
  have wf: "pool_wf p'" if "0 < ?c"
    using fits [OF that] al assms(1) unfolding pool_wf_def by simp
  have z: "0 < pool_count p' \<longleftrightarrow> 0 < ?c" by (simp add: word_less_nat_alt)
  have n: "pool_next p' = 0" by (simp add: p'_def set_region_def Let_def)
  show ?thesis
    using al wf fits best up(1) n unfolding z
    by (auto simp: span_aligned_iff word_le_nat_alt)
qed

section \<open>Sequential behaviour\<close>

text \<open>A span or run the pool hands out, as an interval of span indices.\<close>

definition span_addr :: "span_pool \<Rightarrow> usize \<Rightarrow> address" where
  "span_addr p i = pool_base p + i * SPAN_SIZE"

lemma span_addr_unat:
  assumes "pool_wf p" "i < pool_count p"
  shows "unat (span_addr p i) = unat (pool_base p) + unat i * 65536"
proof -
  have i: "unat i < unat (pool_count p)" using assms(2) by (simp add: word_less_nat_alt)
  then have "unat i * 65536 < unat (pool_count p) * 65536" by simp
  with assms(1) have b: "unat (pool_base p) + unat i * 65536 < 2 ^ 64" by (simp add: pool_wf_def)
  then have m: "unat (i * SPAN_SIZE) = unat i * 65536" by (subst unat_mult_nowrap) auto
  show ?thesis unfolding span_addr_def using b by (subst unat_add_nowrap) (simp_all add: m)
qed

lemma run_acquire_raw_span:
  "w_env w = [] \<Longrightarrow> run_state acquire_raw_span w =
    (let p = g_pool (w_sh w) in
     (if pool_next p \<ge> pool_count p then 0 else span_addr p (pool_next p),
      w\<lparr>w_sh := (w_sh w)\<lparr>g_pool := p\<lparr>pool_next := pool_next p + 1\<rparr>\<rparr>,
        w_step := faa_ops_update Suc (w_step w)\<rparr>))"
  by (simp add: pool_ops span_addr_def Let_def)

lemma run_acquire_raw_run:
  "w_env w = [] \<Longrightarrow> run_state (acquire_raw_run n) w =
    (let p = g_pool (w_sh w); i = pool_next p in
     if n > pool_count p then (0, w)
     else if i \<ge> pool_count p \<or> pool_count p - i < n then
       (0, w\<lparr>w_step := cas_attempts_update Suc (faa_ops_update Suc (w_step w))\<rparr>)
     else (span_addr p i, w\<lparr>w_sh := (w_sh w)\<lparr>g_pool := p\<lparr>pool_next := i + n\<rparr>\<rparr>,
        w_step := faa_ops_update Suc (w_step w)\<rparr>))"
  by (simp add: pool_ops span_addr_def Let_def)

section \<open>Any number of threads\<close>

text \<open>
  Each thread is at one instruction of \<^verbatim>\<open>acquire_raw_span\<close> or \<^verbatim>\<open>acquire_raw_run\<close>; the
  operations above are the sequences of these steps.  \<open>ps_granted\<close> records the intervals of
  span indices handed out so far.  The cursor is a 64-bit counter that exhausted requests
  for single spans keep raising; a step that would carry it past the word range is not
  part of the system, which is the only assumption about the threads.
\<close>

datatype pool_pc = PIdle | PSpanTaken usize | PRunChecked usize | PRunTaken usize usize
  | PRollback usize usize

record pool_sys =
  ps_pool :: span_pool
  ps_pc :: "nat \<Rightarrow> pool_pc"
  ps_granted :: "(usize \<times> usize) list"

definition pool_init :: "pool_sys \<Rightarrow> bool" where
  "pool_init s \<longleftrightarrow> pool_wf (ps_pool s) \<and> pool_next (ps_pool s) = 0
     \<and> ps_pc s = (\<lambda>_. PIdle) \<and> ps_granted s = []"

definition goto :: "nat \<Rightarrow> pool_pc \<Rightarrow> pool_sys \<Rightarrow> pool_sys" where
  "goto t c s = s\<lparr>ps_pc := (ps_pc s)(t := c)\<rparr>"

inductive pool_step :: "pool_sys \<Rightarrow> pool_sys \<Rightarrow> bool" where
  span_faa: "ps_pc s t = PIdle \<Longrightarrow> next_fetch_add 1 (ps_pool s) = (i, p) \<Longrightarrow> unat i + 1 < 2 ^ 64 \<Longrightarrow>
     pool_step s (goto t (PSpanTaken i) (s\<lparr>ps_pool := p\<rparr>))"
| span_null: "ps_pc s t = PSpanTaken i \<Longrightarrow> i \<ge> pool_count (ps_pool s) \<Longrightarrow>
     pool_step s (goto t PIdle s)"
| span_grant: "ps_pc s t = PSpanTaken i \<Longrightarrow> \<not> i \<ge> pool_count (ps_pool s) \<Longrightarrow>
     pool_step s (goto t PIdle (s\<lparr>ps_granted := ps_granted s @ [(i, 1)]\<rparr>))"
| run_check: "ps_pc s t = PIdle \<Longrightarrow> 1 \<le> n \<Longrightarrow> \<not> n > pool_count (ps_pool s) \<Longrightarrow>
     pool_step s (goto t (PRunChecked n) s)"
| run_faa: "ps_pc s t = PRunChecked n \<Longrightarrow> next_fetch_add n (ps_pool s) = (i, p) \<Longrightarrow>
     unat i + unat n < 2 ^ 64 \<Longrightarrow> pool_step s (goto t (PRunTaken n i) (s\<lparr>ps_pool := p\<rparr>))"
| run_refuse: "ps_pc s t = PRunTaken n i \<Longrightarrow>
     i \<ge> pool_count (ps_pool s) \<or> pool_count (ps_pool s) - i < n \<Longrightarrow>
     pool_step s (goto t (PRollback n i) s)"
| run_rollback: "ps_pc s t = PRollback n i \<Longrightarrow>
     pool_step s (goto t PIdle (s\<lparr>ps_pool := next_compare_exchange (i + n) i (ps_pool s)\<rparr>))"
| run_grant: "ps_pc s t = PRunTaken n i \<Longrightarrow>
     \<not> (i \<ge> pool_count (ps_pool s) \<or> pool_count (ps_pool s) - i < n) \<Longrightarrow>
     pool_step s (goto t PIdle (s\<lparr>ps_granted := ps_granted s @ [(i, n)]\<rparr>))"

text \<open>
  The intervals in play, as a ledger: an entry for each thread between its fetch-and-add
  and its end, and one for each grant.  Entries are non-empty, lie below the cursor and do
  not overlap; so when a rollback moves the cursor back, the entry it gives up is the
  topmost one.
\<close>

type_synonym ledger = "nat + nat \<Rightarrow> (nat \<times> nat) option"

definition apart :: "nat \<times> nat \<Rightarrow> nat \<times> nat \<Rightarrow> bool" where
  "apart a b \<longleftrightarrow> snd a \<le> fst b \<or> snd b \<le> fst a"

definition ledger_ok :: "nat \<Rightarrow> ledger \<Rightarrow> bool" where
  "ledger_ok cursor F \<longleftrightarrow>
     (\<forall>k a. F k = Some a \<longrightarrow> fst a < snd a \<and> snd a \<le> cursor)
   \<and> (\<forall>k k' a b. F k = Some a \<longrightarrow> F k' = Some b \<longrightarrow> k \<noteq> k' \<longrightarrow> apart a b)"

lemma ledger_belowD: "ledger_ok c F \<Longrightarrow> F k = Some a \<Longrightarrow> fst a < snd a \<and> snd a \<le> c"
  unfolding ledger_ok_def by blast

lemma ledger_apartD: "ledger_ok c F \<Longrightarrow> F k = Some a \<Longrightarrow> F k' = Some b \<Longrightarrow> k \<noteq> k' \<Longrightarrow> apart a b"
  unfolding ledger_ok_def by blast

lemma ledger_take:
  "ledger_ok c F \<Longrightarrow> 0 < n \<Longrightarrow> ledger_ok (c + n) (F(k \<mapsto> (c, c + n)))"
  unfolding ledger_ok_def apart_def by (fastforce split: if_splits)

lemma ledger_drop: "ledger_ok c F \<Longrightarrow> ledger_ok c (F(k := None))"
  unfolding ledger_ok_def by auto

lemma ledger_move:
  "ledger_ok c F \<Longrightarrow> ledger_ok c (F(k := None, k' := F k))"
  unfolding ledger_ok_def by (auto split: if_splits)

lemma ledger_rollback:
  assumes "ledger_ok c F" "F k = Some (i, c)"
  shows "ledger_ok i (F(k := None))"
proof -
  have "snd a \<le> i" if "F k' = Some a" "k' \<noteq> k" for k' a
    using assms that unfolding ledger_ok_def apart_def by fastforce
  with assms(1) show ?thesis unfolding ledger_ok_def by auto
qed

fun pc_interval :: "pool_pc \<Rightarrow> (nat \<times> nat) option" where
  "pc_interval (PSpanTaken i) = Some (unat i, unat i + 1)"
| "pc_interval (PRunTaken n i) = Some (unat i, unat i + unat n)"
| "pc_interval (PRollback n i) = Some (unat i, unat i + unat n)"
| "pc_interval _ = None"

definition nat_interval :: "usize \<times> usize \<Rightarrow> nat \<times> nat" where
  "nat_interval g = (unat (fst g), unat (fst g) + unat (snd g))"

definition in_play :: "pool_sys \<Rightarrow> ledger" where
  "in_play s = (\<lambda>k. case k of Inl t \<Rightarrow> pc_interval (ps_pc s t)
     | Inr j \<Rightarrow> if j < length (ps_granted s) then Some (nat_interval (ps_granted s ! j)) else None)"

definition pool_inv :: "pool_sys \<Rightarrow> bool" where
  "pool_inv s \<longleftrightarrow> pool_wf (ps_pool s) \<and> ledger_ok (unat (pool_next (ps_pool s))) (in_play s)
   \<and> (\<forall>t n. ps_pc s t = PRunChecked n \<longrightarrow> 1 \<le> n)
   \<and> (\<forall>g \<in> set (ps_granted s). snd (nat_interval g) \<le> unat (pool_count (ps_pool s)))"

lemma in_play_goto: "in_play (goto t c s) = (in_play s)(Inl t := pc_interval c)"
  by (auto simp: in_play_def goto_def fun_eq_iff split: sum.splits)

lemma in_play_grant:
  "in_play (s\<lparr>ps_granted := ps_granted s @ [g]\<rparr>) = (in_play s)(Inr (length (ps_granted s)) \<mapsto> nat_interval g)"
  by (auto simp: in_play_def fun_eq_iff nth_append split: sum.splits)

lemma in_play_pool: "in_play (s\<lparr>ps_pool := p\<rparr>) = in_play s"
  by (auto simp: in_play_def fun_eq_iff split: sum.splits)

lemma in_play_pc: "in_play s (Inl t) = pc_interval (ps_pc s t)"
  by (simp add: in_play_def)

lemma in_play_granted:
  "j < length (ps_granted s) \<Longrightarrow> in_play s (Inr j) = Some (nat_interval (ps_granted s ! j))"
  by (simp add: in_play_def)

lemma goto_simps [simp]:
  "ps_pool (goto t c s) = ps_pool s" "ps_granted (goto t c s) = ps_granted s"
  "ps_pc (goto t c s) u = (if u = t then c else ps_pc s u)"
  by (simp_all add: goto_def)

lemma grant_ledger:
  assumes "ledger_ok c (in_play s)" "pc_interval (ps_pc s t) = Some (nat_interval g)"
  shows "ledger_ok c (in_play (goto t PIdle (s\<lparr>ps_granted := ps_granted s @ [g]\<rparr>)))"
  using ledger_move [OF assms(1), of "Inl t" "Inr (length (ps_granted s))"] assms(2)
  by (simp add: in_play_goto in_play_grant in_play_pc fun_upd_twist)

lemma take_ledger:
  assumes "ledger_ok (unat (pool_next p)) (in_play s)" "0 < n"
    "pc_interval c = Some (unat (pool_next p), unat (pool_next p) + n)"
  shows "ledger_ok (unat (pool_next p) + n) (in_play (goto t c (s\<lparr>ps_pool := q\<rparr>)))"
  using ledger_take [OF assms(1,2)] assms(3) by (simp add: in_play_goto in_play_pool)

lemma drop_ledger:
  assumes "ledger_ok c (in_play s)" "pc_interval d = None \<or> pc_interval d = pc_interval (ps_pc s t)"
  shows "ledger_ok c (in_play (goto t d s))"
  using assms ledger_drop [OF assms(1)] by (auto simp: in_play_goto fun_upd_idem in_play_pc)

lemma pool_inv_step:
  assumes "pool_inv s" "pool_step s s'"
  shows "pool_inv s'"
  using assms(2,1)
proof (induction rule: pool_step.induct)
  case (span_faa s t i p)
  then show ?case
    using take_ledger [of "ps_pool s" s 1 "PSpanTaken i" t p]
    by (auto simp: pool_inv_def next_fetch_add_def pool_wf_def unat_inc)
next
  case (run_faa s t n i p)
  then have "0 < unat n" by (force simp: pool_inv_def word_le_nat_alt)
  with run_faa show ?case
    using take_ledger [of "ps_pool s" s "unat n" "PRunTaken n i" t p]
    by (auto simp: pool_inv_def next_fetch_add_def pool_wf_def unat_add_nowrap)
next
  case (span_grant s t i)
  then show ?case
    using grant_ledger [of "unat (pool_next (ps_pool s))" s t "(i, 1)"]
    by (auto simp: pool_inv_def nat_interval_def word_le_nat_alt)
next
  case (run_grant s t n i)
  then show ?case
    using grant_ledger [of "unat (pool_next (ps_pool s))" s t "(i, n)"]
    by (auto simp: pool_inv_def nat_interval_def word_le_nat_alt word_less_nat_alt unat_sub_le)
next
  case (run_rollback s t n i)
  let ?p = "ps_pool s"
  have F: "in_play s (Inl t) = Some (unat i, unat i + unat n)"
    using run_rollback(1) by (simp add: in_play_pc)
  have L: "ledger_ok (unat (pool_next ?p)) (in_play s)"
    using run_rollback(2) by (simp add: pool_inv_def)
  have le: "unat i + unat n \<le> unat (pool_next ?p)" using L F by (force simp: ledger_ok_def)
  then have "unat i + unat n < 2 ^ 64" using le_less_trans [OF le unat_word_lt] by simp
  then have u: "unat (i + n) = unat i + unat n" by (rule unat_add_nowrap)
  have "ledger_ok (unat (pool_next (next_compare_exchange (i + n) i ?p))) ((in_play s)(Inl t := None))"
    using ledger_rollback [OF L [unfolded u], of "Inl t" "unat i"] ledger_drop [OF L] F u
    by (auto simp: next_compare_exchange_def)
  with run_rollback show ?case
    by (auto simp: pool_inv_def in_play_goto in_play_pool next_compare_exchange_def pool_wf_def)
qed (auto simp: pool_inv_def intro: drop_ledger)

interpretation pool_threads: inductive_invariant pool_init pool_step pool_inv
proof
  show "pool_init s \<Longrightarrow> pool_inv s" for s
    by (auto simp: pool_init_def pool_inv_def ledger_ok_def in_play_def split: sum.splits)
  show "pool_inv s \<Longrightarrow> pool_step s t \<Longrightarrow> pool_inv t" for s t
    by (rule pool_inv_step)
qed

lemma ledger_grants_apart:
  assumes "ledger_ok c (in_play s)" "j < length (ps_granted s)" "k < length (ps_granted s)" "j \<noteq> k"
  shows "apart (nat_interval (ps_granted s ! j)) (nat_interval (ps_granted s ! k))"
  by (rule ledger_apartD [OF assms(1), where k = "Inr j" and k' = "Inr k"])
    (use assms in \<open>simp_all add: in_play_granted\<close>)

text \<open>
  C8. However the threads of the pool interleave their fetch-and-adds, bound checks and rollback
  attempts, every span or run handed out lies inside the region and shares no byte with
  any other one handed out.
\<close>

theorem pool_grants_disjoint:
  assumes "reachable pool_init pool_step s"
    and "j < length (ps_granted s)" "k < length (ps_granted s)" "j \<noteq> k"
  defines "p \<equiv> ps_pool s" and "a \<equiv> ps_granted s ! j" and "b \<equiv> ps_granted s ! k"
  shows "1 \<le> snd a \<and> pool_base p \<le> span_addr p (fst a)
    \<and> unat (span_addr p (fst a)) + unat (snd a) * unat SPAN_SIZE
        \<le> unat (pool_base p) + unat (pool_count p) * unat SPAN_SIZE
    \<and> (unat (span_addr p (fst a)) + unat (snd a) * unat SPAN_SIZE \<le> unat (span_addr p (fst b))
       \<or> unat (span_addr p (fst b)) + unat (snd b) * unat SPAN_SIZE \<le> unat (span_addr p (fst a)))"
proof -
  have inv: "pool_inv s" using assms(1) by (rule pool_threads.always)
  then have wf: "pool_wf p" and L: "ledger_ok (unat (pool_next p)) (in_play s)"
    by (simp_all add: pool_inv_def p_def)
  have grant: "fst (nat_interval g) < snd (nat_interval g) \<and> snd (nat_interval g) \<le> unat (pool_count p)"
    if "j < length (ps_granted s)" "g = ps_granted s ! j" for j g
    using ledger_belowD [OF L, of "Inr j"] inv that by (simp add: in_play_granted pool_inv_def p_def)
  have addr: "unat (span_addr p (fst g)) = unat (pool_base p) + unat (fst g) * 65536"
    if "j < length (ps_granted s)" "g = ps_granted s ! j" for j g
    using grant [OF that] span_addr_unat [OF wf] by (auto simp: nat_interval_def word_less_nat_alt)
  note ga = grant [OF assms(2) a_def [THEN meta_eq_to_obj_eq]] and gb = grant [OF assms(3) b_def [THEN meta_eq_to_obj_eq]]
  note aa = addr [OF assms(2) a_def [THEN meta_eq_to_obj_eq]] and ab = addr [OF assms(3) b_def [THEN meta_eq_to_obj_eq]]
  have ap: "apart (nat_interval a) (nat_interval b)"
    unfolding a_def b_def by (rule ledger_grants_apart [OF L assms(2-4)])
  have sc: "x * 65536 + y * 65536 \<le> z * 65536 \<longleftrightarrow> x + y \<le> (z :: nat)" for x y z by arith
  show ?thesis
    using ga gb ap unfolding unat_SPAN_SIZE aa ab
    by (simp add: nat_interval_def apart_def word_le_nat_alt aa) arith
qed

text \<open>Two threads, one taking a span and one taking a run of two spans between the span's steps.\<close>

lemma two_grants_reachable:
  "\<exists>s. reachable pool_init pool_step s \<and> ps_granted s = [(1, 2), (0, 1)]
     \<and> ps_pool s = \<lparr>pool_base = 65536, pool_count = 3, pool_next = 3\<rparr>"
proof -
  define s0 :: pool_sys where
    "s0 = \<lparr>ps_pool = \<lparr>pool_base = 65536, pool_count = 3, pool_next = 0\<rparr>, ps_pc = \<lambda>_. PIdle, ps_granted = []\<rparr>"
  define s1 where "s1 = goto 0 (PSpanTaken 0) (s0\<lparr>ps_pool := (ps_pool s0)\<lparr>pool_next := 1\<rparr>\<rparr>)"
  define s2 where "s2 = goto 1 (PRunChecked 2) s1"
  define s3 where "s3 = goto 1 (PRunTaken 2 1) (s2\<lparr>ps_pool := (ps_pool s2)\<lparr>pool_next := 3\<rparr>\<rparr>)"
  define s4 where "s4 = goto 1 PIdle (s3\<lparr>ps_granted := ps_granted s3 @ [(1, 2)]\<rparr>)"
  define s5 where "s5 = goto 0 PIdle (s4\<lparr>ps_granted := ps_granted s4 @ [(0, 1)]\<rparr>)"
  note defs = s0_def s1_def s2_def s3_def s4_def s5_def next_fetch_add_def
  have "reachable pool_init pool_step s0"
    by (rule reachable.start) (simp add: pool_init_def pool_wf_def span_aligned_iff defs)
  moreover have "pool_step s0 s1"
    unfolding s1_def by (rule pool_step.span_faa) (simp_all add: defs)
  moreover have "pool_step s1 s2"
    unfolding s2_def by (rule pool_step.run_check) (simp_all add: defs word_less_nat_alt)
  moreover have "pool_step s2 s3"
    unfolding s3_def by (rule pool_step.run_faa) (simp_all add: defs)
  moreover have "pool_step s3 s4"
    unfolding s4_def by (rule pool_step.run_grant) (simp_all add: defs word_less_nat_alt word_le_nat_alt)
  moreover have "pool_step s4 s5"
    unfolding s5_def by (rule pool_step.span_grant) (simp_all add: defs word_le_nat_alt)
  ultimately have "reachable pool_init pool_step s5" by (meson reachable.step)
  then show ?thesis by (intro exI [of _ s5]) (simp add: defs)
qed

theorem pool_grants_disjoint_witness:
  "\<exists>s. reachable pool_init pool_step s \<and> length (ps_granted s) = 2
     \<and> (unat (span_addr (ps_pool s) 0) + unat (1 :: usize) * unat SPAN_SIZE \<le> unat (span_addr (ps_pool s) 1)
        \<or> unat (span_addr (ps_pool s) 1) + unat (2 :: usize) * unat SPAN_SIZE \<le> unat (span_addr (ps_pool s) 0))"
proof -
  obtain s where s: "reachable pool_init pool_step s" "ps_granted s = [(1, 2), (0, 1)]"
    using two_grants_reachable by blast
  then show ?thesis using pool_grants_disjoint [OF s(1), of 1 0] by (intro exI [of _ s]) simp
qed

text \<open>
  Left alone, a request for \<open>n\<close> spans succeeds exactly when \<open>n\<close> spans are left, is then given
  the next \<open>n\<close> spans of the region, and a refused one leaves the pool as it was.
\<close>

theorem acquire_raw_run_exact:
  assumes "w_env w = []" and "pool_wf (g_pool (w_sh w))" and "1 \<le> n"
  defines "p \<equiv> g_pool (w_sh w)"
    and "left \<equiv> unat (pool_count (g_pool (w_sh w))) - unat (pool_next (g_pool (w_sh w)))"
  shows "if unat n \<le> left
    then unat (result_of (acquire_raw_run n) w) = unat (pool_base p) + unat (pool_next p) * unat SPAN_SIZE
       \<and> w_sh (final_state (acquire_raw_run n) w) = (w_sh w)\<lparr>g_pool := p\<lparr>pool_next := pool_next p + n\<rparr>\<rparr>
       \<and> unat (pool_next p + n) = unat (pool_next p) + unat n
    else result_of (acquire_raw_run n) w = 0 \<and> w_sh (final_state (acquire_raw_run n) w) = w_sh w"
proof -
  have n: "0 < unat n" using assms(3) by (simp add: word_le_nat_alt)
  have nolap: "unat (pool_next p + n) = unat (pool_next p) + unat n" if "unat n \<le> left"
  proof -
    have "unat (pool_next p) + unat n \<le> unat (pool_count p)"
      using that n by (simp add: left_def p_def)
    from le_less_trans [OF this unat_word_lt] show ?thesis by (intro unat_add_nowrap) simp
  qed
  have addr: "unat (span_addr p (pool_next p)) = unat (pool_base p) + unat (pool_next p) * 65536"
    if "unat n \<le> left"
    using that n assms(2) by (intro span_addr_unat) (auto simp: p_def left_def word_less_nat_alt)
  have fits: "n > pool_count p \<or> pool_next p \<ge> pool_count p \<or> pool_count p - pool_next p < n \<longleftrightarrow> \<not> unat n \<le> left"
    using n by (auto simp: left_def p_def word_less_nat_alt word_le_nat_alt unat_sub_if_size)
  show ?thesis
    using fits addr nolap run_acquire_raw_run [OF assms(1), of n, folded p_def]
    by (auto simp: Let_def p_def)
qed

theorem acquire_raw_run_exact_witness:
  "\<exists>w. w_env w = [] \<and> pool_wf (g_pool (w_sh w)) \<and> pool_next (g_pool (w_sh w)) = 1
     \<and> unat (result_of (acquire_raw_run 2) w) = 65536 + 65536
     \<and> result_of (acquire_raw_run 3) w = 0"
proof -
  obtain w0 :: world where True by blast
  define w where "w = w0\<lparr>w_env := [], w_sh := (w_sh w0)\<lparr>g_pool :=
    \<lparr>pool_base = 65536, pool_count = 3, pool_next = 1\<rparr>\<rparr>\<rparr>"
  have w: "w_env w = []" "pool_wf (g_pool (w_sh w))"
    by (simp_all add: w_def pool_wf_def span_aligned_iff)
  show ?thesis
    using acquire_raw_run_exact [OF w, of 2] acquire_raw_run_exact [OF w, of 3] w
    by (intro exI [of _ w]) (simp add: w_def)
qed

section \<open>Step bounds\<close>

text \<open>In any environment a request is one fetch-and-add and at most one rollback attempt.\<close>

context env_condition
begin

lemma ok_on_pool [simp]: "ok s \<Longrightarrow> ok (snd (on_pool f s))"
  by (simp add: on_pool_def split_beta)

lemma within_acquire_raw_span [wf_within]: "within ok (weigh c) acquire_raw_span (c Faa)"
  unfolding acquire_raw_span_def
  by (rule within_mono, (rule wf_within | simp)+)

lemma within_acquire_raw_run [wf_within]:
  "within ok (weigh c) (acquire_raw_run n) (max 0 (c Faa + max (c Cas) 0))"
  unfolding acquire_raw_run_def
  by (rule within_mono, (rule wf_within | simp)+)

end

end
