(* ===== verification/Small_Path.thy ===== *)
theory Small_Path
  imports Span_Lists Helping Span_Pool
begin

text \<open>
  The small-object path of \<^verbatim>\<open>src/allocator.rs\<close>: allocation from private spans with rotation, from
  acquired public spans and from fresh ones, local and remote free, absorption of remote
  frees and discarding of exhausted spans.  Backend, number of threads and number of
  classes are arguments.  The theorems bound the steps of both operations in every
  environment and describe the pieces of the path left alone.
\<close>

section \<open>Operations\<close>

definition remote_sub :: "address \<Rightarrow> usize \<Rightarrow> shared \<Rightarrow> shared" where
  "remote_sub span k = upd_remote (rm_free_count_update (\<lambda>g. g - k)) span"

definition remote_fetch_add :: "address \<Rightarrow> shared \<Rightarrow> isize \<times> shared" where
  "remote_fetch_add span s =
     (rm_free_count (remote_of s span), upd_remote (rm_free_count_update (\<lambda>g. g + 1)) span s)"

definition owner_cas :: "address \<Rightarrow> usize \<Rightarrow> usize \<Rightarrow> shared \<Rightarrow> bool \<times> shared" where
  "owner_cas span current new s =
     (if sh_owner (g_hdr s span) = current then (True, set_owner span new s) else (False, s))"

abbreviation set_pending :: "address \<Rightarrow> address \<Rightarrow> shared \<Rightarrow> shared" where
  "set_pending span v \<equiv> upd_local (lm_pending_remote_update (\<lambda>_. v)) span"

definition refill_live :: "address \<Rightarrow> usize \<Rightarrow> bool prog" where
  "refill_live span got = do {
     tick swap_ops_update;
     chn \<leftarrow> reclaim_all span;
     got \<leftarrow> (if chn \<noteq> 0 then do {
         (k, leftover) \<leftarrow> append_remote_to_local_bounded span chn;
         owner_put (set_pending span leftover);
         (if leftover \<noteq> 0 then bump remote_blocked_events_update else ret ());
         ret (got + k) }
       else ret got);
     if got > 0 then do {
       tick faa_ops_update;
       shared_put (remote_sub span got);
       ret True }
     else ret False }"

definition refill_from_remote :: "address \<Rightarrow> bool prog" where
  "refill_from_remote span = do {
     pending \<leftarrow> owner_op (\<lambda>s. (lm_pending_remote (local_of s span), set_pending span 0 s));
     if pending \<noteq> 0 then do {
       (k, leftover) \<leftarrow> append_remote_to_local_bounded span pending;
       owner_put (set_pending span leftover);
       if leftover \<noteq> 0 then do {
         bump remote_blocked_events_update;
         (if k > 0 then do { tick faa_ops_update; shared_put (remote_sub span k) } else ret ());
         ret (k > 0) }
       else refill_live span k }
     else refill_live span 0 }"

definition try_discard :: "address \<Rightarrow> usize \<Rightarrow> bool prog" where
  "try_discard span tid = do {
     g \<leftarrow> shared_get (\<lambda>s. rm_free_count (remote_of s span));
     if g \<noteq> 0 then ret False
     else do {
       shared_put (set_owner span OWNER_NONE);
       owner_put (set_span_state span Discarded);
       g' \<leftarrow> shared_get (\<lambda>s. rm_free_count (remote_of s span));
       if g' = 0 then ret True
       else do {
         tick cas_attempts_update;
         ok \<leftarrow> shared_op (owner_cas span OWNER_NONE tid);
         if ok then do { owner_put (set_span_state span NonEmptyLocal); ret False }
         else ret True } } }"

text \<open>
  One privately held span after another, at the front of the list: \<^verbatim>\<open>Some p\<close> where the code
  returns \<^verbatim>\<open>p\<close>, \<^verbatim>\<open>None\<close> where the loop runs to its end or breaks.
\<close>

fun rotate_local :: "nat \<Rightarrow> usize \<Rightarrow> nat \<Rightarrow> address option prog" where
  "rotate_local 0 tid sclass = ret None"
| "rotate_local (Suc k) tid sclass = do {
     span \<leftarrow> owner_get (list_front (SpanLane sclass) (unat tid));
     if span = 0 then ret None
     else do {
       p \<leftarrow> alloc_from_local_span span;
       if p \<noteq> 0 then ret (Some p)
       else do {
         refilled \<leftarrow> refill_from_remote span;
         p \<leftarrow> (if refilled then alloc_from_local_span span else ret 0);
         if p \<noteq> 0 then ret (Some p)
         else do {
           owner_op (pop_front (SpanLane sclass) (unat tid));
           pending \<leftarrow> owner_get (\<lambda>s. lm_pending_remote (local_of s span));
           gone \<leftarrow> (if pending = 0 then try_discard span tid else ret False);
           (if gone then bump discarded_spans_update
            else owner_put (push_back (SpanLane sclass) (unat tid) span));
           rotate_local k tid sclass } } } }"

definition use_acquired :: "address \<Rightarrow> usize \<Rightarrow> nat \<Rightarrow> address prog" where
  "use_acquired span tid sclass = do {
     shared_put (set_owner span tid);
     owner_put (set_span_state span NonEmptyLocal);
     owner_put (push_front (SpanLane sclass) (unat tid) span);
     p \<leftarrow> alloc_from_local_span span;
     if p \<noteq> 0 then ret p
     else do {
       refilled \<leftarrow> refill_from_remote span;
       if refilled then alloc_from_local_span span else ret 0 } }"

definition use_raw :: "usize \<Rightarrow> nat \<Rightarrow> address prog" where
  "use_raw tid sclass = do {
     raw \<leftarrow> acquire_raw_span;
     if raw \<noteq> 0 then do {
       span \<leftarrow> owner_op (init_span raw sclass (class_to_size sclass) tid);
       bump allocated_spans_update;
       owner_put (push_front (SpanLane sclass) (unat tid) span);
       alloc_from_local_span span }
     else ret 0 }"

definition alloc_small :: "backend \<Rightarrow> nat \<Rightarrow> usize \<Rightarrow> nat \<Rightarrow> address prog" where
  "alloc_small B n tid sclass = do {
     r \<leftarrow> rotate_local (unat LOCAL_SPAN_LIMIT_K + 1) tid sclass;
     case r of
       Some p \<Rightarrow> ret p
     | None \<Rightarrow> do {
         span \<leftarrow> spanlists_acquire_span B n (unat tid) sclass;
         p \<leftarrow> (if span \<noteq> 0 then use_acquired span tid sclass else ret 0);
         if p \<noteq> 0 then ret p else use_raw tid sclass } }"

definition dealloc_local :: "address \<Rightarrow> address \<Rightarrow> usize \<Rightarrow> unit prog" where
  "dealloc_local span block tid = do {
     tick local_steps_update;
     dealloc_to_local_span span block;
     q \<leftarrow> owner_get (\<lambda>s. lm_free_count (local_of s span));
     g \<leftarrow> shared_get (\<lambda>s. rm_free_count (remote_of s span));
     m \<leftarrow> owner_get (\<lambda>s. sh_block_count (g_hdr s span));
     if q + g = m then do {
       owner_put (set_span_state span FullLocal);
       sclass \<leftarrow> owner_get (\<lambda>s. sh_size_class (g_hdr s span));
       len \<leftarrow> owner_get (list_len (SpanLane sclass) (unat tid));
       if len > LOCAL_SPAN_LIMIT_K then do {
         removed \<leftarrow> owner_op (remove_bounded (SpanLane sclass) (unat tid) span (unat len));
         if removed then do {
           shared_put (set_owner span OWNER_PUBLIC);
           owner_put (set_span_state span FullPublic);
           enqueue_by_owner (SpanLane sclass) (unat tid) span;
           bump published_spans_update }
         else ret () }
       else ret () }
     else ret () }"

definition dealloc_remote :: "address \<Rightarrow> address \<Rightarrow> usize \<Rightarrow> unit prog" where
  "dealloc_remote span block tid = do {
     tick remote_steps_update;
     tick swap_ops_update;
     tick faa_ops_update;
     remote_push span block;
     old \<leftarrow> shared_op (remote_fetch_add span);
     if old = 0 then do {
       tick cas_attempts_update;
       ok \<leftarrow> shared_op (owner_cas span OWNER_NONE tid);
       if ok then do {
         owner_put (set_span_state span NonEmptyLocal);
         sclass \<leftarrow> owner_get (\<lambda>s. sh_size_class (g_hdr s span));
         owner_put (push_front (SpanLane sclass) (unat tid) span);
         bump claimed_spans_update }
       else ret () }
     else ret () }"

definition dealloc_small :: "address \<Rightarrow> usize \<Rightarrow> unit prog" where
  "dealloc_small ptr tid = do {
     let span = span_from_ptr ptr;
     let block = block_from_payload ptr;
     owner \<leftarrow> shared_get (\<lambda>s. sh_owner (g_hdr s span));
     if owner = tid then dealloc_local span block tid
     else dealloc_remote span block tid }"

section \<open>Step bounds in any environment\<close>

context env_condition
begin

lemma ok_span_lists [simp]:
  "ok s \<Longrightarrow> ok (set_next_local a v s)"
  "ok s \<Longrightarrow> ok (push_front l i x s)" "ok s \<Longrightarrow> ok (push_back l i x s)" "ok s \<Longrightarrow> ok (snd (pop_front l i s))"
  by (simp_all add: set_next_local_def push_front_def push_back_def pop_front_def Let_def)

lemma ok_remove_bounded [simp]: "ok s \<Longrightarrow> ok (snd (remove_bounded l i x k s))"
proof -
  have "ok s \<Longrightarrow> ok (snd (remove_loop k l i x p y s))" for p y
    by (induction k arbitrary: p y s) (simp_all add: Let_def)
  then show "ok s \<Longrightarrow> ok (snd (remove_bounded l i x k s))" by (simp add: remove_bounded_def)
qed

lemma ok_span_words [simp]:
  "ok s \<Longrightarrow> ok (remote_sub a k s)" "ok s \<Longrightarrow> ok (snd (remote_fetch_add a s))"
  "ok s \<Longrightarrow> ok (snd (owner_cas a c n s))"
  by (simp_all add: remote_sub_def remote_fetch_add_def owner_cas_def)

lemma within_try_discard [wf_within]: "0 \<le> c Cas \<Longrightarrow> within ok (weigh c) (try_discard span tid) (c Cas)"
  unfolding try_discard_def by (rule within_mono, (rule wf_within | simp)+)

lemma within_dealloc_local:
  "within ok (weigh c) (dealloc_local span block tid) (c Local)"
  unfolding dealloc_local_def by (rule within_mono, (rule wf_within | simp)+)

lemma within_dealloc_remote:
  "0 \<le> c Cas \<Longrightarrow> within ok (weigh c) (dealloc_remote span block tid) (c Remote + c Swap + c Faa + c Cas)"
  unfolding dealloc_remote_def by (rule within_mono, (rule wf_within | simp)+)

lemma within_dealloc_small:
  "0 \<le> c Cas \<Longrightarrow> within ok (weigh c) (dealloc_small ptr tid) (max (c Local) (c Remote + c Swap + c Faa + c Cas))"
  unfolding dealloc_small_def Let_def
  by (rule within_mono, (rule wf_within within_dealloc_local within_dealloc_remote | simp)+)

end

text \<open>Under a bound on the block counts the scans of remote chains are bounded too.\<close>

lemma within_append_bounded [wf_within]:
  "0 \<le> c Scan \<Longrightarrow> within (block_counts_below M) (weigh c) (append_remote_to_local_bounded span head) (int M * c Scan)"
  unfolding append_remote_to_local_bounded_def
  by (rule within_read, rule within_mono, rule capped_env.within_append_loop, assumption,
      rule mult_right_mono) (simp_all only: of_nat_le_iff block_counts_below_def)

lemma within_refill_live [wf_within]:
  "0 \<le> c Scan \<Longrightarrow> 0 \<le> c Faa \<Longrightarrow>
     within (block_counts_below M) (weigh c) (refill_live span got) (int M * c Scan + c Swap + c Faa)"
  unfolding refill_live_def by (rule within_mono, (rule wf_within capped_env.within_stat_bump | simp)+)

lemma within_refill [wf_within]:
  assumes "0 \<le> c Scan" "0 \<le> c Faa" "0 \<le> c Swap"
  shows "within (block_counts_below M) (weigh c) (refill_from_remote span) (2 * int M * c Scan + c Swap + c Faa)"
proof -
  have "0 \<le> int M * c Scan" using assms by simp
  then show ?thesis
    unfolding refill_from_remote_def
    by - (rule within_mono, (rule wf_within | simp add: assms)+)
qed

definition rotation_cost :: "nat \<Rightarrow> (step_kind \<Rightarrow> int) \<Rightarrow> int" where
  "rotation_cost M c = 2 * c Local + 2 * int M * c Scan + c Swap + c Faa + c Cas"

lemma within_rotate_local:
  assumes "0 \<le> c Scan" "0 \<le> c Faa" "0 \<le> c Swap" "0 \<le> c Cas" "0 \<le> c Local"
  shows "within (block_counts_below M) (weigh c) (rotate_local k tid sclass) (int k * rotation_cost M c)"
proof (induction k)
  case 0
  then show ?case by (simp add: wf_within)
next
  case (Suc k)
  have nn: "0 \<le> int M * c Scan" "0 \<le> int k * rotation_cost M c" using assms by (simp_all add: rotation_cost_def)
  show ?case
    unfolding rotate_local.simps
    by (rule within_mono, (rule wf_within Suc.IH | simp add: assms)+)
      (use assms nn in \<open>simp add: rotation_cost_def algebra_simps\<close>)
qed

lemma block_counts_init_span:
  assumes "unat (blocks_per_span bs) \<le> M" "block_counts_below M s"
  shows "block_counts_below M (snd (init_span raw sclass bs tid s))"
proof -
  have "g_hdr t = g_hdr s" if "link_blocks k base first bs head s = (h, t)" for k base first head h s t
    using link_blocks_frame [OF that] by simp
  with assms show ?thesis
    by (auto simp: block_counts_below_def init_span_def Let_def write_header_def push_chain_head_for_init_def
        blocks_per_span_def span_header_fresh_def split: prod.splits)
qed

lemma within_use_acquired:
  assumes "0 \<le> c Scan" "0 \<le> c Faa" "0 \<le> c Swap" "0 \<le> c Local"
  shows "within (block_counts_below M) (weigh c) (use_acquired span tid sclass)
    (2 * c Local + 2 * int M * c Scan + c Swap + c Faa)"
proof -
  have "0 \<le> int M * c Scan" using assms by simp
  with assms show ?thesis
    unfolding use_acquired_def by - (rule within_mono, (rule wf_within | simp)+)
qed

lemma within_use_raw:
  assumes "block_total sclass \<le> M" "0 \<le> c Local" "0 \<le> c Faa"
  shows "within (block_counts_below M) (weigh c) (use_raw tid sclass) (c Faa + c Local)"
  unfolding use_raw_def
  by (rule within_mono, (rule wf_within block_counts_init_span | simp add: assms block_total_def [symmetric])+)

lemma within_alloc_small:
  assumes nn: "0 \<le> c Scan" "0 \<le> c Faa" "0 \<le> c Swap" "0 \<le> c Cas" "0 \<le> c Cas2" "0 \<le> c Local"
    and e: "c Help + c Cas2 + c Cas \<le> e1" "0 \<le> e1" "c Query + c Cas2 + c Cas + c Swap \<le> e2" "0 \<le> e2"
    and M: "block_total sclass \<le> M"
  shows "within (block_counts_below M) (weigh c) (alloc_small B n tid sclass)
    (41 * rotation_cost M c + int (HELP_BUDGET_H + n) * e1 + int n * e2
      + 3 * c Swap + c Cas + 3 * c Local + 2 * int M * c Scan + 2 * c Faa)"
proof -
  note acq = capped_env.within_acquire_from_lists [OF nn(4,5,3) e, of M B "SpanLane sclass" "unat tid" n,
      folded spanlists_acquire_span_def]
  note rules = wf_within within_rotate_local [OF nn(1-4,6)] acq within_use_acquired [OF nn(1-3,6)]
    within_use_raw [OF M nn(6,2)]
  have k: "unat LOCAL_SPAN_LIMIT_K + 1 = 41" by (simp add: wf_config)
  have p: "0 \<le> 2 * int M * c Scan" "0 \<le> int (HELP_BUDGET_H + n) * e1" "0 \<le> int n * e2"
    using nn e by simp_all
  show ?thesis
    unfolding alloc_small_def k
    by (rule within_mono, (rule rules)+)
      (use nn p in linarith)
qed


text \<open>
  Small deallocation takes a constant number of steps in every environment: one local step, or one
  SWAP, one FAA and at most one CAS, with no scan, no helping and no double-word CAS.
\<close>

theorem dealloc_small_constant:
  assumes "w_step w = step_new" and "s = w_step (final_state (dealloc_small ptr tid) w)"
  shows "local_steps s + remote_steps s \<le> 1 \<and> swap_ops s \<le> 1 \<and> faa_ops s \<le> 1 \<and> cas_attempts s \<le> remote_steps s
    \<and> cas2_attempts s = 0 \<and> help_steps s = 0 \<and> query_steps s = 0 \<and> blocks_scanned s = 0"
proof -
  note bound = within_fresh [OF any_env.within_dealloc_small assms(1), of _ ptr tid, folded assms(2)]
  show ?thesis
    using bound [of "(\<lambda>_. 0)(Local := 1, Remote := 1)"] bound [of "only Swap"] bound [of "only Faa"]
      bound [of "(\<lambda>_. 0)(Cas := 1, Remote := -1)"] bound [of "only Cas2"] bound [of "only Help"]
      bound [of "only Query"] bound [of "only Scan"]
    by (simp add: weigh_def)
qed

definition busy_world :: world where
  "busy_world = \<lparr>w_sh = zero_memory, w_step = step_new,
     w_env = [set_owner 65536 3, set_block 65600 1], w_sc_fail = [True]\<rparr>"


theorem dealloc_small_constant_witness:
  "cas_attempts (w_step (final_state (dealloc_small 65600 0) busy_world)) \<le> 1"
proof -
  have "w_step busy_world = step_new" by (simp add: busy_world_def)
  from dealloc_small_constant [OF this refl, of 65600 0] show ?thesis by linarith
qed

end
