(* ===== verification/Helping_Ownership.thy ===== *)
theory Helping_Ownership
  imports Helping
begin

text \<open>
  Ownership in the helping protocol: the spans of one lane are in the public lists, in completed
  help records, or in the hands of the running operation.  The theorem at the end says
  that an acquisition left alone moves spans between these places and neither drops nor
  duplicates one.
\<close>

section \<open>Where the spans of a lane are\<close>

definition cell_bag :: "address \<Rightarrow> address multiset" where
  "cell_bag x = (if x = 0 then {#} else {#x#})"

definition record_bag :: "usize \<Rightarrow> address multiset" where
  "record_bag w = (if req_is_empty w \<or> req_is_pending w then {#} else {#req_span w#})"

definition lane_queues :: "lane \<Rightarrow> nat \<Rightarrow> shared \<Rightarrow> (nat \<Rightarrow> address list) \<Rightarrow> bool" where
  "lane_queues l n s Q \<longleftrightarrow> (\<forall>i < n. public_spans l i s (Q i) \<and> (\<forall>x \<in> set (Q i). even (unat x)))"

definition lane_bag :: "lane \<Rightarrow> nat \<Rightarrow> shared \<Rightarrow> (nat \<Rightarrow> address list) \<Rightarrow> address multiset" where
  "lane_bag l n s Q = (\<Sum>i < n. mset (Q i)) + (\<Sum>i < n. record_bag (record_word s l i))"

text \<open>The lane holds \<open>M\<close> spans in all, of which \<open>H\<close> are in the hands of the operation.\<close>

definition holds :: "lane \<Rightarrow> nat \<Rightarrow> shared \<Rightarrow> address multiset \<Rightarrow> address multiset \<Rightarrow> bool" where
  "holds l n s H M \<longleftrightarrow> (\<exists>Q. lane_queues l n s Q \<and> lane_bag l n s Q + H = M)
     \<and> (\<forall>x \<in># H. x \<noteq> 0 \<and> even (unat x))"

lemma bag_simps [simp]: "cell_bag 0 = {#}" "record_bag 0 = {#}" "record_bag (req_pending p) = {#}"
  using pending_unat_odd by (auto simp: cell_bag_def record_bag_def req_is_empty_def is_pending_odd)

lemma record_bag_span: "x \<noteq> 0 \<Longrightarrow> even (unat x) \<Longrightarrow> record_bag (req_done_with_span x) = {#x#}"
  using even_span_word [of x] by (simp add: record_bag_def req_is_empty_def req_done_with_span_def)

lemma reclaimed_bag:
  "cell_bag (if req_is_empty w \<or> req_is_pending w then 0 else req_span w) = record_bag w"
  "\<forall>x \<in># record_bag w. x \<noteq> 0 \<and> even (unat x)"
proof -
  have "even (unat w) \<Longrightarrow> req_span w = w" using even_span_word by blast
  then show "cell_bag (if req_is_empty w \<or> req_is_pending w then 0 else req_span w) = record_bag w"
    "\<forall>x \<in># record_bag w. x \<noteq> 0 \<and> even (unat x)"
    by (auto simp: cell_bag_def record_bag_def req_is_empty_def is_pending_odd)
qed

lemma sum_upd_bag:
  fixes f g :: "nat \<Rightarrow> 'a multiset"
  assumes "i < n" "\<And>j. j \<noteq> i \<Longrightarrow> g j = f j"
  shows "(\<Sum>j < n. g j) + f i = (\<Sum>j < n. f j) + g i"
proof -
  have "sum g ({..<n} - {i}) = sum f ({..<n} - {i})" by (rule sum.cong) (auto simp: assms(2))
  then show ?thesis
    using assms(1) sum.remove [of "{..<n}" i f] sum.remove [of "{..<n}" i g] by (simp add: ac_simps)
qed

section \<open>What each access moves\<close>

lemma record_word_set [simp]:
  "record_word (set_record_word l i v s) l' j = (if l = l' \<and> i = j then v else record_word s l' j)"
  by (simp add: record_word_def set_record_word_def)

lemma record_word_frame [simp]:
  "record_word (upd_record l' i (hr_last_phase_update f) s) l j = record_word s l j"
  "record_word (s\<lparr>g_stats := x\<rparr>) l j = record_word s l j"
  "record_word (set_positions l' i a b s) l j = record_word s l j"
  by (simp_all add: record_word_def)

lemma node_next_frame [simp]:
  "node_next (upd_record l' i f s) = node_next s" "node_next (s\<lparr>g_stats := x\<rparr>) = node_next s"
  "node_next (set_positions l' i a b s) = node_next s"
  by (simp_all add: node_next_def fun_eq_iff)

lemma lane_queues_frame [simp]:
  "lane_queues l n (upd_record l' i f s) Q = lane_queues l n s Q"
  "lane_queues l n (s\<lparr>g_stats := x\<rparr>) Q = lane_queues l n s Q"
  "lane_queues l n (set_positions l' i a b s) Q = lane_queues l n s Q"
  by (simp_all add: lane_queues_def public_spans_def public_rep_def public_nodes_def head_at_def)

lemma holds_frame [simp]:
  "holds l n (s\<lparr>g_stats := x\<rparr>) H M = holds l n s H M"
  "holds l n (set_positions l' i a b s) H M = holds l n s H M"
  "holds l n (upd_record l' i (hr_last_phase_update f) s) H M = holds l n s H M"
  by (simp_all add: holds_def lane_bag_def)

lemma holds_set_record:
  assumes "holds l n s (H + record_bag v) M" "i < n" "record_bag (record_word s l i) = {#}"
  shows "holds l n (set_record_word l i v s) H M"
proof -
  let ?t = "set_record_word l i v s"
  from assms(1) obtain Q where Q: "lane_queues l n s Q" "lane_bag l n s Q + (H + record_bag v) = M"
    by (auto simp: holds_def)
  have "(\<Sum>j < n. record_bag (record_word ?t l j)) = (\<Sum>j < n. record_bag (record_word s l j)) + record_bag v"
    using sum_upd_bag [OF assms(2), of "\<lambda>j. record_bag (record_word ?t l j)" "\<lambda>j. record_bag (record_word s l j)"]
      assms(3) by simp
  then have "lane_bag l n ?t Q + H = M" using Q(2) by (simp add: lane_bag_def ac_simps)
  with Q(1) assms(1) show ?thesis by (auto simp: holds_def set_record_word_def)
qed

lemma holds_take_record:
  assumes "holds l n s H M" "i < n"
  shows "holds l n (set_record_word l i 0 s) (H + record_bag (record_word s l i)) M"
proof -
  let ?t = "set_record_word l i 0 s"
  from assms(1) obtain Q where Q: "lane_queues l n s Q" "lane_bag l n s Q + H = M" by (auto simp: holds_def)
  have eq: "(\<Sum>j < n. record_bag (record_word ?t l j)) + record_bag (record_word s l i)
      = (\<Sum>j < n. record_bag (record_word s l j))"
    using sum_upd_bag [OF assms(2), of "\<lambda>j. record_bag (record_word ?t l j)" "\<lambda>j. record_bag (record_word s l j)"]
    by simp
  have "lane_bag l n ?t Q + (H + record_bag (record_word s l i)) = M"
    unfolding Q(2) [symmetric] lane_bag_def eq [symmetric] by (simp only: ac_simps)
  with Q(1) assms(1) reclaimed_bag(2) show ?thesis by (auto simp: holds_def set_record_word_def)
qed

lemma popped_other:
  "(l, i) \<noteq> (l', j) \<Longrightarrow> public_spans l i (popped l' j s) xs = public_spans l i s xs"
  by (auto simp: public_spans_def public_rep_def public_nodes_def popped_def Let_def set_head_def node_next_def head_at_def)

lemma pop_holds:
  assumes "holds l n s H M" "j < n"
  shows "quietly (try_pop_head_once B l j) s (\<lambda>r t. case r of
     PopSpan x \<Rightarrow> holds l n t (H + {#x#}) M \<and> x \<noteq> 0 \<and> even (unat x) \<and> (\<forall>i. record_word t l i = record_word s l i)
   | PopEmpty \<Rightarrow> t = s | PopFailed \<Rightarrow> t = s)"
proof -
  from assms(1) obtain Q where Q: "lane_queues l n s Q" "lane_bag l n s Q + H = M" by (auto simp: holds_def)
  then have "public_spans l j s (Q j)" using assms(2) by (simp add: lane_queues_def)
  then obtain d ns where r: "public_rep l j (d # ns) s (Q j)"
    by (metis public_spans_def public_rep_def public_nodes_def neq_Nil_conv)
  have rec: "record_word (popped l j s) l i = record_word s l i" for i
    by (cases l) (simp_all add: popped_def Let_def set_head_def record_word_def)
  have main: "holds l n (popped l j s) (H + {#hd (Q j)#}) M \<and> hd (Q j) \<noteq> 0 \<and> even (unat (hd (Q j)))"
    if "Q j \<noteq> []" "public_rep l j ns (popped l j s) (tl (Q j))"
  proof -
    let ?Q = "Q(j := tl (Q j))"
    have e: "hd (Q j) \<noteq> 0" "even (unat (hd (Q j)))"
      using hd_in_set [OF that(1)] r Q(1) assms(2) by (auto simp: public_rep_def lane_queues_def)
    have "set (tl (Q j)) \<subseteq> set (Q j)" using that(1) by (cases "Q j") auto
    then have "lane_queues l n (popped l j s) ?Q"
      using Q(1) that(2) by (auto simp: lane_queues_def popped_other public_spans_def [of l j])
    moreover have "(\<Sum>i < n. mset (?Q i)) + mset (Q j) = (\<Sum>i < n. mset (Q i)) + mset (tl (Q j))"
      using sum_upd_bag [OF assms(2), of "\<lambda>i. mset (?Q i)" "\<lambda>i. mset (Q i)"] by simp
    then have eq: "(\<Sum>i < n. mset (?Q i)) + {#hd (Q j)#} = (\<Sum>i < n. mset (Q i))"
      using that(1) by (cases "Q j") simp_all
    have "lane_bag l n (popped l j s) ?Q + (H + {#hd (Q j)#}) = M"
      unfolding Q(2) [symmetric] lane_bag_def eq [symmetric] rec by (simp only: ac_simps)
    ultimately show ?thesis using e assms(1) by (auto simp: holds_def)
  qed
  show ?thesis
    by (rule quietly_mono [OF try_pop_rep [OF r]]) (use main rec in \<open>auto split: try_pop.splits\<close>)
qed

section \<open>The protocol\<close>

text \<open>
  The protocol moves spans by four accesses only: a pop, taking a record's word, completing a record, and
  clearing one.  Whatever \<open>has s H\<close> says of a state in which the operation has the spans \<open>H\<close> in its hands, the
  whole acquisition keeps it when these accesses do.
\<close>

text \<open>The span in the hands of the operation when the query loop ends.\<close>

fun outcome_cell :: "nat \<times> address + address \<Rightarrow> address" where
  "outcome_cell (Inr p) = p"
| "outcome_cell (Inl (_, held)) = held"

locale span_custody =
  fixes l :: lane and n :: nat and has :: "shared \<Rightarrow> address multiset \<Rightarrow> bool"
  assumes has_cells: "has s H \<Longrightarrow> x \<in># H \<Longrightarrow> x \<noteq> 0 \<and> even (unat x)"
    and has_pop: "has s H \<Longrightarrow> j < n \<Longrightarrow> quietly (try_pop_head_once B l j) s (\<lambda>r t. case r of
       PopSpan x \<Rightarrow> has t (H + {#x#}) | PopEmpty \<Rightarrow> t = s | PopFailed \<Rightarrow> t = s)"
    and has_take_record: "has s H \<Longrightarrow> i < n \<Longrightarrow> has (set_record_word l i 0 s) (H + record_bag (record_word s l i))"
    and has_set_record: "has s (H + record_bag v) \<Longrightarrow> i < n \<Longrightarrow> record_bag (record_word s l i) = {#} \<Longrightarrow>
       has (set_record_word l i v s) H"
    and has_stats: "has s H \<Longrightarrow> has (s\<lparr>g_stats := st\<rparr>) H"
    and has_positions: "has s H \<Longrightarrow> has (set_positions l i q h s) H"
    and has_phase: "has s H \<Longrightarrow> has (upd_record l i (hr_last_phase_update f) s) H"
begin

lemmas has_frame = has_stats has_positions has_phase

lemma reclaim_has:
  assumes "has s H" "i < n"
  shows "quietly (reclaim_request l i) s (\<lambda>p t. has t (H + cell_bag p) \<and> record_word t l i = 0)"
  unfolding reclaim_request_def
  using has_take_record [OF assms] reclaimed_bag(1) [of "record_word s l i"]
  by (auto intro!: quiet_intros simp: req_empty_def)

text \<open>The operation holds at most one span between its steps: \<open>held\<close>, besides \<open>H\<close>.\<close>

lemma help_finishing_has:
  assumes "has s (H + cell_bag held)" "j < n" "r < n"
  shows "quietly (help_finishing_req B l j r held b) s (\<lambda>(held', _) t. has t (H + cell_bag held'))"
proof -
  have cas: "quietly (do { tick cas_attempts_update;
        ok \<leftarrow> shared_op (record_cas l r (req_pending p) (req_done_with_span x));
        ret (if ok then 0 else x, b) }) t (\<lambda>(held', _) t. has t (H + cell_bag held'))"
    if "has t (H + {#x#})" for t x p
  proof -
    have x: "x \<noteq> 0" "even (unat x)" using has_cells [OF that, of x] by simp_all
    have "has (set_record_word l r (req_done_with_span x) t) H" if "record_word t l r = req_pending p"
      using \<open>has t (H + {#x#})\<close> x assms(3) that by (intro has_set_record) (simp_all add: record_bag_span)
    with that x show ?thesis by (auto intro!: quiet_intros simp: record_cas_def cell_bag_def)
  qed
  have pop: "quietly (try_pop_head_once B l j) s (\<lambda>got t. quietly (case got of
           PopEmpty \<Rightarrow> ret (held, True) | PopFailed \<Rightarrow> ret (held, b)
         | PopSpan span \<Rightarrow> do { tick cas_attempts_update;
             ok \<leftarrow> shared_op (record_cas l r (req_pending p) (req_done_with_span span));
             ret (if ok then 0 else span, b) }) t (\<lambda>(held', _) t. has t (H + cell_bag held')))"
    if "held = 0" for p
    using assms(1) that
    by (intro quietly_mono [OF has_pop [OF _ assms(2), of s H B]]) (auto split: try_pop.splits intro: cas)
  show ?thesis
    unfolding help_finishing_req_def Let_def
    using assms(1) pop cas [of s held]
    by (auto intro!: quiet_intros simp: cell_bag_def split: if_splits)
qed

lemma help_loop_has:
  assumes "0 < n"
  shows "(HELP_BUDGET_H - hc) + (n - hq) \<le> k \<Longrightarrow> has s (cell_bag held) \<Longrightarrow>
    quietly (help_loop B l n hc hq qp hp held) s (\<lambda>(_, _, _, held') t. has t (cell_bag held'))"
proof (induction k arbitrary: hc hq qp hp held s)
  case 0
  then show ?case by (subst help_loop.simps) simp
next
  case (Suc k)
  have hf: "quietly (help_finishing_req B l (qp mod n) (hp mod n) held False) s
      (\<lambda>(held', _) t. has t (cell_bag held'))"
    using help_finishing_has [of s "{#}" held "qp mod n" "hp mod n" B False] Suc.prems(2) assms by simp
  show ?case
    using Suc.prems
    by (subst help_loop.simps)
      (auto intro!: quiet_intros quietly_mono [OF hf] Suc.IH simp: split_beta)
qed

lemma finish_with_has:
  assumes "has s (cell_bag p + cell_bag held)" "record_word s l tid = 0" "tid < n"
  shows "quietly (finish_with l tid p held) s (\<lambda>r t. r = p \<and> has t (cell_bag p))"
proof (cases "held = 0")
  case True
  with assms show ?thesis by (simp add: finish_with_def)
next
  case False
  then have "held \<in># cell_bag p + cell_bag held" by (simp add: cell_bag_def)
  then have "even (unat held)" using has_cells [OF assms(1)] by blast
  then have h: "record_bag (req_done_with_span held) = {#held#}" using False by (simp add: record_bag_span)
  have "has s (cell_bag p + record_bag (req_done_with_span held))"
    using assms(1) h False by (simp add: cell_bag_def [of held])
  from has_set_record [OF this assms(3)] assms(2)
  have "has (set_record_word l tid (req_done_with_span held) s) (cell_bag p)" by simp
  with False show ?thesis
    unfolding finish_with_def by (cases l) (auto intro!: quiet_intros has_frame)
qed

lemma bump_acquired_has:
  "has s H \<Longrightarrow> record_word s l tid = v \<Longrightarrow>
     quietly (bump_acquired l) s (\<lambda>_ t. has t H \<and> record_word t l tid = v)"
  by (cases l) (auto intro!: quiet_intros has_frame)

lemma settle_has:
  assumes "has s (cell_bag p + cell_bag held)" "record_word s l tid = 0" "tid < n"
  shows "quietly (settle l tid qp hp p held) s (\<lambda>r t. has t (cell_bag (outcome_cell r)))"
  unfolding settle_def
  by (rule quietly_then [OF bump_acquired_has [OF assms(1,2)]])
    (auto intro!: quiet_intros has_frame quietly_mono [OF finish_with_has [OF _ _ assms(3)]])

lemma return_held_has:
  assumes "has s (cell_bag held)"
  shows "quietly (return_held l tid qp hp held) s (\<lambda>r t. has t (cell_bag (outcome_cell r)))"
  unfolding return_held_def
  by (rule quietly_then [OF bump_acquired_has [OF assms refl]])
    (auto intro!: quiet_intros has_frame)

lemma query_loop_has:
  assumes "tid < n"
  shows "n - hq \<le> k \<Longrightarrow> has s (cell_bag held) \<Longrightarrow>
    quietly (query_loop B l tid n hq qp hp held) s (\<lambda>r t. has t (cell_bag (outcome_cell r)))"
proof (induction k arbitrary: hq qp held s)
  case 0
  then show ?case by (subst query_loop.simps) simp
next
  case (Suc k)
  have n: "0 < n" using assms by simp
  have hf: "quietly (help_finishing_req B l (qp mod n) tid held False) s
      (\<lambda>(held', _) t. has t (cell_bag held'))"
    using help_finishing_has [of s "{#}" held "qp mod n" tid B False] Suc.prems(2) assms by simp
  have IH: "quietly (query_loop B l tid n (hq + 1) ((qp + 1) mod n) hp h) t (\<lambda>r t. has t (cell_bag (outcome_cell r)))"
    if "has t (cell_bag h)" for h t
    using Suc.IH [OF _ that] Suc.prems(1) by simp
  have rest: "quietly (do { span \<leftarrow> reclaim_request l tid;
        if span \<noteq> 0 then settle l tid qp hp span h
        else if h \<noteq> 0 then return_held l tid qp hp h
        else query_loop B l tid n (hq + 1) ((qp + 1) mod n) hp h }) t (\<lambda>r t. has t (cell_bag (outcome_cell r)))"
    if "has t (cell_bag h)" for h t
    using IH [of _ h]
    by (intro quietly_then [OF reclaim_has [OF that assms]])
      (auto simp: add.commute intro!: settle_has assms return_held_has)
  have first: "quietly (do { span \<leftarrow> reclaim_request l tid; settle l tid qp hp span held }) s (\<lambda>r t. has t (cell_bag (outcome_cell r)))"
    by (rule quietly_then [OF reclaim_has [OF Suc.prems(2) assms]])
      (auto simp: add.commute intro!: settle_has assms)
  show ?case
  proof (cases "hq < n")
    case True
    show ?thesis
      by (subst query_loop.simps, simp only: True if_True,
          rule quietly_bind, rule quietly_tick, rule quietly_bind, rule quietly_shared_op,
          simp only: fst_conv snd_conv, rule quietly_ifI, rule first, rule quietly_then [OF hf],
          erule quietly_pairI, rule quietly_ifI)
        (rule IH rest, assumption)+
  next
    case False
    with Suc.prems(2) show ?thesis by (subst query_loop.simps) simp
  qed
qed

lemma give_up_has:
  assumes "has s (cell_bag held)" "tid < n"
  shows "quietly (give_up l tid ph qp hp held) s (\<lambda>p t. has t (cell_bag p))"
proof -
  have cas: "has (snd (record_cas l tid (req_pending ph) req_empty s)) (cell_bag held)"
    using assms has_set_record [of s "cell_bag held" 0 tid]
    by (simp add: record_cas_def req_empty_def)
  have settle: "quietly (do { bump_acquired l; finish_with l tid p held }) t (\<lambda>p t. has t (cell_bag p))"
    if "has t (cell_bag p + cell_bag held)" "record_word t l tid = 0" for p t
    by (rule quietly_then [OF bump_acquired_has [OF that]])
      (auto intro!: quietly_mono [OF finish_with_has [OF _ _ assms(2)]])
  have keep: "quietly (do { bump_acquired l; ret held }) t (\<lambda>p t. has t (cell_bag p))"
    if "has t (cell_bag held)" for t
    by (rule quietly_then [OF bump_acquired_has [OF that refl, of tid]]) simp
  show ?thesis
    unfolding give_up_def
    by (rule quietly_bind, rule quietly_tick, rule quietly_bind, rule quietly_shared_op,
        rule quietly_then [OF reclaim_has [OF cas assms(2)]], rule quietly_bind, rule quietly_owner_op)
      (auto intro!: settle keep has_frame simp: add.commute)
qed

lemma acquire_search_has:
  assumes "has s {#}" "tid < n"
  shows "quietly (acquire_search B l tid n ph qp hp) s (\<lambda>p t. has t (cell_bag p))"
proof -
  have n: "0 < n" using assms(2) by simp
  have fin: "quietly (case fin of Inr result \<Rightarrow> ret result
      | Inl (query_pos, held) \<Rightarrow> give_up l tid ph query_pos h held) t (\<lambda>p t. has t (cell_bag p))"
    if "has t (cell_bag (outcome_cell fin))" for fin t h
    using that by (cases fin) (auto intro!: give_up_has assms(2))
  show ?thesis
    unfolding acquire_search_def
    by (rule quietly_then [OF help_loop_has [OF n order.refl]])
      (use assms(1) in \<open>auto intro!: quietly_then [OF query_loop_has [OF assms(2) order.refl]] fin\<close>)
qed

lemma acquire_has:
  assumes "has s {#}" "tid < n"
  shows "quietly (acquire_from_lists B l tid n) s (\<lambda>p t. has t (cell_bag p))"
proof -
  have pub: "has (set_record_word l tid (req_pending ph) t) {#}"
    if "has t {#}" "record_word t l tid = 0" for t ph
    using that assms(2) by (intro has_set_record) simp_all
  have bump: "quietly (bump_reclaimed l) t (\<lambda>_ u. has u H)" if "has t H" for t H
    using that by (cases l) (auto intro!: quiet_intros has_frame)
  show ?thesis
    unfolding acquire_from_lists_def Let_def
    by (rule quietly_bind, rule quietly_owner_op, simp only: fst_conv snd_conv split_beta,
        rule quietly_then [OF reclaim_has [OF assms]])
      (auto intro!: quiet_intros has_frame quietly_mono [OF bump] acquire_search_has assms(2) pub)
qed

end

interpretation lane_spans: span_custody l n "\<lambda>s H. holds l n s H M" for l n M
proof
  fix s H j B
  show "holds l n s H M \<Longrightarrow> j < n \<Longrightarrow> quietly (try_pop_head_once B l j) s (\<lambda>r t. case r of
      PopSpan x \<Rightarrow> holds l n t (H + {#x#}) M | PopEmpty \<Rightarrow> t = s | PopFailed \<Rightarrow> t = s)"
    by (rule quietly_mono [OF pop_holds]) (auto split: try_pop.splits)
  show "holds l n s H M \<Longrightarrow> x \<in># H \<Longrightarrow> x \<noteq> 0 \<and> even (unat x)" for x
    by (simp add: holds_def)
qed (simp_all add: holds_take_record holds_set_record)



end
