(* ===== verification/Large_Path.thy ===== *)
theory Large_Path
  imports Small_Path Helping_Ownership
begin

text \<open>
  The large-object path (\<^verbatim>\<open>src/large.rs\<close>): runs of \<open>2 ^ r\<close> contiguous spans, each with a span header
  at its base and a hidden header right before the payload.  The theorems: the class chosen for
  a layout is the smallest whose run always holds the reserve, the hidden header and the aligned
  payload; the payload and header lie where the code asserts they lie; a freed run returns to the
  class it was carved at; and every step bound the code asserts holds in every environment.
\<close>

section \<open>Operations\<close>

definition LARGE_MAGIC :: usize where
  "LARGE_MAGIC = 0x57464C52554E3100"

text \<open>Size and alignment of the \<^verbatim>\<open>repr(C)\<close> struct of four words.\<close>

definition HDR_SIZE :: usize where
  "HDR_SIZE = 32"

definition HDR_ALIGN :: usize where
  "HDR_ALIGN = 8"

definition run_class_spans :: "nat \<Rightarrow> usize" where
  "run_class_spans c = push_bit c 1"

definition run_class_bytes :: "nat \<Rightarrow> usize" where
  "run_class_bytes c = push_bit c SPAN_SIZE"

definition run_class_for_layout :: "layout \<Rightarrow> nat option" where
  "run_class_for_layout lay =
     (let align = max (lay_align lay) HDR_ALIGN in
      do {
        a \<leftarrow> checked_add SPAN_HEADER_RESERVE HDR_SIZE;
        b \<leftarrow> checked_add a (align - 1);
        needed \<leftarrow> checked_add b (lay_size lay);
        let needed_spans = div_ceil needed SPAN_SIZE;
        spans \<leftarrow> checked_next_power_of_two needed_spans;
        if spans > MAX_LARGE_SPANS then None else Some (trailing_zeros spans) })"

definition payload_off :: "address \<Rightarrow> layout \<Rightarrow> usize" where
  "payload_off run lay =
     round_up (run + SPAN_HEADER_RESERVE + HDR_SIZE) (max (lay_align lay) HDR_ALIGN) - run"

definition place_large_payload :: "address \<Rightarrow> nat \<Rightarrow> layout \<Rightarrow> shared \<Rightarrow> address \<times> shared" where
  "place_large_payload run run_class lay s =
     (let payload = run + payload_off run lay;
          header = payload - HDR_SIZE
      in (payload, s\<lparr>g_lhdr := (g_lhdr s)(header := \<lparr>lh_magic = LARGE_MAGIC, lh_run = run,
           lh_run_class = run_class, lh_span_count = run_class_spans run_class\<rparr>)\<rparr>))"

definition finish_large :: "address \<Rightarrow> nat \<Rightarrow> layout \<Rightarrow> address prog" where
  "finish_large run c lay = do {
     owner_put (set_span_state run RunAllocated);
     owner_op (place_large_payload run c lay) }"

definition carve_run :: "usize \<Rightarrow> layout \<Rightarrow> nat \<Rightarrow> address option prog" where
  "carve_run tid lay c = do {
     raw \<leftarrow> acquire_raw_run (run_class_spans c);
     if raw \<noteq> 0 then do {
       run \<leftarrow> owner_op (init_run raw c (run_class_spans c) tid);
       bump allocated_runs_update;
       p \<leftarrow> finish_large run c lay;
       ret (Some p) }
     else ret None }"

text \<open>One class of the search: \<^verbatim>\<open>Some p\<close> where the code returns \<^verbatim>\<open>p\<close>.\<close>

definition large_class_step :: "backend \<Rightarrow> nat \<Rightarrow> usize \<Rightarrow> layout \<Rightarrow> nat \<Rightarrow> nat \<Rightarrow> address option prog" where
  "large_class_step B n tid lay min_class c = do {
     tick large_class_steps_update;
     run \<leftarrow> owner_op (pop_front (RunLane c) (unat tid));
     if run \<noteq> 0 then do { p \<leftarrow> finish_large run c lay; ret (Some p) }
     else do {
       run \<leftarrow> runlists_acquire_run B n (unat tid) c;
       if run \<noteq> 0 then do {
         shared_put (set_owner run tid);
         p \<leftarrow> finish_large run c lay;
         ret (Some p) }
       else if c = min_class then carve_run tid lay c
       else ret None } }"

fun large_search :: "backend \<Rightarrow> nat \<Rightarrow> usize \<Rightarrow> layout \<Rightarrow> nat \<Rightarrow> nat list \<Rightarrow> address prog" where
  "large_search B n tid lay min_class [] = ret 0"
| "large_search B n tid lay min_class (c # cs) = do {
     r \<leftarrow> large_class_step B n tid lay min_class c;
     case r of None \<Rightarrow> large_search B n tid lay min_class cs | Some p \<Rightarrow> ret p }"

definition alloc_large :: "backend \<Rightarrow> nat \<Rightarrow> usize \<Rightarrow> layout \<Rightarrow> address prog" where
  "alloc_large B n tid lay =
     (case run_class_for_layout lay of
        None \<Rightarrow> ret 0
      | Some min_class \<Rightarrow> large_search B n tid lay min_class [min_class..<MAX_LARGE_RUN_CLASSES])"

definition dealloc_large :: "address \<Rightarrow> layout \<Rightarrow> usize \<Rightarrow> unit prog" where
  "dealloc_large ptr lay tid = do {
     tick local_steps_update;
     let header = ptr - HDR_SIZE;
     run \<leftarrow> owner_get (\<lambda>s. lh_run (g_lhdr s header));
     c \<leftarrow> owner_get (\<lambda>s. lh_run_class (g_lhdr s header));
     len \<leftarrow> owner_get (list_len (RunLane c) (unat tid));
     if len \<ge> LARGE_LOCAL_RUN_LIMIT_K then do {
       shared_put (set_owner run OWNER_PUBLIC);
       owner_put (set_span_state run RunFreePublic);
       enqueue_by_owner (RunLane c) (unat tid) run;
       bump published_runs_update }
     else do {
       shared_put (set_owner run tid);
       owner_put (set_span_state run RunFreeLocal);
       owner_put (push_front (RunLane c) (unat tid) run) } }"

section \<open>Run classes\<close>

lemma run_class_spans_exp: "run_class_spans c = 2 ^ c"
  by (simp add: run_class_spans_def push_bit_eq_mult)

lemma run_class_bytes_exp: "run_class_bytes c = 2 ^ (c + 16)"
  by (simp add: run_class_bytes_def push_bit_eq_mult config_exps power_add)

lemma run_class_bytes_unat: "c < 48 \<Longrightarrow> unat (run_class_bytes c) = 65536 * 2 ^ c"
  using unat_exp [of "c + 16"] by (simp add: run_class_bytes_exp power_add)

text \<open>What a run must hold in the worst case of its base address.\<close>

definition large_needed :: "layout \<Rightarrow> nat" where
  "large_needed lay = unat SPAN_HEADER_RESERVE + unat HDR_SIZE + (max (unat (lay_align lay)) (unat HDR_ALIGN) - 1)
     + unat (lay_size lay)"

lemma hdr_align: "unat HDR_ALIGN = 8"
  by (simp add: HDR_ALIGN_def)

lemma large_align_unat: "unat (max (lay_align lay) HDR_ALIGN) = max (unat (lay_align lay)) 8"
  by (simp add: HDR_ALIGN_def max_def word_le_nat_alt)

lemma ceil_le_iff: "0 < unat u \<Longrightarrow> unat (div_ceil x u) \<le> m \<longleftrightarrow> unat x \<le> unat u * m"
proof -
  assume u: "0 < unat u"
  have "(unat x + unat u - 1) div unat u \<le> m \<longleftrightarrow> unat x + unat u - 1 < Suc m * unat u"
    using u by (simp only: less_Suc_eq_le [symmetric] div_less_iff_less_mult)
  then show ?thesis using u by (auto simp: div_ceil_unat algebra_simps)
qed

text \<open>The class of a number of units: the exponent of the next power of two, up to a limit.\<close>

lemma power_class_Some:
  assumes "m < 64"
  shows "(checked_next_power_of_two y \<bind> (\<lambda>z. if z > 2 ^ m then None else Some (trailing_zeros z))) = Some c
    \<longleftrightarrow> c \<le> m \<and> unat y \<le> 2 ^ c \<and> (\<forall>j < c. 2 ^ j < unat y)"
proof (cases "checked_next_power_of_two y")
  case None
  then have "2 ^ 63 < unat y" by (simp add: checked_next_power_of_two_None)
  moreover have "(2 :: nat) ^ c \<le> 2 ^ 63" if "c \<le> m" using that assms by (intro power_increasing) auto
  ultimately show ?thesis using None by auto
next
  case (Some z)
  then obtain k where k: "k < 64" "z = 2 ^ k" "unat y \<le> 2 ^ k" "\<forall>j < k. 2 ^ j < unat y"
    by (auto simp: checked_next_power_of_two_Some)
  have cmp: "(2 ^ k :: usize) > 2 ^ m \<longleftrightarrow> m < k"
    using k(1) assms by (simp only: word_less_nat_alt unat_exp exp_gt_iff)
  have "c = k" if "unat y \<le> 2 ^ c" "\<forall>j < c. 2 ^ j < unat y"
    using that k(3,4) by (meson linorder_neqE_nat not_le)
  with k cmp show ?thesis by (auto simp: Some not_less)
qed

lemma run_class_for_layout_Some:
  "run_class_for_layout lay = Some c \<longleftrightarrow>
     c < MAX_LARGE_RUN_CLASSES \<and> large_needed lay \<le> 65536 * 2 ^ c \<and> (\<forall>c' < c. 65536 * 2 ^ c' < large_needed lay)"
proof -
  define d where "d = max (lay_align lay) HDR_ALIGN - 1"
  have d: "unat d = max (unat (lay_align lay)) 8 - 1"
    using large_align_unat [of lay] unat_sub_le [of 1 "max (lay_align lay) HDR_ALIGN"]
    by (simp add: d_def word_le_nat_alt)
  have 1: "checked_add SPAN_HEADER_RESERVE HDR_SIZE = Some 1056"
    by (simp add: checked_add_def wf_config HDR_SIZE_def)
  have need: "large_needed lay = 1056 + unat d + unat (lay_size lay)"
    by (simp add: large_needed_def d wf_config HDR_SIZE_def hdr_align)
  show ?thesis
  proof (cases "large_needed lay < 2 ^ 64")
    case True
    define x where "x = 1056 + d + lay_size lay"
    have 2: "checked_add 1056 d = Some (1056 + d)" "unat (1056 + d) = 1056 + unat d"
      using True need by (simp_all add: checked_add_def unat_add_nowrap)
    have 3: "checked_add (1056 + d) (lay_size lay) = Some x" "unat x = large_needed lay"
      using True need 2(2) by (simp_all add: checked_add_def x_def unat_add_nowrap)
    have r: "run_class_for_layout lay = (checked_next_power_of_two (div_ceil x SPAN_SIZE)
        \<bind> (\<lambda>z. if z > 2 ^ 16 then None else Some (trailing_zeros z)))"
      by (simp add: run_class_for_layout_def d_def [symmetric] 1 2 3 config_sizes(5))
    have "c \<le> 16 \<longleftrightarrow> c < MAX_LARGE_RUN_CLASSES" by (auto simp: wf_config)
    then show ?thesis
      unfolding r by (subst power_class_Some) (auto simp: ceil_le_iff not_le [symmetric] 3(2))
  next
    case False
    have "run_class_for_layout lay = None"
    proof (cases "1056 + unat d < 2 ^ 64")
      case True
      then have "checked_add 1056 d = Some (1056 + d)" "unat (1056 + d) = 1056 + unat d"
        by (simp_all add: checked_add_def unat_add_nowrap)
      moreover from this have "checked_add (1056 + d) (lay_size lay) = None"
        using False need by (simp add: checked_add_def)
      ultimately show ?thesis by (simp add: run_class_for_layout_def d_def [symmetric] 1)
    next
      case False
      then have "checked_add 1056 d = None" by (simp add: checked_add_def)
      then show ?thesis by (simp add: run_class_for_layout_def d_def [symmetric] 1)
    qed
    moreover have "\<not> large_needed lay \<le> 65536 * 2 ^ c" if "c < 17"
    proof -
      have "(2 :: nat) ^ c \<le> 2 ^ 17" using that by (intro power_increasing) auto
      with False show ?thesis by simp
    qed
    ultimately show ?thesis by (auto simp: wf_config)
  qed
qed

text \<open>
  C35. The class chosen for a large request is the smallest run class whose run holds the header reserve,
  the hidden header, the worst-case alignment padding and the payload; a request is refused
  exactly when no run class holds it.
\<close>

theorem run_class_least:
  "run_class_for_layout lay = Some c \<longleftrightarrow>
     c < MAX_LARGE_RUN_CLASSES \<and> large_needed lay \<le> unat (run_class_bytes c)
     \<and> (\<forall>c' < c. unat (run_class_bytes c') < large_needed lay)"
proof -
  have b: "unat (run_class_bytes c') = 65536 * 2 ^ c'" if "c' \<le> c" "c < MAX_LARGE_RUN_CLASSES" for c'
    using that by (simp add: run_class_bytes_unat wf_config)
  show ?thesis unfolding run_class_for_layout_Some
    by (rule conj_cong [OF refl], rule conj_cong) (simp_all add: b)
qed

theorem run_class_least_witness:
  "run_class_for_layout \<lparr>lay_size = 131073, lay_align = 16\<rparr> = Some 2"
proof -
  have "\<forall>c' < 2. unat (run_class_bytes c') < 132144"
  proof (intro allI impI)
    fix c' :: nat assume "c' < 2"
    then have "c' = 0 \<or> c' = 1" by auto
    then show "unat (run_class_bytes c') < 132144" by (auto simp: run_class_bytes_def wf_config push_bit_eq_mult)
  qed
  then show ?thesis
    using run_class_least [of "\<lparr>lay_size = 131073, lay_align = 16\<rparr>" 2]
    by (simp add: large_needed_def wf_config HDR_SIZE_def HDR_ALIGN_def run_class_bytes_def push_bit_eq_mult)
qed

section \<open>Placing the payload\<close>

lemma large_align_pow2: "is_power_of_two a \<Longrightarrow> is_power_of_two (max a HDR_ALIGN)"
proof -
  assume "is_power_of_two a"
  moreover have "is_power_of_two HDR_ALIGN" using is_power_of_two_exp [of 3] by (simp add: HDR_ALIGN_def)
  ultimately show ?thesis by (simp add: max_def)
qed

lemma large_align_dvd:
  assumes "is_power_of_two a"
  shows "unat a dvd max (unat a) 8" "8 dvd max (unat a) 8"
proof -
  obtain k where k: "unat a = 2 ^ k" using assms by (rule is_power_of_twoE)
  show "unat a dvd max (unat a) 8" "8 dvd max (unat a) 8"
  proof (atomize (full), cases "k \<le> 3")
    case True
    then have "(2 :: nat) ^ k \<le> 2 ^ 3" "(2 :: nat) ^ k dvd 2 ^ 3"
      by (intro power_increasing le_imp_power_dvd; simp)+
    then show "unat a dvd max (unat a) 8 \<and> 8 dvd max (unat a) 8" by (simp add: k max_def)
  next
    case False
    then have "(2 :: nat) ^ 3 \<le> 2 ^ k" "(2 :: nat) ^ 3 dvd 2 ^ k"
      by (intro power_increasing le_imp_power_dvd; simp)+
    then show "unat a dvd max (unat a) 8 \<and> 8 dvd max (unat a) 8" by (simp add: k max_def)
  qed
qed

text \<open>A run of class \<open>c\<close>: an aligned non-null base and the whole run inside the address space.\<close>

definition run_base :: "address \<Rightarrow> nat \<Rightarrow> bool" where
  "run_base run c \<longleftrightarrow> span_base run \<and> unat run + unat (run_class_bytes c) \<le> 2 ^ 64"

lemma payload_address:
  assumes "is_power_of_two (lay_align lay)" "run_base run c" "c < MAX_LARGE_RUN_CLASSES"
    and "large_needed lay \<le> unat (run_class_bytes c)"
  shows "run + payload_off run lay = round_up (run + 1056) (max (lay_align lay) HDR_ALIGN)"
    and "unat (run + 1056) = unat run + 1056"
    and "unat (run + 1056) + max (unat (lay_align lay)) 8 \<le> 2 ^ 64"
    and "unat run + 1056 + max (unat (lay_align lay)) 8 + unat (lay_size lay) \<le> unat run + unat (run_class_bytes c) + 1"
proof -
  let ?m = "max (unat (lay_align lay)) 8"
  have b: "unat run + unat (run_class_bytes c) \<le> 2 ^ 64" "65536 dvd unat run"
    using assms(2) by (simp_all add: run_base_def span_base_def)
  have need: "1056 + (?m - 1) + unat (lay_size lay) \<le> unat (run_class_bytes c)"
    using assms(4) by (simp add: large_needed_def wf_config HDR_SIZE_def hdr_align)
  show "run + payload_off run lay = round_up (run + 1056) (max (lay_align lay) HDR_ALIGN)"
    by (simp add: payload_off_def wf_config HDR_SIZE_def add.assoc)
  show 3: "unat (run + 1056) = unat run + 1056"
    using b need by (subst unat_add_nowrap) auto
  show "unat run + 1056 + ?m + unat (lay_size lay) \<le> unat run + unat (run_class_bytes c) + 1"
    using need by simp
  then have le: "unat run + 1056 + ?m \<le> 2 ^ 64 + 1" using b by linarith
  have "even (unat run)" using b(2) by (meson dvd_trans even_numeral)
  moreover have "even ?m" using large_align_dvd(2) [OF assms(1)] by (meson dvd_trans even_numeral)
  ultimately have "even (unat run + 1056 + ?m)" by simp
  moreover have "odd ((2 :: nat) ^ 64 + 1)" by simp
  ultimately have "unat run + 1056 + ?m \<noteq> 2 ^ 64 + 1" by metis
  with le show "unat (run + 1056) + ?m \<le> 2 ^ 64" unfolding 3 by linarith
qed

lemma payload_fits:
  assumes "layout_valid lay" "run_class_for_layout lay = Some m" "m \<le> c" "c < MAX_LARGE_RUN_CLASSES"
    "run_base run c"
  shows "is_aligned (run + payload_off run lay) (lay_align lay)"
    and "8 dvd unat (run + payload_off run lay)"
    and "unat run + 1056 \<le> unat (run + payload_off run lay)"
    and "unat (run + payload_off run lay) + unat (lay_size lay) \<le> unat run + unat (run_class_bytes c)"
proof -
  let ?p = "run + payload_off run lay" and ?m = "max (lay_align lay) HDR_ALIGN"
  have al: "is_power_of_two (lay_align lay)" using assms(1) by (simp add: layout_valid_def)
  have mc: "(2 :: nat) ^ m \<le> 2 ^ c" using assms(3) by (intro power_increasing) auto
  have bytes: "unat (run_class_bytes c) = 65536 * 2 ^ c"
    using assms(4) by (simp add: run_class_bytes_unat wf_config)
  have "large_needed lay \<le> unat (run_class_bytes c)"
    using assms(2) mc unfolding run_class_for_layout_Some bytes by linarith
  note pa = payload_address [OF al assms(5,4) this]
  note up = round_up_bounds [OF large_align_pow2 [OF al], of "run + 1056", unfolded large_align_unat, OF pa(3)]
  have "unat (lay_align lay) dvd unat ?p" "8 dvd unat ?p"
    using up(3) large_align_dvd [OF al] unfolding pa(1) by (meson dvd_trans)+
  then show "is_aligned ?p (lay_align lay)" "8 dvd unat ?p" by (simp_all add: is_aligned_unat al)
  show "unat run + 1056 \<le> unat ?p" using up(1) unfolding pa(1,2) .
  show "unat ?p + unat (lay_size lay) \<le> unat run + unat (run_class_bytes c)"
    using up(2) pa(4) unfolding pa(1) pa(2) by linarith
qed

text \<open>
  C26. In a run of any class the search may use for a layout, the payload is aligned as requested and ends
  inside the run, the hidden header right before it is aligned and lies behind the header
  reserve, and that header names the run and the class of the run.
\<close>

theorem large_payload_placed:
  assumes "layout_valid lay" and "run_class_for_layout lay = Some m" and "m \<le> c"
    and "c < MAX_LARGE_RUN_CLASSES" and "run_base run c" and "place_large_payload run c lay s = (p, t)"
  shows "is_aligned p (lay_align lay)
    \<and> unat p + unat (lay_size lay) \<le> unat run + unat (run_class_bytes c)
    \<and> unat (p - HDR_SIZE) + unat HDR_SIZE = unat p \<and> is_aligned (p - HDR_SIZE) HDR_ALIGN
    \<and> unat run + unat SPAN_HEADER_RESERVE \<le> unat (p - HDR_SIZE)
    \<and> g_lhdr t (p - HDR_SIZE) = \<lparr>lh_magic = LARGE_MAGIC, lh_run = run, lh_run_class = c, lh_span_count = run_class_spans c\<rparr>"
proof -
  have p: "p = run + payload_off run lay" using assms(6) by (simp add: place_large_payload_def Let_def)
  note fits = payload_fits [OF assms(1-5), folded p]
  have h: "unat (p - HDR_SIZE) = unat p - 32"
    using fits(3) unat_sub_le [of HDR_SIZE p] by (simp add: HDR_SIZE_def word_le_nat_alt)
  have "8 dvd unat p - 32" using fits(2) by (intro dvd_diff_nat) simp_all
  moreover have "is_power_of_two HDR_ALIGN" using is_power_of_two_exp [of 3] by (simp add: HDR_ALIGN_def)
  ultimately have "is_aligned (p - HDR_SIZE) HDR_ALIGN" by (simp add: is_aligned_unat h hdr_align)
  moreover have "g_lhdr t (p - HDR_SIZE) = \<lparr>lh_magic = LARGE_MAGIC, lh_run = run, lh_run_class = c, lh_span_count = run_class_spans c\<rparr>"
    using assms(6) by (auto simp: place_large_payload_def Let_def)
  moreover have "unat HDR_SIZE = 32" "unat SPAN_HEADER_RESERVE = 1024" by (simp_all add: HDR_SIZE_def wf_config)
  ultimately show ?thesis using fits by (simp add: h)
qed

theorem large_payload_placed_witness:
  "\<exists>t. place_large_payload 131072 2 \<lparr>lay_size = 131073, lay_align = 4096\<rparr> zero_memory = (135168, t)
     \<and> is_aligned 135168 4096 \<and> lh_run (g_lhdr t 135136) = 131072 \<and> lh_run_class (g_lhdr t 135136) = 2"
proof -
  let ?l = "\<lparr>lay_size = 131073 :: usize, lay_align = 4096\<rparr>"
  have al: "is_power_of_two 4096" using is_power_of_two_exp [of 12] by simp
  have v: "layout_valid ?l" by (simp add: layout_valid_def al)
  have "\<forall>c' < 2. 65536 * 2 ^ c' < (136224 :: nat)" by (auto simp: less_2_cases_iff)
  then have c: "run_class_for_layout ?l = Some 2"
    by (simp add: run_class_for_layout_Some large_needed_def wf_config HDR_SIZE_def HDR_ALIGN_def)
  have b: "run_base 131072 2"
    by (simp add: run_base_def span_base_def run_class_bytes_def wf_config push_bit_eq_mult)
  have p: "fst (place_large_payload 131072 2 ?l zero_memory) = 135168"
    by (simp add: place_large_payload_def Let_def payload_off_def round_up_def wf_config HDR_SIZE_def HDR_ALIGN_def)
  obtain t where t: "place_large_payload 131072 2 ?l zero_memory = (135168, t)"
    using p by (metis prod.collapse)
  from large_payload_placed [OF v c _ _ b t] t show ?thesis
    by (simp add: wf_config HDR_SIZE_def)
qed

section \<open>Round trip\<close>

lemma finish_large_quietly:
  "quietly (finish_large run c lay) s (\<lambda>p t. p = run + payload_off run lay
     \<and> t = snd (place_large_payload run c lay (set_span_state run RunAllocated s)))"
  unfolding finish_large_def by (auto intro!: quiet_intros simp: place_large_payload_def Let_def)

definition large_freed :: "address \<Rightarrow> nat \<Rightarrow> usize \<Rightarrow> shared \<Rightarrow> shared" where
  "large_freed run c tid s =
     (if list_len (RunLane c) (unat tid) s \<ge> LARGE_LOCAL_RUN_LIMIT_K
      then (let s' = enqueued (RunLane c) (unat tid) run (set_span_state run RunFreePublic (set_owner run OWNER_PUBLIC s))
            in s'\<lparr>g_stats := published_runs_update stat_inc (g_stats s')\<rparr>)
      else push_front (RunLane c) (unat tid) run (set_span_state run RunFreeLocal (set_owner run tid s)))"

lemma dealloc_large_quietly:
  assumes "lh_run (g_lhdr s (ptr - HDR_SIZE)) = run" "lh_run_class (g_lhdr s (ptr - HDR_SIZE)) = c"
  shows "quietly (dealloc_large ptr lay tid) s (\<lambda>_ t. t = large_freed run c tid s)"
  unfolding dealloc_large_def Let_def
  by (intro quiet_intros, simp only: fst_conv snd_conv assms, intro quietly_ifI quiet_intros)
    (auto simp: large_freed_def Let_def intro!: quiet_intros quietly_mono [OF enqueue_by_owner_quietly])

lemma lists_of_lhdr [simp]:
  "local_list (s\<lparr>g_lhdr := x\<rparr>) l j = local_list s l j"
  "public_list (s\<lparr>g_lhdr := x\<rparr>) l j = public_list s l j"
  "next_local (s\<lparr>g_lhdr := x\<rparr>) = next_local s" "node_next (s\<lparr>g_lhdr := x\<rparr>) = node_next s"
  by (cases l; simp add: next_local_def node_next_def fun_eq_iff)+

lemma chains_frame [simp]:
  "node_next (upd_local_list l i f s) = node_next s" "next_local (upd_hdr (sh_node_update g) a s) = next_local s"
  "node_next (s\<lparr>g_stats := x\<rparr>) = node_next s" "next_local (s\<lparr>g_stats := x\<rparr>) = next_local s"
  by (auto simp: next_local_def node_next_def fun_eq_iff)

lemma public_spans_frame [simp]:
  "public_spans l i (upd_hdr f a s) xs = public_spans l i s xs"
  "public_spans l i (upd_local_list l' j g s) xs = public_spans l i s xs"
  "public_spans l i (s\<lparr>g_lhdr := x\<rparr>) xs = public_spans l i s xs"
  "public_spans l i (s\<lparr>g_stats := y\<rparr>) xs = public_spans l i s xs"
  by (simp_all add: public_spans_def public_rep_def public_nodes_def head_at_def)

lemma public_spans_push_front [simp]: "public_spans l i (push_front l' j x s) xs = public_spans l i s xs"
  by (simp add: push_front_def Let_def set_next_local_def)

lemma span_list_frame [simp]:
  "span_list l i (s\<lparr>g_stats := y\<rparr>) ys = span_list l i s ys"
  "span_list l i (set_owner a ow s) ys = span_list l i s ys"
  "span_list l i (set_span_state a st s) ys = span_list l i s ys"
  "span_list l i (s\<lparr>g_lhdr := x\<rparr>) ys = span_list l i s ys"
  "span_list l i (enqueued l' j z s) ys = span_list l i s ys"
  by (simp_all add: span_list_def enqueued_def Let_def)

lemma enqueue_ready_frame [simp]:
  "enqueue_ready l i (set_owner a ow s) x = enqueue_ready l i s x"
  "enqueue_ready l i (set_span_state a st s) x = enqueue_ready l i s x"
  "enqueue_ready l i (s\<lparr>g_lhdr := y\<rparr>) x = enqueue_ready l i s x"
  by (simp_all add: enqueue_ready_def public_nodes_def head_at_def)

lemma enqueued_spans: "public_spans l i s xs \<Longrightarrow> enqueue_ready l i s x \<Longrightarrow> public_spans l i (enqueued l i x s) (xs @ [x])"
  unfolding public_spans_def
  by (elim exE, rule exI, rule enqueued_rep) (auto simp: enqueue_ready_def public_rep_def)

lemma enqueued_hdr [simp]:
  "sh_owner (g_hdr (enqueued l i x s) a) = sh_owner (g_hdr s a)"
  "sh_state (g_hdr (enqueued l i x s) a) = sh_state (g_hdr s a)"
  by (simp_all add: enqueued_def Let_def)

lemma push_front_hdr [simp]:
  "sh_owner (g_hdr (push_front l i x s) a) = sh_owner (g_hdr s a)"
  "sh_state (g_hdr (push_front l i x s) a) = sh_state (g_hdr s a)"
  by (simp_all add: push_front_def Let_def set_next_local_def)

lemma large_freed_effect:
  assumes "span_list (RunLane c) (unat tid) s ys" "public_spans (RunLane c) (unat tid) s xs"
    "enqueue_ready (RunLane c) (unat tid) s run" "run \<notin> set ys" "length ys < 2 ^ 64"
  shows "(if length ys \<ge> unat LARGE_LOCAL_RUN_LIMIT_K
     then span_list (RunLane c) (unat tid) (large_freed run c tid s) ys
       \<and> public_spans (RunLane c) (unat tid) (large_freed run c tid s) (xs @ [run])
       \<and> sh_owner (g_hdr (large_freed run c tid s) run) = OWNER_PUBLIC
       \<and> sh_state (g_hdr (large_freed run c tid s) run) = RunFreePublic
     else span_list (RunLane c) (unat tid) (large_freed run c tid s) (run # ys)
       \<and> public_spans (RunLane c) (unat tid) (large_freed run c tid s) xs
       \<and> sh_owner (g_hdr (large_freed run c tid s) run) = tid
       \<and> sh_state (g_hdr (large_freed run c tid s) run) = RunFreeLocal)"
proof -
  have "LARGE_LOCAL_RUN_LIMIT_K \<le> list_len (RunLane c) (unat tid) s \<longleftrightarrow> unat LARGE_LOCAL_RUN_LIMIT_K \<le> length ys"
    using assms(1,5) by (simp add: list_len_def span_list_def word_le_nat_alt unat_of_nat)
  moreover have "run \<noteq> 0" using assms(3) by (simp add: enqueue_ready_def)
  ultimately show ?thesis
    using assms by (simp add: large_freed_def Let_def span_list_push_front enqueued_spans)
qed

text \<open>
  C27. Whatever thread frees a large allocation, the whole run goes back to a free list of the class it
  was carved at: in front of that thread's private list while it holds fewer runs than its
  limit, at the end of that thread's public list otherwise, with owner and state to match.
\<close>

theorem large_free_returns_run:
  assumes "span_list (RunLane c) (unat tid) s ys" and "public_spans (RunLane c) (unat tid) s xs"
    and "enqueue_ready (RunLane c) (unat tid) s run" and "run \<notin> set ys" and "length ys < 2 ^ 64"
  shows "quietly (do { p \<leftarrow> finish_large run c lay; dealloc_large p lay tid }) s (\<lambda>_ t.
     if length ys \<ge> unat LARGE_LOCAL_RUN_LIMIT_K
     then span_list (RunLane c) (unat tid) t ys \<and> public_spans (RunLane c) (unat tid) t (xs @ [run])
       \<and> sh_owner (g_hdr t run) = OWNER_PUBLIC \<and> sh_state (g_hdr t run) = RunFreePublic
     else span_list (RunLane c) (unat tid) t (run # ys) \<and> public_spans (RunLane c) (unat tid) t xs
       \<and> sh_owner (g_hdr t run) = tid \<and> sh_state (g_hdr t run) = RunFreeLocal)"
proof -
  define s' where "s' = snd (place_large_payload run c lay (set_span_state run RunAllocated s))"
  let ?p = "run + payload_off run lay"
  have h: "lh_run (g_lhdr s' (?p - HDR_SIZE)) = run" "lh_run_class (g_lhdr s' (?p - HDR_SIZE)) = c"
    by (simp_all add: s'_def place_large_payload_def Let_def)
  have "span_list (RunLane c) (unat tid) s' ys" "public_spans (RunLane c) (unat tid) s' xs"
    "enqueue_ready (RunLane c) (unat tid) s' run"
    using assms by (simp_all add: s'_def place_large_payload_def Let_def)
  note eff = large_freed_effect [OF this assms(4,5)]
  show ?thesis
    by (rule quietly_then [OF finish_large_quietly], simp only: s'_def [symmetric],
        rule quietly_mono [OF dealloc_large_quietly [OF h]]) (hypsubst, rule eff)
qed

theorem large_free_returns_run_witness:
  "\<exists>s. quietly (do { p \<leftarrow> finish_large 131072 0 \<lparr>lay_size = 20000, lay_align = 8\<rparr>;
                     dealloc_large p \<lparr>lay_size = 20000, lay_align = 8\<rparr> 1 }) s
     (\<lambda>_ t. span_list (RunLane 0) 1 t [131072] \<and> sh_owner (g_hdr t 131072) = 1 \<and> sh_state (g_hdr t 131072) = RunFreeLocal)"
proof -
  define s where "s = upd_public_list (RunLane 0) 1 (\<lambda>_. \<lparr>sl_head = head_new 8 0, sl_tail = 8, sl_dummy = 8\<rparr>)
    (upd_hdr (sh_node_update (\<lambda>_. 131120)) 131072 zero_memory)"
  have z: "node_next s a = 0" for a by (simp add: s_def node_next_def zero_memory_def span_node_new_def)
  have h: "hw_ptr (head_at s (RunLane 0) 1) = 8" by (simp add: s_def head_at_def head_new_def)
  have l: "span_list (RunLane 0) 1 s []"
    by (simp add: s_def span_list_def zero_memory_def thread_heap_new_def local_span_list_new_def)
  have "public_rep (RunLane 0) 1 [8] s []"
    by (simp add: public_rep_def public_nodes_def h z del: One_nat_def) (simp add: s_def)
  then have q: "public_spans (RunLane 0) 1 s []" by (auto simp: public_spans_def)
  have "ns = [8]" if "public_nodes (RunLane 0) 1 s ns" for ns
    using that by (cases ns; cases "tl ns") (auto simp: public_nodes_def h z simp del: One_nat_def)
  then have r: "enqueue_ready (RunLane 0) 1 s 131072" by (fastforce simp: enqueue_ready_def s_def)
  from large_free_returns_run [of 0 1 s "[]" "[]" 131072 "\<lparr>lay_size = 20000, lay_align = 8\<rparr>"] l q r
  show ?thesis by (intro exI [of _ s]) (auto simp: wf_config elim!: quietly_mono)
qed

section \<open>Step bounds in any environment\<close>

lemma within_finish_large [wf_within]: "within anything (weigh c) (finish_large run k lay) 0"
  unfolding finish_large_def by (rule within_mono, (rule wf_within | simp)+)

lemma within_large_class_step:
  assumes nn: "0 \<le> c Faa" "0 \<le> c Swap" "0 \<le> c Cas" "0 \<le> c Cas2"
    and e: "c Help + c Cas2 + c Cas \<le> e1" "0 \<le> e1" "c Query + c Cas2 + c Cas + c Swap \<le> e2" "0 \<le> e2"
  shows "within anything (weigh c) (large_class_step B n tid lay m k)
    (c LargeClass + int (HELP_BUDGET_H + n) * e1 + int n * e2 + 2 * c Swap + 2 * c Cas + c Faa)"
proof -
  note acq = any_env.within_acquire_from_lists [OF nn(3,4,2) e, of B "RunLane k" "unat tid" n,
      folded runlists_acquire_run_def]
  note rules = wf_within acq
  have p: "0 \<le> int (HELP_BUDGET_H + n) * e1" "0 \<le> int n * e2" using e by simp_all
  show ?thesis
    unfolding large_class_step_def carve_run_def
    by (rule within_mono, (rule rules | simp only: simp_thms)+) (use nn p in linarith)
qed

lemma within_large_search:
  assumes "\<And>k. within anything (weigh c) (large_class_step B n tid lay m k) d" "0 \<le> d"
  shows "within anything (weigh c) (large_search B n tid lay m ks) (int (length ks) * d)"
proof (induction ks)
  case Nil
  then show ?case by (simp add: wf_within)
next
  case (Cons k ks)
  have "0 \<le> int (length ks) * d" using assms(2) by simp
  then show ?case
    by (simp only: large_search.simps) (rule within_mono, (rule wf_within assms(1) Cons.IH)+, simp add: algebra_simps)
qed

lemma within_alloc_large:
  assumes "\<And>m k. within anything (weigh c) (large_class_step B n tid lay m k) d" "0 \<le> d"
  shows "within anything (weigh c) (alloc_large B n tid lay) (17 * d)"
proof (cases "run_class_for_layout lay")
  case None
  then show ?thesis using assms(2) by (auto simp: alloc_large_def intro!: within_mono [OF within_ret])
next
  case (Some m)
  have "int (length [m..<MAX_LARGE_RUN_CLASSES]) * d \<le> 17 * d"
    using assms(2) by (intro mult_right_mono) (simp_all add: wf_config)
  then show ?thesis
    using within_mono [OF within_large_search [OF assms, of m "[m..<MAX_LARGE_RUN_CLASSES]"]]
    by (simp add: alloc_large_def Some)
qed

text \<open>
  Large allocation is wait-free: in every environment, with no assumption at all on the other
  threads, one allocation keeps every bound its step counter asserts, and one deallocation
  takes a single local step and no atomic read-modify-write at all.
\<close>

lemma large_path_bounded:
  assumes "w_step w = step_new" and "0 < n"
  shows "assert_large_bounds (w_step (final_state (alloc_large B n tid lay) w)) n HELP_BUDGET_H n MAX_LARGE_RUN_CLASSES
    \<and> weigh (\<lambda>_. 1) (w_step (final_state (dealloc_large ptr lay tid) w)) \<le> 1"
proof -
  define s where "s = w_step (final_state (alloc_large B n tid lay) w)"
  note bound = within_fresh [OF within_alloc_large [OF within_large_class_step] assms(1), of _ _ _ n B tid lay, folded s_def]
  have "int (large_class_steps s) \<le> 17" using bound [of "only LargeClass" 0 0] by (simp add: weigh_def)
  moreover have "int (help_steps s) \<le> 17 * int (HELP_BUDGET_H + n)"
    using bound [of "only Help" 1 0] by (simp add: weigh_def)
  moreover have "int (query_steps s) \<le> 17 * int n"
    using bound [of "only Query" 0 1] by (simp add: weigh_def)
  moreover have "int (cas2_attempts s) \<le> int (help_steps s + query_steps s)"
    using bound [of "(\<lambda>_. 0)(Cas2 := 1, Help := -1, Query := -1)" 0 0] by (simp add: weigh_def)
  moreover have "int (cas_attempts s) \<le> int (help_steps s + query_steps s) + 34"
    using bound [of "(\<lambda>_. 0)(Cas := 1, Help := -1, Query := -1)" 0 0] by (simp add: weigh_def)
  moreover have "int (faa_ops s) \<le> 17" using bound [of "only Faa" 0 0] by (simp add: weigh_def)
  moreover have "int (blocks_scanned s) \<le> 0" using bound [of "only Scan" 0 0] by (simp add: weigh_def)
  ultimately have "assert_large_bounds s n HELP_BUDGET_H n MAX_LARGE_RUN_CLASSES"
    using assms(2) unfolding assert_large_bounds_def by (simp add: wf_config)
  moreover have "within anything (weigh (\<lambda>_. 1)) (dealloc_large ptr lay tid) 1"
    unfolding dealloc_large_def Let_def by (rule within_mono, (rule wf_within | simp)+)
  ultimately show ?thesis
    unfolding s_def using within_fresh [OF _ assms(1)] by blast
qed

end
