(* ===== verification/Huge_Path.thy ===== *)
theory Huge_Path
  imports Large_Path
begin

text \<open>
  The huge-object path (\<^verbatim>\<open>src/huge.rs\<close>): a fixed directory of slots, each claimed by one CAS, carved
  lazily from the pool and reused for ever after.  The granule, a const generic of the code, is the
  argument \<open>hg\<close>.  The theorems: the class chosen is the smallest whose run holds the request
  at any span-aligned base, the payload fits, a free finds the slot of its allocation, a
  slot never has two holders and never changes its memory, and the asserted step bounds hold in
  every environment.
\<close>

section \<open>Operations\<close>

definition HUGE_SLOT_EMPTY :: usize where
  "HUGE_SLOT_EMPTY = 0"

definition HUGE_SLOT_FREE :: usize where
  "HUGE_SLOT_FREE = 1"

definition HUGE_SLOT_ALLOCATED :: usize where
  "HUGE_SLOT_ALLOCATED = 2"

definition huge_class_granules :: "nat \<Rightarrow> usize" where
  "huge_class_granules c = push_bit c 1"

definition HUGE_GRANULE_BYTES :: "usize \<Rightarrow> usize" where
  "HUGE_GRANULE_BYTES hg = hg * SPAN_SIZE"

definition huge_class_bytes :: "usize \<Rightarrow> nat \<Rightarrow> usize" where
  "huge_class_bytes hg c = push_bit c (hg * SPAN_SIZE)"

definition huge_class_for_layout :: "usize \<Rightarrow> layout \<Rightarrow> nat option" where
  "huge_class_for_layout hg lay =
     (let slack = saturating_sub (lay_align lay) SPAN_SIZE in
      do {
        needed \<leftarrow> checked_add (lay_size lay) slack;
        let granules = div_ceil needed (HUGE_GRANULE_BYTES hg);
        g \<leftarrow> checked_next_power_of_two (max granules 1);
        if g > MAX_HUGE_GRANULES then None else Some (trailing_zeros g) })"

definition upd_slot :: "nat \<Rightarrow> nat \<Rightarrow> (huge_slot \<Rightarrow> huge_slot) \<Rightarrow> shared \<Rightarrow> shared" where
  "upd_slot c i f s = s\<lparr>g_huge := (g_huge s)(c := (g_huge s c)(i := f (g_huge s c i)))\<rparr>"

definition slot_cas :: "usize \<Rightarrow> usize \<Rightarrow> huge_slot \<Rightarrow> bool \<times> huge_slot" where
  "slot_cas current new h =
     (if hs_state h = current then (True, h\<lparr>hs_state := new\<rparr>) else (False, h))"

definition on_slot :: "nat \<Rightarrow> nat \<Rightarrow> (huge_slot \<Rightarrow> 'a \<times> huge_slot) \<Rightarrow> shared \<Rightarrow> 'a \<times> shared" where
  "on_slot c i f s = (fst (f (g_huge s c i)), upd_slot c i (\<lambda>_. snd (f (g_huge s c i))) s)"

definition finish_huge :: "nat \<Rightarrow> nat \<Rightarrow> address \<Rightarrow> layout \<Rightarrow> usize \<Rightarrow> address prog" where
  "finish_huge c i base lay tid = do {
     owner_put (upd_slot c i (hs_owner_update (\<lambda>_. tid)));
     owner_put (upd_slot c i (hs_requested_size_update (\<lambda>_. lay_size lay)));
     owner_put (upd_slot c i (hs_requested_align_update (\<lambda>_. lay_align lay)));
     let off = round_up base (lay_align lay) - base;
     ret (base + off) }"

text \<open>The lazy carve of a slot claimed while empty.\<close>

definition huge_carve_slot :: "usize \<Rightarrow> usize \<Rightarrow> layout \<Rightarrow> nat \<Rightarrow> nat \<Rightarrow> address option prog" where
  "huge_carve_slot hg tid lay c i = do {
     base \<leftarrow> acquire_raw_run (huge_class_granules c * hg);
     if base = 0 then do {
       shared_put (upd_slot c i (hs_state_update (\<lambda>_. HUGE_SLOT_EMPTY)));
       ret None }
     else do {
       shared_put (upd_slot c i (hs_base_update (\<lambda>_. base)));
       bump allocated_huge_runs_update;
       p \<leftarrow> finish_huge c i base lay tid;
       ret (Some p) } }"

text \<open>One slot of the scan: \<^verbatim>\<open>Some p\<close> where the code returns \<^verbatim>\<open>p\<close>, \<^verbatim>\<open>None\<close> where it goes on.\<close>

definition huge_try_slot :: "usize \<Rightarrow> usize \<Rightarrow> layout \<Rightarrow> nat \<times> nat \<Rightarrow> address option prog" where
  "huge_try_slot hg tid lay ci = (case ci of (c, i) \<Rightarrow> do {
     tick huge_slot_scans_update;
     st \<leftarrow> shared_get (\<lambda>s. hs_state (g_huge s c i));
     if st = HUGE_SLOT_FREE then do {
       tick cas_attempts_update;
       ok \<leftarrow> shared_op (on_slot c i (slot_cas HUGE_SLOT_FREE HUGE_SLOT_ALLOCATED));
       if \<not> ok then ret None
       else do {
         base \<leftarrow> owner_get (\<lambda>s. hs_base (g_huge s c i));
         p \<leftarrow> finish_huge c i base lay tid;
         ret (Some p) } }
     else if st = HUGE_SLOT_EMPTY then do {
       tick cas_attempts_update;
       ok \<leftarrow> shared_op (on_slot c i (slot_cas HUGE_SLOT_EMPTY HUGE_SLOT_ALLOCATED));
       if \<not> ok then ret None
       else huge_carve_slot hg tid lay c i }
     else ret None })"

fun huge_scan :: "usize \<Rightarrow> usize \<Rightarrow> layout \<Rightarrow> (nat \<times> nat) list \<Rightarrow> address prog" where
  "huge_scan hg tid lay [] = ret 0"
| "huge_scan hg tid lay (ci # cis) = do {
     r \<leftarrow> huge_try_slot hg tid lay ci;
     case r of None \<Rightarrow> huge_scan hg tid lay cis | Some p \<Rightarrow> ret p }"

definition huge_slots_from :: "nat \<Rightarrow> (nat \<times> nat) list" where
  "huge_slots_from c = List.product [c..<MAX_HUGE_RUN_CLASSES] [0..<MAX_HUGE_RUNS_PER_CLASS]"

definition alloc_huge :: "usize \<Rightarrow> usize \<Rightarrow> layout \<Rightarrow> address prog" where
  "alloc_huge hg tid lay =
     (case huge_class_for_layout hg lay of
        None \<Rightarrow> ret 0
      | Some min_class \<Rightarrow> huge_scan hg tid lay (huge_slots_from min_class))"

fun huge_free_scan :: "usize \<Rightarrow> usize \<Rightarrow> address \<Rightarrow> (nat \<times> nat) list \<Rightarrow> unit prog" where
  "huge_free_scan hg tid addr [] = ret ()"
| "huge_free_scan hg tid addr (ci # cis) = (case ci of (c, i) \<Rightarrow> do {
     tick huge_slot_scans_update;
     base \<leftarrow> shared_get (\<lambda>s. hs_base (g_huge s c i));
     if base = 0 \<or> addr < base \<or> addr \<ge> base + huge_class_bytes hg c then huge_free_scan hg tid addr cis
     else do {
       owner_put (upd_slot c i (hs_owner_update (\<lambda>_. tid)));
       shared_put (upd_slot c i (hs_state_update (\<lambda>_. HUGE_SLOT_FREE))) } })"

definition dealloc_huge :: "usize \<Rightarrow> address \<Rightarrow> layout \<Rightarrow> usize \<Rightarrow> unit prog" where
  "dealloc_huge hg ptr lay tid = huge_free_scan hg tid ptr (huge_slots_from 0)"

section \<open>Classes\<close>

text \<open>The compile-time check of the granule: positive, and the largest run fits the address space.\<close>

definition granule_valid :: "usize \<Rightarrow> bool" where
  "granule_valid hg \<longleftrightarrow> 0 < unat hg \<and> unat hg * (65536 * 4) < 2 ^ 64"

definition huge_needed :: "layout \<Rightarrow> nat" where
  "huge_needed lay = unat (lay_size lay) + (unat (lay_align lay) - 65536)"

lemma granule_bytes_unat: "granule_valid hg \<Longrightarrow> unat (HUGE_GRANULE_BYTES hg) = unat hg * 65536"
  unfolding HUGE_GRANULE_BYTES_def
  by (subst unat_mult_nowrap) (simp_all add: granule_valid_def wf_config)

lemma huge_class_bytes_unat: "granule_valid hg \<Longrightarrow> c < 3 \<Longrightarrow> unat (huge_class_bytes hg c) = unat hg * 65536 * 2 ^ c"
proof -
  assume g: "granule_valid hg" and c: "c < 3"
  have "(2 :: nat) ^ c \<le> 2 ^ 2" using c by (intro power_increasing) auto
  then have le: "unat hg * 65536 * 2 ^ c \<le> unat hg * 65536 * 4" by simp
  have "unat hg * 65536 * 4 < 2 ^ 64" using g by (simp add: granule_valid_def mult.assoc)
  then have b: "unat hg * 65536 * 2 ^ c < 2 ^ 64" using le by linarith
  have "huge_class_bytes hg c = HUGE_GRANULE_BYTES hg * 2 ^ c"
    by (simp add: huge_class_bytes_def HUGE_GRANULE_BYTES_def push_bit_eq_mult)
  then show ?thesis
    using b c granule_bytes_unat [OF g] by (simp add: unat_mult_nowrap unat_exp)
qed

lemma huge_class_Some:
  assumes "granule_valid hg"
  shows "huge_class_for_layout hg lay = Some c \<longleftrightarrow>
     c < MAX_HUGE_RUN_CLASSES \<and> huge_needed lay \<le> unat (huge_class_bytes hg c)
     \<and> (\<forall>c' < c. unat (huge_class_bytes hg c') < huge_needed lay)"
proof -
  note gb = granule_bytes_unat [OF assms]
  have pos: "0 < unat (HUGE_GRANULE_BYTES hg)" using assms by (simp add: gb granule_valid_def)
  have four: "MAX_HUGE_GRANULES = 2 ^ 2" by (simp add: wf_config)
  have sl: "unat (saturating_sub (lay_align lay) SPAN_SIZE) = unat (lay_align lay) - 65536"
    by (simp add: saturating_sub_unat)
  show ?thesis
  proof (cases "huge_needed lay < 2 ^ 64")
    case True
    define x where "x = lay_size lay + saturating_sub (lay_align lay) SPAN_SIZE"
    have x: "checked_add (lay_size lay) (saturating_sub (lay_align lay) SPAN_SIZE) = Some x" "unat x = huge_needed lay"
      using True by (simp_all add: checked_add_def x_def huge_needed_def sl unat_add_nowrap)
    have r: "huge_class_for_layout hg lay = (checked_next_power_of_two (max (div_ceil x (HUGE_GRANULE_BYTES hg)) 1)
        \<bind> (\<lambda>z. if z > 2 ^ 2 then None else Some (trailing_zeros z)))"
      by (simp add: huge_class_for_layout_def x four)
    have le: "unat (max (div_ceil x (HUGE_GRANULE_BYTES hg)) 1) \<le> 2 ^ k \<longleftrightarrow> huge_needed lay \<le> unat hg * 65536 * 2 ^ k" for k
    proof -
      have "unat (max a (1 :: usize)) = max (unat a) 1" for a by (simp add: max_def word_le_nat_alt)
      with ceil_le_iff [OF pos, of x "2 ^ k"] show ?thesis by (simp add: gb x(2))
    qed
    have b: "unat (huge_class_bytes hg c') = unat hg * 65536 * 2 ^ c'" if "c' \<le> c" "c < MAX_HUGE_RUN_CLASSES" for c'
      using that huge_class_bytes_unat [OF assms, of c'] by (simp add: wf_config)
    have "c \<le> 2 \<longleftrightarrow> c < MAX_HUGE_RUN_CLASSES" by (auto simp: wf_config)
    then show ?thesis
      unfolding r by (subst power_class_Some) (auto simp: le not_le [symmetric] b)
  next
    case False
    then have "huge_class_for_layout hg lay = None"
      by (simp add: huge_class_for_layout_def checked_add_def huge_needed_def sl)
    moreover have "\<not> huge_needed lay \<le> unat (huge_class_bytes hg c)"
      using False by (auto dest: le_less_trans [OF _ unat_word_lt])
    ultimately show ?thesis by auto
  qed
qed

text \<open>
  C36. The class chosen for a huge request is the smallest run class that holds the payload at every
  span-aligned base; a request of exactly \<open>2 ^ c\<close> granules at ordinary alignment fits class \<open>c\<close>; a
  request is refused exactly when no class holds it.
\<close>

theorem huge_class_least:
  assumes "granule_valid hg"
  shows "huge_class_for_layout hg lay = Some c \<longleftrightarrow>
     c < MAX_HUGE_RUN_CLASSES \<and> huge_needed lay \<le> unat (huge_class_bytes hg c)
     \<and> (\<forall>c' < c. unat (huge_class_bytes hg c') < huge_needed lay)"
  using assms by (rule huge_class_Some)

theorem huge_class_least_witness:
  "granule_valid 16384 \<and> huge_class_for_layout 16384 \<lparr>lay_size = 2147483648, lay_align = 4096\<rparr> = Some 1"
proof -
  have g: "granule_valid 16384" by (simp add: granule_valid_def)
  have "huge_needed \<lparr>lay_size = 2147483648, lay_align = 4096\<rparr> = 2147483648" by (simp add: huge_needed_def)
  then show ?thesis
    using huge_class_least [OF g, of "\<lparr>lay_size = 2147483648, lay_align = 4096\<rparr>" 1] g
    by (simp add: huge_class_bytes_unat wf_config)
qed

section \<open>Placing the payload\<close>

lemma round_up_span_multiple:
  assumes "is_power_of_two a" "span_base base" "unat base + unat a \<le> 2 ^ 64"
  shows "unat (round_up base a) \<le> unat base + (unat a - 65536)"
proof (cases "unat a \<le> 65536")
  case True
  obtain k where k: "unat a = 2 ^ k" using assms(1) by (rule is_power_of_twoE)
  have "\<not> 17 \<le> k"
  proof
    assume "17 \<le> k"
    then have "(2 :: nat) ^ 17 \<le> 2 ^ k" by (intro power_increasing) auto
    with True k show False by simp
  qed
  then have "(2 :: nat) ^ k dvd 2 ^ 16" by (intro le_imp_power_dvd) simp
  then have "unat a dvd unat base" using assms(2) k by (auto simp: span_base_def intro: dvd_trans)
  then obtain m where m: "unat base = unat a * m" by auto
  have "(unat base + unat a - 1) div unat a = m"
    unfolding m by (rule div_nat_eqI) (use is_power_of_two_pos [OF assms(1)] in auto)
  then show ?thesis by (simp add: round_up_unat [OF assms(1,3)] m)
next
  case False
  obtain k where k: "unat a = 2 ^ k" using assms(1) by (rule is_power_of_twoE)
  have "16 < k"
  proof (rule ccontr)
    assume "\<not> 16 < k"
    then have "(2 :: nat) ^ k \<le> 2 ^ 16" by (intro power_increasing) auto
    with False k show False by simp
  qed
  then have "(2 :: nat) ^ 16 dvd 2 ^ k" by (intro le_imp_power_dvd) simp
  then have a: "65536 dvd unat a" by (simp add: k)
  note b = round_up_bounds [OF assms(1,3)]
  have u: "65536 dvd unat (round_up base a)" using b(3) a by (meson dvd_trans)
  obtain p q r where "unat (round_up base a) = 65536 * p" "unat base = 65536 * q" "unat a = 65536 * r"
    using u a assms(2) unfolding span_base_def by (metis dvdE)
  moreover from this b(2) have "p < q + r" by simp
  ultimately show ?thesis by (simp add: algebra_simps)
qed

text \<open>A carved run of a huge class: span-aligned, not null, with its end inside the address space.\<close>

definition huge_base :: "usize \<Rightarrow> nat \<Rightarrow> address \<Rightarrow> bool" where
  "huge_base hg c b \<longleftrightarrow> span_base b \<and> unat b + unat (huge_class_bytes hg c) < 2 ^ 64"

lemma huge_payload_fits:
  assumes "layout_valid lay" "65536 \<le> unat (lay_size lay)" "huge_needed lay \<le> unat (huge_class_bytes hg c)" "huge_base hg c b"
  shows "is_aligned (round_up b (lay_align lay)) (lay_align lay)"
    and "unat b \<le> unat (round_up b (lay_align lay))"
    and "unat (round_up b (lay_align lay)) + unat (lay_size lay) \<le> unat b + unat (huge_class_bytes hg c)"
proof -
  have al: "is_power_of_two (lay_align lay)" using assms(1) by (simp add: layout_valid_def)
  have b: "span_base b" "unat b + unat (huge_class_bytes hg c) < 2 ^ 64"
    using assms(4) by (simp_all add: huge_base_def)
  have ov: "unat b + unat (lay_align lay) \<le> 2 ^ 64"
    using assms(2,3) b(2) unfolding huge_needed_def by linarith
  note up = round_up_bounds [OF al ov] round_up_span_multiple [OF al b(1) ov]
  from up(3) show "is_aligned (round_up b (lay_align lay)) (lay_align lay)" by (simp add: is_aligned_unat al)
  from up(1) show "unat b \<le> unat (round_up b (lay_align lay))" .
  from up(4) assms(3) show "unat (round_up b (lay_align lay)) + unat (lay_size lay) \<le> unat b + unat (huge_class_bytes hg c)"
    unfolding huge_needed_def by linarith
qed

section \<open>The directory\<close>

definition huge_claimed :: "address \<Rightarrow> layout \<Rightarrow> usize \<Rightarrow> huge_slot \<Rightarrow> huge_slot" where
  "huge_claimed b lay tid h = h\<lparr>hs_state := HUGE_SLOT_ALLOCATED, hs_base := b, hs_owner := tid,
     hs_requested_size := lay_size lay, hs_requested_align := lay_align lay\<rparr>"

lemma huge_states_distinct [simp]:
  "HUGE_SLOT_EMPTY \<noteq> HUGE_SLOT_FREE" "HUGE_SLOT_EMPTY \<noteq> HUGE_SLOT_ALLOCATED" "HUGE_SLOT_FREE \<noteq> HUGE_SLOT_ALLOCATED"
  "HUGE_SLOT_FREE \<noteq> HUGE_SLOT_EMPTY" "HUGE_SLOT_ALLOCATED \<noteq> HUGE_SLOT_EMPTY" "HUGE_SLOT_ALLOCATED \<noteq> HUGE_SLOT_FREE"
  by (simp_all add: HUGE_SLOT_EMPTY_def HUGE_SLOT_FREE_def HUGE_SLOT_ALLOCATED_def)

lemma upd_slot_frame [simp]:
  "g_huge (upd_slot c i f s) c' i' = (if c' = c \<and> i' = i then f (g_huge s c i) else g_huge s c' i')"
  "g_pool (upd_slot c i f s) = g_pool s" "g_stats (upd_slot c i f s) = g_stats s"
  by (simp_all add: upd_slot_def)

lemma upd_slot_upd_slot [simp]: "upd_slot c i f (upd_slot c i g s) = upd_slot c i (\<lambda>h. f (g h)) s"
  by (simp add: upd_slot_def)

lemma upd_slot_id: "f (g_huge s c i) = g_huge s c i \<Longrightarrow> upd_slot c i f s = s"
  by (simp add: upd_slot_def)

lemma finish_huge_quietly:
  "quietly (finish_huge c i base lay tid) s (\<lambda>p t. p = round_up base (lay_align lay)
     \<and> t = upd_slot c i (\<lambda>h. h\<lparr>hs_owner := tid, hs_requested_size := lay_size lay, hs_requested_align := lay_align lay\<rparr>) s)"
  unfolding finish_huge_def Let_def by (auto intro!: quiet_intros)

text \<open>The pool left alone, as the huge path meets it.\<close>

definition spans_left :: "span_pool \<Rightarrow> nat" where
  "spans_left p = unat (pool_count p) - unat (pool_next p)"

definition pool_taken :: "usize \<Rightarrow> span_pool \<Rightarrow> span_pool" where
  "pool_taken n p = p\<lparr>pool_next := pool_next p + n\<rparr>"

lemma acquire_raw_run_quietly:
  assumes "1 \<le> n"
  shows "quietly (acquire_raw_run n) s (\<lambda>b t.
     if unat n \<le> spans_left (g_pool s)
     then b = span_addr (g_pool s) (pool_next (g_pool s)) \<and> t = s\<lparr>g_pool := pool_taken n (g_pool s)\<rparr>
     else b = 0 \<and> t = s)"
proof -
  let ?p = "g_pool s"
  have n: "0 < unat n" using assms by (simp add: word_le_nat_alt)
  have fits: "n > pool_count ?p \<or> pool_next ?p \<ge> pool_count ?p \<or> pool_count ?p - pool_next ?p < n
      \<longleftrightarrow> \<not> unat n \<le> spans_left ?p"
    using n by (auto simp: spans_left_def word_less_nat_alt word_le_nat_alt unat_sub_if_size)
  show ?thesis
    unfolding quietly_def using fits by (auto simp: run_acquire_raw_run Let_def pool_taken_def)
qed

definition huge_carved :: "nat \<Rightarrow> usize \<Rightarrow> shared \<Rightarrow> shared" where
  "huge_carved c hg s = s\<lparr>g_pool := pool_taken (huge_class_granules c * hg) (g_pool s),
     g_stats := allocated_huge_runs_update stat_inc (g_stats s)\<rparr>"

lemma huge_carve_slot_quietly:
  assumes "1 \<le> huge_class_granules c * hg"
    and "\<And>n. n < pool_count (g_pool s) \<Longrightarrow> span_addr (g_pool s) n \<noteq> 0"
  shows "quietly (huge_carve_slot hg tid lay c i) s (\<lambda>r t.
     if unat (huge_class_granules c * hg) \<le> spans_left (g_pool s)
     then r = Some (round_up (span_addr (g_pool s) (pool_next (g_pool s))) (lay_align lay))
       \<and> t = upd_slot c i (\<lambda>h. h\<lparr>hs_base := span_addr (g_pool s) (pool_next (g_pool s)), hs_owner := tid,
            hs_requested_size := lay_size lay, hs_requested_align := lay_align lay\<rparr>) (huge_carved c hg s)
     else r = None \<and> t = upd_slot c i (hs_state_update (\<lambda>_. HUGE_SLOT_EMPTY)) s)"
proof -
  have addr: "span_addr (g_pool s) (pool_next (g_pool s)) \<noteq> 0"
    if "unat (huge_class_granules c * hg) \<le> spans_left (g_pool s)"
    using that assms(1) by (intro assms(2)) (auto simp: spans_left_def word_less_nat_alt word_le_nat_alt)
  show ?thesis
    unfolding huge_carve_slot_def
    by (rule quietly_then [OF acquire_raw_run_quietly [OF assms(1)]])
      (use addr in \<open>auto simp: huge_carved_def upd_slot_def split: if_splits
        intro!: quiet_intros quietly_mono [OF finish_huge_quietly]\<close>)
qed

lemma huge_try_slot_quietly:
  assumes "1 \<le> huge_class_granules c * hg"
    and "\<And>n. n < pool_count (g_pool s) \<Longrightarrow> span_addr (g_pool s) n \<noteq> 0"
  shows "quietly (huge_try_slot hg tid lay (c, i)) s (\<lambda>r t. case r of
     None \<Rightarrow> t = s \<and> hs_state (g_huge s c i) \<noteq> HUGE_SLOT_FREE
       \<and> (hs_state (g_huge s c i) = HUGE_SLOT_EMPTY \<longrightarrow> spans_left (g_pool s) < unat (huge_class_granules c * hg))
   | Some p \<Rightarrow> \<exists>b. p = round_up b (lay_align lay) \<and>
       (hs_state (g_huge s c i) = HUGE_SLOT_FREE \<and> b = hs_base (g_huge s c i)
          \<and> t = upd_slot c i (huge_claimed b lay tid) s
        \<or> hs_state (g_huge s c i) = HUGE_SLOT_EMPTY
          \<and> unat (huge_class_granules c * hg) \<le> spans_left (g_pool s)
          \<and> b = span_addr (g_pool s) (pool_next (g_pool s))
          \<and> t = upd_slot c i (huge_claimed b lay tid) (huge_carved c hg s)))"
proof -
  let ?h = "g_huge s c i"
  consider (Free) "hs_state ?h = HUGE_SLOT_FREE" | (Empty) "hs_state ?h = HUGE_SLOT_EMPTY"
    | (Other) "hs_state ?h \<noteq> HUGE_SLOT_FREE" "hs_state ?h \<noteq> HUGE_SLOT_EMPTY" by blast
  then show ?thesis
  proof cases
    case Free
    then show ?thesis
      unfolding huge_try_slot_def
      by (cases ?h) (auto simp: on_slot_def slot_cas_def huge_claimed_def upd_slot_def
          intro!: quiet_intros quietly_mono [OF finish_huge_quietly])
  next
    case Other
    then show ?thesis unfolding huge_try_slot_def by (auto intro!: quiet_intros)
  next
    case Empty
    define s1 where "s1 = upd_slot c i (hs_state_update (\<lambda>_. HUGE_SLOT_ALLOCATED)) s"
    have s1: "on_slot c i (slot_cas HUGE_SLOT_EMPTY HUGE_SLOT_ALLOCATED) s = (True, s1)" "g_pool s1 = g_pool s"
      using Empty by (simp_all add: s1_def on_slot_def slot_cas_def upd_slot_def)
    have undo: "upd_slot c i (hs_state_update (\<lambda>_. HUGE_SLOT_EMPTY)) s1 = s"
      using Empty by (cases ?h) (simp add: s1_def upd_slot_id)
    have fwd: "upd_slot c i (\<lambda>h. h\<lparr>hs_base := b, hs_owner := tid, hs_requested_size := lay_size lay,
        hs_requested_align := lay_align lay\<rparr>) (huge_carved c hg s1) = upd_slot c i (huge_claimed b lay tid) (huge_carved c hg s)" for b
      by (cases ?h) (simp add: s1_def upd_slot_def huge_carved_def huge_claimed_def)
    note carve = huge_carve_slot_quietly [of c hg s1 tid lay i, unfolded s1(2) undo fwd, OF assms]
    show ?thesis
      unfolding huge_try_slot_def
      by (auto simp: Empty s1 split: if_splits intro!: quiet_intros quietly_mono [OF carve])
  qed
qed

text \<open>
  The directory is well-formed: a slot is empty exactly while it has no memory, carved runs lie in the part
  of the region the pool has handed out, and no two of them overlap.
\<close>

definition slot_at :: "shared \<Rightarrow> nat \<times> nat \<Rightarrow> huge_slot" where
  "slot_at s ci = g_huge s (fst ci) (snd ci)"

definition slot_run :: "usize \<Rightarrow> nat \<times> nat \<Rightarrow> huge_slot \<Rightarrow> nat \<times> nat" where
  "slot_run hg ci h = (unat (hs_base h), unat (hs_base h) + unat (huge_class_bytes hg (fst ci)))"

definition pool_limit :: "span_pool \<Rightarrow> nat" where
  "pool_limit p = unat (pool_base p) + min (unat (pool_next p)) (unat (pool_count p)) * 65536"

definition slot_ok :: "usize \<Rightarrow> span_pool \<Rightarrow> nat \<times> nat \<Rightarrow> huge_slot \<Rightarrow> bool" where
  "slot_ok hg p ci h \<longleftrightarrow> hs_state h \<in> {HUGE_SLOT_EMPTY, HUGE_SLOT_FREE, HUGE_SLOT_ALLOCATED}
     \<and> (hs_base h = 0 \<longleftrightarrow> hs_state h = HUGE_SLOT_EMPTY)
     \<and> (hs_base h \<noteq> 0 \<longrightarrow> huge_base hg (fst ci) (hs_base h) \<and> snd (slot_run hg ci h) \<le> pool_limit p)"

definition slots_apart :: "usize \<Rightarrow> nat \<times> nat \<Rightarrow> huge_slot \<Rightarrow> nat \<times> nat \<Rightarrow> huge_slot \<Rightarrow> bool" where
  "slots_apart hg ci h cj k \<longleftrightarrow> hs_base h \<noteq> 0 \<longrightarrow> hs_base k \<noteq> 0 \<longrightarrow> apart (slot_run hg ci h) (slot_run hg cj k)"

definition huge_inv :: "usize \<Rightarrow> shared \<Rightarrow> bool" where
  "huge_inv hg s \<longleftrightarrow> granule_valid hg \<and> pool_wf (g_pool s) \<and> pool_base (g_pool s) \<noteq> 0
     \<and> (\<forall>ci \<in> set (huge_slots_from 0). slot_ok hg (g_pool s) ci (slot_at s ci))
     \<and> (\<forall>ci \<in> set (huge_slots_from 0). \<forall>cj \<in> set (huge_slots_from 0). ci \<noteq> cj \<longrightarrow>
          slots_apart hg ci (slot_at s ci) cj (slot_at s cj))"

definition huge_live :: "shared \<Rightarrow> (nat \<times> nat) set" where
  "huge_live s = {ci \<in> set (huge_slots_from 0). hs_state (slot_at s ci) = HUGE_SLOT_ALLOCATED}"

lemma slot_at_upd [simp]:
  "slot_at (upd_slot c i f s) ci = (if ci = (c, i) then f (slot_at s ci) else slot_at s ci)"
  by (cases ci) (simp add: slot_at_def)

lemma slot_at_carved [simp]: "slot_at (huge_carved c hg s) ci = slot_at s ci"
  by (simp add: slot_at_def huge_carved_def)

lemma slots_apart_sym: "slots_apart hg ci h cj k \<Longrightarrow> slots_apart hg cj k ci h"
  by (auto simp: slots_apart_def apart_def)

lemma huge_inv_upd:
  assumes inv: "huge_inv hg s" and ci: "ci \<in> set (huge_slots_from 0)"
    and pool: "pool_wf (g_pool t)" "pool_base (g_pool t) \<noteq> 0" "pool_limit (g_pool s) \<le> pool_limit (g_pool t)"
    and same: "\<And>cj. cj \<noteq> ci \<Longrightarrow> slot_at t cj = slot_at s cj"
    and ok: "slot_ok hg (g_pool t) ci (slot_at t ci)"
    and ap: "\<And>cj. cj \<in> set (huge_slots_from 0) \<Longrightarrow> cj \<noteq> ci \<Longrightarrow> slots_apart hg ci (slot_at t ci) cj (slot_at s cj)"
  shows "huge_inv hg t"
proof -
  have "slot_ok hg (g_pool t) cj (slot_at t cj)" if "cj \<in> set (huge_slots_from 0)" for cj
    using ok same [of cj] inv that pool(3) by (cases "cj = ci") (auto simp: huge_inv_def slot_ok_def)
  moreover have "slots_apart hg cj (slot_at t cj) ck (slot_at t ck)"
    if "cj \<in> set (huge_slots_from 0)" "ck \<in> set (huge_slots_from 0)" "cj \<noteq> ck" for cj ck
    using that inv same [of cj] same [of ck] ap [of ck] slots_apart_sym [OF ap [of cj]]
    by (cases "cj = ci"; cases "ck = ci") (auto simp: huge_inv_def)
  ultimately show ?thesis using inv pool(1,2) by (simp add: huge_inv_def)
qed

lemma huge_run_granules:
  assumes "granule_valid hg" "c < 3"
  shows "unat (huge_class_granules c * hg) * 65536 = unat (huge_class_bytes hg c)" "1 \<le> huge_class_granules c * hg"
proof -
  have "(2 :: nat) ^ c \<le> 2 ^ 2" using assms(2) by (intro power_increasing) auto
  then have "2 ^ c * unat hg \<le> 4 * unat hg" by simp
  moreover have "4 * unat hg < 2 ^ 64" using assms(1) by (simp add: granule_valid_def)
  ultimately have "2 ^ c * unat hg < 2 ^ 64" by (rule le_less_trans)
  then have n: "unat (huge_class_granules c * hg) = 2 ^ c * unat hg"
    using assms(2) by (simp add: huge_class_granules_def push_bit_eq_mult unat_mult_nowrap unat_exp)
  then show "unat (huge_class_granules c * hg) * 65536 = unat (huge_class_bytes hg c)"
    by (simp add: huge_class_bytes_unat [OF assms])
  show "1 \<le> huge_class_granules c * hg"
    using n assms(1) by (simp add: word_le_nat_alt granule_valid_def)
qed

lemma carved_address:
  assumes "pool_wf p" "unat n \<le> spans_left p" "1 \<le> n"
  shows "unat (span_addr p (pool_next p)) = unat (pool_base p) + unat (pool_next p) * 65536"
    and "pool_limit p = unat (span_addr p (pool_next p))"
    and "pool_limit (pool_taken n p) = unat (span_addr p (pool_next p)) + unat n * 65536"
    and "unat (span_addr p (pool_next p)) + unat n * 65536 < 2 ^ 64"
    and "65536 dvd unat (span_addr p (pool_next p))"
proof -
  have n: "0 < unat n" using assms(3) by (simp add: word_le_nat_alt)
  have le: "unat (pool_next p) + unat n \<le> unat (pool_count p)" using assms(2) n by (simp add: spans_left_def)
  then have "unat (pool_next p) + unat n < 2 ^ 64" using le_less_trans [OF le unat_word_lt] by simp
  then have nx: "unat (pool_next p + n) = unat (pool_next p) + unat n" by (rule unat_add_nowrap)
  show a: "unat (span_addr p (pool_next p)) = unat (pool_base p) + unat (pool_next p) * 65536"
    using le n by (intro span_addr_unat [OF assms(1)]) (simp add: word_less_nat_alt)
  show "pool_limit p = unat (span_addr p (pool_next p))" using le n by (simp add: pool_limit_def a)
  show "pool_limit (pool_taken n p) = unat (span_addr p (pool_next p)) + unat n * 65536"
    using le by (simp add: pool_limit_def pool_taken_def nx a add_mult_distrib)
  have "(unat (pool_next p) + unat n) * 65536 \<le> unat (pool_count p) * 65536" using le by simp
  moreover have "unat (pool_base p) + unat (pool_count p) * 65536 < 2 ^ 64"
    using assms(1) by (simp add: pool_wf_def)
  ultimately show "unat (span_addr p (pool_next p)) + unat n * 65536 < 2 ^ 64"
    unfolding a add_mult_distrib by linarith
  have "65536 dvd unat (pool_base p)" using assms(1) by (simp add: pool_wf_def span_aligned_iff)
  then show "65536 dvd unat (span_addr p (pool_next p))" unfolding a by simp
qed

lemma pool_wf_taken [simp]: "pool_wf (pool_taken n p) = pool_wf p" "pool_base (pool_taken n p) = pool_base p"
  by (simp_all add: pool_wf_def pool_taken_def)

lemma huge_inv_slot: "huge_inv hg s \<Longrightarrow> ci \<in> set (huge_slots_from 0) \<Longrightarrow> slot_ok hg (g_pool s) ci (slot_at s ci)"
  by (simp add: huge_inv_def)

lemma huge_inv_apart:
  "huge_inv hg s \<Longrightarrow> ci \<in> set (huge_slots_from 0) \<Longrightarrow> cj \<in> set (huge_slots_from 0) \<Longrightarrow> ci \<noteq> cj \<Longrightarrow>
     slots_apart hg ci (slot_at s ci) cj (slot_at s cj)"
  by (simp add: huge_inv_def)

lemma huge_inv_pool: "huge_inv hg s \<Longrightarrow> pool_wf (g_pool s) \<and> pool_base (g_pool s) \<noteq> 0 \<and> granule_valid hg"
  by (simp add: huge_inv_def)

lemma dir_class: "ci \<in> set (huge_slots_from k) \<Longrightarrow> k \<le> fst ci \<and> fst ci < 3 \<and> ci \<in> set (huge_slots_from 0)"
  by (auto simp: huge_slots_from_def wf_config)

lemma huge_inv_same_base:
  assumes "huge_inv hg s" "(c, i) \<in> set (huge_slots_from 0)" "hs_state (slot_at s (c, i)) \<noteq> HUGE_SLOT_EMPTY"
    and "hs_base (f (slot_at s (c, i))) = hs_base (slot_at s (c, i))"
    and "hs_state (f (slot_at s (c, i))) \<in> {HUGE_SLOT_FREE, HUGE_SLOT_ALLOCATED}"
  shows "huge_inv hg (upd_slot c i f s)"
proof (rule huge_inv_upd [OF assms(1,2)])
  show "slot_ok hg (g_pool (upd_slot c i f s)) (c, i) (slot_at (upd_slot c i f s) (c, i))"
    using huge_inv_slot [OF assms(1,2)] assms(3-5) by (auto simp: slot_ok_def slot_run_def)
  show "slots_apart hg (c, i) (slot_at (upd_slot c i f s) (c, i)) cj (slot_at s cj)"
    if "cj \<in> set (huge_slots_from 0)" "cj \<noteq> (c, i)" for cj
    using huge_inv_apart [OF assms(1,2) that(1)] that(2) assms(4) by (auto simp: slots_apart_def slot_run_def)
qed (use huge_inv_pool [OF assms(1)] in auto)

lemma huge_inv_carve:
  assumes inv: "huge_inv hg s" and ci: "(c, i) \<in> set (huge_slots_from 0)"
    and n: "unat (huge_class_granules c * hg) \<le> spans_left (g_pool s)"
    and b: "b = span_addr (g_pool s) (pool_next (g_pool s))"
  shows "huge_inv hg (upd_slot c i (huge_claimed b lay tid) (huge_carved c hg s)) \<and> huge_base hg c b"
proof -
  let ?t = "upd_slot c i (huge_claimed b lay tid) (huge_carved c hg s)"
  note P = huge_inv_pool [OF inv]
  have c: "c < 3" using dir_class [OF ci] by simp
  have v: "granule_valid hg" using P by simp
  note g = huge_run_granules [OF v c]
  note a = carved_address [of "g_pool s", OF _ n g(2), unfolded g(1), folded b]
  have "unat (pool_base (g_pool s)) \<noteq> 0" using P by (simp add: unat_zero_iff)
  then have bz: "b \<noteq> 0" using a(1) P by (auto simp: unat_zero_iff [symmetric])
  have hb: "huge_base hg c b" using a(4,5) bz P by (simp add: huge_base_def span_base_def)
  have "huge_inv hg ?t"
  proof (rule huge_inv_upd [OF inv ci])
    show "pool_wf (g_pool ?t)" "pool_base (g_pool ?t) \<noteq> 0" "pool_limit (g_pool s) \<le> pool_limit (g_pool ?t)"
      using P a(2,3) by (simp_all add: huge_carved_def)
    show "slot_ok hg (g_pool ?t) (c, i) (slot_at ?t (c, i))"
      using hb bz a(3) P by (simp add: slot_ok_def slot_run_def huge_claimed_def huge_carved_def)
    show "slots_apart hg (c, i) (slot_at ?t (c, i)) cj (slot_at s cj)"
      if "cj \<in> set (huge_slots_from 0)" "cj \<noteq> (c, i)" for cj
      using huge_inv_slot [OF inv that(1)] a(2) P
      by (auto simp: slots_apart_def apart_def slot_ok_def slot_run_def huge_claimed_def)
  qed simp
  with hb show ?thesis by simp
qed

text \<open>A grant: a slot not live before and live now, no other slot touched, the payload inside its run.\<close>

definition huge_granted :: "usize \<Rightarrow> layout \<Rightarrow> shared \<Rightarrow> shared \<Rightarrow> address \<Rightarrow> nat \<times> nat \<Rightarrow> bool" where
  "huge_granted hg lay s t p ci \<longleftrightarrow> ci \<in> set (huge_slots_from 0) \<and> ci \<notin> huge_live s
     \<and> huge_live t = insert ci (huge_live s) \<and> (\<forall>cj. cj \<noteq> ci \<longrightarrow> slot_at t cj = slot_at s cj)
     \<and> is_aligned p (lay_align lay) \<and> p \<noteq> 0 \<and> fst (slot_run hg ci (slot_at t ci)) \<le> unat p
     \<and> unat p + unat (lay_size lay) \<le> snd (slot_run hg ci (slot_at t ci))"

lemma huge_granted_claim:
  assumes "layout_valid lay" "65536 \<le> unat (lay_size lay)" "huge_needed lay \<le> unat (huge_class_bytes hg c)"
    and "(c, i) \<in> set (huge_slots_from 0)" "hs_state (slot_at s (c, i)) \<noteq> HUGE_SLOT_ALLOCATED" "huge_base hg c b"
    and "\<And>cj. slot_at s' cj = slot_at s cj"
  shows "huge_granted hg lay s (upd_slot c i (huge_claimed b lay tid) s') (round_up b (lay_align lay)) (c, i)"
proof -
  note fits = huge_payload_fits [OF assms(1,2,3,6)]
  have "0 < unat b" using assms(6) by (simp add: huge_base_def span_base_def unat_gt_0)
  with fits(2) have "round_up b (lay_align lay) \<noteq> 0" by (auto simp: unat_zero_iff [symmetric])
  moreover have "huge_live (upd_slot c i (huge_claimed b lay tid) s') = insert (c, i) (huge_live s)"
    using assms(4) by (auto simp: huge_live_def huge_claimed_def assms(7))
  ultimately show ?thesis
    using fits assms(4,5,7) by (simp add: huge_granted_def huge_live_def slot_run_def huge_claimed_def)
qed

lemma huge_try_slot_grants:
  assumes inv: "huge_inv hg s" and lay: "layout_valid lay" "65536 \<le> unat (lay_size lay)"
    and fits: "huge_needed lay \<le> unat (huge_class_bytes hg c)" and ci: "(c, i) \<in> set (huge_slots_from 0)"
  shows "quietly (huge_try_slot hg tid lay (c, i)) s (\<lambda>r t. case r of
     None \<Rightarrow> t = s \<and> hs_state (slot_at s (c, i)) \<noteq> HUGE_SLOT_FREE
   | Some p \<Rightarrow> huge_inv hg t \<and> huge_granted hg lay s t p (c, i))"
proof -
  note P = huge_inv_pool [OF inv]
  have n1: "1 \<le> huge_class_granules c * hg" using P dir_class [OF ci] by (intro huge_run_granules) auto
  have addr: "span_addr (g_pool s) n \<noteq> 0" if "n < pool_count (g_pool s)" for n
    using span_addr_unat [of "g_pool s" n] that P by (auto simp: unat_zero_iff [symmetric])
  have base: "huge_base hg c (hs_base (slot_at s (c, i)))" if "hs_state (slot_at s (c, i)) = HUGE_SLOT_FREE"
    using huge_inv_slot [OF inv ci] that by (auto simp: slot_ok_def)
  have free: "huge_inv hg t \<and> huge_granted hg lay s t (round_up b (lay_align lay)) (c, i)"
    if "hs_state (slot_at s (c, i)) = HUGE_SLOT_FREE" "b = hs_base (slot_at s (c, i))"
      "t = upd_slot c i (huge_claimed b lay tid) s" for b t
    unfolding that(3) using that base
    by (intro conjI huge_inv_same_base [OF inv ci] huge_granted_claim [OF lay fits ci]) (simp_all add: huge_claimed_def)
  have carve: "huge_inv hg t \<and> huge_granted hg lay s t (round_up b (lay_align lay)) (c, i)"
    if "hs_state (slot_at s (c, i)) = HUGE_SLOT_EMPTY" "unat (huge_class_granules c * hg) \<le> spans_left (g_pool s)"
      "b = span_addr (g_pool s) (pool_next (g_pool s))" "t = upd_slot c i (huge_claimed b lay tid) (huge_carved c hg s)" for b t
    unfolding that(4) using huge_inv_carve [OF inv ci that(2,3), of lay tid] that(1)
    by (intro conjI huge_granted_claim [OF lay fits ci]) simp_all
  show ?thesis
    by (rule quietly_mono [OF huge_try_slot_quietly [OF n1 addr]], assumption)
      (use free carve in \<open>auto simp: slot_at_def split: option.splits\<close>)
qed

lemma huge_scan_grants:
  assumes inv: "huge_inv hg s" and lay: "layout_valid lay" "65536 \<le> unat (lay_size lay)"
  shows "(\<And>ci. ci \<in> set cis \<Longrightarrow> huge_needed lay \<le> unat (huge_class_bytes hg (fst ci)) \<and> ci \<in> set (huge_slots_from 0)) \<Longrightarrow>
    quietly (huge_scan hg tid lay cis) s (\<lambda>p t.
      p = 0 \<and> t = s \<and> (\<forall>ci \<in> set cis. hs_state (slot_at s ci) \<noteq> HUGE_SLOT_FREE)
      \<or> huge_inv hg t \<and> (\<exists>ci \<in> set cis. huge_granted hg lay s t p ci))"
proof (induction cis)
  case Nil
  then show ?case by simp
next
  case (Cons ci cis)
  obtain c i where ci: "ci = (c, i)" by (cases ci)
  have 1: "huge_needed lay \<le> unat (huge_class_bytes hg c)" "(c, i) \<in> set (huge_slots_from 0)"
    using Cons.prems [of ci] by (simp_all add: ci)
  have IH: "quietly (huge_scan hg tid lay cis) s (\<lambda>p t.
      p = 0 \<and> t = s \<and> (\<forall>ci \<in> set cis. hs_state (slot_at s ci) \<noteq> HUGE_SLOT_FREE)
      \<or> huge_inv hg t \<and> (\<exists>ci \<in> set cis. huge_granted hg lay s t p ci))"
    by (rule Cons.IH) (simp add: Cons.prems)
  show ?case
    unfolding huge_scan.simps ci
    by (rule quietly_then [OF huge_try_slot_grants [OF inv lay 1]])
      (auto split: option.splits intro!: quietly_mono [OF IH])
qed

lemma alloc_huge_grants:
  assumes inv: "huge_inv hg s" and lay: "layout_valid lay" and size: "unat (HUGE_GRANULE_BYTES hg) \<le> unat (lay_size lay)"
  shows "quietly (alloc_huge hg tid lay) s (\<lambda>p t.
     p = 0 \<and> t = s \<and> (\<forall>c ci. huge_class_for_layout hg lay = Some c \<longrightarrow> ci \<in> set (huge_slots_from c) \<longrightarrow>
        hs_state (slot_at s ci) \<noteq> HUGE_SLOT_FREE)
     \<or> huge_inv hg t \<and> (\<exists>ci. huge_granted hg lay s t p ci))"
proof (cases "huge_class_for_layout hg lay")
  case None
  then show ?thesis by (simp add: alloc_huge_def)
next
  case (Some m)
  have g: "granule_valid hg" using huge_inv_pool [OF inv] by simp
  have sz: "65536 \<le> unat (lay_size lay)"
  proof -
    have "65536 \<le> unat hg * 65536" using g by (simp add: granule_valid_def)
    with size show ?thesis unfolding granule_bytes_unat [OF g] by linarith
  qed
  have m: "huge_needed lay \<le> unat hg * 65536 * 2 ^ m"
    using Some huge_class_bytes_unat [OF g, of m] unfolding huge_class_Some [OF g] by (simp add: wf_config)
  have fits: "huge_needed lay \<le> unat (huge_class_bytes hg (fst ci)) \<and> ci \<in> set (huge_slots_from 0)"
    if "ci \<in> set (huge_slots_from m)" for ci
  proof -
    have c: "m \<le> fst ci" "fst ci < 3" "ci \<in> set (huge_slots_from 0)" using dir_class [OF that] by simp_all
    have "(2 :: nat) ^ m \<le> 2 ^ fst ci" using c(1) by (intro power_increasing) auto
    then have "unat hg * 65536 * 2 ^ m \<le> unat hg * 65536 * 2 ^ fst ci" by simp
    with m c show ?thesis unfolding huge_class_bytes_unat [OF g c(2)] by (meson order.trans)
  qed
  show ?thesis
    by (simp add: alloc_huge_def Some, rule quietly_mono [OF huge_scan_grants [OF inv lay sz fits]])
      (auto simp: Some)
qed

lemma huge_free_scan_quietly:
  assumes inv: "huge_inv hg s" and live: "ci \<in> huge_live s"
    and p: "fst (slot_run hg ci (slot_at s ci)) \<le> unat p" "unat p < snd (slot_run hg ci (slot_at s ci))"
  shows "ci \<in> set cis \<Longrightarrow> set cis \<subseteq> set (huge_slots_from 0) \<Longrightarrow>
    quietly (huge_free_scan hg tid p cis) s (\<lambda>_ t. t = upd_slot (fst ci) (snd ci)
      (\<lambda>h. h\<lparr>hs_owner := tid, hs_state := HUGE_SLOT_FREE\<rparr>) s)"
proof (induction cis)
  case (Cons cj cis)
  obtain c i where cj: "cj = (c, i)" by (cases cj)
  have ci: "ci \<in> set (huge_slots_from 0)" "hs_state (slot_at s ci) = HUGE_SLOT_ALLOCATED"
    using live by (simp_all add: huge_live_def)
  have dj: "cj \<in> set (huge_slots_from 0)" using Cons.prems by simp
  let ?h = "slot_at s cj"
  have ends: "unat (hs_base ?h + huge_class_bytes hg c) = snd (slot_run hg cj ?h)" if "hs_base ?h \<noteq> 0"
    using huge_inv_slot [OF inv dj] that
    by (simp add: slot_ok_def huge_base_def slot_run_def cj unat_add_nowrap)
  show ?case
  proof (cases "cj = ci")
    case True
    have nz: "hs_base ?h \<noteq> 0" using huge_inv_slot [OF inv ci(1)] ci(2) True by (simp add: slot_ok_def)
    then have hit: "\<not> (hs_base (g_huge s c i) = 0 \<or> p < hs_base (g_huge s c i) \<or> hs_base (g_huge s c i) + huge_class_bytes hg c \<le> p)"
      using p ends [OF nz] True by (auto simp: slot_at_def cj slot_run_def word_less_nat_alt word_le_nat_alt)
    from True show ?thesis
      unfolding huge_free_scan.simps cj
      by (auto simp: hit upd_slot_def intro!: quiet_intros)
  next
    case False
    have "slots_apart hg cj ?h ci (slot_at s ci)" using False by (intro huge_inv_apart [OF inv dj ci(1)])
    moreover have "hs_base (slot_at s ci) \<noteq> 0" using huge_inv_slot [OF inv ci(1)] ci(2) by (simp add: slot_ok_def)
    ultimately have miss: "hs_base (g_huge s c i) = 0 \<or> p < hs_base (g_huge s c i) \<or> hs_base (g_huge s c i) + huge_class_bytes hg c \<le> p"
      using p ends by (auto simp: slots_apart_def apart_def slot_at_def cj slot_run_def word_less_nat_alt word_le_nat_alt)
    from False Cons show ?thesis
      unfolding huge_free_scan.simps cj
      by (auto simp: miss intro!: quiet_intros)
  qed
qed simp

text \<open>
  C24. A huge allocation takes a slot that no live allocation holds and touches no other slot: its
  payload is aligned and lies inside the run of that slot, hence apart from every other live huge
  run; it returns null only when no slot of a sufficient class is free, and then changes nothing.
\<close>

theorem huge_alloc_exclusive:
  assumes "huge_inv hg s" and "layout_valid lay" and "unat (HUGE_GRANULE_BYTES hg) \<le> unat (lay_size lay)"
  shows "quietly (alloc_huge hg tid lay) s (\<lambda>p t. huge_inv hg t
     \<and> (p = 0 \<and> t = s \<and> (\<forall>c ci. huge_class_for_layout hg lay = Some c \<longrightarrow> ci \<in> set (huge_slots_from c) \<longrightarrow>
          hs_state (slot_at s ci) \<noteq> HUGE_SLOT_FREE)
        \<or> (\<exists>ci. huge_granted hg lay s t p ci)))"
  by (rule quietly_mono [OF alloc_huge_grants [OF assms]]) (use assms(1) in auto)

text \<open>
  C25. Freeing any address inside a live huge run, by any thread, finds the slot of that run in the bounded
  scan and releases exactly this slot, with its memory kept for the next claim.
\<close>

theorem huge_free_exact:
  assumes "huge_inv hg s" and "ci \<in> huge_live s" and "fst (slot_run hg ci (slot_at s ci)) \<le> unat p"
    and "unat p < snd (slot_run hg ci (slot_at s ci))"
  shows "quietly (dealloc_huge hg p lay tid) s (\<lambda>_ t. huge_inv hg t \<and> huge_live t = huge_live s - {ci}
     \<and> hs_state (slot_at t ci) = HUGE_SLOT_FREE \<and> hs_base (slot_at t ci) = hs_base (slot_at s ci)
     \<and> (\<forall>cj. cj \<noteq> ci \<longrightarrow> slot_at t cj = slot_at s cj))"
proof -
  let ?f = "\<lambda>h. h\<lparr>hs_owner := tid, hs_state := HUGE_SLOT_FREE\<rparr>"
  have ci: "(fst ci, snd ci) \<in> set (huge_slots_from 0)" "hs_state (slot_at s (fst ci, snd ci)) = HUGE_SLOT_ALLOCATED"
    using assms(2) by (simp_all add: huge_live_def)
  have inv: "huge_inv hg (upd_slot (fst ci) (snd ci) ?f s)"
    by (rule huge_inv_same_base [OF assms(1) ci(1)]) (use ci(2) in simp_all)
  have "huge_live (upd_slot (fst ci) (snd ci) ?f s) = huge_live s - {ci}"
    by (auto simp: huge_live_def)
  with inv show ?thesis
    unfolding dealloc_huge_def using ci(1)
    by (intro quietly_mono [OF huge_free_scan_quietly [OF assms(1-4)]]) auto
qed

definition huge_start :: "shared \<Rightarrow> shared" where
  "huge_start s = s\<lparr>g_pool := \<lparr>pool_base = 65536, pool_count = 8, pool_next = 1\<rparr>,
     g_huge := (\<lambda>_ _. huge_slot_new)(0 := (\<lambda>_. huge_slot_new)(0 := \<lparr>hs_state = HUGE_SLOT_ALLOCATED, hs_base = 65536,
       hs_owner = 0, hs_requested_size = 65536, hs_requested_align = 16\<rparr>))\<rparr>"

lemma huge_start_inv: "huge_inv 1 (huge_start zero_memory)"
proof -
  have b: "unat (huge_class_bytes 1 0) = 65536" by (simp add: huge_class_bytes_def wf_config)
  have e: "hs_base (slot_at (huge_start zero_memory) ci) = (if ci = (0, 0) then 65536 else 0)"
    "hs_state (slot_at (huge_start zero_memory) ci) = (if ci = (0, 0) then HUGE_SLOT_ALLOCATED else HUGE_SLOT_EMPTY)" for ci
    by (cases ci; simp add: huge_start_def slot_at_def huge_slot_new_def HUGE_SLOT_EMPTY_def)+
  have "slot_ok 1 (g_pool (huge_start zero_memory)) ci (slot_at (huge_start zero_memory) ci)" for ci
    by (auto simp: slot_ok_def e slot_run_def b huge_base_def span_base_def) (simp add: huge_start_def pool_limit_def)
  then show ?thesis
    by (simp add: huge_inv_def granule_valid_def slots_apart_def e)
      (simp add: huge_start_def pool_wf_def span_aligned_iff)
qed

theorem huge_alloc_exclusive_witness:
  "quietly (alloc_huge 1 3 \<lparr>lay_size = 100000, lay_align = 16\<rparr>) (huge_start zero_memory)
     (\<lambda>p t. huge_inv 1 t \<and> (p = 0 \<or> (0, 0) \<in> huge_live t))"
proof -
  have al: "is_power_of_two 16" using is_power_of_two_exp [of 4] by simp
  have "(0, 0) \<in> huge_live (huge_start zero_memory)"
    by (simp add: huge_live_def huge_slots_from_def wf_config huge_start_def slot_at_def)
  with huge_alloc_exclusive [OF huge_start_inv, of "\<lparr>lay_size = 100000, lay_align = 16\<rparr>" 3]
  show ?thesis
    by (auto simp: layout_valid_def al HUGE_GRANULE_BYTES_def wf_config huge_granted_def elim!: quietly_mono)
qed

theorem huge_free_exact_witness:
  "quietly (dealloc_huge 1 65600 \<lparr>lay_size = 65536, lay_align = 16\<rparr> 5) (huge_start zero_memory)
     (\<lambda>_ t. huge_inv 1 t \<and> hs_state (slot_at t (0, 0)) = HUGE_SLOT_FREE)"
proof -
  have l: "(0, 0) \<in> huge_live (huge_start zero_memory)"
    by (simp add: huge_live_def huge_slots_from_def wf_config huge_start_def slot_at_def)
  have "slot_run 1 (0, 0) (slot_at (huge_start zero_memory) (0, 0)) = (65536, 131072)"
    by (simp add: slot_run_def slot_at_def huge_start_def huge_class_bytes_def wf_config)
  with huge_free_exact [OF huge_start_inv l, of 65600 "\<lparr>lay_size = 65536, lay_align = 16\<rparr>" 5] show ?thesis by (auto elim!: quietly_mono)
qed

section \<open>Step bounds in any environment\<close>

context env_condition
begin

lemma ok_upd_slot [simp]: "ok s \<Longrightarrow> ok (upd_slot c i f s)" "ok s \<Longrightarrow> ok (snd (on_slot c i g s))"
  by (simp_all add: upd_slot_def on_slot_def)

lemma within_finish_huge [wf_within]: "within ok (weigh w) (finish_huge c i b lay tid) 0"
  unfolding finish_huge_def Let_def by (rule within_mono, (rule wf_within | simp)+)

lemma within_huge_try_slot:
  assumes "0 \<le> c Cas" "0 \<le> c Faa"
  shows "within ok (weigh c) (huge_try_slot hg tid lay ci) (c HugeScan + 2 * c Cas + c Faa)"
  unfolding huge_try_slot_def huge_carve_slot_def
  by (rule within_mono, (rule wf_within | simp only: ok_upd_slot ok_on_pool fst_conv snd_conv)+) (use assms in linarith)

lemma within_huge_scan:
  assumes "0 \<le> c Cas" "0 \<le> c Faa" "0 \<le> c HugeScan + 2 * c Cas + c Faa"
  shows "within ok (weigh c) (huge_scan hg tid lay cis) (int (length cis) * (c HugeScan + 2 * c Cas + c Faa))"
proof (induction cis)
  case (Cons ci cis)
  have "0 \<le> int (length cis) * (c HugeScan + 2 * c Cas + c Faa)" using assms(3) by simp
  then show ?case
    by (simp only: huge_scan.simps)
      (rule within_mono, (rule wf_within within_huge_try_slot [OF assms(1,2)] Cons.IH)+, simp add: algebra_simps)
qed (simp add: wf_within)

lemma within_huge_free_scan:
  assumes "0 \<le> c HugeScan"
  shows "within ok (weigh c) (huge_free_scan hg tid p cis) (int (length cis) * c HugeScan)"
proof (induction cis)
  case (Cons ci cis)
  have "0 \<le> int (length cis) * c HugeScan" using assms by simp
  then show ?case
    by (simp only: huge_free_scan.simps)
      (rule within_mono, (rule wf_within Cons.IH | simp only: ok_upd_slot fst_conv snd_conv)+, simp add: algebra_simps)
qed (simp add: wf_within)

end

text \<open>
  Huge allocation and deallocation are wait-free: in every environment each keeps all the bounds its step
  counter asserts, the slot scans, CAS and FAA operations being bounded by the fixed directory and
  no helping, no double-word CAS and no block scan taking place.
\<close>

theorem huge_path_bounded:
  assumes "w_step w = step_new"
  shows "assert_huge_bounds (w_step (final_state (alloc_huge hg tid lay) w)) MAX_HUGE_RUN_CLASSES MAX_HUGE_RUNS_PER_CLASS
    \<and> assert_huge_bounds (w_step (final_state (dealloc_huge hg p lay tid) w)) MAX_HUGE_RUN_CLASSES MAX_HUGE_RUNS_PER_CLASS"
proof -
  have len: "int (length (huge_slots_from m)) \<le> 12" for m
    by (simp add: huge_slots_from_def wf_config)
  have alloc: "within anything (weigh c) (alloc_huge hg tid lay) (12 * (c HugeScan + 2 * c Cas + c Faa))"
    if "0 \<le> c Cas" "0 \<le> c Faa" "0 \<le> c HugeScan + 2 * c Cas + c Faa" for c
  proof -
    have d: "int (length (huge_slots_from m)) * (c HugeScan + 2 * c Cas + c Faa) \<le> 12 * (c HugeScan + 2 * c Cas + c Faa)" for m
      using len that(3) by (rule mult_right_mono)
    have "within anything (weigh c) (ret (0 :: address)) (12 * (c HugeScan + 2 * c Cas + c Faa))"
      using that(3) by (intro within_mono [OF within_ret]) simp
    with within_mono [OF any_env.within_huge_scan [OF that] d] show ?thesis
      by (simp add: alloc_huge_def split: option.split)
  qed
  have dealloc: "within anything (weigh c) (dealloc_huge hg p lay tid) (12 * c HugeScan)" if "0 \<le> c HugeScan" for c
    unfolding dealloc_huge_def
    by (rule within_mono [OF any_env.within_huge_free_scan]) (use that len mult_right_mono [OF len that] in auto)
  note A = within_fresh [OF alloc assms] and D = within_fresh [OF dealloc assms]
  show ?thesis
    unfolding assert_huge_bounds_def
    using A [of "only HugeScan"] A [of "(\<lambda>_. 0)(Cas := 1, HugeScan := -2)"] A [of "(\<lambda>_. 0)(Faa := 1, HugeScan := -1)"]
      A [of "only Help"] A [of "only Query"] A [of "only Cas2"] A [of "only Scan"] A [of "only LargeClass"]
      D [of "only HugeScan"] D [of "only Cas"] D [of "only Faa"]
      D [of "only Help"] D [of "only Query"] D [of "only Cas2"] D [of "only Scan"] D [of "only LargeClass"]
    by (simp add: weigh_def wf_config)
qed

theorem huge_path_bounded_witness:
  "assert_huge_bounds (w_step (final_state (alloc_huge 1 0 \<lparr>lay_size = 100000, lay_align = 16\<rparr>) busy_world)) 3 4"
proof -
  have "w_step busy_world = step_new" by (simp add: busy_world_def)
  from huge_path_bounded [OF this, of 1 0 "\<lparr>lay_size = 100000, lay_align = 16\<rparr>"] show ?thesis
    by (simp add: wf_config)
qed

end
