(* ===== verification/Huge_Protocol.thy ===== *)
theory Huge_Protocol
  imports Huge_Path
begin

text \<open>
  One slot of the huge directory under any number of threads.  Every thread is at one instruction of the
  scan of \<^verbatim>\<open>alloc_huge_with_token_counted\<close>, holds the allocation, or is idle; an allocation may be
  handed to another thread before it is freed.  The theorem: a slot has at most one holder at any
  time, exactly while its state word says so, and its memory never changes once it is set.
\<close>

datatype huge_pc = HIdle | HSaw usize | HCarving | HOwns

record huge_sys =
  hz_slot :: huge_slot
  hz_pc :: "nat \<Rightarrow> huge_pc"

definition hz_init :: "huge_sys \<Rightarrow> bool" where
  "hz_init s \<longleftrightarrow> hz_slot s = huge_slot_new \<and> (\<forall>t. hz_pc s t = HIdle)"

definition hz_goto :: "nat \<Rightarrow> huge_pc \<Rightarrow> huge_sys \<Rightarrow> huge_sys" where
  "hz_goto t c s = s\<lparr>hz_pc := (hz_pc s)(t := c)\<rparr>"

definition hz_put :: "(huge_slot \<Rightarrow> huge_slot) \<Rightarrow> huge_sys \<Rightarrow> huge_sys" where
  "hz_put f s = s\<lparr>hz_slot := f (hz_slot s)\<rparr>"

inductive hz_step :: "huge_sys \<Rightarrow> huge_sys \<Rightarrow> bool" where
  hz_load: "hz_pc s t = HIdle \<Longrightarrow> hz_step s (hz_goto t (HSaw (hs_state (hz_slot s))) s)"
| hz_skip: "hz_pc s t = HSaw v \<Longrightarrow> v \<noteq> HUGE_SLOT_FREE \<Longrightarrow> v \<noteq> HUGE_SLOT_EMPTY \<Longrightarrow> hz_step s (hz_goto t HIdle s)"
| hz_claim_free: "hz_pc s t = HSaw HUGE_SLOT_FREE \<Longrightarrow>
    slot_cas HUGE_SLOT_FREE HUGE_SLOT_ALLOCATED (hz_slot s) = (ok, h) \<Longrightarrow>
    hz_step s (hz_goto t (if ok then HOwns else HIdle) (hz_put (\<lambda>_. h) s))"
| hz_claim_empty: "hz_pc s t = HSaw HUGE_SLOT_EMPTY \<Longrightarrow>
    slot_cas HUGE_SLOT_EMPTY HUGE_SLOT_ALLOCATED (hz_slot s) = (ok, h) \<Longrightarrow>
    hz_step s (hz_goto t (if ok then HCarving else HIdle) (hz_put (\<lambda>_. h) s))"
| hz_carve_fail: "hz_pc s t = HCarving \<Longrightarrow>
    hz_step s (hz_goto t HIdle (hz_put (hs_state_update (\<lambda>_. HUGE_SLOT_EMPTY)) s))"
| hz_carve: "hz_pc s t = HCarving \<Longrightarrow> b \<noteq> 0 \<Longrightarrow>
    hz_step s (hz_goto t HOwns (hz_put (hs_base_update (\<lambda>_. b)) s))"
| hz_hand_over: "hz_pc s t = HOwns \<Longrightarrow> hz_pc s u = HIdle \<Longrightarrow> hz_step s (hz_goto u HOwns (hz_goto t HIdle s))"
| hz_free: "hz_pc s t = HOwns \<Longrightarrow>
    hz_step s (hz_goto t HIdle (hz_put (\<lambda>h. h\<lparr>hs_owner := of_nat t, hs_state := HUGE_SLOT_FREE\<rparr>) s))"

inductive_cases hz_stepE: "hz_step s s'"

definition hz_busy :: "huge_pc \<Rightarrow> bool" where
  "hz_busy c \<longleftrightarrow> c = HCarving \<or> c = HOwns"

definition hz_inv :: "huge_sys \<Rightarrow> bool" where
  "hz_inv s \<longleftrightarrow> (\<forall>t u. hz_busy (hz_pc s t) \<longrightarrow> hz_busy (hz_pc s u) \<longrightarrow> t = u)
     \<and> ((\<exists>t. hz_busy (hz_pc s t)) \<longleftrightarrow> hs_state (hz_slot s) = HUGE_SLOT_ALLOCATED)
     \<and> hs_state (hz_slot s) \<in> {HUGE_SLOT_EMPTY, HUGE_SLOT_FREE, HUGE_SLOT_ALLOCATED}
     \<and> (hs_base (hz_slot s) = 0 \<longrightarrow> hs_state (hz_slot s) \<noteq> HUGE_SLOT_FREE \<and> (\<forall>t. hz_pc s t \<noteq> HOwns))
     \<and> (hs_base (hz_slot s) \<noteq> 0 \<longrightarrow> hs_state (hz_slot s) \<noteq> HUGE_SLOT_EMPTY \<and> (\<forall>t. hz_pc s t \<noteq> HCarving))"

lemma hz_simps [simp]:
  "hz_pc (hz_goto t c s) = (hz_pc s)(t := c)" "hz_slot (hz_goto t c s) = hz_slot s"
  "hz_pc (hz_put f s) = hz_pc s" "hz_slot (hz_put f s) = f (hz_slot s)"
  by (simp_all add: hz_goto_def hz_put_def)

lemma hz_busy_simps [simp]: "hz_busy HCarving" "hz_busy HOwns" "\<not> hz_busy HIdle" "\<not> hz_busy (HSaw v)"
  by (simp_all add: hz_busy_def)

text \<open>What the invariant says of the one thread that is busy.\<close>

lemma hz_inv_busy:
  assumes "hz_inv s" "hz_busy (hz_pc s t)"
  shows "hs_state (hz_slot s) = HUGE_SLOT_ALLOCATED" "\<And>u. u \<noteq> t \<Longrightarrow> \<not> hz_busy (hz_pc s u)"
  using assms unfolding hz_inv_def by blast+

lemma hz_inv_quiet: "hz_inv s \<Longrightarrow> hs_state (hz_slot s) \<noteq> HUGE_SLOT_ALLOCATED \<Longrightarrow> \<not> hz_busy (hz_pc s t)"
  unfolding hz_inv_def by blast

lemma hz_inv_intro:
  assumes "\<And>u. u \<noteq> t \<Longrightarrow> \<not> hz_busy (hz_pc s u)"
    and "hz_busy (hz_pc s t) \<longleftrightarrow> hs_state (hz_slot s) = HUGE_SLOT_ALLOCATED"
    and "hs_state (hz_slot s) \<in> {HUGE_SLOT_EMPTY, HUGE_SLOT_FREE, HUGE_SLOT_ALLOCATED}"
    and "hs_base (hz_slot s) = 0 \<Longrightarrow> hs_state (hz_slot s) \<noteq> HUGE_SLOT_FREE \<and> hz_pc s t \<noteq> HOwns"
    and "hs_base (hz_slot s) \<noteq> 0 \<Longrightarrow> hs_state (hz_slot s) \<noteq> HUGE_SLOT_EMPTY \<and> hz_pc s t \<noteq> HCarving"
  shows "hz_inv s"
proof -
  have "hz_pc s u \<noteq> HOwns \<and> hz_pc s u \<noteq> HCarving" if "u \<noteq> t" for u using assms(1) [OF that] by auto
  then show ?thesis unfolding hz_inv_def using assms by metis
qed

lemma hz_inv_pass:
  assumes "hz_inv s" "\<not> hz_busy (hz_pc s t)" "\<not> hz_busy c" "hz_slot s' = hz_slot s" "hz_pc s' = (hz_pc s)(t := c)"
  shows "hz_inv s'"
proof -
  have "hz_busy (hz_pc s' u) = hz_busy (hz_pc s u)" for u using assms(2,3,5) by simp
  moreover have "hz_pc s' u = HOwns \<longleftrightarrow> hz_pc s u = HOwns" "hz_pc s' u = HCarving \<longleftrightarrow> hz_pc s u = HCarving" for u
    using assms(2,3,5) by auto
  ultimately show ?thesis using assms(1) unfolding hz_inv_def assms(4) by simp
qed

lemma hz_step_inv:
  assumes "hz_inv s" "hz_step s s'"
  shows "hz_inv s' \<and> (hs_base (hz_slot s) \<noteq> 0 \<longrightarrow> hs_base (hz_slot s') = hs_base (hz_slot s))"
  using assms(2)
proof cases
  case (hz_load t)
  then show ?thesis by (auto intro!: hz_inv_pass [OF assms(1), of t])
next
  case (hz_skip t v)
  then show ?thesis by (auto intro!: hz_inv_pass [OF assms(1), of t])
next
  case (hz_claim_free t ok h)
  show ?thesis
  proof (cases "hs_state (hz_slot s) = HUGE_SLOT_FREE")
    case True
    have "hs_base (hz_slot s) \<noteq> 0" using assms(1) True unfolding hz_inv_def by auto
    moreover have "\<not> hz_busy (hz_pc s u)" for u using hz_inv_quiet [OF assms(1)] True by simp
    ultimately show ?thesis
      using hz_claim_free True by (auto simp: slot_cas_def intro!: hz_inv_intro [of t])
  next
    case False
    with hz_claim_free show ?thesis by (auto simp: slot_cas_def intro!: hz_inv_pass [OF assms(1), of t])
  qed
next
  case (hz_claim_empty t ok h)
  show ?thesis
  proof (cases "hs_state (hz_slot s) = HUGE_SLOT_EMPTY")
    case True
    have "hs_base (hz_slot s) = 0" using assms(1) True unfolding hz_inv_def by auto
    moreover have "\<not> hz_busy (hz_pc s u)" for u using hz_inv_quiet [OF assms(1)] True by simp
    ultimately show ?thesis
      using hz_claim_empty True by (auto simp: slot_cas_def intro!: hz_inv_intro [of t])
  next
    case False
    with hz_claim_empty show ?thesis by (auto simp: slot_cas_def intro!: hz_inv_pass [OF assms(1), of t])
  qed
next
  case (hz_carve_fail t)
  have "hs_base (hz_slot s) = 0" using assms(1) hz_carve_fail(2) unfolding hz_inv_def by blast
  then show ?thesis
    using hz_carve_fail hz_inv_busy [OF assms(1), of t] by (auto intro!: hz_inv_intro [of t])
next
  case (hz_carve t b)
  have "hs_base (hz_slot s) = 0" using assms(1) hz_carve(2) unfolding hz_inv_def by blast
  then show ?thesis
    using hz_carve hz_inv_busy [OF assms(1), of t] by (auto intro!: hz_inv_intro [of t])
next
  case (hz_hand_over t u)
  have "hs_base (hz_slot s) \<noteq> 0" using assms(1) hz_hand_over(2) unfolding hz_inv_def by blast
  then show ?thesis
    using hz_hand_over hz_inv_busy [OF assms(1), of t] by (auto split: if_splits intro!: hz_inv_intro [of u])
next
  case (hz_free t)
  have "hs_base (hz_slot s) \<noteq> 0" using assms(1) hz_free(2) unfolding hz_inv_def by blast
  then show ?thesis
    using hz_free hz_inv_busy [OF assms(1), of t] by (auto intro!: hz_inv_intro [of t])
qed

interpretation huge_threads: inductive_invariant hz_init hz_step hz_inv
proof
  show "hz_init s \<Longrightarrow> hz_inv s" for s
    by (auto simp: hz_init_def hz_inv_def huge_slot_new_def HUGE_SLOT_EMPTY_def HUGE_SLOT_FREE_def HUGE_SLOT_ALLOCATED_def)
  show "hz_inv s \<Longrightarrow> hz_step s t \<Longrightarrow> hz_inv t" for s t using hz_step_inv by blast
qed

text \<open>
  C13. Under every interleaving a huge slot has at most one holder, it has one exactly while its state word is
  ALLOCATED (a claim in progress counting as one), an allocation held by a thread has memory, and
  no step ever changes the memory of a slot once it is set.
\<close>

theorem huge_slot_single_holder:
  assumes "reachable hz_init hz_step s"
  shows "(\<forall>t u. hz_busy (hz_pc s t) \<longrightarrow> hz_busy (hz_pc s u) \<longrightarrow> t = u)
    \<and> ((\<exists>t. hz_busy (hz_pc s t)) \<longleftrightarrow> hs_state (hz_slot s) = HUGE_SLOT_ALLOCATED)
    \<and> (\<forall>t. hz_pc s t = HOwns \<longrightarrow> hs_base (hz_slot s) \<noteq> 0)
    \<and> (\<forall>s'. hz_step s s' \<longrightarrow> hs_base (hz_slot s) \<noteq> 0 \<longrightarrow> hs_base (hz_slot s') = hs_base (hz_slot s))"
proof -
  have inv: "hz_inv s" using assms by (rule huge_threads.always)
  then have "\<forall>t. hz_pc s t = HOwns \<longrightarrow> hs_base (hz_slot s) \<noteq> 0" unfolding hz_inv_def by blast
  with inv hz_step_inv [OF inv] show ?thesis unfolding hz_inv_def by blast
qed

theorem huge_slot_single_holder_witness:
  "\<exists>s. reachable hz_init hz_step s \<and> hz_pc s 1 = HOwns \<and> hs_base (hz_slot s) = 65536 \<and> \<not> hz_busy (hz_pc s 2)"
proof -
  define s0 where "s0 = \<lparr>hz_slot = huge_slot_new, hz_pc = \<lambda>_. HIdle\<rparr>"
  define s1 where "s1 = hz_goto 1 (HSaw HUGE_SLOT_EMPTY) s0"
  define s2 where "s2 = hz_goto 1 HCarving (hz_put (\<lambda>h. h\<lparr>hs_state := HUGE_SLOT_ALLOCATED\<rparr>) s1)"
  define s3 where "s3 = hz_goto 1 HOwns (hz_put (hs_base_update (\<lambda>_. 65536)) s2)"
  have st: "hs_state (hz_slot s0) = HUGE_SLOT_EMPTY" by (simp add: s0_def huge_slot_new_def HUGE_SLOT_EMPTY_def)
  have r0: "reachable hz_init hz_step s0" by (intro reachable.start) (simp add: hz_init_def s0_def)
  have r1: "reachable hz_init hz_step s1"
    using reachable.step [OF r0 hz_load [of s0 1]] st by (simp add: s1_def s0_def)
  have "hz_step s1 s2"
    using hz_claim_empty [of s1 1 True "(hz_slot s1)\<lparr>hs_state := HUGE_SLOT_ALLOCATED\<rparr>"] st
    by (simp add: s2_def s1_def slot_cas_def hz_put_def)
  then have r2: "reachable hz_init hz_step s2" using r1 by (rule reachable.step [rotated])
  have r3: "reachable hz_init hz_step s3"
    using reachable.step [OF r2 hz_carve [of s2 1 65536]] by (simp add: s3_def s2_def)
  have o: "hz_pc s3 1 = HOwns" "hs_base (hz_slot s3) = 65536" by (simp_all add: s3_def)
  then have "\<not> hz_busy (hz_pc s3 2)"
    using huge_slot_single_holder [OF r3] by (metis hz_busy_simps(2) numeral_eq_one_iff num.distinct(1))
  with r3 o show ?thesis by blast
qed

end
