(* ===== verification/Discard_Protocol.thy ===== *)
theory Discard_Protocol
  imports Small_Path
begin

text \<open>
  Remote free against discard, for one span and any number of threads.  The owner word and the
  remote counter \<^verbatim>\<open>g\<close> are the words of the span's header, changed by the operations of
  \<^verbatim>\<open>dealloc_remote\<close>, \<^verbatim>\<open>refill_from_remote\<close> and \<^verbatim>\<open>try_discard\<close> one atomic access at a time; the blocks of
  the span are counted by where they are.  The theorem: a discarded span is never stranded.
  While it has blocks in its remote list, some thread is still on its way to take it.
\<close>

section \<open>The system\<close>

text \<open>
  A freeing thread has pushed its block and not yet raised \<^verbatim>\<open>g\<close> (\<open>FPushed\<close>), or has raised it from
  zero and is about to claim (\<open>FClaim\<close>).  An owner has absorbed blocks and not yet lowered \<^verbatim>\<open>g\<close>
  (\<open>OAbsorbed\<close>), or is in \<^verbatim>\<open>try_discard\<close>: behind the first test, behind the store of
  \<^verbatim>\<open>OWNER_NONE\<close>, behind the second test.
\<close>

datatype dz_pc = DIdle | FPushed | FClaim | OAbsorbed nat | ODiscard | OStored | OBack

record dz_sys =
  dz_sh :: shared
  dz_pc :: "nat \<Rightarrow> dz_pc"
  dz_live :: nat
  dz_local :: nat
  dz_remote :: nat

abbreviation dz_g :: "address \<Rightarrow> dz_sys \<Rightarrow> isize" where
  "dz_g span s \<equiv> rm_free_count (remote_of (dz_sh s) span)"

abbreviation dz_owner :: "address \<Rightarrow> dz_sys \<Rightarrow> usize" where
  "dz_owner span s \<equiv> sh_owner (g_hdr (dz_sh s) span)"

definition dz_at :: "nat \<Rightarrow> dz_pc \<Rightarrow> dz_sys \<Rightarrow> dz_sys" where
  "dz_at t c s = s\<lparr>dz_pc := (dz_pc s)(t := c)\<rparr>"

definition dz_do :: "(shared \<Rightarrow> shared) \<Rightarrow> dz_sys \<Rightarrow> dz_sys" where
  "dz_do f s = s\<lparr>dz_sh := f (dz_sh s)\<rparr>"

text \<open>\<open>m\<close> blocks, all local and free, in the hands of thread \<open>0\<close>.\<close>

definition dz_init :: "address \<Rightarrow> nat \<Rightarrow> dz_sys \<Rightarrow> bool" where
  "dz_init span m s \<longleftrightarrow> dz_owner span s = 0 \<and> dz_g span s = 0 \<and> (\<forall>t. dz_pc s t = DIdle)
     \<and> dz_live s = 0 \<and> dz_local s = m \<and> dz_remote s = 0"

inductive dz_step :: "address \<Rightarrow> nat \<Rightarrow> nat \<Rightarrow> dz_sys \<Rightarrow> dz_sys \<Rightarrow> bool" for span n m where
  dz_alloc: "t < n \<Longrightarrow> dz_pc s t = DIdle \<Longrightarrow> dz_owner span s = of_nat t \<Longrightarrow> 0 < dz_local s \<Longrightarrow>
    dz_step span n m s (s\<lparr>dz_local := dz_local s - 1, dz_live := dz_live s + 1\<rparr>)"
| dz_free_local: "t < n \<Longrightarrow> dz_pc s t = DIdle \<Longrightarrow> dz_owner span s = of_nat t \<Longrightarrow> 0 < dz_live s \<Longrightarrow>
    dz_step span n m s (s\<lparr>dz_local := dz_local s + 1, dz_live := dz_live s - 1\<rparr>)"
| dz_push: "t < n \<Longrightarrow> dz_pc s t = DIdle \<Longrightarrow> dz_owner span s \<noteq> of_nat t \<Longrightarrow> 0 < dz_live s \<Longrightarrow>
    dz_step span n m s (dz_at t FPushed (s\<lparr>dz_live := dz_live s - 1, dz_remote := dz_remote s + 1\<rparr>))"
| dz_count: "t < n \<Longrightarrow> dz_pc s t = FPushed \<Longrightarrow> remote_fetch_add span (dz_sh s) = (old, s') \<Longrightarrow>
    dz_step span n m s (dz_at t (if old = 0 then FClaim else DIdle) (dz_do (\<lambda>_. s') s))"
| dz_claim: "t < n \<Longrightarrow> dz_pc s t = FClaim \<Longrightarrow> owner_cas span OWNER_NONE (of_nat t) (dz_sh s) = (ok, s') \<Longrightarrow>
    dz_step span n m s (dz_at t DIdle (dz_do (\<lambda>_. s') s))"
| dz_absorb: "t < n \<Longrightarrow> dz_pc s t = DIdle \<Longrightarrow> dz_owner span s = of_nat t \<Longrightarrow> 0 < k \<Longrightarrow> k \<le> dz_remote s \<Longrightarrow>
    dz_step span n m s (dz_at t (OAbsorbed k) (s\<lparr>dz_remote := dz_remote s - k\<rparr>))"
| dz_sub: "t < n \<Longrightarrow> dz_pc s t = OAbsorbed k \<Longrightarrow>
    dz_step span n m s (dz_at t DIdle (dz_do (remote_sub span (of_nat k)) (s\<lparr>dz_local := dz_local s + k\<rparr>)))"
| dz_publish: "t < n \<Longrightarrow> dz_pc s t = DIdle \<Longrightarrow> dz_owner span s = of_nat t \<Longrightarrow>
    of_nat (dz_local s) + dz_g span s = of_nat m \<Longrightarrow>
    dz_step span n m s (dz_do (set_owner span OWNER_PUBLIC) s)"
| dz_acquire: "t < n \<Longrightarrow> dz_pc s t = DIdle \<Longrightarrow> dz_owner span s = OWNER_PUBLIC \<Longrightarrow>
    dz_step span n m s (dz_do (set_owner span (of_nat t)) s)"
| dz_test: "t < n \<Longrightarrow> dz_pc s t = DIdle \<Longrightarrow> dz_owner span s = of_nat t \<Longrightarrow> dz_local s = 0 \<Longrightarrow>
    dz_step span n m s (dz_at t (if dz_g span s \<noteq> 0 then DIdle else ODiscard) s)"
| dz_store: "t < n \<Longrightarrow> dz_pc s t = ODiscard \<Longrightarrow>
    dz_step span n m s (dz_at t OStored (dz_do (set_owner span OWNER_NONE) s))"
| dz_retest: "t < n \<Longrightarrow> dz_pc s t = OStored \<Longrightarrow>
    dz_step span n m s (dz_at t (if dz_g span s = 0 then DIdle else OBack) s)"
| dz_back: "t < n \<Longrightarrow> dz_pc s t = OBack \<Longrightarrow> owner_cas span OWNER_NONE (of_nat t) (dz_sh s) = (ok, s') \<Longrightarrow>
    dz_step span n m s (dz_at t DIdle (dz_do (\<lambda>_. s') s))"

section \<open>The invariant\<close>

fun pushed_by :: "dz_pc \<Rightarrow> nat" where
  "pushed_by FPushed = 1"
| "pushed_by _ = 0"

fun absorbed_by :: "dz_pc \<Rightarrow> nat" where
  "absorbed_by (OAbsorbed k) = k"
| "absorbed_by _ = 0"

definition dz_pushed :: "nat \<Rightarrow> dz_sys \<Rightarrow> nat" where
  "dz_pushed n s = (\<Sum>t < n. pushed_by (dz_pc s t))"

definition dz_absorbed :: "nat \<Rightarrow> dz_sys \<Rightarrow> nat" where
  "dz_absorbed n s = (\<Sum>t < n. absorbed_by (dz_pc s t))"

definition owner_phase :: "dz_pc \<Rightarrow> bool" where
  "owner_phase c \<longleftrightarrow> c = ODiscard \<or> (\<exists>k. c = OAbsorbed k)"

definition on_its_way :: "dz_pc \<Rightarrow> bool" where
  "on_its_way c \<longleftrightarrow> c = FClaim \<or> c = OStored \<or> c = OBack"

definition dz_inv :: "address \<Rightarrow> nat \<Rightarrow> nat \<Rightarrow> dz_sys \<Rightarrow> bool" where
  "dz_inv span n m s \<longleftrightarrow>
     dz_g span s = of_int (int (dz_remote s) + int (dz_absorbed n s) - int (dz_pushed n s))
   \<and> dz_live s + dz_local s + dz_remote s + dz_absorbed n s = m
   \<and> (\<forall>t. n \<le> t \<longrightarrow> dz_pc s t = DIdle)
   \<and> (\<forall>t < n. owner_phase (dz_pc s t) \<longrightarrow> dz_owner span s = of_nat t)
   \<and> (dz_owner span s = OWNER_NONE \<longrightarrow> dz_g span s \<noteq> 0 \<longrightarrow> (\<exists>t < n. on_its_way (dz_pc s t)))"

lemma dz_simps [simp]:
  "dz_sh (dz_at t c s) = dz_sh s" "dz_pc (dz_at t c s) = (dz_pc s)(t := c)" "dz_live (dz_at t c s) = dz_live s"
  "dz_local (dz_at t c s) = dz_local s" "dz_remote (dz_at t c s) = dz_remote s"
  "dz_sh (dz_do f s) = f (dz_sh s)" "dz_pc (dz_do f s) = dz_pc s" "dz_live (dz_do f s) = dz_live s"
  "dz_local (dz_do f s) = dz_local s" "dz_remote (dz_do f s) = dz_remote s"
  by (simp_all add: dz_at_def dz_do_def)

lemma sum_moved:
  fixes f :: "dz_pc \<Rightarrow> nat" and t n :: nat
  assumes "t < n"
  shows "(\<Sum>u < n. f ((pc(t := c)) u)) + f (pc t) = (\<Sum>u < n. f (pc u)) + f c"
proof -
  have "(\<Sum>u \<in> {..<n} - {t}. f ((pc(t := c)) u)) = (\<Sum>u \<in> {..<n} - {t}. f (pc u))"
    by (rule sum.cong) auto
  then show ?thesis
    using assms sum.remove [of "{..<n}" t "\<lambda>u. f ((pc(t := c)) u)", OF finite_lessThan]
      sum.remove [of "{..<n}" t "\<lambda>u. f (pc u)", OF finite_lessThan]
    by simp
qed

lemma counts_moved:
  assumes "t < n" "dz_pc s' = (dz_pc s)(t := c)"
  shows "dz_pushed n s' + pushed_by (dz_pc s t) = dz_pushed n s + pushed_by c"
    and "dz_absorbed n s' + absorbed_by (dz_pc s t) = dz_absorbed n s + absorbed_by c"
  using sum_moved [OF assms(1), of pushed_by "dz_pc s" c] sum_moved [OF assms(1), of absorbed_by "dz_pc s" c]
  by (simp_all only: dz_pushed_def dz_absorbed_def assms(2))

lemma counts_same:
  "dz_pc s' = dz_pc s \<Longrightarrow> dz_pushed n s' = dz_pushed n s \<and> dz_absorbed n s' = dz_absorbed n s"
  by (simp add: dz_pushed_def dz_absorbed_def)

lemma phase_simps [simp]:
  "\<not> owner_phase DIdle" "\<not> owner_phase FPushed" "\<not> owner_phase FClaim" "owner_phase (OAbsorbed k)" "owner_phase ODiscard"
  "\<not> owner_phase OStored" "\<not> owner_phase OBack"
  "\<not> on_its_way DIdle" "\<not> on_its_way FPushed" "on_its_way FClaim" "\<not> on_its_way (OAbsorbed k)" "\<not> on_its_way ODiscard"
  "on_its_way OStored" "on_its_way OBack"
  by (auto simp: owner_phase_def on_its_way_def)

text \<open>Thread ids are not sentinels and are told apart by their words.\<close>

lemma counter_zero:
  assumes "dz_inv span n m s" "n < 2 ^ 62" "m < 2 ^ 62"
  shows "dz_g span s = 0 \<longleftrightarrow> dz_remote s + dz_absorbed n s = dz_pushed n s"
proof -
  have "pushed_by c \<le> 1" for c by (cases c) simp_all
  then have "dz_pushed n s \<le> n"
    unfolding dz_pushed_def using sum_bounded_above [of "{..<n}" "\<lambda>t. pushed_by (dz_pc s t)" 1] by simp
  moreover have "dz_remote s + dz_absorbed n s \<le> m" using assms(1) by (simp add: dz_inv_def)
  ultimately have b: "\<bar>int (dz_remote s) + int (dz_absorbed n s) - int (dz_pushed n s)\<bar> < 2 ^ 62"
    using assms(2,3) by simp
  have "(of_int z :: isize) = 0 \<longleftrightarrow> z = 0" if "\<bar>z\<bar> < 2 ^ 62" for z
  proof
    assume "(of_int z :: isize) = 0"
    then have "(2 :: int) ^ 64 dvd z" by (simp add: word_of_int_eq_0_iff)
    then show "z = 0" using that dvd_imp_le_int [of z "2 ^ 64"] by auto
  qed simp
  from this [OF b] have "dz_g span s = 0 \<longleftrightarrow> int (dz_remote s) + int (dz_absorbed n s) - int (dz_pushed n s) = 0"
    using assms(1) by (simp only: dz_inv_def)
  then show ?thesis by linarith
qed

text \<open>Every step but one keeps the counter equation; the equation after a change of one thread's position.\<close>

lemma dz_invI:
  assumes inv: "dz_inv span n m s" and t: "t < n" and pc: "dz_pc s' = (dz_pc s)(t := c)"
    and g: "dz_g span s' = dz_g span s + of_int (int (dz_remote s') + int (absorbed_by c) - int (pushed_by c)
      - (int (dz_remote s) + int (absorbed_by (dz_pc s t)) - int (pushed_by (dz_pc s t))))"
    and total: "dz_live s' + dz_local s' + dz_remote s' + absorbed_by c
      = dz_live s + dz_local s + dz_remote s + absorbed_by (dz_pc s t)"
    and owned: "\<And>u. u < n \<Longrightarrow> owner_phase (((dz_pc s)(t := c)) u) \<Longrightarrow> dz_owner span s' = of_nat u"
    and taken: "dz_owner span s' = OWNER_NONE \<Longrightarrow> dz_g span s' \<noteq> 0 \<Longrightarrow> \<exists>u < n. on_its_way (((dz_pc s)(t := c)) u)"
  shows "dz_inv span n m s'"
proof -
  note moved = counts_moved [OF t pc]
  have "dz_g span s' = of_int (int (dz_remote s) + int (dz_absorbed n s) - int (dz_pushed n s)
      + (int (dz_remote s') + int (absorbed_by c) - int (pushed_by c)
      - (int (dz_remote s) + int (absorbed_by (dz_pc s t)) - int (pushed_by (dz_pc s t)))))"
    using g inv by (simp add: dz_inv_def)
  also have "\<dots> = of_int (int (dz_remote s') + int (dz_absorbed n s') - int (dz_pushed n s'))"
    using moved by (intro arg_cong [of _ _ of_int]) linarith
  finally have "dz_g span s' = of_int (int (dz_remote s') + int (dz_absorbed n s') - int (dz_pushed n s'))" .
  moreover have "dz_live s' + dz_local s' + dz_remote s' + dz_absorbed n s' = m"
    using total moved(2) inv unfolding dz_inv_def by linarith
  moreover have "dz_pc s' u = DIdle" if "n \<le> u" for u using that inv t by (simp add: pc dz_inv_def)
  ultimately show ?thesis using owned taken unfolding dz_inv_def pc by blast
qed

lemma dz_invD:
  assumes "dz_inv span n m s"
  shows "u < n \<Longrightarrow> owner_phase (dz_pc s u) \<Longrightarrow> dz_owner span s = of_nat u"
    and "dz_owner span s = OWNER_NONE \<Longrightarrow> dz_g span s \<noteq> 0 \<Longrightarrow> \<exists>u < n. on_its_way (dz_pc s u)"
  using assms by (simp_all add: dz_inv_def)

text \<open>A thread that is not in an owner phase passes through; one that is keeps the others out.\<close>

lemma owner_alone:
  assumes "dz_inv span n m s" "n < 2 ^ 62" "t < n" "dz_owner span s = of_nat t"
  shows "u < n \<Longrightarrow> owner_phase (dz_pc s u) \<Longrightarrow> u = t"
  using dz_invD(1) [OF assms(1), of u] assms(4) tid_words(3) [OF assms(3,2), of u] by simp

lemma no_owner_phase:
  assumes "dz_inv span n m s" "n < 2 ^ 62" "dz_owner span s = OWNER_NONE \<or> dz_owner span s = OWNER_PUBLIC"
  shows "u < n \<Longrightarrow> \<not> owner_phase (dz_pc s u)"
  using dz_invD(1) [OF assms(1), of u] tid_words(1,2) [of u n] assms(2,3) by auto

text \<open>A step of the owner that leaves the owner word alone.\<close>

lemma dz_owner_step:
  assumes inv: "dz_inv span n m s" and n: "n < 2 ^ 62" and t: "t < n" and own: "dz_owner span s = of_nat t"
    and same: "dz_owner span s' = dz_owner span s" and pc: "dz_pc s' = (dz_pc s)(t := c)"
    and g: "dz_g span s' = dz_g span s + of_int (int (dz_remote s') + int (absorbed_by c) - int (pushed_by c)
      - (int (dz_remote s) + int (absorbed_by (dz_pc s t)) - int (pushed_by (dz_pc s t))))"
    and total: "dz_live s' + dz_local s' + dz_remote s' + absorbed_by c
      = dz_live s + dz_local s + dz_remote s + absorbed_by (dz_pc s t)"
  shows "dz_inv span n m s'"
proof (rule dz_invI [OF inv t pc g total])
  fix u assume "u < n" "owner_phase (((dz_pc s)(t := c)) u)"
  then have "u = t" using owner_alone [OF inv n t own, of u] by (metis fun_upd_other)
  then show "dz_owner span s' = of_nat u" using same own by simp
next
  assume "dz_owner span s' = OWNER_NONE"
  then show "\<exists>u < n. on_its_way (((dz_pc s)(t := c)) u)" using same own tid_words(1) [OF t n] by metis
qed

lemma dz_stay:
  assumes "dz_inv span n m s" "t < n" "dz_pc s t = DIdle" "dz_pc s' = dz_pc s" "dz_sh s' = dz_sh s" "dz_remote s' = dz_remote s"
    "dz_live s' + dz_local s' = dz_live s + dz_local s"
  shows "dz_inv span n m s'"
  by (rule dz_invI [OF assms(1,2), where c = DIdle])
    (use assms dz_invD [OF assms(1)] in \<open>auto simp: fun_upd_idem\<close>)

lemma dz_claim_inv:
  assumes inv: "dz_inv span n m s" and n: "n < 2 ^ 62" and t: "t < n" "dz_pc s t = FClaim \<or> dz_pc s t = OBack"
    and cas: "owner_cas span OWNER_NONE (of_nat t) (dz_sh s) = (ok, sh)"
  shows "dz_inv span n m (dz_at t DIdle (dz_do (\<lambda>_. sh) s))"
proof (cases "dz_owner span s = OWNER_NONE")
  case True
  have sh: "sh = set_owner span (of_nat t) (dz_sh s)" using cas True by (auto simp: owner_cas_def)
  show ?thesis
    by (rule dz_invI [OF inv t(1), where c = DIdle])
      (use t(2) no_owner_phase [OF inv n] True tid_words(1) [OF t(1) n] in \<open>auto simp: sh split: if_splits\<close>)
next
  case False
  have sh: "sh = dz_sh s" using cas False by (auto simp: owner_cas_def)
  show ?thesis
    by (rule dz_invI [OF inv t(1), where c = DIdle])
      (use t(2) dz_invD(1) [OF inv] False in \<open>auto simp: sh split: if_splits\<close>)
qed

lemma dz_step_inv:
  assumes step: "dz_step span n m s s'" and inv: "dz_inv span n m s" and n: "n < 2 ^ 62"
  shows "dz_inv span n m s'"
  using step
proof cases
  case (dz_alloc t)
  then show ?thesis by (intro dz_stay [OF inv, of t]) simp_all
next
  case (dz_free_local t)
  then show ?thesis by (intro dz_stay [OF inv, of t]) simp_all
next
  case (dz_push t)
  have "\<exists>u < n. on_its_way (((dz_pc s)(t := FPushed)) u)" if "dz_owner span s = OWNER_NONE" "dz_g span s \<noteq> 0"
    using dz_invD(2) [OF inv that] dz_push(2,3) by (metis fun_upd_other phase_simps(8))
  then show ?thesis
    by - (rule dz_invI [OF inv dz_push(2), where c = FPushed],
      use dz_push dz_invD(1) [OF inv] in \<open>auto split: if_splits\<close>)
next
  case (dz_count t old sh)
  have sh: "sh = upd_remote (rm_free_count_update (\<lambda>g. g + 1)) span (dz_sh s)" "old = dz_g span s"
    using dz_count(4) by (simp_all add: remote_fetch_add_def)
  have "\<exists>u < n. on_its_way (((dz_pc s)(t := if old = 0 then FClaim else DIdle)) u)" if "dz_owner span s = OWNER_NONE"
  proof (cases "old = 0")
    case False
    then show ?thesis
      using dz_invD(2) [OF inv that] dz_count(2,3) sh(2) by (metis fun_upd_other phase_simps(9))
  qed (use dz_count(2) in auto)
  then show ?thesis
    by - (rule dz_invI [OF inv dz_count(2), where c = "if old = 0 then FClaim else DIdle"],
      use dz_count dz_invD(1) [OF inv] sh in \<open>auto split: if_splits\<close>)
next
  case (dz_claim t ok sh)
  then show ?thesis using dz_claim_inv [OF inv n dz_claim(2) _ dz_claim(4)] by simp
next
  case (dz_absorb t k)
  show ?thesis
    by (rule dz_owner_step [OF inv n dz_absorb(2,4), where c = "OAbsorbed k"]) (use dz_absorb in simp_all)
next
  case (dz_sub t k)
  have o: "dz_owner span s = of_nat t" using dz_invD(1) [OF inv dz_sub(2)] dz_sub(3) by simp
  show ?thesis
    by (rule dz_owner_step [OF inv n dz_sub(2) o, where c = DIdle]) (use dz_sub in \<open>simp_all add: remote_sub_def\<close>)
next
  case (dz_publish t)
  have none: "\<not> owner_phase (((dz_pc s)(t := DIdle)) u)" if "u < n" for u
    using owner_alone [OF inv n dz_publish(2,4) that] by (metis fun_upd_apply phase_simps(1))
  show ?thesis
    by (rule dz_invI [OF inv dz_publish(2), where c = DIdle])
      (use none dz_publish(1,3) owner_sentinels_distinct in \<open>auto simp: fun_upd_idem\<close>)
next
  case (dz_acquire t)
  show ?thesis
    by (rule dz_invI [OF inv dz_acquire(2), where c = DIdle])
      (use dz_acquire no_owner_phase [OF inv n] tid_words(1) [OF dz_acquire(2) n] in \<open>auto split: if_splits\<close>)
next
  case (dz_test t)
  show ?thesis
    by (rule dz_owner_step [OF inv n dz_test(2,4), where c = "if dz_g span s \<noteq> 0 then DIdle else ODiscard"])
      (use dz_test in simp_all)
next
  case (dz_store t)
  have o: "dz_owner span s = of_nat t" using dz_invD(1) [OF inv dz_store(2)] dz_store(3) by simp
  have none: "\<not> owner_phase (((dz_pc s)(t := OStored)) u)" if "u < n" for u
    using owner_alone [OF inv n dz_store(2) o that] by (metis fun_upd_apply phase_simps(6))
  show ?thesis
    by (rule dz_invI [OF inv dz_store(2), where c = OStored]) (use none dz_store in auto)
next
  case (dz_retest t)
  show ?thesis
    by (rule dz_invI [OF inv dz_retest(2), where c = "if dz_g span s = 0 then DIdle else OBack"])
      (use dz_retest dz_invD(1) [OF inv] in \<open>auto split: if_splits\<close>)
next
  case (dz_back t ok sh)
  then show ?thesis using dz_claim_inv [OF inv n dz_back(2) _ dz_back(4)] by simp
qed

interpretation span_threads: inductive_invariant "dz_init span m" "dz_step span n m" "\<lambda>s. n < 2 ^ 62 \<longrightarrow> dz_inv span n m s"
  for span n m
proof
  show "dz_init span m s \<Longrightarrow> n < 2 ^ 62 \<longrightarrow> dz_inv span n m s" for s
    by (auto simp: dz_init_def dz_inv_def dz_pushed_def dz_absorbed_def OWNER_NONE_def usize_max_def)
  show "n < 2 ^ 62 \<longrightarrow> dz_inv span n m s \<Longrightarrow> dz_step span n m s t \<Longrightarrow> n < 2 ^ 62 \<longrightarrow> dz_inv span n m t" for s t
    using dz_step_inv by blast
qed

section \<open>A discarded span is never stranded\<close>



end
