(* ===== verification/Thread_Registry.thy ===== *)
theory Thread_Registry
  imports Step_Bounds
begin

text \<open>
  Thread tokens and their bounded registration (\<^verbatim>\<open>src/thread.rs\<close>).  A registration is one
  fetch-and-add, so every interleaving of registrations is a sequence of them; the theorem
  gives the answers of any such sequence.
\<close>

record thread_token =
  tok_id :: usize

definition register :: "thread_registry \<Rightarrow> thread_token option \<times> thread_registry" where
  "register r =
     (let tid = reg_next r; r' = r\<lparr>reg_next := reg_next r + 1\<rparr>
      in (if tid < reg_max r then Some \<lparr>tok_id = tid\<rparr> else None, r'))"

definition registered :: "thread_registry \<Rightarrow> usize" where
  "registered r = min (reg_next r) (reg_max r)"

definition token_from_raw :: "thread_registry \<Rightarrow> usize \<Rightarrow> thread_token" where
  "token_from_raw r tid = \<lparr>tok_id = tid\<rparr>"

fun register_calls :: "nat \<Rightarrow> thread_registry \<Rightarrow> thread_token option list \<times> thread_registry" where
  "register_calls 0 r = ([], r)"
| "register_calls (Suc k) r =
     (case register_calls k r of (ts, r') \<Rightarrow> case register r' of (t, r'') \<Rightarrow> (ts @ [t], r''))"

lemma register_calls_state:
  "k < 2 ^ 64 \<Longrightarrow> register_calls k (registry_new n) =
     (List.map (\<lambda>i. if i < unat n then Some \<lparr>tok_id = of_nat i\<rparr> else None) [0..<k],
      \<lparr>reg_next = of_nat k, reg_max = n\<rparr>)"
proof (induction k)
  case 0
  then show ?case by (simp add: registry_new_def)
next
  case (Suc k)
  then have "(of_nat k < n) = (k < unat n)" by (simp add: word_less_nat_alt unat_of_nat_small)
  with Suc show ?case by (simp add: register_def Let_def add.commute)
qed

text \<open>
  The first \<open>max\<close> registrations get the ids \<open>0, \<dots>, max - 1\<close>, each once, all further ones are
  refused, and \<^verbatim>\<open>registered\<close> counts the tokens handed out, for any sequence shorter than the
  counter's range.
\<close>

theorem registration_unique_and_bounded:
  assumes "k < 2 ^ 64" and "register_calls k (registry_new n) = (ts, r)"
  shows "ts = List.map (\<lambda>i. if i < unat n then Some (token_from_raw r (of_nat i)) else None) [0..<k]
    \<and> distinct (List.map tok_id (List.map the (filter (\<lambda>t. t \<noteq> None) ts)))
    \<and> length (filter (\<lambda>t. t \<noteq> None) ts) = unat (registered r)"
proof -
  let ?f = "\<lambda>i. if i < unat n then Some \<lparr>tok_id = of_nat i :: usize\<rparr> else None"
  have ts: "ts = List.map ?f [0..<k]" and r: "r = \<lparr>reg_next = of_nat k, reg_max = n\<rparr>"
    using register_calls_state [OF assms(1), of n] assms(2) by simp_all
  have fl: "filter (\<lambda>i. i < unat n) [0..<k] = [0..<min k (unat n)]"
    by (rule sorted_distinct_set_unique) (auto simp: sorted_wrt_filter)
  have cut: "filter (\<lambda>t. t \<noteq> None) ts = List.map (\<lambda>i. Some \<lparr>tok_id = of_nat i\<rparr>) [0..<min k (unat n)]"
    unfolding ts filter_map comp_def fl [symmetric] by (auto cong: map_cong filter_cong)
  have inj: "inj_on (of_nat :: nat \<Rightarrow> usize) {0..<min k (unat n)}"
    using assms(1) by (intro inj_onI) (metis atLeastLessThan_iff less_trans min_less_iff_conj unat_of_nat_small)
  show ?thesis
    unfolding cut using inj assms(1)
    by (auto simp: ts r token_from_raw_def comp_def distinct_map registered_def min_def
        word_le_nat_alt unat_of_nat_small)
qed

theorem registration_unique_and_bounded_witness:
  "fst (register_calls 3 (registry_new 2)) = [Some \<lparr>tok_id = 0\<rparr>, Some \<lparr>tok_id = 1\<rparr>, None]"
proof -
  obtain ts r where c: "register_calls 3 (registry_new 2) = (ts, r)" by force
  have "ts = List.map (\<lambda>i. if i < unat (2 :: usize) then Some (token_from_raw r (of_nat i)) else None) [0..<3]"
    using registration_unique_and_bounded [OF _ c] by simp
  then show ?thesis by (simp add: c token_from_raw_def upt_rec)
qed

end
