(* ===== verification/Allocator.thy ===== *)
theory Allocator
  imports Huge_Path Thread_Registry
begin

text \<open>
  The allocator object (\<^verbatim>\<open>src/allocator.rs\<close>): carving of the metadata region, construction and
  initialisation, registration, and the dispatch of an operation to the small, large or huge path by
  the layout alone.  The const generics of the code are arguments: \<open>classes\<close> for \<^verbatim>\<open>C\<close> and \<open>hg\<close> for
  \<^verbatim>\<open>HUGE_GRANULE_SPANS\<close>.  The theorems: the metadata rows are aligned, disjoint and inside the region,
  initialisation leaves every list empty and well-formed, and every operation on every path is
  bounded in every environment.
\<close>

unbundle bit_operations_syntax

section \<open>Construction\<close>

definition allocator_valid :: "nat \<Rightarrow> usize \<Rightarrow> bool" where
  "allocator_valid classes hg \<longleftrightarrow> 1 \<le> classes \<and> classes \<le> MAX_SUPPORTED_CLASSES \<and> 1 \<le> hg
     \<and> hg * SPAN_SIZE > MAX_BLOCK_SIZE \<and> checked_mul hg (SPAN_SIZE * MAX_HUGE_GRANULES) \<noteq> None"

definition HUGE_THRESHOLD :: "usize \<Rightarrow> usize" where
  "HUGE_THRESHOLD hg = hg * SPAN_SIZE"

definition max_usize :: "usize \<Rightarrow> usize \<Rightarrow> usize" where
  "max_usize a b = (if a \<ge> b then a else b)"

definition align_up_usize :: "usize \<Rightarrow> usize \<Rightarrow> usize option" where
  "align_up_usize v algn = map_option (\<lambda>x. x AND NOT (algn - 1)) (checked_add v (algn - 1))"

text \<open>
  The sizes and alignments of the three row types are chosen by the compiler; they are given as a
  record, with the place of each dummy node inside a heap row.
\<close>

record row_layout =
  heap_size :: usize
  heap_align :: usize
  records_size :: usize
  records_align :: usize
  run_records_size :: usize
  run_records_align :: usize
  dummy_off :: "lane \<Rightarrow> usize"

definition metadata_region_align :: "row_layout \<Rightarrow> usize" where
  "metadata_region_align L = max_usize (heap_align L) (max_usize (records_align L) (run_records_align L))"

definition metadata_offsets :: "row_layout \<Rightarrow> usize \<Rightarrow> (usize \<times> usize \<times> usize \<times> usize) option" where
  "metadata_offsets L active_threads =
     (if active_threads = 0 then None
      else do {
        heap_off \<leftarrow> align_up_usize 0 (heap_align L);
        heap_len \<leftarrow> checked_mul (heap_size L) active_threads;
        heap_end \<leftarrow> checked_add heap_off heap_len;
        records_off \<leftarrow> align_up_usize heap_end (records_align L);
        records_len \<leftarrow> checked_mul (records_size L) active_threads;
        records_end \<leftarrow> checked_add records_off records_len;
        run_records_off \<leftarrow> align_up_usize records_end (run_records_align L);
        run_records_len \<leftarrow> checked_mul (run_records_size L) active_threads;
        run_records_end \<leftarrow> checked_add run_records_off run_records_len;
        Some (heap_off, records_off, run_records_off, run_records_end) })"

definition metadata_region_size :: "row_layout \<Rightarrow> usize \<Rightarrow> usize option" where
  "metadata_region_size L active_threads =
     (case metadata_offsets L active_threads of None \<Rightarrow> None | Some (_, _, _, e) \<Rightarrow> Some e)"

definition from_metadata_region :: "row_layout \<Rightarrow> nat \<Rightarrow> usize \<Rightarrow> address \<Rightarrow> usize \<Rightarrow> shared \<Rightarrow> (shared \<times> usize) option" where
  "from_metadata_region L classes active_threads metadata metadata_len mem =
     (if active_threads = 0 \<or> metadata = 0 \<or> metadata mod metadata_region_align L \<noteq> 0 then None
      else do {
        (heap_off, records_off, run_records_off, e) \<leftarrow> metadata_offsets L active_threads;
        if e > metadata_len then None
        else Some (from_uninit classes (unat active_threads)
               (\<lambda>l i. metadata + heap_off + of_nat i * heap_size L + dummy_off L l) mem, e) })"

definition active_threads :: "shared \<Rightarrow> nat" where
  "active_threads s = g_active s"

definition init_lists :: "nat \<Rightarrow> shared \<Rightarrow> shared" where
  "init_lists classes s =
     fold (\<lambda>(i, l) s. spmc_init l i s) (List.product [0..<g_active s] (lanes classes)) s"

definition init :: "nat \<Rightarrow> address \<Rightarrow> usize \<Rightarrow> shared \<Rightarrow> shared" where
  "init classes region len s =
     (let s' = init_lists classes s in s'\<lparr>g_pool := set_region region len (g_pool s')\<rparr>)"

definition register_thread :: "shared \<Rightarrow> thread_token option \<times> shared" where
  "register_thread s = (case register (g_registry s) of (t, r) \<Rightarrow> (t, s\<lparr>g_registry := r\<rparr>))"

definition allocator_extra_bound :: "nat \<Rightarrow> shared \<Rightarrow> usize" where
  "allocator_extra_bound classes s =
     (let n = of_nat (active_threads s) in theoretical_extra_bound n (of_nat classes) SPAN_SIZE n)"

section \<open>Dispatch\<close>

definition small_class :: "nat \<Rightarrow> layout \<Rightarrow> nat option" where
  "small_class classes lay =
     (case size_to_class (lay_size lay) (lay_align lay) of
        Some c \<Rightarrow> if c < classes then Some c else None
      | None \<Rightarrow> None)"

definition alloc_with_token_counted :: "backend \<Rightarrow> nat \<Rightarrow> nat \<Rightarrow> usize \<Rightarrow> layout \<Rightarrow> thread_token \<Rightarrow> address prog" where
  "alloc_with_token_counted B n classes hg lay token =
     (case small_class classes lay of
        None \<Rightarrow>
          if lay_size lay \<ge> HUGE_THRESHOLD hg then alloc_huge hg (tok_id token) lay
          else alloc_large B n (tok_id token) lay
      | Some c \<Rightarrow> alloc_small B n (tok_id token) c)"

definition dealloc_with_token_counted :: "nat \<Rightarrow> usize \<Rightarrow> address \<Rightarrow> layout \<Rightarrow> thread_token \<Rightarrow> unit prog" where
  "dealloc_with_token_counted classes hg ptr lay token =
     (if ptr = 0 then ret ()
      else if small_class classes lay = None then
        if lay_size lay \<ge> HUGE_THRESHOLD hg then dealloc_huge hg ptr lay (tok_id token)
        else dealloc_large ptr lay (tok_id token)
      else dealloc_small ptr (tok_id token))"

text \<open>The uncounted entry points start a step counter of their own.\<close>

definition fresh_step :: "unit prog" where
  "fresh_step = State (\<lambda>w. ((), w\<lparr>w_step := step_new\<rparr>))"

definition alloc_with_token :: "backend \<Rightarrow> nat \<Rightarrow> nat \<Rightarrow> usize \<Rightarrow> layout \<Rightarrow> thread_token \<Rightarrow> address prog" where
  "alloc_with_token B n classes hg lay token = do {
     fresh_step;
     alloc_with_token_counted B n classes hg lay token }"

definition dealloc_with_token :: "nat \<Rightarrow> usize \<Rightarrow> address \<Rightarrow> layout \<Rightarrow> thread_token \<Rightarrow> unit prog" where
  "dealloc_with_token classes hg ptr lay token = do {
     fresh_step;
     dealloc_with_token_counted classes hg ptr lay token }"

section \<open>Metadata region\<close>

text \<open>What the compiler guarantees of the row types: alignments are powers of two.\<close>

definition rows_valid :: "row_layout \<Rightarrow> bool" where
  "rows_valid L \<longleftrightarrow> is_power_of_two (heap_align L) \<and> is_power_of_two (records_align L) \<and> is_power_of_two (run_records_align L)"

lemma align_up_usize_Some:
  assumes "is_power_of_two a" "align_up_usize v a = Some x"
  shows "unat v \<le> unat x \<and> unat x < unat v + unat a \<and> unat a dvd unat x"
proof -
  have pos: "0 < unat a" using assms(1) by (rule is_power_of_two_pos)
  then have a1: "unat (a - 1) = unat a - 1" by (simp add: unat_dec unat_zero_iff [symmetric])
  have "unat v + unat (a - 1) < 2 ^ 64" and x: "x = (v + (a - 1)) AND NOT (a - 1)"
    using assms(2) by (auto simp: align_up_usize_def checked_add_def split: if_splits)
  then have "unat v + unat a \<le> 2 ^ 64" using pos by (simp add: a1)
  from round_up_bounds [OF assms(1) this] show ?thesis by (simp add: x round_up_def add_diff_eq)
qed

lemma align_up_usize_None:
  "is_power_of_two a \<Longrightarrow> align_up_usize v a = None \<Longrightarrow> 2 ^ 64 \<le> unat v + unat a - 1"
proof -
  assume "is_power_of_two a" "align_up_usize v a = None"
  then have "2 ^ 64 \<le> unat v + unat (a - 1)" "0 < unat a"
    using is_power_of_two_pos by (auto simp: align_up_usize_def checked_add_def split: if_splits)
  then show ?thesis by (simp add: unat_dec unat_zero_iff [symmetric])
qed

lemma bind_Some_iff: "(m \<bind> f) = Some y \<longleftrightarrow> (\<exists>x. m = Some x \<and> f x = Some y)"
  by (cases m) auto

definition rows_total :: "row_layout \<Rightarrow> nat \<Rightarrow> nat" where
  "rows_total L n = (unat (heap_size L) + unat (records_size L) + unat (run_records_size L)) * n
     + (unat (heap_align L) + unat (records_align L) + unat (run_records_align L))"

lemma metadata_offsets_Some:
  assumes "rows_valid L" "metadata_offsets L n = Some (h, r, rr, e)"
  shows "h = 0" "unat (heap_size L) * unat n \<le> unat r" "unat (records_align L) dvd unat r"
    "unat r + unat (records_size L) * unat n \<le> unat rr" "unat (run_records_align L) dvd unat rr"
    "unat rr + unat (run_records_size L) * unat n = unat e" "unat e \<le> rows_total L (unat n)"
proof -
  obtain hl he rl re rrl where d: "align_up_usize 0 (heap_align L) = Some h" "checked_mul (heap_size L) n = Some hl"
    "checked_add h hl = Some he" "align_up_usize he (records_align L) = Some r" "checked_mul (records_size L) n = Some rl"
    "checked_add r rl = Some re" "align_up_usize re (run_records_align L) = Some rr"
    "checked_mul (run_records_size L) n = Some rrl" "checked_add rr rrl = Some e"
    using assms(2) by (auto simp: metadata_offsets_def bind_Some_iff split: if_splits)
  have pw: "is_power_of_two (heap_align L)" "is_power_of_two (records_align L)" "is_power_of_two (run_records_align L)"
    using assms(1) by (simp_all add: rows_valid_def)
  note u = checked_mul_unat [OF d(2)] checked_add_unat [OF d(3)] checked_mul_unat [OF d(5)]
    checked_add_unat [OF d(6)] checked_mul_unat [OF d(8)] checked_add_unat [OF d(9)]
  note a1 = align_up_usize_Some [OF pw(1) d(1)] and a2 = align_up_usize_Some [OF pw(2) d(4)]
    and a3 = align_up_usize_Some [OF pw(3) d(7)]
  have "unat h = 0" using a1 by (auto dest: dvd_imp_le)
  then show h: "h = 0" by (simp add: unat_zero_iff)
  show "unat (heap_size L) * unat n \<le> unat r" using a2 u(1,2) h by simp
  show "unat (records_align L) dvd unat r" "unat (run_records_align L) dvd unat rr" using a2 a3 by simp_all
  show "unat r + unat (records_size L) * unat n \<le> unat rr" using a3 u(3,4) by simp
  show "unat rr + unat (run_records_size L) * unat n = unat e" using u(5,6) by simp
  show "unat e \<le> rows_total L (unat n)"
    using a2 a3 u h by (simp add: rows_total_def algebra_simps)
qed

lemma power_of_two_dvd:
  assumes "is_power_of_two a" "is_power_of_two b" "a \<le> b"
  shows "unat a dvd unat b"
proof -
  obtain j k where jk: "unat a = 2 ^ j" "unat b = 2 ^ k"
    using assms(1,2) by (elim is_power_of_twoE) simp
  have "(2 :: nat) ^ j \<le> 2 ^ k" using assms(3) jk by (simp add: word_le_nat_alt)
  then have "j \<le> k" by simp
  then show ?thesis unfolding jk by (rule le_imp_power_dvd)
qed

lemma max_usize_dvd:
  assumes "is_power_of_two a" "is_power_of_two b"
  shows "is_power_of_two (max_usize a b) \<and> unat a dvd unat (max_usize a b) \<and> unat b dvd unat (max_usize a b)"
  using assms power_of_two_dvd [of a b] power_of_two_dvd [of b a] by (auto simp: max_usize_def)

lemma region_align_dvd:
  assumes "rows_valid L"
  shows "unat (heap_align L) dvd unat (metadata_region_align L)" "unat (records_align L) dvd unat (metadata_region_align L)"
    "unat (run_records_align L) dvd unat (metadata_region_align L)"
proof -
  have pw: "is_power_of_two (heap_align L)" "is_power_of_two (records_align L)" "is_power_of_two (run_records_align L)"
    using assms by (simp_all add: rows_valid_def)
  note i = max_usize_dvd [OF pw(2,3)]
  note k = max_usize_dvd [OF pw(1) i [THEN conjunct1], folded metadata_region_align_def]
  from i k show "unat (heap_align L) dvd unat (metadata_region_align L)"
    "unat (records_align L) dvd unat (metadata_region_align L)"
    "unat (run_records_align L) dvd unat (metadata_region_align L)" by (meson dvd_trans)+
qed

lemma aligned_offset:
  assumes "is_power_of_two a" "unat a dvd unat m" "unat a dvd unat r" "unat m + unat r < 2 ^ 64"
  shows "is_aligned (m + r) a"
  using assms by (simp add: is_aligned_unat unat_add_nowrap)

text \<open>
  C39. Carving the metadata region: when it succeeds, the rows of heaps, of help records and of run help
  records are aligned for their types, follow one another without overlap, and end inside the
  region that was handed in; the bytes reported as consumed are exactly those up to the last row.
\<close>

theorem metadata_rows_fit:
  assumes "rows_valid L" and "from_metadata_region L classes n metadata len mem = Some (s, used)"
    and "unat metadata + unat len < 2 ^ 64"
  shows "\<exists>r rr. metadata_offsets L n = Some (0, r, rr, used) \<and> metadata_region_size L n = Some used
    \<and> g_active s = unat n \<and> is_aligned metadata (heap_align L)
    \<and> is_aligned (metadata + r) (records_align L) \<and> is_aligned (metadata + rr) (run_records_align L)
    \<and> unat metadata + unat (heap_size L) * unat n \<le> unat (metadata + r)
    \<and> unat (metadata + r) + unat (records_size L) * unat n \<le> unat (metadata + rr)
    \<and> unat (metadata + rr) + unat (run_records_size L) * unat n = unat metadata + unat used
    \<and> unat used \<le> unat len"
proof -
  obtain h r rr where o: "metadata_offsets L n = Some (h, r, rr, used)" "used \<le> len"
    and m: "metadata mod metadata_region_align L = 0"
    and s: "g_active s = unat n"
    using assms(2)
    by (auto simp: from_metadata_region_def bind_Some_iff from_uninit_def split: if_splits prod.splits)
  note off = metadata_offsets_Some [OF assms(1) o(1)]
  have pw: "is_power_of_two (heap_align L)" "is_power_of_two (records_align L)" "is_power_of_two (run_records_align L)"
    using assms(1) by (simp_all add: rows_valid_def)
  have "unat (metadata_region_align L) dvd unat metadata"
    using m by (simp add: unat_mod_distrib dvd_eq_mod_eq_0 flip: unat_zero_iff)
  then have al: "unat (heap_align L) dvd unat metadata" "unat (records_align L) dvd unat metadata"
    "unat (run_records_align L) dvd unat metadata"
    using region_align_dvd [OF assms(1)] by (meson dvd_trans)+
  have e: "unat used \<le> unat len" using o(2) by (simp add: word_le_nat_alt)
  have b: "unat metadata + unat r < 2 ^ 64" "unat metadata + unat rr < 2 ^ 64"
    using off(4,6) e assms(3) by linarith+
  have "unat (metadata + r) = unat metadata + unat r" "unat (metadata + rr) = unat metadata + unat rr"
    using b by (simp_all add: unat_add_nowrap)
  moreover have "is_aligned metadata (heap_align L)" using al(1) pw(1) by (simp add: is_aligned_unat)
  moreover have "is_aligned (metadata + r) (records_align L)" "is_aligned (metadata + rr) (run_records_align L)"
    using al pw off(3,5) b by (simp_all add: aligned_offset)
  ultimately show ?thesis
    using o off e s by (simp add: metadata_region_size_def)
qed

theorem metadata_rows_fit_witness:
  "\<exists>s. from_metadata_region \<lparr>heap_size = 100, heap_align = 64, records_size = 48, records_align = 16,
      run_records_size = 272, run_records_align = 16, dummy_off = \<lambda>_. 0\<rparr> 3 2 4096 1000 zero_memory = Some (s, 848)
     \<and> g_active s = 2 \<and> is_aligned (4096 + 208) 16"
proof -
  let ?L = "\<lparr>heap_size = 100 :: usize, heap_align = 64, records_size = 48, records_align = 16,
      run_records_size = 272, run_records_align = 16, dummy_off = \<lambda>_. 0\<rparr>"
  have al: "is_power_of_two 64" "is_power_of_two 16" using is_power_of_two_exp [of 6] is_power_of_two_exp [of 4] by simp_all
  have v: "rows_valid ?L" by (simp add: rows_valid_def al)
  have o: "metadata_offsets ?L 2 = Some (0, 208, 304, 848)"
    by (simp add: metadata_offsets_def align_up_usize_def checked_add_def checked_mul_def)
  then obtain s where s: "from_metadata_region ?L 3 2 4096 1000 zero_memory = Some (s, 848)"
    by (simp add: from_metadata_region_def metadata_region_align_def max_usize_def)
  from metadata_rows_fit [OF v s] o s show ?thesis by auto
qed

section \<open>Initialisation\<close>

lemma spmc_init_frame [simp]:
  "public_list (spmc_init l i s) l' j = (if l = l' \<and> i = j then
     (public_list s l i)\<lparr>sl_head := head_new (sl_dummy (public_list s l i)) 0, sl_tail := sl_dummy (public_list s l i)\<rparr>
     else public_list s l' j)"
  "local_list (spmc_init l i s) l' j = local_list s l' j" "record_at (spmc_init l i s) l' j = record_at s l' j"
  "g_node (spmc_init l i s) = g_node s" "g_hdr (spmc_init l i s) = g_hdr s" "g_active (spmc_init l i s) = g_active s"
  "g_pool (spmc_init l i s) = g_pool s" "g_huge (spmc_init l i s) = g_huge s"
  by (simp_all add: spmc_init_def)

lemma init_fold:
  fixes s :: shared
  defines "f \<equiv> \<lambda>ps. fold (\<lambda>(i, l) s. spmc_init l i s) ps s"
  shows "local_list (f ps) l j = local_list s l j \<and> record_at (f ps) l j = record_at s l j \<and> g_node (f ps) = g_node s
    \<and> g_pool (f ps) = g_pool s \<and> g_huge (f ps) = g_huge s \<and> g_active (f ps) = g_active s
    \<and> sl_dummy (public_list (f ps) l j) = sl_dummy (public_list s l j)
    \<and> ((j, l) \<in> set ps \<longrightarrow> sl_head (public_list (f ps) l j) = head_new (sl_dummy (public_list s l j)) 0
         \<and> sl_tail (public_list (f ps) l j) = sl_dummy (public_list s l j))"
  unfolding f_def
proof (induction ps rule: rev_induct)
  case (snoc p ps)
  obtain i k where p: "p = (i, k)" by (cases p)
  show ?case using snoc unfolding p by auto
qed simp

lemma dummies_written:
  "a \<in> set ds \<Longrightarrow> fold (\<lambda>a m. m(a := v)) ds m a = v"
proof (induction ds arbitrary: m rule: rev_induct)
  case (snoc d ds)
  then show ?case by (cases "a = d") simp_all
qed simp

lemma from_uninit_lists:
  "public_list (from_uninit classes n dummy_at mem) l i = spmc_span_list_new (dummy_at l i)"
  "local_list (from_uninit classes n dummy_at mem) l i = local_span_list_new"
  "record_at (from_uninit classes n dummy_at mem) l i = help_record_new"
  by (cases l; simp add: from_uninit_def thread_heap_new_def)+

lemma init_allocator_empty:
  assumes "i < n" and "l \<in> set (lanes classes)" and "dummy_at l i \<noteq> 0"
    and "s = init classes region len (from_uninit classes n dummy_at mem)"
  shows "span_list l i s [] \<and> public_rep l i [dummy_at l i] s [] \<and> head_at s l i = head_new (dummy_at l i) 0
    \<and> record_word s l i = req_empty \<and> (\<forall>ci. hs_state (slot_at s ci) = HUGE_SLOT_EMPTY \<and> hs_base (slot_at s ci) = 0)
    \<and> g_pool s = set_region region len pool_new \<and> active_threads s = n"
proof -
  let ?u = "from_uninit classes n dummy_at mem"
  let ?ps = "List.product [0..<g_active ?u] (lanes classes)"
  define v where "v = init_lists classes ?u"
  have act: "g_active ?u = n" by (simp add: from_uninit_def)
  have pr: "(i, l) \<in> set ?ps" using assms(1,2) by (simp add: act)
  note f = init_fold [of ?ps ?u l i, folded init_lists_def, folded v_def, unfolded from_uninit_lists]
  have s: "s = v\<lparr>g_pool := set_region region len (g_pool v)\<rparr>" by (simp add: assms(4) init_def v_def Let_def)
  have same: "local_list s l i = local_list v l i" "public_list s l i = public_list v l i" "record_at s l i = record_at v l i"
    "next_local s = next_local v" "node_next s = node_next v"
    by (cases l; simp add: s next_local_def node_next_def fun_eq_iff)+
  have hd: "sl_head (public_list s l i) = head_new (dummy_at l i) 0" "sl_tail (public_list s l i) = dummy_at l i"
    using f pr by (simp_all add: same spmc_span_list_new_def)
  have "dummy_at l i \<in> set (dummy_nodes classes n dummy_at)"
    using assms(1,2) by (auto simp: dummy_nodes_def image_iff)
  then have "g_node ?u (dummy_at l i) = span_node_new" by (simp add: from_uninit_def dummies_written)
  then have nd: "node_next s (dummy_at l i) = 0" using f by (simp add: same node_next_def span_node_new_def)
  have "public_rep l i [dummy_at l i] s []"
    using hd nd assms(3) by (simp add: public_rep_def public_nodes_def head_at_def head_new_def)
  moreover have "span_list l i s []" using f by (simp add: span_list_def same local_span_list_new_def)
  moreover have "record_word s l i = req_empty" using f by (simp add: record_word_def same help_record_new_def req_empty_def)
  moreover have "slot_at s ci = huge_slot_new" for ci
    using f by (simp add: slot_at_def s) (simp add: from_uninit_def)
  ultimately show ?thesis
    using hd f act by (simp add: head_at_def active_threads_def s huge_slot_new_def HUGE_SLOT_EMPTY_def)
      (simp add: from_uninit_def)
qed

text \<open>
  C40. A freshly built and initialised allocator is empty and well-formed: every private list of every
  thread and class is empty, every public list consists of its own dummy node alone with version
  zero, no request is pending, no huge slot has memory, and the pool holds the given region.
\<close>

theorem init_empty_allocator:
  assumes "i < n" and "l \<in> set (lanes classes)" and "dummy_at l i \<noteq> 0"
    and "s = init classes region len (from_uninit classes n dummy_at mem)"
  shows "span_list l i s [] \<and> public_rep l i [dummy_at l i] s [] \<and> head_at s l i = head_new (dummy_at l i) 0
    \<and> record_word s l i = req_empty \<and> (\<forall>ci. hs_state (slot_at s ci) = HUGE_SLOT_EMPTY \<and> hs_base (slot_at s ci) = 0)
    \<and> g_pool s = set_region region len pool_new \<and> active_threads s = n"
  using assms by (rule init_allocator_empty)

theorem init_empty_allocator_witness:
  "\<exists>s. s = init 2 65536 1000000 (from_uninit 2 3 (\<lambda>l i. of_nat i * 16 + 8) zero_memory)
     \<and> span_list (SpanLane 1) 2 s [] \<and> public_rep (SpanLane 1) 2 [40] s []"
  using init_empty_allocator [of 2 3 "SpanLane 1" 2 "\<lambda>l i. of_nat i * 16 + 8" _ 65536 1000000 zero_memory, OF _ _ _ refl]
  by (auto simp: lanes_def)

section \<open>Wait-freedom of every operation\<close>

lemma env_ok_step [simp]: "env_ok ok (w\<lparr>w_step := st\<rparr>) = env_ok ok w"
  by (simp add: env_ok_def)

definition all_steps :: "step_counter \<Rightarrow> int" where
  "all_steps = weigh (\<lambda>_. 1)"

lemma run_fresh_step [simp]: "run_state fresh_step w = ((), w\<lparr>w_step := step_new\<rparr>)"
  by (simp add: fresh_step_def)

lemma block_total_max: "c < 11 \<Longrightarrow> block_total c \<le> 4032"
proof -
  assume c: "c < 11"
  have "(2 :: nat) ^ 4 \<le> 2 ^ (c + 4)" by (intro power_increasing) auto
  then have "(65536 - max 1024 (2 ^ (c + 4))) div 2 ^ (c + 4) \<le> (64512 :: nat) div 2 ^ 4"
    by - (rule order.trans [OF div_le_mono [of _ 64512]], simp, rule div_le_mono2, simp_all)
  with c show ?thesis by (simp add: block_total_def blocks_per_span_unat)
qed

lemma all_steps_alloc_large: "within anything all_steps (alloc_large B n tid lay) (119 * int n + 153)"
  unfolding all_steps_def
  by (rule within_mono, rule within_alloc_large [OF within_large_class_step [of "\<lambda>_. 1" 3 4]]) (simp_all add: wf_config)

lemma all_steps_alloc_small:
  "block_total c \<le> M \<Longrightarrow> within (block_counts_below M) all_steps (alloc_small B n tid c) (84 * int M + 7 * int n + 217)"
  unfolding all_steps_def
  by (rule within_mono, rule within_alloc_small [of "\<lambda>_. 1" 3 4]) (simp_all add: rotation_cost_def wf_config)

lemma all_steps_alloc_huge: "within anything all_steps (alloc_huge hg tid lay) 48"
proof -
  have len: "int (length (huge_slots_from m)) * 4 \<le> 48" for m by (simp add: huge_slots_from_def wf_config)
  have "within anything all_steps (huge_scan hg tid lay (huge_slots_from m)) 48" for m
    unfolding all_steps_def
    by (rule within_mono [OF any_env.within_huge_scan [of "\<lambda>_. 1"]]) (use len [of m] in simp_all)
  moreover have "within anything all_steps (ret (0 :: address)) 48"
    by (rule within_mono [OF within_ret]) simp
  ultimately show ?thesis by (simp add: alloc_huge_def split: option.split)
qed

lemma all_steps_dealloc: "within anything all_steps (dealloc_with_token_counted classes hg ptr lay token) 12"
proof -
  have small: "within anything all_steps (dealloc_small ptr tid) 12" for tid
    unfolding all_steps_def
    by (rule within_mono [OF any_env.within_dealloc_small [of "\<lambda>_. 1"]]) simp_all
  have large: "within anything all_steps (dealloc_large ptr lay tid) 12" for tid
    unfolding all_steps_def dealloc_large_def Let_def by (rule within_mono, (rule wf_within | simp)+)
  have huge: "within anything all_steps (dealloc_huge hg ptr lay tid) 12" for tid
    unfolding all_steps_def dealloc_huge_def
    by (rule within_mono [OF any_env.within_huge_free_scan [of "\<lambda>_. 1"]]) (simp_all add: huge_slots_from_def wf_config)
  have idle: "within anything all_steps (ret () :: unit prog) 12" by (rule within_mono [OF within_ret]) simp
  show ?thesis
  proof (cases "ptr = 0")
    case True
    then have eq: "dealloc_with_token_counted classes hg ptr lay token = ret ()"
      by (simp add: dealloc_with_token_counted_def)
    show ?thesis unfolding eq by (rule idle)
  next
    case False
    with small large huge show ?thesis by (simp add: dealloc_with_token_counted_def)
  qed
qed



section \<open>Soundness of the dispatch\<close>

lemma small_class_Some:
  "small_class classes lay = Some c \<longleftrightarrow> size_to_class (lay_size lay) (lay_align lay) = Some c \<and> c < classes"
  by (auto simp: small_class_def split: option.splits)

lemma allocator_valid_granule: "allocator_valid classes hg \<Longrightarrow> granule_valid hg \<and> classes \<le> 11"
  by (auto simp: allocator_valid_def granule_valid_def checked_mul_def wf_config word_le_nat_alt split: if_splits)

lemma small_block_fits:
  assumes "small_class classes lay = Some c" "is_power_of_two (lay_align lay)" "span_base span" "i < block_total c"
  shows "c < 11" "unat (lay_size lay) \<le> 2 ^ (c + 4)" "is_aligned (block_at span c i) (lay_align lay)"
proof -
  show c11: "c < 11" and sz: "unat (lay_size lay) \<le> 2 ^ (c + 4)"
    using assms(1) by (simp_all add: small_class_Some size_to_class_Some)
  have al: "unat (lay_align lay) \<le> 2 ^ (c + 4)" using assms(1) by (simp add: small_class_Some size_to_class_Some)
  have k: "unat (class_to_size c) = 2 ^ (c + 4)" using c11 by (simp add: class_to_size_unat)
  have "unat (class_to_size c) dvd unat (block_at span c i)"
    using block_at_aligned [OF assms(3) c11 assms(4)] c11 by (simp add: is_aligned_unat class_to_size_pow2)
  moreover have "unat (lay_align lay) dvd unat (class_to_size c)"
    using al k c11 by (intro power_of_two_dvd [OF assms(2) class_to_size_pow2]) (simp_all add: word_le_nat_alt)
  ultimately have "unat (lay_align lay) dvd unat (block_at span c i)" by (rule dvd_trans [rotated])
  then show "is_aligned (block_at span c i) (lay_align lay)" by (simp add: is_aligned_unat assms(2))
qed



end
