(* ===== verification/Quiescent_Check.thy ===== *)
theory Quiescent_Check
  imports Allocator
begin

text \<open>
  The quiescent invariant checker (\<^verbatim>\<open>src/verify.rs\<close>), which the test suites run between operations.  It is modelled as
  a function of the shared state with an option as its result: \<^verbatim>\<open>None\<close> where the code panics.  The theorems:
  when it does not panic, every list it walks is a proper list of well-formed spans or runs, no span is in two
  places and no two of the memory ranges it has seen overlap; and it accepts every freshly initialised allocator.
\<close>

section \<open>Checker state\<close>

record checker =
  ck_seen :: "address set"
  ck_pages :: "nat set"

definition require :: "bool \<Rightarrow> unit option" where
  "require b = (if b then Some () else None)"

definition mark_seen :: "address \<Rightarrow> checker \<Rightarrow> checker option" where
  "mark_seen a ck = (if a \<in> ck_seen ck then None else Some (ck\<lparr>ck_seen := insert a (ck_seen ck)\<rparr>))"

fun claim_pages :: "nat \<Rightarrow> nat \<Rightarrow> nat set \<Rightarrow> nat set option" where
  "claim_pages first 0 P = Some P"
| "claim_pages first (Suc k) P = (if first \<in> P then None else claim_pages (first + 1) k (insert first P))"

definition claim :: "address \<Rightarrow> address \<Rightarrow> nat \<Rightarrow> checker \<Rightarrow> checker option" where
  "claim base hdr span_count ck =
     (if base = 0 \<or> hdr < base then Some ck
      else do {
        P \<leftarrow> claim_pages (unat ((hdr - base) div SPAN_SIZE)) span_count (ck_pages ck);
        Some (ck\<lparr>ck_pages := P\<rparr>) })"

section \<open>Checks of one span or run\<close>

text \<open>The free-list walk: \<open>k\<close> is what is left of the block count.\<close>

fun walk_blocks :: "shared \<Rightarrow> address \<Rightarrow> nat \<Rightarrow> address \<Rightarrow> address set \<Rightarrow> nat option" where
  "walk_blocks s base 0 cur blocks = (if cur = 0 then Some 0 else None)"
| "walk_blocks s base (Suc k) cur blocks =
     (if cur = 0 then Some 0
      else if cur = UNLINKED then None
      else if \<not> (cur > base \<and> cur < base + SPAN_SIZE) then None
      else if cur \<in> blocks then None
      else map_option Suc (walk_blocks s base k (g_block s cur) (insert cur blocks)))"

definition check_span :: "shared \<Rightarrow> address \<Rightarrow> nat option \<Rightarrow> nat \<Rightarrow> bool" where
  "check_span s span owner sclass =
     (let h = g_hdr s span; q = lm_free_count (sh_local h); g = rm_free_count (sh_remote h); m = sh_block_count h
      in sh_size_class h = sclass
       \<and> (case owner of None \<Rightarrow> True | Some tid \<Rightarrow> sh_owner h = of_nat tid)
       \<and> q \<le> m \<and> sint g \<ge> 0 \<and> sint (q + g) \<le> sint m
       \<and> walk_blocks s span (unat m) (peek_for_verify span s) {} = Some (unat q))"

definition check_run :: "shared \<Rightarrow> address \<Rightarrow> nat option \<Rightarrow> nat \<Rightarrow> bool" where
  "check_run s run owner rclass =
     (let h = g_hdr s run
      in sh_size_class h = rclass \<and> sh_block_count h = push_bit rclass 1
       \<and> (case owner of
            Some tid \<Rightarrow> sh_owner h = of_nat tid \<and> sh_state h = RunFreeLocal
          | None \<Rightarrow> sh_state h = RunFreePublic)
       \<and> lm_free_count (sh_local h) = 0 \<and> rm_free_count (sh_remote h) = 0)"

fun check_item :: "shared \<Rightarrow> lane \<Rightarrow> nat option \<Rightarrow> address \<Rightarrow> bool" where
  "check_item s (SpanLane c) owner a = check_span s a owner c"
| "check_item s (RunLane c) owner a = check_run s a owner c"

section \<open>Walks\<close>

definition check_entry :: "shared \<Rightarrow> lane \<Rightarrow> nat option \<Rightarrow> address \<Rightarrow> checker \<Rightarrow> checker option" where
  "check_entry s l owner a ck = do {
     ck \<leftarrow> mark_seen a ck;
     require (check_item s l owner a);
     claim (base_addr (g_pool s)) a (lane_pages l) ck }"

fun walk_local :: "shared \<Rightarrow> lane \<Rightarrow> nat \<Rightarrow> nat \<Rightarrow> address \<Rightarrow> checker \<Rightarrow> (nat \<times> checker) option" where
  "walk_local s l i 0 cur ck = (if cur = 0 then Some (0, ck) else None)"
| "walk_local s l i (Suc k) cur ck =
     (if cur = 0 then Some (0, ck)
      else do {
        ck \<leftarrow> check_entry s l (Some i) cur ck;
        (n, ck) \<leftarrow> walk_local s l i k (next_local s cur) ck;
        Some (Suc n, ck) })"

definition check_local_list :: "shared \<Rightarrow> lane \<Rightarrow> nat \<Rightarrow> nat \<Rightarrow> checker \<Rightarrow> (nat \<times> checker) option" where
  "check_local_list s l i span_limit ck = do {
     (walked, ck) \<leftarrow> walk_local s l i span_limit (list_front l i s) ck;
     require (of_nat walked = list_len l i s);
     Some (walked, ck) }"

fun walk_public :: "shared \<Rightarrow> lane \<Rightarrow> nat \<Rightarrow> address \<Rightarrow> checker \<Rightarrow> (nat \<times> checker) option" where
  "walk_public s l 0 node ck = (if node_next s node = 0 then Some (0, ck) else None)"
| "walk_public s l (Suc k) node ck =
     (if node_next s node = 0 then Some (0, ck)
      else do {
        let span = nd_span (g_node s (node_next s node));
        ck \<leftarrow> check_entry s l None span ck;
        require (sh_owner (g_hdr s span) = OWNER_PUBLIC);
        (n, ck) \<leftarrow> walk_public s l k (node_next s node) ck;
        Some (Suc n, ck) })"

definition walk_public_list :: "shared \<Rightarrow> lane \<Rightarrow> nat \<Rightarrow> nat \<Rightarrow> checker \<Rightarrow> (nat \<times> checker) option" where
  "walk_public_list s l i span_limit ck = do {
     let node = hw_ptr (head_at s l i);
     require (node \<noteq> 0);
     walk_public s l span_limit node ck }"

definition check_record :: "shared \<Rightarrow> lane \<Rightarrow> nat \<Rightarrow> checker \<Rightarrow> (nat \<times> checker) option" where
  "check_record s l i ck =
     (let enc = record_word s l i in
      if \<not> req_is_empty enc \<and> \<not> req_is_pending enc then do {
        let span = req_span enc;
        ck \<leftarrow> check_entry s l None span ck;
        require (sh_owner (g_hdr s span) = OWNER_PUBLIC);
        Some (1, ck) }
      else Some (0, ck))"

definition check_huge_slot :: "usize \<Rightarrow> shared \<Rightarrow> nat \<times> nat \<Rightarrow> checker \<Rightarrow> checker option" where
  "check_huge_slot hg s ci ck = (case ci of (c, i) \<Rightarrow>
     let slot = g_huge s c i in
     if hs_state slot = HUGE_SLOT_EMPTY then do { require (hs_base slot = 0); Some ck }
     else if hs_state slot = HUGE_SLOT_FREE \<or> hs_state slot = HUGE_SLOT_ALLOCATED then do {
       require (hs_base slot \<noteq> 0);
       claim (base_addr (g_pool s)) (hs_base slot) (2 ^ c * unat hg) ck }
     else None)"

section \<open>The checker\<close>

text \<open>
  The nested loops of \<^verbatim>\<open>check_quiescent\<close> visit the private and public lists of each thread and then the help
  records; \<open>sources\<close> lists what they visit, in their order.
\<close>

datatype source = Private lane nat | Public lane nat | Completed lane nat

definition sources :: "nat \<Rightarrow> nat \<Rightarrow> source list" where
  "sources classes n =
     concat (List.map (\<lambda>i.
       List.map (\<lambda>c. Private (SpanLane c) i) [0..<classes] @ List.map (\<lambda>c. Public (SpanLane c) i) [0..<classes]
       @ List.map (\<lambda>c. Private (RunLane c) i) [0..<MAX_LARGE_RUN_CLASSES]
       @ List.map (\<lambda>c. Public (RunLane c) i) [0..<MAX_LARGE_RUN_CLASSES]) [0..<n])
     @ concat (List.map (\<lambda>i. List.map (\<lambda>c. Completed (SpanLane c) i) [0..<classes]) [0..<n])
     @ concat (List.map (\<lambda>i. List.map (\<lambda>c. Completed (RunLane c) i) [0..<MAX_LARGE_RUN_CLASSES]) [0..<n])"

fun check_source :: "shared \<Rightarrow> nat \<Rightarrow> source \<Rightarrow> checker \<Rightarrow> (nat \<times> checker) option" where
  "check_source s span_limit (Private l i) ck = check_local_list s l i span_limit ck"
| "check_source s span_limit (Public l i) ck = walk_public_list s l i span_limit ck"
| "check_source s span_limit (Completed l i) ck = check_record s l i ck"

fun check_sources :: "shared \<Rightarrow> nat \<Rightarrow> source list \<Rightarrow> checker \<Rightarrow> (nat list \<times> checker) option" where
  "check_sources s span_limit [] ck = Some ([], ck)"
| "check_sources s span_limit (x # xs) ck = do {
     (n, ck) \<leftarrow> check_source s span_limit x ck;
     (ns, ck) \<leftarrow> check_sources s span_limit xs ck;
     Some (n # ns, ck) }"

fun check_slots :: "usize \<Rightarrow> shared \<Rightarrow> (nat \<times> nat) list \<Rightarrow> checker \<Rightarrow> checker option" where
  "check_slots hg s [] ck = Some ck"
| "check_slots hg s (ci # cis) ck = do {
     ck \<leftarrow> check_huge_slot hg s ci ck;
     check_slots hg s cis ck }"

fun tally :: "(source \<Rightarrow> bool) \<Rightarrow> source list \<Rightarrow> nat list \<Rightarrow> nat" where
  "tally f (x # xs) (n # ns) = (if f x then n else 0) + tally f xs ns"
| "tally f _ _ = 0"

fun is_private :: "source \<Rightarrow> bool" where
  "is_private (Private l i) = True"
| "is_private _ = False"

fun is_public :: "source \<Rightarrow> bool" where
  "is_public (Public l i) = True"
| "is_public _ = False"

fun is_completed :: "source \<Rightarrow> bool" where
  "is_completed (Completed l i) = True"
| "is_completed _ = False"

definition check_quiescent :: "nat \<Rightarrow> usize \<Rightarrow> shared \<Rightarrow> (nat \<times> nat \<times> nat) option" where
  "check_quiescent classes hg s = do {
     let span_limit = unat (spans_total (g_pool s) + 1);
     let xs = sources classes (active_threads s);
     (ns, ck) \<leftarrow> check_sources s span_limit xs \<lparr>ck_seen = {}, ck_pages = {}\<rparr>;
     check_slots hg s (huge_slots_from 0) ck;
     Some (tally is_private xs ns, tally is_public xs ns, tally is_completed xs ns) }"

section \<open>What acceptance means\<close>

text \<open>The pages of a memory range of \<open>k\<close> spans, and ranges that share no page with \<open>U\<close> or with one another.\<close>

definition pages_of :: "address \<Rightarrow> address \<times> nat \<Rightarrow> nat set" where
  "pages_of base r = (case r of (a, k) \<Rightarrow>
     if base = 0 \<or> a < base then {} else {unat ((a - base) div SPAN_SIZE) ..< unat ((a - base) div SPAN_SIZE) + k})"

fun apart :: "'a set \<Rightarrow> 'a set list \<Rightarrow> bool" where
  "apart U [] = True"
| "apart U (X # Xs) = (X \<inter> U = {} \<and> apart (U \<union> X) Xs)"

lemma apart_append: "apart U (Xs @ Ys) \<longleftrightarrow> apart U Xs \<and> apart (U \<union> \<Union>(set Xs)) Ys"
  by (induction Xs arbitrary: U) (auto simp: Un_assoc)

lemma apart_nth: "apart U Xs \<Longrightarrow> i < j \<Longrightarrow> j < length Xs \<Longrightarrow> Xs ! i \<inter> Xs ! j = {}"
proof (induction Xs arbitrary: U i j)
  case (Cons X Xs)
  have out: "apart V Ys \<Longrightarrow> Y \<in> set Ys \<Longrightarrow> Y \<inter> V = {}" for V Y and Ys :: "'a set list"
    by (induction Ys arbitrary: V) auto
  obtain j' where j: "j = Suc j'" using Cons.prems(2) by (cases j) auto
  show ?case
  proof (cases i)
    case 0
    then show ?thesis using Cons.prems out [of "U \<union> X" Xs "Xs ! j'"] by (auto simp: j)
  next
    case (Suc i')
    then show ?thesis using Cons.prems Cons.IH [of "U \<union> X" i' j'] by (auto simp: j)
  qed
qed simp

text \<open>A part of the run of the checker that saw the addresses \<open>xs\<close> and claimed the ranges \<open>rs\<close>.\<close>

definition advances :: "address \<Rightarrow> checker \<Rightarrow> address list \<Rightarrow> (address \<times> nat) list \<Rightarrow> checker \<Rightarrow> bool" where
  "advances base ck xs rs ck' \<longleftrightarrow> distinct xs \<and> set xs \<inter> ck_seen ck = {} \<and> ck_seen ck' = ck_seen ck \<union> set xs
     \<and> apart (ck_pages ck) (List.map (pages_of base) rs) \<and> ck_pages ck' = ck_pages ck \<union> \<Union>(pages_of base ` set rs)"

lemma advances_refl [simp]: "advances base ck [] [] ck"
  by (simp add: advances_def)

lemma advances_trans:
  "advances base ck xs rs ck' \<Longrightarrow> advances base ck' ys qs ck'' \<Longrightarrow> advances base ck (xs @ ys) (rs @ qs) ck''"
  by (auto simp: advances_def apart_append)

lemma claim_pages_Some:
  "claim_pages first k P = Some Q \<Longrightarrow> {first ..< first + k} \<inter> P = {} \<and> Q = P \<union> {first ..< first + k}"
proof (induction k arbitrary: first P)
  case (Suc k)
  then have "first \<notin> P" and r: "claim_pages (first + 1) k (insert first P) = Some Q" by (auto split: if_splits)
  from Suc.IH [OF r] have "{first + 1 ..< first + 1 + k} \<inter> insert first P = {}" "Q = insert first P \<union> {first + 1 ..< first + 1 + k}"
    by auto
  moreover have "{first ..< first + Suc k} = insert first {first + 1 ..< first + 1 + k}" by auto
  ultimately show ?case using \<open>first \<notin> P\<close> by auto
qed simp

lemma claim_advances: "claim base a k ck = Some ck' \<Longrightarrow> advances base ck [] [(a, k)] ck'"
  by (auto simp: claim_def bind_Some_iff advances_def pages_of_def dest: claim_pages_Some split: if_splits)

lemma require_Some [simp]: "require b = Some u \<longleftrightarrow> b"
  by (simp add: require_def)

lemma check_entry_advances:
  assumes "check_entry s l owner a ck = Some ck'"
  shows "check_item s l owner a \<and> advances (base_addr (g_pool s)) ck [a] [(a, lane_pages l)] ck'"
proof -
  obtain ck1 where m: "mark_seen a ck = Some ck1" and c: "check_item s l owner a"
    and k: "claim (base_addr (g_pool s)) a (lane_pages l) ck1 = Some ck'"
    using assms by (auto simp: check_entry_def bind_Some_iff)
  have "advances (base_addr (g_pool s)) ck [a] [] ck1"
    using m by (auto simp: mark_seen_def advances_def split: if_splits)
  from advances_trans [OF this claim_advances [OF k]] c show ?thesis by simp
qed

text \<open>Span and run headers that pass.\<close>

definition span_sound :: "shared \<Rightarrow> address \<Rightarrow> nat option \<Rightarrow> nat \<Rightarrow> bool" where
  "span_sound s a owner c \<longleftrightarrow> sh_size_class (g_hdr s a) = c \<and> (\<forall>t. owner = Some t \<longrightarrow> sh_owner (g_hdr s a) = of_nat t)
     \<and> (\<exists>bs. chain (g_block s) (lm_free (local_of s a)) bs 0 \<and> length bs = unat (lm_free_count (local_of s a))
          \<and> (\<forall>b \<in> set bs. a < b \<and> b < a + SPAN_SIZE \<and> b \<noteq> UNLINKED))
     \<and> unat (lm_free_count (local_of s a)) \<le> unat (sh_block_count (g_hdr s a))"

definition run_sound :: "shared \<Rightarrow> address \<Rightarrow> nat option \<Rightarrow> nat \<Rightarrow> bool" where
  "run_sound s a owner c \<longleftrightarrow> sh_size_class (g_hdr s a) = c \<and> sh_block_count (g_hdr s a) = run_class_spans c
     \<and> sh_state (g_hdr s a) = (if owner = None then RunFreePublic else RunFreeLocal)
     \<and> (\<forall>t. owner = Some t \<longrightarrow> sh_owner (g_hdr s a) = of_nat t)"

fun item_sound :: "shared \<Rightarrow> lane \<Rightarrow> nat option \<Rightarrow> address \<Rightarrow> bool" where
  "item_sound s (SpanLane c) owner a = span_sound s a owner c"
| "item_sound s (RunLane c) owner a = run_sound s a owner c"

lemma walk_blocks_chain:
  "walk_blocks s base k cur B = Some n \<Longrightarrow> \<exists>bs. chain (g_block s) cur bs 0 \<and> length bs = n \<and> set bs \<inter> B = {}
     \<and> (\<forall>b \<in> set bs. base < b \<and> b < base + SPAN_SIZE \<and> b \<noteq> UNLINKED)"
proof (induction k arbitrary: cur B n)
  case 0
  then show ?case by (intro exI [of _ "[]"]) (simp split: if_splits)
next
  case (Suc k)
  show ?case
  proof (cases "cur = 0")
    case True
    then show ?thesis using Suc.prems by (intro exI [of _ "[]"]) simp
  next
    case False
    then obtain n' where n: "walk_blocks s base k (g_block s cur) (insert cur B) = Some n'" "n = Suc n'"
      and c: "base < cur" "cur < base + SPAN_SIZE" "cur \<noteq> UNLINKED" "cur \<notin> B"
      using Suc.prems by (auto split: if_splits)
    from Suc.IH [OF n(1)] obtain bs where "chain (g_block s) (g_block s cur) bs 0" "length bs = n'" "set bs \<inter> insert cur B = {}"
      "\<forall>b \<in> set bs. base < b \<and> b < base + SPAN_SIZE \<and> b \<noteq> UNLINKED" by blast
    with c n(2) False show ?thesis by (intro exI [of _ "cur # bs"]) auto
  qed
qed

lemma check_item_sound: "check_item s l owner a \<Longrightarrow> item_sound s l owner a"
proof (cases l)
  case (SpanLane c)
  assume "check_item s l owner a"
  with SpanLane have w: "walk_blocks s a (unat (sh_block_count (g_hdr s a))) (lm_free (local_of s a)) {} = Some (unat (lm_free_count (local_of s a)))"
    and "sh_size_class (g_hdr s a) = c" "\<forall>t. owner = Some t \<longrightarrow> sh_owner (g_hdr s a) = of_nat t"
    "lm_free_count (local_of s a) \<le> sh_block_count (g_hdr s a)"
    by (auto simp: check_span_def Let_def peek_for_verify_def split: option.splits)
  with walk_blocks_chain [OF w] show ?thesis by (auto simp: SpanLane span_sound_def word_le_nat_alt)
next
  case (RunLane c)
  assume "check_item s l owner a"
  with RunLane show ?thesis
    by (auto simp: check_run_def Let_def run_sound_def run_class_spans_def split: option.splits)
qed

text \<open>The list behind a source: what its walk visits.\<close>

fun source_list :: "shared \<Rightarrow> source \<Rightarrow> address list \<Rightarrow> bool" where
  "source_list s (Private l i) xs \<longleftrightarrow> chain (next_local s) (list_front l i s) xs 0 \<and> of_nat (length xs) = list_len l i s
     \<and> (\<forall>a \<in> set xs. item_sound s l (Some i) a)"
| "source_list s (Public l i) xs \<longleftrightarrow> hw_ptr (head_at s l i) \<noteq> 0
     \<and> (\<exists>ns. path (node_next s) (node_next s (hw_ptr (head_at s l i))) ns 0 \<and> xs = List.map (\<lambda>a. nd_span (g_node s a)) ns)
     \<and> (\<forall>a \<in> set xs. item_sound s l None a \<and> sh_owner (g_hdr s a) = OWNER_PUBLIC)"
| "source_list s (Completed l i) xs \<longleftrightarrow>
     xs = (if req_is_empty (record_word s l i) \<or> req_is_pending (record_word s l i) then [] else [req_span (record_word s l i)])
     \<and> (\<forall>a \<in> set xs. item_sound s l None a \<and> sh_owner (g_hdr s a) = OWNER_PUBLIC)"

fun source_lane :: "source \<Rightarrow> lane" where
  "source_lane (Private l i) = l"
| "source_lane (Public l i) = l"
| "source_lane (Completed l i) = l"

abbreviation ranges :: "lane \<Rightarrow> address list \<Rightarrow> (address \<times> nat) list" where
  "ranges l xs \<equiv> List.map (\<lambda>a. (a, lane_pages l)) xs"

lemma walk_local_list:
  "walk_local s l i k cur ck = Some (n, ck') \<Longrightarrow> \<exists>xs. path (next_local s) cur xs 0 \<and> length xs = n
     \<and> (\<forall>a \<in> set xs. item_sound s l (Some i) a) \<and> advances (base_addr (g_pool s)) ck xs (ranges l xs) ck'"
proof (induction k arbitrary: cur ck n)
  case 0
  then show ?case by (intro exI [of _ "[]"]) (simp split: if_splits)
next
  case (Suc k)
  show ?case
  proof (cases "cur = 0")
    case True
    then show ?thesis using Suc.prems by (intro exI [of _ "[]"]) simp
  next
    case False
    then obtain ck1 m where e: "check_entry s l (Some i) cur ck = Some ck1"
      and r: "walk_local s l i k (next_local s cur) ck1 = Some (m, ck')" "n = Suc m"
      using Suc.prems by (auto simp: bind_Some_iff)
    note c = check_entry_advances [OF e]
    from Suc.IH [OF r(1)] obtain xs where xs: "path (next_local s) (next_local s cur) xs 0" "length xs = m"
      "\<forall>a \<in> set xs. item_sound s l (Some i) a" "advances (base_addr (g_pool s)) ck1 xs (ranges l xs) ck'" by blast
    have "advances (base_addr (g_pool s)) ck (cur # xs) (ranges l (cur # xs)) ck'"
      using advances_trans [OF conjunct2 [OF c] xs(4)] by simp
    with xs c r(2) False show ?thesis by (intro exI [of _ "cur # xs"]) (auto simp: check_item_sound)
  qed
qed

lemma walk_public_nodes:
  "walk_public s l k node ck = Some (n, ck') \<Longrightarrow> \<exists>ns. path (node_next s) (node_next s node) ns 0 \<and> length ns = n
     \<and> (\<forall>a \<in> (\<lambda>a. nd_span (g_node s a)) ` set ns. item_sound s l None a \<and> sh_owner (g_hdr s a) = OWNER_PUBLIC)
     \<and> advances (base_addr (g_pool s)) ck (List.map (\<lambda>a. nd_span (g_node s a)) ns)
          (ranges l (List.map (\<lambda>a. nd_span (g_node s a)) ns)) ck'"
proof (induction k arbitrary: node ck n)
  case 0
  then show ?case by (intro exI [of _ "[]"]) (simp split: if_splits)
next
  case (Suc k)
  let ?nx = "node_next s node" and ?sp = "\<lambda>a. nd_span (g_node s a)"
  show ?case
  proof (cases "?nx = 0")
    case True
    then show ?thesis using Suc.prems by (intro exI [of _ "[]"]) simp
  next
    case False
    then obtain ck1 m where e: "check_entry s l None (?sp ?nx) ck = Some ck1" and o: "sh_owner (g_hdr s (?sp ?nx)) = OWNER_PUBLIC"
      and r: "walk_public s l k ?nx ck1 = Some (m, ck')" "n = Suc m"
      using Suc.prems by (auto simp: bind_Some_iff Let_def)
    note c = check_entry_advances [OF e]
    from Suc.IH [OF r(1)] obtain ns where ns: "path (node_next s) (node_next s ?nx) ns 0" "length ns = m"
      "\<forall>a \<in> ?sp ` set ns. item_sound s l None a \<and> sh_owner (g_hdr s a) = OWNER_PUBLIC"
      "advances (base_addr (g_pool s)) ck1 (List.map ?sp ns) (ranges l (List.map ?sp ns)) ck'" by blast
    have "advances (base_addr (g_pool s)) ck (List.map ?sp (?nx # ns)) (ranges l (List.map ?sp (?nx # ns))) ck'"
      using advances_trans [OF conjunct2 [OF c] ns(4)] by simp
    with ns c r(2) o False show ?thesis by (intro exI [of _ "?nx # ns"]) (simp add: check_item_sound)
  qed
qed

lemma check_source_list:
  assumes "check_source s lim x ck = Some (n, ck')"
  shows "\<exists>xs. source_list s x xs \<and> length xs = n \<and> advances (base_addr (g_pool s)) ck xs (ranges (source_lane x) xs) ck'"
proof (cases x)
  case (Private l i)
  with assms obtain ck1 where w: "walk_local s l i lim (list_front l i s) ck = Some (n, ck')" "of_nat n = list_len l i s"
    by (auto simp: check_local_list_def bind_Some_iff)
  from walk_local_list [OF w(1)] w(2) show ?thesis by (auto simp: Private chain_def advances_def)
next
  case (Public l i)
  with assms have w: "walk_public s l lim (hw_ptr (head_at s l i)) ck = Some (n, ck')" "hw_ptr (head_at s l i) \<noteq> 0"
    by (auto simp: walk_public_list_def bind_Some_iff Let_def)
  from walk_public_nodes [OF w(1)] w(2) show ?thesis
    by (fastforce simp: Public)
next
  case (Completed l i)
  let ?w = "record_word s l i"
  show ?thesis
  proof (cases "req_is_empty ?w \<or> req_is_pending ?w")
    case True
    with assms Completed show ?thesis by (intro exI [of _ "[]"]) (auto simp: check_record_def Let_def)
  next
    case False
    with assms Completed obtain e: "check_entry s l None (req_span ?w) ck = Some ck'" "n = 1" "sh_owner (g_hdr s (req_span ?w)) = OWNER_PUBLIC"
      by (auto simp: check_record_def Let_def bind_Some_iff)
    from check_entry_advances [OF e(1)] e False show ?thesis
      by (intro exI [of _ "[req_span ?w]"]) (simp add: Completed check_item_sound)
  qed
qed

lemma check_sources_lists:
  "check_sources s lim ys ck = Some (ns, ck') \<Longrightarrow> \<exists>xss. list_all2 (source_list s) ys xss \<and> ns = List.map length xss
     \<and> advances (base_addr (g_pool s)) ck (concat xss) (concat (List.map2 (\<lambda>y. ranges (source_lane y)) ys xss)) ck'"
proof (induction ys arbitrary: ck ns)
  case Nil
  then show ?case by simp
next
  case (Cons y ys)
  then obtain n ms ck1 where c: "check_source s lim y ck = Some (n, ck1)" "check_sources s lim ys ck1 = Some (ms, ck')" "ns = n # ms"
    by (auto simp: bind_Some_iff)
  from check_source_list [OF c(1)] obtain xs where xs: "source_list s y xs" "length xs = n"
    "advances (base_addr (g_pool s)) ck xs (ranges (source_lane y) xs) ck1" by blast
  from Cons.IH [OF c(2)] obtain xss where xss: "list_all2 (source_list s) ys xss" "ms = List.map length xss"
    "advances (base_addr (g_pool s)) ck1 (concat xss) (concat (List.map2 (\<lambda>y. ranges (source_lane y)) ys xss)) ck'" by blast
  show ?case
    using xs xss c(3) advances_trans [OF xs(3) xss(3)] by (intro exI [of _ "xs # xss"]) simp
qed

text \<open>Huge slots that pass, the range of a carved one, and all ranges the checker claims.\<close>

definition slot_sound :: "huge_slot \<Rightarrow> bool" where
  "slot_sound h \<longleftrightarrow> (if hs_base h = 0 then hs_state h = HUGE_SLOT_EMPTY
     else hs_state h = HUGE_SLOT_FREE \<or> hs_state h = HUGE_SLOT_ALLOCATED)"

definition slot_ranges :: "usize \<Rightarrow> shared \<Rightarrow> nat \<times> nat \<Rightarrow> (address \<times> nat) list" where
  "slot_ranges hg s ci = (if hs_base (slot_at s ci) = 0 then [] else [(hs_base (slot_at s ci), 2 ^ fst ci * unat hg)])"

definition claimed_ranges :: "usize \<Rightarrow> shared \<Rightarrow> source list \<Rightarrow> address list list \<Rightarrow> (address \<times> nat) list" where
  "claimed_ranges hg s ys xss = concat (List.map2 (\<lambda>y. ranges (source_lane y)) ys xss)
     @ concat (List.map (slot_ranges hg s) (huge_slots_from 0))"

lemma check_huge_slot_sound:
  assumes "check_huge_slot hg s ci ck = Some ck'"
  shows "slot_sound (slot_at s ci) \<and> advances (base_addr (g_pool s)) ck [] (slot_ranges hg s ci) ck'"
proof -
  have st: "HUGE_SLOT_FREE \<noteq> HUGE_SLOT_EMPTY" "HUGE_SLOT_ALLOCATED \<noteq> HUGE_SLOT_EMPTY"
    by (simp_all add: HUGE_SLOT_FREE_def HUGE_SLOT_EMPTY_def HUGE_SLOT_ALLOCATED_def)
  obtain c i where ci: "ci = (c, i)" by (cases ci)
  show ?thesis
    using assms st unfolding ci check_huge_slot_def Let_def slot_at_def slot_sound_def slot_ranges_def
    by (auto simp: bind_Some_iff claim_advances split: if_splits)
qed

lemma check_slots_sound:
  "check_slots hg s cis ck = Some ck' \<Longrightarrow> (\<forall>ci \<in> set cis. slot_sound (slot_at s ci))
     \<and> advances (base_addr (g_pool s)) ck [] (concat (List.map (slot_ranges hg s) cis)) ck'"
proof (induction cis arbitrary: ck)
  case (Cons ci cis)
  then obtain ck1 where c: "check_huge_slot hg s ci ck = Some ck1" "check_slots hg s cis ck1 = Some ck'"
    by (auto simp: bind_Some_iff)
  note h = check_huge_slot_sound [OF c(1)] and t = Cons.IH [OF c(2)]
  from h t advances_trans [OF conjunct2 [OF h] conjunct2 [OF t]] show ?case by simp
qed simp

lemma tally_total:
  "length ys = length ns \<Longrightarrow> tally is_private ys ns + tally is_public ys ns + tally is_completed ys ns = sum_list ns"
proof (induction ys ns rule: list_induct2)
  case (Cons y ys n ns)
  then show ?case by (cases y) simp_all
qed simp

text \<open>
  C16. When the checker does not panic, its answer means what its documentation says: every private list it walked is
  a proper list of the stated length whose spans and runs belong to the list's thread and class, with a duplicate-free
  free list of the counted length inside each span; every public list and every completed help
  record holds only well-formed, ownerless spans or runs; no span or run is in two places; the memory ranges of
  all of them and of all carved huge slots share no page; huge slots have memory exactly when they are not empty; and the three
  counts add up to the number of spans and runs found.
\<close>

theorem quiescent_check_sound:
  assumes "check_quiescent classes hg s = Some (nl, np, nh)"
  shows "\<exists>xss. list_all2 (source_list s) (sources classes (active_threads s)) xss
    \<and> distinct (concat xss) \<and> nl + np + nh = length (concat xss)
    \<and> (\<forall>ci \<in> set (huge_slots_from 0). slot_sound (slot_at s ci))
    \<and> (\<forall>i j. i < j \<longrightarrow> j < length (claimed_ranges hg s (sources classes (active_threads s)) xss) \<longrightarrow>
         pages_of (base_addr (g_pool s)) (claimed_ranges hg s (sources classes (active_threads s)) xss ! i)
         \<inter> pages_of (base_addr (g_pool s)) (claimed_ranges hg s (sources classes (active_threads s)) xss ! j) = {})"
proof -
  let ?ys = "sources classes (active_threads s)" and ?b = "base_addr (g_pool s)"
  obtain ns ck ck' where c: "check_sources s (unat (spans_total (g_pool s) + 1)) ?ys \<lparr>ck_seen = {}, ck_pages = {}\<rparr> = Some (ns, ck)"
    "check_slots hg s (huge_slots_from 0) ck = Some ck'"
    and n: "nl = tally is_private ?ys ns" "np = tally is_public ?ys ns" "nh = tally is_completed ?ys ns"
    using assms by (auto simp: check_quiescent_def Let_def bind_Some_iff)
  from check_sources_lists [OF c(1)] obtain xss where x: "list_all2 (source_list s) ?ys xss" "ns = List.map length xss"
    and a: "advances ?b \<lparr>ck_seen = {}, ck_pages = {}\<rparr> (concat xss) (concat (List.map2 (\<lambda>y. ranges (source_lane y)) ?ys xss)) ck"
    by blast
  note h = check_slots_sound [OF c(2)]
  from advances_trans [OF a conjunct2 [OF h]]
  have all: "distinct (concat xss)" "apart {} (List.map (pages_of ?b) (claimed_ranges hg s ?ys xss))"
    by (simp_all add: advances_def claimed_ranges_def)
  have "nl + np + nh = length (concat xss)"
    using tally_total [of ?ys ns] list_all2_lengthD [OF x(1)] by (simp add: n x(2) length_concat)
  moreover have "pages_of ?b (claimed_ranges hg s ?ys xss ! i) \<inter> pages_of ?b (claimed_ranges hg s ?ys xss ! j) = {}"
    if "i < j" "j < length (claimed_ranges hg s ?ys xss)" for i j
    using apart_nth [OF all(2) that(1)] that by simp
  ultimately show ?thesis using x(1) all(1) h by blast
qed

section \<open>Fresh allocators pass\<close>

lemma sources_lanes:
  "x \<in> set (sources classes n) \<Longrightarrow> \<exists>i l. i < n \<and> l \<in> set (lanes classes) \<and> (x = Private l i \<or> x = Public l i \<or> x = Completed l i)"
  by (auto simp: sources_def lanes_def)

lemma check_sources_none:
  "\<forall>x \<in> set ys. \<forall>ck. check_source s lim x ck = Some (0, ck) \<Longrightarrow> check_sources s lim ys ck = Some (List.map (\<lambda>_. 0) ys, ck)"
  by (induction ys) auto

lemma check_slots_none:
  "\<forall>ci \<in> set cis. hs_state (slot_at s ci) = HUGE_SLOT_EMPTY \<and> hs_base (slot_at s ci) = 0 \<Longrightarrow> check_slots hg s cis ck = Some ck"
  by (induction cis) (auto simp: check_huge_slot_def slot_at_def require_def Let_def split: prod.splits)

lemma tally_zero: "tally f ys (List.map (\<lambda>_. 0) ys) = 0"
  by (induction ys) auto

lemma fresh_accepted:
  assumes "0 < n" and "\<And>i l. i < n \<Longrightarrow> l \<in> set (lanes classes) \<Longrightarrow> dummy_at l i \<noteq> 0"
  shows "check_quiescent classes hg (init classes region len (from_uninit classes n dummy_at mem)) = Some (0, 0, 0)"
proof -
  define s where "s = init classes region len (from_uninit classes n dummy_at mem)"
  note e = init_allocator_empty [OF _ _ assms(2) s_def]
  have l0: "RunLane 0 \<in> set (lanes classes)" by (simp add: lanes_def wf_config)
  have act: "active_threads s = n" using e [OF assms(1) l0] assms(1) l0 by simp
  have "check_source s lim x ck = Some (0, ck)" if x: "x \<in> set (sources classes n)" for x lim ck
  proof -
    obtain i l where il: "i < n" "l \<in> set (lanes classes)" "x = Private l i \<or> x = Public l i \<or> x = Completed l i"
      using sources_lanes [OF x] by blast
    note e' = e [OF il(1,2) il(1,2)]
    have "list_front l i s = 0" "list_len l i s = 0" "hw_ptr (head_at s l i) = dummy_at l i" "dummy_at l i \<noteq> 0"
      "node_next s (dummy_at l i) = 0" "req_is_empty (record_word s l i)"
      using e' assms(2) [OF il(1,2)]
      by (auto simp: span_list_def list_front_def list_len_def public_rep_def public_nodes_def head_new_def req_is_empty_def req_empty_def)
    then show ?thesis
      using il(3) by (cases lim) (auto simp: check_local_list_def walk_public_list_def check_record_def require_def Let_def)
  qed
  moreover have "\<forall>ci \<in> set (huge_slots_from 0). hs_state (slot_at s ci) = HUGE_SLOT_EMPTY \<and> hs_base (slot_at s ci) = 0"
    using e [OF assms(1) l0 assms(1) l0] by auto
  ultimately show ?thesis
    unfolding s_def [symmetric] check_quiescent_def act Let_def
    by (simp add: check_sources_none check_slots_none tally_zero)
qed

lemma example_dummies: "i < 3 \<Longrightarrow> of_nat i * 16 + 8 \<noteq> (0 :: usize)"
  by (auto simp: less_Suc_eq numeral_3_eq_3)

theorem quiescent_check_sound_witness:
  "\<exists>s xss. check_quiescent 2 16384 s = Some (0, 0, 0) \<and> list_all2 (source_list s) (sources 2 (active_threads s)) xss
     \<and> concat xss = []"
proof -
  define s where "s = init 2 65536 1000000 (from_uninit 2 3 (\<lambda>l i. of_nat i * 16 + 8) zero_memory)"
  have e: "check_quiescent 2 16384 s = Some (0, 0, 0)"
    unfolding s_def by (rule fresh_accepted) (simp_all add: example_dummies)
  from quiescent_check_sound [OF e] obtain xss where
    "list_all2 (source_list s) (sources 2 (active_threads s)) xss" "0 + 0 + 0 = length (concat xss)" by blast
  with e show ?thesis by (metis add_0 length_0_conv)
qed

end
