(* ===== verification/Construction.thy ===== *)
theory Construction
  imports Allocator
begin

text \<open>
  The constructors of the allocator object (\<^verbatim>\<open>src/allocator.rs\<close>, \<^verbatim>\<open>src/metadata.rs\<close>, \<^verbatim>\<open>src/help_record.rs\<close>,
  \<^verbatim>\<open>src/huge.rs\<close>) on storage that is handed in, with their assertions: \<open>None\<close> is a panic, or code that does not compile when
  the const generics are out of range.  Storage of type \<^verbatim>\<open>MaybeUninit\<close> is a list of options.  The theorem ties them to \<open>from_uninit\<close>, the state
  from which the rest of the development starts.  The backing region of \<^verbatim>\<open>src/region.rs\<close> is here too.
\<close>

section \<open>Runtime slices\<close>

text \<open>A pointer to rows and a length; \<open>None\<close> is a row that is not initialised.\<close>

record 'a runtime_slice =
  rs_rows :: "'a option list"
  rs_len :: nat

definition slice_from_raw_parts :: "'a option list \<Rightarrow> nat \<Rightarrow> 'a runtime_slice" where
  "slice_from_raw_parts rows len = \<lparr>rs_rows = rows, rs_len = len\<rparr>"

definition slice_len :: "'a runtime_slice \<Rightarrow> nat" where
  "slice_len s = rs_len s"

definition slice_is_empty :: "'a runtime_slice \<Rightarrow> bool" where
  "slice_is_empty s \<longleftrightarrow> rs_len s = 0"

text \<open>\<^verbatim>\<open>as_slice\<close>; \<open>None\<close> where the contract of the constructor was broken.\<close>

definition as_slice :: "'a runtime_slice \<Rightarrow> 'a list option" where
  "as_slice s = (if rs_len s \<le> length (rs_rows s) \<and> None \<notin> set (take (rs_len s) (rs_rows s))
     then Some (List.map the (take (rs_len s) (rs_rows s))) else None)"

text \<open>The loops that write fresh rows.\<close>

fun write_rows :: "(nat \<Rightarrow> 'a) \<Rightarrow> nat list \<Rightarrow> 'a option list \<Rightarrow> 'a option list" where
  "write_rows row [] rows = rows"
| "write_rows row (i # is) rows = write_rows row is (rows[i := Some (row i)])"

lemma length_write_rows [simp]: "length (write_rows row is rows) = length rows"
  by (induction "is" arbitrary: rows) auto

lemma write_rows_nth:
  "j < length rows \<Longrightarrow> write_rows row is rows ! j = (if j \<in> set is then Some (row j) else rows ! j)"
  by (induction "is" arbitrary: rows) (auto simp: nth_list_update)

lemma write_rows_prefix:
  assumes "n \<le> length rows"
  shows "write_rows row [0..<n] rows = List.map (Some \<circ> row) [0..<n] @ drop n rows"
proof (rule nth_equalityI)
  show "length (write_rows row [0..<n] rows) = length (List.map (Some \<circ> row) [0..<n] @ drop n rows)" using assms by simp
  show "write_rows row [0..<n] rows ! j = (List.map (Some \<circ> row) [0..<n] @ drop n rows) ! j"
    if "j < length (write_rows row [0..<n] rows)" for j
    using that assms by (auto simp: write_rows_nth nth_append)
qed

lemma as_slice_prefix:
  "n \<le> length rows \<Longrightarrow> as_slice (slice_from_raw_parts (write_rows row [0..<n] rows) n) = Some (List.map row [0..<n])"
  by (auto simp: as_slice_def slice_from_raw_parts_def write_rows_prefix)

lemma slice_parts [simp]: "rs_rows (slice_from_raw_parts rows n) = rows" "slice_len (slice_from_raw_parts rows n) = n"
  by (simp_all add: slice_from_raw_parts_def slice_len_def)

lemma write_rows_rest: "n \<le> length rows \<Longrightarrow> drop n (write_rows row [0..<n] rows) = drop n rows"
  by (simp add: write_rows_prefix)

section \<open>Help tables and the huge arena\<close>

record help_table =
  ht_records :: "help_record list runtime_slice"
  ht_run_records :: "help_record list runtime_slice"

definition help_table_from_raw_parts :: "help_record list option list \<Rightarrow> help_record list option list \<Rightarrow> nat \<Rightarrow> help_table" where
  "help_table_from_raw_parts records run_records n =
     \<lparr>ht_records = slice_from_raw_parts records n, ht_run_records = slice_from_raw_parts run_records n\<rparr>"

definition help_table_from_uninit :: "nat \<Rightarrow> nat \<Rightarrow> help_record list option list \<Rightarrow> help_record list option list \<Rightarrow> help_table option" where
  "help_table_from_uninit classes n records run_records =
     (if \<not> n \<ge> 1 then None
      else if \<not> length records \<ge> n then None
      else if \<not> length run_records \<ge> n then None
      else
        let records = write_rows (\<lambda>_. replicate classes help_record_new) [0..<n] records;
            run_records = write_rows (\<lambda>_. replicate MAX_LARGE_RUN_CLASSES help_record_new) [0..<n] run_records
        in Some \<lparr>ht_records = slice_from_raw_parts records n, ht_run_records = slice_from_raw_parts run_records n\<rparr>)"

definition help_table_len :: "help_table \<Rightarrow> nat" where
  "help_table_len t = slice_len (ht_records t)"

definition help_table_is_empty :: "help_table \<Rightarrow> bool" where
  "help_table_is_empty t \<longleftrightarrow> slice_is_empty (ht_records t)"

definition huge_arena_new :: "huge_slot list list" where
  "huge_arena_new = replicate MAX_HUGE_RUN_CLASSES (replicate MAX_HUGE_RUNS_PER_CLASS huge_slot_new)"

section \<open>The allocator object\<close>

record allocator_object =
  ao_heaps :: "thread_heap runtime_slice"
  ao_help :: help_table
  ao_pool :: span_pool
  ao_registry :: thread_registry
  ao_stats :: allocator_stats
  ao_huge :: "huge_slot list list"

definition object_from_uninit :: "nat \<Rightarrow> usize \<Rightarrow> (lane \<Rightarrow> nat \<Rightarrow> address) \<Rightarrow> nat \<Rightarrow> thread_heap option list
    \<Rightarrow> help_record list option list \<Rightarrow> help_record list option list \<Rightarrow> allocator_object option" where
  "object_from_uninit classes hg dummy_at n heaps records run_records =
     (if \<not> allocator_valid classes hg then None
      else if \<not> n \<ge> 1 then None
      else if \<not> length heaps \<ge> n then None
      else
        let heaps = write_rows (\<lambda>i. thread_heap_new (\<lambda>l. dummy_at l i)) [0..<n] heaps
        in case help_table_from_uninit classes n records run_records of
             None \<Rightarrow> None
           | Some help \<Rightarrow> Some \<lparr>ao_heaps = slice_from_raw_parts heaps n, ao_help = help, ao_pool = pool_new,
               ao_registry = registry_new (of_nat n), ao_stats = stats_new, ao_huge = huge_arena_new\<rparr>)"

definition object_new :: "nat \<Rightarrow> usize \<Rightarrow> (lane \<Rightarrow> nat \<Rightarrow> address) \<Rightarrow> nat \<Rightarrow> allocator_object option" where
  "object_new classes hg dummy_at n =
     (if \<not> allocator_valid classes hg then None
      else if \<not> n \<ge> 1 then None
      else
        let heaps = replicate n None;
            records = replicate n None;
            run_records = replicate n None
        in object_from_uninit classes hg dummy_at n heaps records run_records)"

text \<open>The state that an object describes, in the rows and columns that exist.\<close>

definition describes :: "nat \<Rightarrow> nat \<Rightarrow> allocator_object \<Rightarrow> shared \<Rightarrow> bool" where
  "describes classes n ob s \<longleftrightarrow> as_slice (ao_heaps ob) = Some (List.map (g_heaps s) [0..<n])
     \<and> as_slice (ht_records (ao_help ob)) = Some (List.map (\<lambda>i. List.map (g_records s i) [0..<classes]) [0..<n])
     \<and> as_slice (ht_run_records (ao_help ob)) = Some (List.map (\<lambda>i. List.map (g_run_records s i) [0..<MAX_LARGE_RUN_CLASSES]) [0..<n])
     \<and> slice_len (ao_heaps ob) = g_active s \<and> help_table_len (ao_help ob) = g_active s
     \<and> ao_pool ob = g_pool s \<and> ao_registry ob = g_registry s \<and> ao_stats ob = g_stats s
     \<and> ao_huge ob = List.map (\<lambda>c. List.map (g_huge s c) [0..<MAX_HUGE_RUNS_PER_CLASS]) [0..<MAX_HUGE_RUN_CLASSES]"

lemma map_const: "List.map (\<lambda>_. x) [0..<n] = replicate n x"
  by (simp add: map_replicate_const)

lemma help_table_rows:
  assumes "1 \<le> n" "n \<le> length records" "n \<le> length run_records"
  obtains t where "help_table_from_uninit classes n records run_records = Some t" "help_table_len t = n"
    "as_slice (ht_records t) = Some (replicate n (replicate classes help_record_new))"
    "as_slice (ht_run_records t) = Some (replicate n (replicate MAX_LARGE_RUN_CLASSES help_record_new))"
    "drop n (rs_rows (ht_records t)) = drop n records" "drop n (rs_rows (ht_run_records t)) = drop n run_records"
proof -
  obtain t where t: "help_table_from_uninit classes n records run_records = Some t" using assms by (simp add: help_table_from_uninit_def)
  show ?thesis
  proof (rule that [OF t])
    show "help_table_len t = n" "drop n (rs_rows (ht_records t)) = drop n records" "drop n (rs_rows (ht_run_records t)) = drop n run_records"
      "as_slice (ht_records t) = Some (replicate n (replicate classes help_record_new))"
      "as_slice (ht_run_records t) = Some (replicate n (replicate MAX_LARGE_RUN_CLASSES help_record_new))"
      using t assms
      by (auto simp: help_table_from_uninit_def help_table_len_def as_slice_prefix map_const Let_def write_rows_rest)
  qed
qed

text \<open>
  C38. The constructors agree.  Building the allocator in storage that is handed in succeeds exactly when the const
  generics are in range, there is at least one thread and every slice has a row for each thread; it then initialises exactly the
  rows of those threads, leaves the rest of the storage as it was, and describes the state \<open>from_uninit\<close> gives.
  The hosted constructor succeeds for every positive number of threads and describes the same state.
\<close>

theorem constructors_agree:
  "(object_from_uninit classes hg dummy_at n heaps records run_records = None \<longleftrightarrow>
      \<not> (allocator_valid classes hg \<and> 1 \<le> n \<and> n \<le> length heaps \<and> n \<le> length records \<and> n \<le> length run_records))
   \<and> (object_new classes hg dummy_at n = None \<longleftrightarrow> \<not> (allocator_valid classes hg \<and> 1 \<le> n))
   \<and> (case object_from_uninit classes hg dummy_at n heaps records run_records of None \<Rightarrow> True
      | Some ob \<Rightarrow> describes classes n ob (from_uninit classes n dummy_at mem)
          \<and> drop n (rs_rows (ao_heaps ob)) = drop n heaps \<and> drop n (rs_rows (ht_records (ao_help ob))) = drop n records
          \<and> drop n (rs_rows (ht_run_records (ao_help ob))) = drop n run_records)
   \<and> (case object_new classes hg dummy_at n of None \<Rightarrow> True
      | Some ob \<Rightarrow> describes classes n ob (from_uninit classes n dummy_at mem))"
proof -
  let ?ok = "\<lambda>hs rs rrs. allocator_valid classes hg \<and> 1 \<le> n \<and> n \<le> length hs \<and> n \<le> length rs \<and> n \<le> length rrs"
  let ?f = "object_from_uninit classes hg dummy_at n"
  have bad: "?f hs rs rrs = None" if "\<not> ?ok hs rs rrs" for hs rs rrs
    using that by (auto simp: object_from_uninit_def help_table_from_uninit_def Let_def)
  have good: "\<exists>ob. ?f hs rs rrs = Some ob \<and> describes classes n ob (from_uninit classes n dummy_at mem)
      \<and> drop n (rs_rows (ao_heaps ob)) = drop n hs \<and> drop n (rs_rows (ht_records (ao_help ob))) = drop n rs
      \<and> drop n (rs_rows (ht_run_records (ao_help ob))) = drop n rrs" if "?ok hs rs rrs" for hs rs rrs
  proof -
    have ok: "?ok hs rs rrs" by (rule that)
    obtain t where t: "help_table_from_uninit classes n rs rrs = Some t" "help_table_len t = n"
      "as_slice (ht_records t) = Some (replicate n (replicate classes help_record_new))"
      "as_slice (ht_run_records t) = Some (replicate n (replicate MAX_LARGE_RUN_CLASSES help_record_new))"
      "drop n (rs_rows (ht_records t)) = drop n rs" "drop n (rs_rows (ht_run_records t)) = drop n rrs"
      by (rule help_table_rows [of n rs rrs classes]) (use ok in auto)
    with ok show ?thesis
      by (simp add: object_from_uninit_def describes_def as_slice_prefix write_rows_rest map_const huge_arena_new_def)
        (simp add: from_uninit_def map_const)
  qed
  have new: "object_new classes hg dummy_at n = (if allocator_valid classes hg \<and> 1 \<le> n
      then ?f (replicate n None) (replicate n None) (replicate n None) else None)"
    by (simp add: object_new_def)
  let ?N = "replicate n None"
  have "?f hs rs rrs = None \<longleftrightarrow> \<not> ?ok hs rs rrs" for hs rs rrs
    using bad [of hs rs rrs] good [of hs rs rrs] by (cases "?ok hs rs rrs") (metis option.distinct(1), metis)
  then have none: "?f heaps records run_records = None \<longleftrightarrow> \<not> ?ok heaps records run_records"
    "object_new classes hg dummy_at n = None \<longleftrightarrow> \<not> (allocator_valid classes hg \<and> 1 \<le> n)" unfolding new by simp_all
  have some: "describes classes n ob (from_uninit classes n dummy_at mem) \<and> drop n (rs_rows (ao_heaps ob)) = drop n hs
      \<and> drop n (rs_rows (ht_records (ao_help ob))) = drop n rs \<and> drop n (rs_rows (ht_run_records (ao_help ob))) = drop n rrs"
    if "?f hs rs rrs = Some ob" for hs rs rrs ob
    using good [of hs rs rrs] bad [of hs rs rrs] that by (cases "?ok hs rs rrs") (metis option.inject, metis option.distinct(1))
  have "describes classes n ob (from_uninit classes n dummy_at mem)" if "object_new classes hg dummy_at n = Some ob" for ob
    using that some [of ?N ?N ?N ob] unfolding new by (metis option.distinct(1))
  with none some [of heaps records run_records] show ?thesis by (simp only: split: option.split) blast
qed

section \<open>The backing region\<close>

text \<open>
  \<^verbatim>\<open>OwnedRegion\<close>: a buffer of whole spans from the system allocator, whose answer is an argument.  The product of
  sizes wraps, as it does without overflow checks.
\<close>

record owned_region =
  or_ptr :: address
  or_layout :: layout

definition owned_region_new :: "(layout \<Rightarrow> address) \<Rightarrow> usize \<Rightarrow> owned_region option" where
  "owned_region_new alloc_zeroed spans = do {
     layout \<leftarrow> from_size_align (spans * SPAN_SIZE) SPAN_ALIGN;
     let ptr = alloc_zeroed layout;
     if ptr = 0 then None else Some \<lparr>or_ptr = ptr, or_layout = layout\<rparr> }"

definition owned_region_len :: "owned_region \<Rightarrow> usize" where
  "owned_region_len r = lay_size (or_layout r)"

definition owned_region_is_empty :: "owned_region \<Rightarrow> bool" where
  "owned_region_is_empty r \<longleftrightarrow> lay_size (or_layout r) = 0"

text \<open>A region of \<open>k\<close> spans gives a pool of exactly \<open>k\<close> spans that starts where the region does.\<close>

lemma owned_region_pool:
  assumes r: "owned_region_new alloc_zeroed spans = Some r" "unat spans * 65536 < 2 ^ 64"
    and sys: "\<And>lay. alloc_zeroed lay \<noteq> 0 \<Longrightarrow> is_aligned (alloc_zeroed lay) (lay_align lay)
        \<and> unat (alloc_zeroed lay) + unat (lay_size lay) < 2 ^ 64"
  defines "p \<equiv> set_region (or_ptr r) (owned_region_len r) pool_new"
  shows "0 < spans \<Longrightarrow> pool_base p = or_ptr r \<and> pool_count p = spans"
    "unat (owned_region_len r) = unat spans * 65536"
proof -
  let ?lay = "\<lparr>lay_size = spans * SPAN_SIZE, lay_align = SPAN_ALIGN\<rparr>"
  have q: "or_ptr r = alloc_zeroed ?lay" "or_ptr r \<noteq> 0" "owned_region_len r = spans * SPAN_SIZE"
    using r(1) by (auto simp: owned_region_new_def bind_Some_iff from_size_align_Some owned_region_len_def Let_def split: if_splits)
  show len: "unat (owned_region_len r) = unat spans * 65536" unfolding q(3) using r(2) by (subst unat_mult_nowrap) (simp_all add: wf_config)
  have al: "65536 dvd unat (or_ptr r)" and e: "unat (or_ptr r) + unat (owned_region_len r) < 2 ^ 64"
    using sys [of ?lay] q by (simp_all add: span_aligned_iff)
  show "pool_base p = or_ptr r \<and> pool_count p = spans" if "0 < spans"
  proof -
    have one: "65536 \<le> unat spans * 65536" using that by (simp add: word_less_nat_alt)
    note u = set_region_unat [OF e, of pool_new, folded p_def]
    have "unat (or_ptr r) + 65536 \<le> 2 ^ 64" using e len one by linarith
    note u = u [OF this]
    from al obtain k where k: "unat (or_ptr r) = 65536 * k" by blast
    have "unat (pool_base p) = unat (or_ptr r)" unfolding u(1) k by simp
    moreover from this have "unat (pool_count p) = unat spans" unfolding u(2) len by simp
    ultimately show ?thesis by (simp add: word_eq_iff_unat)
  qed
qed

end
