(* ===== verification/Heap_Custody.thy ===== *)
theory Heap_Custody
  imports Span_Lists Helping_Ownership
begin

text \<open>
  Where every span and run of the heap is.  A cell (a span or a run) has a home lane and, at any time, one place: the
  private list of a thread, the public list of a thread, a completed help record, the hands of an
  acquisition, nowhere (a discarded span), or apart from all this (in use).  A list node is a node of one
  public list or in the keeping of one cell.  That places and uses are functions makes ownership exclusive; the
  invariant ties them to the lists, queues and records in memory.  The lemmas say how each list operation
  moves a cell.
\<close>

section \<open>Places\<close>

datatype place = InList nat | InQueue nat | InRecord nat | Carried | Loose | Apart

datatype node_use = Unused | Listed lane nat | HeldBy address

record custody =
  cu_home :: "address \<Rightarrow> lane option"
  cu_at :: "address \<Rightarrow> place"
  cu_use :: "address \<Rightarrow> node_use"

text \<open>The owner word that a place prescribes.\<close>

fun place_owner :: "place \<Rightarrow> usize option" where
  "place_owner (InList i) = Some (of_nat i)"
| "place_owner (InQueue i) = Some OWNER_PUBLIC"
| "place_owner (InRecord i) = Some OWNER_PUBLIC"
| "place_owner Carried = Some OWNER_PUBLIC"
| "place_owner Loose = Some OWNER_NONE"
| "place_owner Apart = None"

fun place_index :: "place \<Rightarrow> nat option" where
  "place_index (InList i) = Some i"
| "place_index (InQueue i) = Some i"
| "place_index (InRecord i) = Some i"
| "place_index _ = None"

definition queued :: "place \<Rightarrow> bool" where
  "queued p \<longleftrightarrow> (\<exists>i. p = InQueue i)"

lemma queued_simps [simp]:
  "queued (InQueue i)" "\<not> queued (InList i)" "\<not> queued (InRecord i)" "\<not> queued Carried" "\<not> queued Loose" "\<not> queued Apart"
  by (simp_all add: queued_def)

definition cells_at :: "custody \<Rightarrow> lane \<Rightarrow> place \<Rightarrow> address set" where
  "cells_at k l p = {x. cu_home k x = Some l \<and> cu_at k x = p}"

definition nodes_at :: "custody \<Rightarrow> lane \<Rightarrow> nat \<Rightarrow> address set" where
  "nodes_at k l i = {a. cu_use k a = Listed l i}"

section \<open>The invariant\<close>

definition lists_ok :: "nat \<Rightarrow> lane set \<Rightarrow> (lane \<Rightarrow> nat \<Rightarrow> address set) \<Rightarrow> shared \<Rightarrow> bool" where
  "lists_ok n L H s \<longleftrightarrow> (\<forall>l \<in> L. \<forall>i < n. \<exists>xs. span_list l i s xs \<and> set xs = H l i)"

definition queues_ok :: "nat \<Rightarrow> lane set \<Rightarrow> (lane \<Rightarrow> nat \<Rightarrow> address set) \<Rightarrow> (lane \<Rightarrow> nat \<Rightarrow> address set) \<Rightarrow> shared \<Rightarrow> bool" where
  "queues_ok n L U H s \<longleftrightarrow>
     (\<forall>l \<in> L. \<forall>i < n. \<exists>ns xs. public_rep l i ns s xs \<and> distinct xs \<and> set xs = H l i \<and> set ns = U l i)"

definition records_ok :: "nat \<Rightarrow> lane set \<Rightarrow> (lane \<Rightarrow> nat \<Rightarrow> address set) \<Rightarrow> shared \<Rightarrow> bool" where
  "records_ok n L H s \<longleftrightarrow> (\<forall>l \<in> L. \<forall>i < n. set_mset (record_bag (record_word s l i)) = H l i)"

definition cell_ok :: "nat \<Rightarrow> lane set \<Rightarrow> custody \<Rightarrow> shared \<Rightarrow> address \<Rightarrow> lane \<Rightarrow> bool" where
  "cell_ok n L k s x l \<longleftrightarrow> l \<in> L \<and> span_base x \<and> (\<forall>i. place_index (cu_at k x) = Some i \<longrightarrow> i < n)
     \<and> (\<forall>v. place_owner (cu_at k x) = Some v \<longrightarrow> sh_owner (g_hdr s x) = v)
     \<and> (\<not> queued (cu_at k x) \<longrightarrow> sh_node (g_hdr s x) \<noteq> 0 \<and> cu_use k (sh_node (g_hdr s x)) = HeldBy x)"

definition in_custody :: "nat \<Rightarrow> lane set \<Rightarrow> custody \<Rightarrow> shared \<Rightarrow> bool" where
  "in_custody n L k s \<longleftrightarrow> lists_ok n L (\<lambda>l i. cells_at k l (InList i)) s
     \<and> queues_ok n L (nodes_at k) (\<lambda>l i. cells_at k l (InQueue i)) s
     \<and> records_ok n L (\<lambda>l i. cells_at k l (InRecord i)) s
     \<and> (\<forall>x l. cu_home k x = Some l \<longrightarrow> cell_ok n L k s x l)"

lemma custody_cell: "in_custody n L k s \<Longrightarrow> cu_home k x = Some l \<Longrightarrow> cell_ok n L k s x l"
  by (simp add: in_custody_def)

lemma custody_nonnull: "in_custody n L k s \<Longrightarrow> cu_home k x = Some l \<Longrightarrow> x \<noteq> 0 \<and> even (unat x)"
proof -
  assume "in_custody n L k s" "cu_home k x = Some l"
  then have "span_base x" using custody_cell by (auto simp: cell_ok_def)
  moreover have "even (65536 :: nat)" by simp
  ultimately show ?thesis unfolding span_base_def using dvd_trans by blast
qed

section \<open>Frames\<close>

text \<open>What the invariant reads of a state.\<close>

definition same_custody :: "shared \<Rightarrow> shared \<Rightarrow> bool" where
  "same_custody s t \<longleftrightarrow> local_list t = local_list s \<and> public_list t = public_list s \<and> record_word t = record_word s
     \<and> next_local t = next_local s \<and> g_node t = g_node s
     \<and> (\<forall>x. sh_owner (g_hdr t x) = sh_owner (g_hdr s x) \<and> sh_node (g_hdr t x) = sh_node (g_hdr s x))"

lemma same_custody_refl [simp]: "same_custody s s"
  by (simp add: same_custody_def)

lemma same_custody_trans: "same_custody s t \<Longrightarrow> same_custody t u \<Longrightarrow> same_custody s u"
  by (simp add: same_custody_def)

lemma public_rep_cong:
  assumes "public_list t l i = public_list s l i" "\<And>a. a \<in> set ns \<Longrightarrow> g_node t a = g_node s a"
  shows "public_rep l i ns t xs = public_rep l i ns s xs"
proof -
  have "chain (node_next t) p ns 0 = chain (node_next s) p ns 0" for p
    by (rule chain_cong) (simp add: node_next_def assms(2))
  moreover have m: "List.map (\<lambda>a. nd_span (g_node t a)) (tl ns) = List.map (\<lambda>a. nd_span (g_node s a)) (tl ns)"
    using assms(2) by (cases ns) auto
  ultimately show ?thesis by (simp only: public_rep_def public_nodes_def head_at_def assms(1) m)
qed

lemma span_list_cong:
  assumes "local_list t l i = local_list s l i" "\<And>a. a \<in> set xs \<Longrightarrow> next_local t a = next_local s a"
  shows "span_list l i t xs = span_list l i s xs"
proof -
  have "chain (next_local t) p xs 0 = chain (next_local s) p xs 0" for p
    by (rule chain_cong) (simp add: assms(2))
  then show ?thesis by (simp add: span_list_def assms(1))
qed

lemma custody_frame:
  assumes "same_custody s t"
  shows "in_custody n L k t = in_custody n L k s"
proof -
  have s: "span_list l i t xs = span_list l i s xs" "public_rep l i ns t xs = public_rep l i ns s xs" for l i ns xs
    using assms by (auto simp: same_custody_def intro!: span_list_cong public_rep_cong)
  have "lists_ok n L H t = lists_ok n L H s" "queues_ok n L U H t = queues_ok n L U H s"
    "records_ok n L H t = records_ok n L H s" "cell_ok n L k t x l = cell_ok n L k s x l" for H U x l
    using assms by (simp_all add: lists_ok_def queues_ok_def records_ok_def cell_ok_def s same_custody_def)
  then show ?thesis by (simp add: in_custody_def)
qed

section \<open>Changing one list\<close>

text \<open>An operation on one private list, one public list, one record: the others are as they were.\<close>

lemma lists_at:
  assumes "lists_ok n L H s" "l \<in> L" "i < n"
    and "\<And>xs. span_list l i s xs \<Longrightarrow> set xs = H l i \<Longrightarrow> \<exists>ys. span_list l i t ys \<and> set ys = X"
    and "\<And>l' j. (l', j) \<noteq> (l, i) \<Longrightarrow> local_list t l' j = local_list s l' j"
    and "\<And>l' j a. (l', j) \<noteq> (l, i) \<Longrightarrow> a \<in> H l' j \<Longrightarrow> next_local t a = next_local s a"
  shows "lists_ok n L (H(l := (H l)(i := X))) t"
  unfolding lists_ok_def
proof (intro ballI allI impI)
  fix l' j assume lj: "l' \<in> L" "j < n"
  then obtain xs where xs: "span_list l' j s xs" "set xs = H l' j"
    using assms(1) unfolding lists_ok_def by blast
  show "\<exists>xs. span_list l' j t xs \<and> set xs = (H(l := (H l)(i := X))) l' j"
  proof (cases "(l', j) = (l, i)")
    case True
    with xs assms(4) show ?thesis by auto
  next
    case False
    then have "span_list l' j t xs" using xs assms(5,6) by (subst span_list_cong [of t l' j s]) auto
    with False xs(2) show ?thesis by auto
  qed
qed

lemma queues_at:
  assumes "queues_ok n L U H s" "l \<in> L" "i < n"
    and "\<And>ns xs. public_rep l i ns s xs \<Longrightarrow> distinct xs \<Longrightarrow> set xs = H l i \<Longrightarrow> set ns = U l i \<Longrightarrow>
      \<exists>ms ys. public_rep l i ms t ys \<and> distinct ys \<and> set ys = X \<and> set ms = V"
    and "\<And>l' j. (l', j) \<noteq> (l, i) \<Longrightarrow> public_list t l' j = public_list s l' j"
    and "\<And>l' j a. (l', j) \<noteq> (l, i) \<Longrightarrow> a \<in> U l' j \<Longrightarrow> g_node t a = g_node s a"
  shows "queues_ok n L (U(l := (U l)(i := V))) (H(l := (H l)(i := X))) t"
  unfolding queues_ok_def
proof (intro ballI allI impI)
  fix l' j assume lj: "l' \<in> L" "j < n"
  then obtain ns xs where xs: "public_rep l' j ns s xs" "distinct xs" "set xs = H l' j" "set ns = U l' j"
    using assms(1) unfolding queues_ok_def by meson
  show "\<exists>ns xs. public_rep l' j ns t xs \<and> distinct xs \<and> set xs = (H(l := (H l)(i := X))) l' j
      \<and> set ns = (U(l := (U l)(i := V))) l' j"
  proof (cases "(l', j) = (l, i)")
    case True
    with xs assms(4) show ?thesis by simp
  next
    case False
    then have "public_rep l' j ns t xs" using xs assms(5,6) by (subst public_rep_cong [of t l' j s]) auto
    with False xs show ?thesis by auto
  qed
qed

lemma records_at:
  "records_ok n L H s \<Longrightarrow> set_mset (record_bag v) = X \<Longrightarrow>
     records_ok n L (H(l := (H l)(i := X))) (set_record_word l i v s)"
  by (auto simp: records_ok_def)

lemma components_cong:
  "local_list t = local_list s \<Longrightarrow> next_local t = next_local s \<Longrightarrow> lists_ok n L H t = lists_ok n L H s"
  "public_list t = public_list s \<Longrightarrow> g_node t = g_node s \<Longrightarrow> queues_ok n L U H t = queues_ok n L U H s"
  "record_word t = record_word s \<Longrightarrow> records_ok n L H t = records_ok n L H s"
  by (simp_all add: lists_ok_def queues_ok_def records_ok_def span_list_cong [of t _ _ s] public_rep_cong [of t _ _ s])

section \<open>Moving a cell\<close>

definition move :: "address \<Rightarrow> place \<Rightarrow> custody \<Rightarrow> custody" where
  "move x p k = k\<lparr>cu_at := (cu_at k)(x := p)\<rparr>"

definition use_node :: "address \<Rightarrow> node_use \<Rightarrow> custody \<Rightarrow> custody" where
  "use_node a u k = k\<lparr>cu_use := (cu_use k)(a := u)\<rparr>"

lemma move_simps [simp]:
  "cu_home (move x p k) = cu_home k" "cu_use (move x p k) = cu_use k" "cu_at (move x p k) = (cu_at k)(x := p)"
  "cu_home (use_node a u k) = cu_home k" "cu_at (use_node a u k) = cu_at k" "cu_use (use_node a u k) = (cu_use k)(a := u)"
  "nodes_at (move x p k) = nodes_at k" "cells_at (use_node a u k) = cells_at k"
  by (auto simp: move_def use_node_def nodes_at_def cells_at_def fun_eq_iff)

lemma cells_at_move:
  "cells_at (move x p k) l q = (if p = q \<and> cu_home k x = Some l then insert x (cells_at k l q)
     else if cu_at k x = q \<and> p \<noteq> q then cells_at k l q - {x} else cells_at k l q)"
  by (auto simp: cells_at_def)

lemma cells_enter:
  assumes "cu_home k x = Some l" "\<And>j. cu_at k x \<noteq> P j" "inj P"
  shows "(\<lambda>l' j. cells_at (move x (P i) k) l' (P j))
     = (\<lambda>l' j. cells_at k l' (P j))(l := (\<lambda>j. cells_at k l (P j))(i := insert x (cells_at k l (P i))))"
  using assms by (auto simp: cells_at_def fun_eq_iff inj_eq)

lemma cells_leave:
  assumes "cu_home k x = Some l" "cu_at k x = P i" "inj P" "\<And>j. p \<noteq> P j"
  shows "(\<lambda>l' j. cells_at (move x p k) l' (P j))
     = (\<lambda>l' j. cells_at k l' (P j))(l := (\<lambda>j. cells_at k l (P j))(i := cells_at k l (P i) - {x}))"
  using assms by (auto simp: cells_at_def fun_eq_iff inj_eq)

lemma cells_aside:
  assumes "\<And>j. cu_at k x \<noteq> P j" "\<And>j. p \<noteq> P j"
  shows "(\<lambda>l' j. cells_at (move x p k) l' (P j)) = (\<lambda>l' j. cells_at k l' (P j))"
  using assms by (auto simp: cells_at_def fun_eq_iff)

lemma place_inj [simp]: "inj InList" "inj InQueue" "inj InRecord"
  by (auto intro: injI)

section \<open>Private lists\<close>

text \<open>An operation that touches nothing but one private list and the links of its cells.\<close>

definition lists_only :: "lane \<Rightarrow> nat \<Rightarrow> shared \<Rightarrow> shared \<Rightarrow> bool" where
  "lists_only l i s t \<longleftrightarrow> (\<forall>l' j. (l', j) \<noteq> (l, i) \<longrightarrow> local_list t l' j = local_list s l' j)
     \<and> public_list t = public_list s \<and> g_node t = g_node s \<and> record_word t = record_word s
     \<and> (\<forall>x. sh_owner (g_hdr t x) = sh_owner (g_hdr s x) \<and> sh_node (g_hdr t x) = sh_node (g_hdr s x))"

lemma lists_only_ops:
  "lists_only l i s (push_front l i x s)" "lists_only l i s (push_back l i x s)" "lists_only l i s (snd (pop_front l i s))"
  by (auto simp: lists_only_def push_front_def push_back_def pop_front_def Let_def set_next_local_def record_word_def fun_eq_iff)

lemma lists_only_remove: "lists_only l i s (snd (remove_bounded l i x k s))"
proof -
  have "lists_only l i s (snd (remove_loop k l i x prev cur s))" for prev cur
    by (induction k arbitrary: prev cur)
      (auto simp: lists_only_def Let_def set_next_local_def record_word_def fun_eq_iff)
  then show ?thesis by (simp add: remove_bounded_def)
qed

text \<open>Which links change.\<close>

lemma next_local_push_front: "next_local (push_front l i x s) = (next_local s)(x := ls_head (local_list s l i))"
  by (auto simp: push_front_def Let_def)

lemma next_local_push_back:
  assumes "span_list l i s xs" "a \<notin> set xs" "a \<noteq> x" "a \<noteq> 0"
  shows "next_local (push_back l i x s) a = next_local s a"
proof -
  have "a \<noteq> ls_tail (local_list s l i)" using assms by (auto simp: span_list_def split: if_splits)
  with assms(3) show ?thesis by (auto simp: push_back_def Let_def)
qed

lemma next_local_pop_front: "next_local (snd (pop_front l i s)) = next_local s"
  by (auto simp: pop_front_def Let_def)

lemma next_local_remove:
  assumes "span_list l i s xs" "a \<notin> set xs" "a \<noteq> 0"
  shows "next_local (snd (remove_bounded l i x k s)) a = next_local s a"
proof -
  have "a \<noteq> prev \<Longrightarrow> a \<notin> set zs \<Longrightarrow> chain (next_local s) cur zs 0 \<Longrightarrow>
      next_local (snd (remove_loop k l i x prev cur s)) a = next_local s a" for prev zs cur
  proof (induction k arbitrary: prev cur zs)
    case (Suc k)
    then show ?case by (cases zs) (auto simp: Let_def)
  qed simp
  with assms show ?thesis by (auto simp: remove_bounded_def span_list_def)
qed

text \<open>A cell enters a private list, and leaves it.\<close>

lemma cells_ok_move:
  assumes "\<forall>y l'. cu_home k y = Some l' \<longrightarrow> cell_ok n L k s y l'"
    and "\<And>y. sh_owner (g_hdr t y) = sh_owner (g_hdr s y)" "\<And>y. sh_node (g_hdr t y) = sh_node (g_hdr s y)"
    and "\<And>i. place_index p = Some i \<Longrightarrow> i < n" "\<And>v. place_owner p = Some v \<Longrightarrow> sh_owner (g_hdr s x) = v"
    and "\<not> queued (cu_at k x)"
  shows "\<forall>y l'. cu_home (move x p k) y = Some l' \<longrightarrow> cell_ok n L (move x p k) t y l'"
  using assms by (auto simp: cell_ok_def)

lemma custody_list:
  assumes k: "in_custody n L k s" "cu_home k x = Some l" "i < n"
  obtains xs where "span_list l i s xs" "set xs = cells_at k l (InList i)" "l \<in> L" "x \<noteq> 0"
    "\<And>l' j a. (l', j) \<noteq> (l, i) \<Longrightarrow> a \<in> cells_at k l' (InList j) \<Longrightarrow> a \<notin> set xs \<and> a \<noteq> 0"
proof -
  have x: "x \<noteq> 0" "l \<in> L" using custody_nonnull [OF k(1,2)] custody_cell [OF k(1,2)] by (auto simp: cell_ok_def)
  then obtain xs where xs: "span_list l i s xs" "set xs = cells_at k l (InList i)"
    using k(1,3) unfolding in_custody_def lists_ok_def by blast
  show ?thesis
  proof (rule that [OF xs x(2,1)])
    fix l' j a assume "(l', j) \<noteq> (l, i)" "a \<in> cells_at k l' (InList j)"
    then show "a \<notin> set xs \<and> a \<noteq> 0"
      unfolding xs(2) using custody_nonnull [OF k(1), of a l'] by (auto simp: cells_at_def)
  qed
qed

lemma custody_lists_only:
  assumes "in_custody n L k s" "lists_only l i s t"
    and "lists_ok n L (\<lambda>l i. cells_at (move x p k) l (InList i)) t"
    and "\<And>j. cu_at k x \<noteq> InQueue j \<and> cu_at k x \<noteq> InRecord j \<and> p \<noteq> InQueue j \<and> p \<noteq> InRecord j"
    and "\<And>i. place_index p = Some i \<Longrightarrow> i < n" "\<And>v. place_owner p = Some v \<Longrightarrow> sh_owner (g_hdr s x) = v"
  shows "in_custody n L (move x p k) t"
proof -
  have t: "public_list t = public_list s" "g_node t = g_node s" "record_word t = record_word s"
    "\<And>y. sh_owner (g_hdr t y) = sh_owner (g_hdr s y)" "\<And>y. sh_node (g_hdr t y) = sh_node (g_hdr s y)"
    using assms(2) by (simp_all add: lists_only_def)
  have "queues_ok n L (nodes_at k) (\<lambda>l i. cells_at k l (InQueue i)) t" "records_ok n L (\<lambda>l i. cells_at k l (InRecord i)) t"
    using assms(1) t by (simp_all add: in_custody_def components_cong(2,3) [of t s])
  moreover have "\<forall>y l'. cu_home (move x p k) y = Some l' \<longrightarrow> cell_ok n L (move x p k) t y l'"
    by (rule cells_ok_move) (use assms(1,4-) t in \<open>auto simp: in_custody_def queued_def\<close>)
  ultimately show ?thesis using assms(3,4) by (simp add: in_custody_def cells_aside)
qed

lemma custody_enter_list:
  assumes k: "in_custody n L k s" "cu_home k x = Some l" "cu_at k x = Apart" "i < n" "sh_owner (g_hdr s x) = of_nat i"
    and t: "lists_only l i s t"
    and enter: "\<And>xs. span_list l i s xs \<Longrightarrow> x \<notin> set xs \<Longrightarrow> x \<noteq> 0 \<Longrightarrow> \<exists>ys. span_list l i t ys \<and> set ys = insert x (set xs)"
    and links: "\<And>xs a. span_list l i s xs \<Longrightarrow> a \<notin> set xs \<Longrightarrow> a \<noteq> x \<Longrightarrow> a \<noteq> 0 \<Longrightarrow> next_local t a = next_local s a"
  shows "in_custody n L (move x (InList i) k) t"
proof (rule custody_lists_only [OF k(1) t])
  obtain xs where xs: "span_list l i s xs" "set xs = cells_at k l (InList i)" "l \<in> L" "x \<noteq> 0"
    "\<And>l' j a. (l', j) \<noteq> (l, i) \<Longrightarrow> a \<in> cells_at k l' (InList j) \<Longrightarrow> a \<notin> set xs \<and> a \<noteq> 0"
    using custody_list [OF k(1,2,4)] by metis
  let ?H = "\<lambda>l' j. cells_at k l' (InList j)"
  have out: "x \<notin> ?H l' j" for l' j using k(3) by (simp add: cells_at_def)
  have "lists_ok n L (?H(l := (?H l)(i := insert x (?H l i)))) t"
  proof (rule lists_at [where s = s])
    show "\<exists>ys. span_list l i t ys \<and> set ys = insert x (?H l i)" if "span_list l i s zs" "set zs = ?H l i" for zs
      using enter [OF that(1)] out [of l i] xs(4) unfolding that(2) by simp
    show "next_local t a = next_local s a" if "(l', j) \<noteq> (l, i)" "a \<in> ?H l' j" for l' j a
      using xs(5) [OF that] links [OF xs(1), of a] that out [of l' j] by auto
  qed (use k t xs(3) in \<open>auto simp: in_custody_def lists_only_def\<close>)
  then show "lists_ok n L (\<lambda>l' j. cells_at (move x (InList i) k) l' (InList j)) t"
    using k(2,3) by (subst cells_enter) simp_all
qed (use k in auto)

lemma custody_leave_list:
  assumes k: "in_custody n L k s" "cu_home k x = Some l" "cu_at k x = InList i" "i < n"
    and t: "lists_only l i s t"
    and leave: "\<And>xs. span_list l i s xs \<Longrightarrow> x \<in> set xs \<Longrightarrow> \<exists>ys. span_list l i t ys \<and> set ys = set xs - {x}"
    and links: "\<And>xs a. span_list l i s xs \<Longrightarrow> a \<notin> set xs \<Longrightarrow> a \<noteq> 0 \<Longrightarrow> next_local t a = next_local s a"
  shows "in_custody n L (move x Apart k) t"
proof (rule custody_lists_only [OF k(1) t])
  obtain xs where xs: "span_list l i s xs" "set xs = cells_at k l (InList i)" "l \<in> L" "x \<noteq> 0"
    "\<And>l' j a. (l', j) \<noteq> (l, i) \<Longrightarrow> a \<in> cells_at k l' (InList j) \<Longrightarrow> a \<notin> set xs \<and> a \<noteq> 0"
    using custody_list [OF k(1,2,4)] by metis
  let ?H = "\<lambda>l' j. cells_at k l' (InList j)"
  have "\<exists>ys. span_list l i t ys \<and> set ys = ?H l i - {x}" if "span_list l i s zs" "set zs = ?H l i" for zs
    using leave [OF that(1)] k(2,3) unfolding that(2) by (simp add: cells_at_def)
  then have "lists_ok n L (?H(l := (?H l)(i := ?H l i - {x}))) t"
    using k t xs(3) xs(5) links [OF xs(1)]
    by (intro lists_at [where s = s]) (auto simp: in_custody_def lists_only_def)
  then show "lists_ok n L (\<lambda>l' j. cells_at (move x Apart k) l' (InList j)) t"
    using k(2,3) by (subst cells_leave) simp_all
qed (use k in auto)

lemma custody_push:
  assumes "in_custody n L k s" "cu_home k x = Some l" "cu_at k x = Apart" "i < n" "sh_owner (g_hdr s x) = of_nat i"
  shows "in_custody n L (move x (InList i) k) (push_front l i x s)" "in_custody n L (move x (InList i) k) (push_back l i x s)"
proof -
  show "in_custody n L (move x (InList i) k) (push_front l i x s)"
    by (rule custody_enter_list [OF assms lists_only_ops(1)])
      (auto simp: next_local_push_front intro!: exI [of _ "x # _"] span_list_push_front)
  show "in_custody n L (move x (InList i) k) (push_back l i x s)"
    by (rule custody_enter_list [OF assms lists_only_ops(2)])
      (auto simp: next_local_push_back intro!: exI [of _ "_ @ [x]"] span_list_push_back)
qed

lemma custody_pop_front:
  assumes "in_custody n L k s" "cu_home k x = Some l" "cu_at k x = InList i" "i < n" "list_front l i s = x"
  shows "in_custody n L (move x Apart k) (snd (pop_front l i s))"
proof (rule custody_leave_list [OF assms(1-4) lists_only_ops(3)])
  fix xs assume xs: "span_list l i s xs" "x \<in> set xs"
  with assms(5) span_deque.rep_front [OF xs(1)] obtain ys where ys: "xs = x # ys" by (cases xs) auto
  with xs span_list_pop_front [of l i s x ys] span_deque.rep_proper [OF xs(1)]
  show "\<exists>zs. span_list l i (snd (pop_front l i s)) zs \<and> set zs = set xs - {x}"
    by (intro exI [of _ ys]) auto
qed (simp add: next_local_pop_front)

lemma span_list_length: "span_list l i s xs \<Longrightarrow> length xs < 2 ^ 64"
proof -
  assume "span_list l i s xs"
  then have d: "distinct xs" "0 \<notin> set xs" using span_deque.rep_proper by auto
  then have "length xs = card (set xs)" "set xs \<subseteq> UNIV - {0}" by (auto simp: distinct_card)
  then have "length xs \<le> card (UNIV - {0 :: address})" by (metis card_mono finite)
  then show ?thesis by (simp add: card_Diff_singleton card_word)
qed

lemma custody_remove:
  assumes "in_custody n L k s" "cu_home k x = Some l" "cu_at k x = InList i" "i < n" "unat (list_len l i s) \<le> m"
  shows "fst (remove_bounded l i x m s)" "in_custody n L (move x Apart k) (snd (remove_bounded l i x m s))"
proof -
  have len: "length xs \<le> m" if "span_list l i s xs" for xs
    using assms(5) span_list_length [OF that] that by (simp add: span_list_def list_len_def unat_of_nat_small)
  obtain xs where xs: "span_list l i s xs" "x \<in> set xs"
    using custody_list [OF assms(1,2,4)] assms(2,3) by (metis (mono_tags, lifting) cells_at_def mem_Collect_eq)
  then show "fst (remove_bounded l i x m s)" using span_deque.remove_found len by blast
  show "in_custody n L (move x Apart k) (snd (remove_bounded l i x m s))"
  proof (rule custody_leave_list [OF assms(1-4) lists_only_remove])
    fix ys assume "span_list l i s ys" "x \<in> set ys"
    then show "\<exists>zs. span_list l i (snd (remove_bounded l i x m s)) zs \<and> set zs = set ys - {x}"
      using span_deque.remove_found [OF _ _ len] span_deque.rep_proper
      by (metis set_remove1_eq)
  qed (simp add: next_local_remove)
qed

section \<open>Public lists\<close>

lemma custody_queue:
  assumes "in_custody n L k s" "l \<in> L" "i < n"
  obtains ns xs where "public_rep l i ns s xs" "distinct xs" "set xs = cells_at k l (InQueue i)" "set ns = nodes_at k l i"
  using assms unfolding in_custody_def queues_ok_def by meson

lemma enqueued_reads:
  "next_local (enqueued l i x s) = next_local s" "local_list (enqueued l i x s) = local_list s"
  "record_word (enqueued l i x s) = record_word s" "sh_owner (g_hdr (enqueued l i x s) a) = sh_owner (g_hdr s a)"
  "a \<noteq> x \<Longrightarrow> sh_node (g_hdr (enqueued l i x s) a) = sh_node (g_hdr s a)"
  "(l', j) \<noteq> (l, i) \<Longrightarrow> public_list (enqueued l i x s) l' j = public_list s l' j"
  "a \<noteq> sh_node (g_hdr s x) \<Longrightarrow> a \<noteq> sl_tail (public_list s l i) \<Longrightarrow> g_node (enqueued l i x s) a = g_node s a"
  by (auto simp: enqueued_def Let_def next_local_def record_word_def fun_eq_iff)

lemma custody_enqueue:
  assumes k: "in_custody n L k s" "cu_home k x = Some l" "cu_at k x = Apart" "i < n" "sh_owner (g_hdr s x) = OWNER_PUBLIC"
  shows "in_custody n L (use_node (sh_node (g_hdr s x)) (Listed l i) (move x (InQueue i) k)) (enqueued l i x s)"
proof -
  let ?m = "sh_node (g_hdr s x)" and ?t = "enqueued l i x s"
  let ?k = "use_node ?m (Listed l i) (move x (InQueue i) k)"
  let ?Q = "\<lambda>l' j. cells_at k l' (InQueue j)"
  have x: "x \<noteq> 0" "l \<in> L" "?m \<noteq> 0" "cu_use k ?m = HeldBy x"
    using custody_nonnull [OF k(1,2)] custody_cell [OF k(1,2)] k(3) by (simp_all add: cell_ok_def)
  have "queues_ok n L ((nodes_at k)(l := (nodes_at k l)(i := insert ?m (nodes_at k l i))))
      (?Q(l := (?Q l)(i := insert x (?Q l i)))) ?t"
  proof (rule queues_at [where s = s])
    fix ns xs assume r: "public_rep l i ns s xs" "distinct xs" "set xs = ?Q l i" "set ns = nodes_at k l i"
    have "?m \<notin> set ns" "x \<notin> set xs" using x(4) k(3) r(3,4) by (auto simp: nodes_at_def cells_at_def)
    with r x enqueued_rep [OF r(1), of x ?m]
    show "\<exists>ms ys. public_rep l i ms ?t ys \<and> distinct ys \<and> set ys = insert x (?Q l i) \<and> set ms = insert ?m (nodes_at k l i)"
      by (intro exI [of _ "ns @ [?m]"] exI [of _ "xs @ [x]"]) auto
  next
    fix l' j a assume o: "(l', j) \<noteq> (l, i)" "a \<in> nodes_at k l' j"
    obtain ns xs where "public_rep l i ns s xs" "set ns = nodes_at k l i" by (rule custody_queue [OF k(1) x(2) k(4)])
    then have "sl_tail (public_list s l i) \<in> nodes_at k l i"
      by (metis last_in_set public_rep_def public_nodes_def)
    then show "g_node ?t a = g_node s a"
      using o x(4) by (intro enqueued_reads(7)) (auto simp: nodes_at_def)
  qed (use k x in \<open>auto simp: in_custody_def enqueued_reads\<close>)
  moreover have "(\<lambda>l' j. cells_at ?k l' (InQueue j)) = ?Q(l := (?Q l)(i := insert x (?Q l i)))"
    using k(2,3) cells_enter [of k x l InQueue i] by simp
  moreover have "nodes_at ?k = (nodes_at k)(l := (nodes_at k l)(i := insert ?m (nodes_at k l i)))"
    using x(4) by (auto simp: nodes_at_def fun_eq_iff)
  moreover have "lists_ok n L (\<lambda>l i. cells_at k l (InList i)) ?t" "records_ok n L (\<lambda>l i. cells_at k l (InRecord i)) ?t"
    using k(1) by (simp_all add: in_custody_def enqueued_reads components_cong(1,3) [of ?t s])
  moreover have "cell_ok n L ?k ?t y l'" if "cu_home k y = Some l'" for y l'
    using custody_cell [OF k(1) that] k x by (auto simp: cell_ok_def enqueued_reads)
  ultimately show ?thesis using k(3) by (simp add: in_custody_def cells_aside)
qed

lemma popped_reads:
  "next_local (popped l i s) = next_local s" "local_list (popped l i s) = local_list s"
  "record_word (popped l i s) = record_word s" "sh_owner (g_hdr (popped l i s) a) = sh_owner (g_hdr s a)"
  "a \<noteq> nd_span (g_node s (nd_next (g_node s (hw_ptr (head_at s l i))))) \<Longrightarrow> sh_node (g_hdr (popped l i s) a) = sh_node (g_hdr s a)"
  "(l', j) \<noteq> (l, i) \<Longrightarrow> public_list (popped l i s) l' j = public_list s l' j" "g_node (popped l i s) = g_node s"
  by (auto simp: popped_def Let_def next_local_def record_word_def set_head_def fun_eq_iff)

lemma custody_popped:
  assumes k: "in_custody n L k s" "l \<in> L" "i < n"
    and r: "public_rep l i (d # ns) s (x # xs)" "set (x # xs) = cells_at k l (InQueue i)" "distinct (x # xs)" "set (d # ns) = nodes_at k l i"
  shows "in_custody n L (use_node d (HeldBy x) (move x Carried k)) (popped l i s)"
proof -
  let ?t = "popped l i s" and ?k = "use_node d (HeldBy x) (move x Carried k)"
  let ?Q = "\<lambda>l' j. cells_at k l' (InQueue j)"
  have x: "cu_home k x = Some l" "cu_at k x = InQueue i" using r(2) by (auto simp: cells_at_def)
  have d: "d \<noteq> 0" "d \<notin> set ns" "cu_use k d = Listed l i" using r(1,4) by (auto simp: public_rep_def public_nodes_def nodes_at_def)
  note p = popped_rep [OF r(1)]
  have sp: "nd_span (g_node s (nd_next (g_node s (hw_ptr (head_at s l i))))) = x"
    using p r(1) by (auto simp: public_rep_def public_nodes_def node_next_def)
  have "queues_ok n L ((nodes_at k)(l := (nodes_at k l)(i := nodes_at k l i - {d})))
      (?Q(l := (?Q l)(i := ?Q l i - {x}))) ?t"
  proof (rule queues_at [where s = s])
    show "\<exists>ms ys. public_rep l i ms ?t ys \<and> distinct ys \<and> set ys = ?Q l i - {x} \<and> set ms = nodes_at k l i - {d}"
      using p r(3) d(2) unfolding r(2,4) [symmetric] by (intro exI [of _ ns] exI [of _ xs]) auto
  qed (use k in \<open>auto simp: in_custody_def popped_reads\<close>)
  moreover have "(\<lambda>l' j. cells_at ?k l' (InQueue j)) = ?Q(l := (?Q l)(i := ?Q l i - {x}))"
    using x cells_leave [of k x l InQueue i Carried] by simp
  moreover have "nodes_at ?k = (nodes_at k)(l := (nodes_at k l)(i := nodes_at k l i - {d}))"
    using d(3) by (auto simp: nodes_at_def fun_eq_iff)
  moreover have "lists_ok n L (\<lambda>l i. cells_at k l (InList i)) ?t" "records_ok n L (\<lambda>l i. cells_at k l (InRecord i)) ?t"
    using k(1) by (simp_all add: in_custody_def popped_reads components_cong(1,3) [of ?t s])
  moreover have "cell_ok n L ?k ?t y l'" if y: "cu_home k y = Some l'" for y l'
  proof (cases "y = x")
    case True
    then show ?thesis using custody_cell [OF k(1) x(1)] x p d y by (auto simp: cell_ok_def popped_reads)
  next
    case False
    then show ?thesis using custody_cell [OF k(1) y] d by (auto simp: cell_ok_def popped_reads sp)
  qed
  ultimately show ?thesis using x(2) by (simp add: in_custody_def cells_aside)
qed

section \<open>Help records\<close>

lemma set_record_reads:
  "next_local (set_record_word l i v s) = next_local s" "local_list (set_record_word l i v s) = local_list s"
  "public_list (set_record_word l i v s) = public_list s" "g_node (set_record_word l i v s) = g_node s"
  "g_hdr (set_record_word l i v s) = g_hdr s"
  by (auto simp: set_record_word_def fun_eq_iff)

lemma custody_record:
  assumes "in_custody n L k s" "records_ok n L (\<lambda>l i. cells_at (move x p k) l (InRecord i)) (set_record_word l i v s)"
    and "\<And>j. cu_at k x \<noteq> InQueue j \<and> cu_at k x \<noteq> InList j \<and> p \<noteq> InQueue j \<and> p \<noteq> InList j"
    and "\<And>i. place_index p = Some i \<Longrightarrow> i < n" "place_owner p = place_owner (cu_at k x)"
  shows "in_custody n L (move x p k) (set_record_word l i v s)"
proof -
  let ?t = "set_record_word l i v s"
  have "queues_ok n L (nodes_at k) (\<lambda>l i. cells_at k l (InQueue i)) ?t" "lists_ok n L (\<lambda>l i. cells_at k l (InList i)) ?t"
    using assms(1) by (simp_all add: in_custody_def components_cong(1,2) [of ?t s] set_record_reads)
  moreover have "cell_ok n L (move x p k) ?t y l'" if "cu_home k y = Some l'" for y l'
    using custody_cell [OF assms(1) that] assms(3-) by (auto simp: cell_ok_def set_record_reads queued_def)
  ultimately show ?thesis using assms(2,3) by (simp add: in_custody_def cells_aside)
qed

lemma custody_put_record:
  assumes "in_custody n L k s" "cu_home k x = Some l" "cu_at k x = Carried" "i < n" "record_bag v = {#x#}"
    and "record_bag (record_word s l i) = {#}"
  shows "in_custody n L (move x (InRecord i) k) (set_record_word l i v s)"
proof (rule custody_record [OF assms(1)])
  let ?R = "\<lambda>l' j. cells_at k l' (InRecord j)"
  have l: "l \<in> L" using custody_cell [OF assms(1,2)] by (simp add: cell_ok_def)
  have "?R l i = {}" using assms(1,4,6) l unfolding in_custody_def records_ok_def by fastforce
  moreover have "(\<lambda>l' j. cells_at (move x (InRecord i) k) l' (InRecord j)) = ?R(l := (?R l)(i := insert x (?R l i)))"
    using assms(2,3) by (intro cells_enter) auto
  ultimately show "records_ok n L (\<lambda>l' j. cells_at (move x (InRecord i) k) l' (InRecord j)) (set_record_word l i v s)"
    using assms(1,5) records_at [of n L ?R s v "{x}" l i] by (simp add: in_custody_def)
qed (use assms in auto)

lemma custody_take_record:
  assumes "in_custody n L k s" "l \<in> L" "i < n" "record_bag (record_word s l i) = {#x#}"
  shows "cu_home k x = Some l \<and> cu_at k x = InRecord i \<and> in_custody n L (move x Carried k) (set_record_word l i 0 s)"
proof -
  let ?R = "\<lambda>l' j. cells_at k l' (InRecord j)"
  have R: "?R l i = {x}" using assms unfolding in_custody_def records_ok_def by fastforce
  then have x: "cu_home k x = Some l" "cu_at k x = InRecord i" by (auto simp: cells_at_def)
  then have "(\<lambda>l' j. cells_at (move x Carried k) l' (InRecord j)) = ?R(l := (?R l)(i := ?R l i - {x}))"
    by (intro cells_leave) auto
  then have "in_custody n L (move x Carried k) (set_record_word l i 0 s)"
    using assms(1) R x by (intro custody_record) (auto simp: in_custody_def intro: records_at)
  with x show ?thesis by simp
qed

lemma custody_clear_record:
  assumes "in_custody n L k s" "record_bag (record_word s l i) = {#}" "record_bag v = {#}"
  shows "in_custody n L k (set_record_word l i v s)"
proof -
  let ?t = "set_record_word l i v s"
  have "record_bag (record_word ?t l' j) = record_bag (record_word s l' j)" for l' j
    using assms(2,3) by auto
  then have "records_ok n L H ?t = records_ok n L H s" for H by (simp only: records_ok_def)
  moreover have "cell_ok n L k ?t x l' = cell_ok n L k s x l'" for x l' by (simp add: cell_ok_def set_record_reads)
  ultimately show ?thesis
    using assms(1) by (simp add: in_custody_def components_cong(1,2) [of ?t s] set_record_reads)
qed

section \<open>New cells and owners\<close>

definition settle_cell :: "address \<Rightarrow> lane \<Rightarrow> address \<Rightarrow> custody \<Rightarrow> custody" where
  "settle_cell x l a k = k\<lparr>cu_home := (cu_home k)(x := Some l), cu_at := (cu_at k)(x := Apart), cu_use := (cu_use k)(a := HeldBy x)\<rparr>"

lemma settle_cell_simps [simp]:
  "cu_home (settle_cell x l a k) = (cu_home k)(x := Some l)" "cu_at (settle_cell x l a k) = (cu_at k)(x := Apart)"
  "cu_use (settle_cell x l a k) = (cu_use k)(a := HeldBy x)"
  by (simp_all add: settle_cell_def)

lemma custody_new_cell:
  assumes k: "in_custody n L k s" "cu_home k x = None" "cu_use k a = Unused" "l \<in> L" "span_base x" "a \<noteq> 0"
    and t: "local_list t = local_list s" "public_list t = public_list s" "record_word t = record_word s"
      "\<And>y. y \<noteq> x \<Longrightarrow> g_hdr t y = g_hdr s y" "\<And>b. b \<noteq> a \<Longrightarrow> g_node t b = g_node s b" "sh_node (g_hdr t x) = a"
  shows "in_custody n L (settle_cell x l a k) t"
proof -
  let ?k = "settle_cell x l a k"
  have c: "cells_at ?k l' p = cells_at k l' p" if "p \<noteq> Apart" for l' p using k(2) that by (auto simp: cells_at_def)
  have nd: "nodes_at ?k = nodes_at k" using k(3) by (auto simp: nodes_at_def fun_eq_iff)
  have "lists_ok n L (\<lambda>l i. cells_at k l (InList i)) t"
    unfolding lists_ok_def
  proof (intro ballI allI impI)
    fix l' j assume "l' \<in> L" "j < n"
    then obtain xs where xs: "span_list l' j s xs" "set xs = cells_at k l' (InList j)"
      using k(1) unfolding in_custody_def lists_ok_def by blast
    have "x \<notin> set xs" using k(2) unfolding xs(2) by (simp add: cells_at_def)
    then have "next_local t b = next_local s b" if "b \<in> set xs" for b using t(4) that by (metis next_local_def)
    then have "span_list l' j t xs" using xs(1) t(1) by (subst span_list_cong [of t l' j s]) auto
    with xs(2) show "\<exists>xs. span_list l' j t xs \<and> set xs = cells_at k l' (InList j)" by blast
  qed
  moreover have "queues_ok n L (nodes_at k) (\<lambda>l i. cells_at k l (InQueue i)) t"
    unfolding queues_ok_def
  proof (intro ballI allI impI)
    fix l' j assume "l' \<in> L" "j < n"
    then obtain ns xs where q: "public_rep l' j ns s xs" "distinct xs" "set xs = cells_at k l' (InQueue j)" "set ns = nodes_at k l' j"
      by (rule custody_queue [OF k(1)])
    have "a \<notin> set ns" using k(3) unfolding q(4) by (simp add: nodes_at_def)
    then have "g_node t b = g_node s b" if "b \<in> set ns" for b using t(5) that by metis
    then have "public_rep l' j ns t xs" using q(1) t(2) by (subst public_rep_cong [of t l' j s]) auto
    with q(2-) show "\<exists>ns xs. public_rep l' j ns t xs \<and> distinct xs \<and> set xs = cells_at k l' (InQueue j) \<and> set ns = nodes_at k l' j"
      by blast
  qed
  moreover have "records_ok n L (\<lambda>l i. cells_at k l (InRecord i)) t"
    using k(1) t(3) by (simp add: in_custody_def components_cong(3) [of t s])
  moreover have "cell_ok n L ?k t y l'" if "cu_home ?k y = Some l'" for y l'
  proof (cases "y = x")
    case True
    then show ?thesis using that k t(6) by (auto simp: cell_ok_def)
  next
    case False
    then show ?thesis using that custody_cell [OF k(1), of y l'] k(3) t(4) by (auto simp: cell_ok_def)
  qed
  ultimately show ?thesis by (simp add: in_custody_def c nd)
qed

lemma custody_move_apart:
  assumes "in_custody n L k s" "cu_at k x = Carried \<or> cu_at k x = Loose"
  shows "in_custody n L (move x Apart k) s"
proof -
  have "cell_ok n L (move x Apart k) s y l'" if "cu_home k y = Some l'" for y l'
    using custody_cell [OF assms(1) that] assms(2) by (auto simp: cell_ok_def)
  then show ?thesis using assms by (auto simp: in_custody_def cells_aside)
qed

lemma custody_set_owner:
  assumes "in_custody n L k s" "cu_at k x = Apart"
  shows "in_custody n L k (set_owner x v s)"
proof -
  let ?t = "set_owner x v s"
  have "cell_ok n L k ?t y l'" if "cu_home k y = Some l'" for y l'
    using custody_cell [OF assms(1) that] assms(2) by (auto simp: cell_ok_def)
  moreover have "record_word ?t = record_word s" "local_list ?t = local_list s" "public_list ?t = public_list s" "g_node ?t = g_node s"
    by (simp_all add: record_word_def fun_eq_iff)
  ultimately show ?thesis using assms(1) by (simp add: in_custody_def components_cong [of ?t s])
qed

lemma custody_lose:
  assumes "in_custody n L k s" "cu_at k x = Apart" "sh_owner (g_hdr s x) = OWNER_NONE"
  shows "in_custody n L (move x Loose k) s"
proof -
  have "cell_ok n L (move x Loose k) s y l'" if "cu_home k y = Some l'" for y l'
    using custody_cell [OF assms(1) that] assms(2,3) by (auto simp: cell_ok_def)
  then show ?thesis using assms by (auto simp: in_custody_def cells_aside)
qed

section \<open>Acquisition\<close>

text \<open>
  An acquisition moves cells of its lane between the public lists, the records and its own hands, and changes
  nothing else that the heap depends on: no block, no counter, no private list, no other header field than
  the node pointer.
\<close>

definition public_place :: "place \<Rightarrow> bool" where
  "public_place p \<longleftrightarrow> (\<exists>i. p = InQueue i \<or> p = InRecord i) \<or> p = Carried"

definition headers_agree :: "shared \<Rightarrow> shared \<Rightarrow> bool" where
  "headers_agree s t \<longleftrightarrow> g_block t = g_block s \<and> g_pool t = g_pool s \<and> g_lhdr t = g_lhdr s \<and> g_huge t = g_huge s
     \<and> g_active t = g_active s \<and> (\<forall>x. (g_hdr t x)\<lparr>sh_node := 0\<rparr> = (g_hdr s x)\<lparr>sh_node := 0\<rparr>)"

definition shuffled :: "lane \<Rightarrow> custody \<Rightarrow> custody \<Rightarrow> bool" where
  "shuffled l k k' \<longleftrightarrow> cu_home k' = cu_home k \<and> (\<forall>a. cu_use k' a = Unused \<longleftrightarrow> cu_use k a = Unused)
     \<and> (\<forall>x. cu_at k' x = cu_at k x \<or> cu_home k x = Some l \<and> public_place (cu_at k x) \<and> public_place (cu_at k' x))"

definition carries :: "lane \<Rightarrow> custody \<Rightarrow> address multiset \<Rightarrow> bool" where
  "carries l k H \<longleftrightarrow> (\<forall>x. count H x = (if cu_home k x = Some l \<and> cu_at k x = Carried then 1 else 0))
     \<and> (\<forall>x l'. cu_home k x = Some l' \<longrightarrow> cu_at k x = Carried \<longrightarrow> l' = l)"

definition acquiring :: "nat \<Rightarrow> lane set \<Rightarrow> lane \<Rightarrow> custody \<Rightarrow> shared \<Rightarrow> shared \<Rightarrow> address multiset \<Rightarrow> bool" where
  "acquiring n L l k0 s0 s H \<longleftrightarrow> headers_agree s0 s \<and> (\<exists>k. in_custody n L k s \<and> shuffled l k0 k \<and> carries l k H)"

lemma public_place_simps [simp]:
  "public_place (InQueue i)" "public_place (InRecord i)" "public_place Carried"
  "\<not> public_place (InList i)" "\<not> public_place Loose" "\<not> public_place Apart"
  by (auto simp: public_place_def)

lemma shuffled_refl [simp]: "shuffled l k k"
  by (simp add: shuffled_def)

lemma shuffled_move:
  "shuffled l k0 k \<Longrightarrow> cu_home k x = Some l \<Longrightarrow> public_place (cu_at k x) \<Longrightarrow> public_place p \<Longrightarrow> shuffled l k0 (move x p k)"
  unfolding shuffled_def by (metis fun_upd_apply move_simps(1-3))

lemma shuffled_use: "shuffled l k0 k \<Longrightarrow> cu_use k a \<noteq> Unused \<Longrightarrow> u \<noteq> Unused \<Longrightarrow> shuffled l k0 (use_node a u k)"
  by (auto simp: shuffled_def)

lemma headers_agree_ops:
  "headers_agree s0 s \<Longrightarrow> headers_agree s0 (popped l i s)" "headers_agree s0 s \<Longrightarrow> headers_agree s0 (set_record_word l i v s)"
  "headers_agree s0 s \<Longrightarrow> headers_agree s0 (s\<lparr>g_stats := st\<rparr>)" "headers_agree s0 s \<Longrightarrow> headers_agree s0 (set_positions l i q h s)"
  "headers_agree s0 s \<Longrightarrow> headers_agree s0 (upd_record l i f s)"
  by (auto simp: headers_agree_def popped_def Let_def set_head_def set_record_word_def)

lemma same_custody_ops [simp]:
  "same_custody s (s\<lparr>g_stats := st\<rparr>)" "same_custody s (set_positions l i q h s)"
  "same_custody s (upd_record l i (hr_last_phase_update f) s)"
  by (auto simp: same_custody_def next_local_def fun_eq_iff)

lemma carries_count: "carries l k H \<Longrightarrow> count H x = (if cu_home k x = Some l \<and> cu_at k x = Carried then 1 else 0)"
  by (simp add: carries_def)

lemma carries_member: "carries l k H \<Longrightarrow> x \<in># H \<Longrightarrow> cu_home k x = Some l \<and> cu_at k x = Carried"
  using carries_count [of l k H x] count_greater_zero_iff [of H x] by (auto split: if_splits)

lemma carries_take:
  assumes "carries l k H" "cu_home k x = Some l" "cu_at k x \<noteq> Carried"
  shows "carries l (move x Carried k) (H + {#x#})"
  unfolding carries_def
proof (intro conjI allI impI)
  fix y
  show "count (H + {#x#}) y = (if cu_home (move x Carried k) y = Some l \<and> cu_at (move x Carried k) y = Carried then 1 else 0)"
    using assms carries_count [OF assms(1), of y] by (cases "y = x") simp_all
  fix l' assume "cu_home (move x Carried k) y = Some l'" "cu_at (move x Carried k) y = Carried"
  then show "l' = l" using assms(1,2) unfolding carries_def by (cases "y = x") auto
qed

lemma carries_put:
  assumes "carries l k (H + {#x#})" "p \<noteq> Carried"
  shows "carries l (move x p k) H"
  unfolding carries_def
proof (intro conjI allI impI)
  fix y
  show "count H y = (if cu_home (move x p k) y = Some l \<and> cu_at (move x p k) y = Carried then 1 else 0)"
    using assms(2) carries_count [OF assms(1), of y] by (cases "y = x") (auto split: if_splits)
  fix l' assume "cu_home (move x p k) y = Some l'" "cu_at (move x p k) y = Carried"
  then show "l' = l" using assms unfolding carries_def by (cases "y = x") auto
qed

lemma acquiring_pop:
  assumes a: "acquiring n L l k0 s0 s H" "l \<in> L" "j < n"
  shows "quietly (try_pop_head_once B l j) s (\<lambda>r t. case r of
     PopSpan x \<Rightarrow> acquiring n L l k0 s0 t (H + {#x#}) | PopEmpty \<Rightarrow> t = s | PopFailed \<Rightarrow> t = s)"
proof -
  from a(1) obtain k where k: "headers_agree s0 s" "in_custody n L k s" "shuffled l k0 k" "carries l k H"
    by (auto simp: acquiring_def)
  obtain ns xs where q: "public_rep l j ns s xs" "distinct xs" "set xs = cells_at k l (InQueue j)" "set ns = nodes_at k l j"
    by (rule custody_queue [OF k(2) a(2,3)])
  then obtain d ms where ns: "ns = d # ms" by (cases ns) (auto simp: public_rep_def public_nodes_def)
  have "acquiring n L l k0 s0 (popped l j s) (H + {#x#})" if "xs = x # ys" for x ys
  proof -
    let ?k = "use_node d (HeldBy x) (move x Carried k)"
    have x: "cu_home k x = Some l" "cu_at k x = InQueue j" using q(3) that by (auto simp: cells_at_def)
    have d: "cu_use k d \<noteq> Unused" using q(4) [symmetric] ns by (simp add: nodes_at_def set_eq_iff) (metis node_use.distinct(1))
    have "in_custody n L ?k (popped l j s)"
      using q ns that by (intro custody_popped [OF k(2) a(2,3)]) auto
    moreover have "shuffled l k0 ?k" using k(3) x d by (intro shuffled_use shuffled_move) auto
    moreover have "carries l ?k (H + {#x#})"
      using carries_take [OF k(4) x(1)] x(2) by (simp add: carries_def)
    ultimately show ?thesis using headers_agree_ops(1) [OF k(1)] by (auto simp: acquiring_def)
  qed
  then show ?thesis
    using q(1) ns by (intro quietly_mono [OF try_pop_rep [of l j d ms s xs]])
      (auto split: try_pop.splits simp: neq_Nil_conv)
qed

lemma acquiring_take_record:
  assumes a: "acquiring n L l k0 s0 s H" "l \<in> L" "i < n"
  shows "acquiring n L l k0 s0 (set_record_word l i 0 s) (H + record_bag (record_word s l i))"
proof -
  from a(1) obtain k where k: "headers_agree s0 s" "in_custody n L k s" "shuffled l k0 k" "carries l k H"
    by (auto simp: acquiring_def)
  consider "record_bag (record_word s l i) = {#}" | x where "record_bag (record_word s l i) = {#x#}"
    by (cases "record_bag (record_word s l i) = {#}") (auto simp: record_bag_def split: if_splits)
  then show ?thesis
  proof cases
    case 1
    with k custody_clear_record [OF k(2) 1, of 0] headers_agree_ops(2) [OF k(1)] show ?thesis
      by (auto simp: acquiring_def)
  next
    case (2 x)
    note x = custody_take_record [OF k(2) a(2,3) 2]
    have "shuffled l k0 (move x Carried k)" using k(3) x by (intro shuffled_move) auto
    moreover have "carries l (move x Carried k) (H + {#x#})" using k(4) x by (intro carries_take) auto
    ultimately show ?thesis using x headers_agree_ops(2) [OF k(1)] unfolding acquiring_def 2 by blast
  qed
qed

lemma acquiring_set_record:
  assumes a: "acquiring n L l k0 s0 s (H + record_bag v)" "i < n" "record_bag (record_word s l i) = {#}"
  shows "acquiring n L l k0 s0 (set_record_word l i v s) H"
proof -
  from a(1) obtain k where k: "headers_agree s0 s" "in_custody n L k s" "shuffled l k0 k" "carries l k (H + record_bag v)"
    by (auto simp: acquiring_def)
  consider "record_bag v = {#}" | x where "record_bag v = {#x#}"
    by (cases "record_bag v = {#}") (auto simp: record_bag_def split: if_splits)
  then show ?thesis
  proof cases
    case 1
    with k custody_clear_record [OF k(2) a(3) 1] headers_agree_ops(2) [OF k(1)] show ?thesis
      by (auto simp: acquiring_def)
  next
    case (2 x)
    have x: "cu_home k x = Some l" "cu_at k x = Carried" using carries_member [OF k(4), of x] 2 by simp_all
    have "shuffled l k0 (move x (InRecord i) k)" using k(3) x by (intro shuffled_move) auto
    moreover have "carries l (move x (InRecord i) k) H"
      using k(4) 2 by (intro carries_put) simp_all
    ultimately show ?thesis
      using custody_put_record [OF k(2) x a(2) 2 a(3)] headers_agree_ops(2) [OF k(1)] unfolding acquiring_def by blast
  qed
qed

lemma acquiring_frame:
  "acquiring n L l k0 s0 s H \<Longrightarrow> same_custody s t \<Longrightarrow> (\<And>u. headers_agree u s \<Longrightarrow> headers_agree u t) \<Longrightarrow>
     acquiring n L l k0 s0 t H"
  by (auto simp: acquiring_def custody_frame)

interpretation whole_heap: span_custody l n "\<lambda>s H. l \<in> L \<and> acquiring n L l k0 s0 s H" for l n L k0 s0
proof
  fix s H j B
  show "l \<in> L \<and> acquiring n L l k0 s0 s H \<Longrightarrow> j < n \<Longrightarrow> quietly (try_pop_head_once B l j) s (\<lambda>r t. case r of
      PopSpan x \<Rightarrow> l \<in> L \<and> acquiring n L l k0 s0 t (H + {#x#}) | PopEmpty \<Rightarrow> t = s | PopFailed \<Rightarrow> t = s)"
    by (rule quietly_mono [OF acquiring_pop [of n L l k0 s0 s H j B]]) (auto split: try_pop.splits)
  show "l \<in> L \<and> acquiring n L l k0 s0 s H \<Longrightarrow> x \<in># H \<Longrightarrow> x \<noteq> 0 \<and> even (unat x)" for x
    using custody_nonnull carries_member unfolding acquiring_def by blast
qed (auto intro: acquiring_take_record acquiring_set_record acquiring_frame headers_agree_ops)

lemma acquire_in_custody:
  assumes "in_custody n L k s" "l \<in> L" "tid < n" "\<And>x. cu_home k x \<noteq> None \<Longrightarrow> cu_at k x \<noteq> Carried"
  shows "quietly (acquire_from_lists B l tid n) s (\<lambda>p t. headers_agree s t \<and> (\<exists>k'. in_custody n L k' t \<and> shuffled l k k'
     \<and> (\<forall>x. cu_home k x \<noteq> None \<longrightarrow> (cu_at k' x = Carried \<longleftrightarrow> x = p)) \<and> (p \<noteq> 0 \<longrightarrow> cu_home k p = Some l)))"
proof -
  have "carries l k {#}" using assms(4) by (auto simp: carries_def)
  then have "acquiring n L l k s s {#}" using assms(1) by (auto simp: acquiring_def headers_agree_def)
  then have "quietly (acquire_from_lists B l tid n) s (\<lambda>p t. l \<in> L \<and> acquiring n L l k s t (cell_bag p))"
    using assms(2,3) by (intro whole_heap.acquire_has) auto
  then show ?thesis
  proof (rule quietly_mono)
    fix p t assume "l \<in> L \<and> acquiring n L l k s t (cell_bag p)"
    then obtain k' where k': "headers_agree s t" "in_custody n L k' t" "shuffled l k k'" "carries l k' (cell_bag p)"
      by (auto simp: acquiring_def)
    have h: "cu_home k' = cu_home k" using k'(3) by (simp add: shuffled_def)
    have c: "count (cell_bag p) x = (if cu_home k x = Some l \<and> cu_at k' x = Carried then 1 else 0)" for x
      using carries_count [OF k'(4)] h by simp
    have p: "p \<noteq> 0 \<Longrightarrow> cu_home k p = Some l \<and> cu_at k' p = Carried" using c [of p] by (auto simp: cell_bag_def split: if_splits)
    have "x = p" if "cu_home k x = Some l'" "cu_at k' x = Carried" for x l'
    proof -
      have "l' = l" using k'(4) that h by (simp add: carries_def)
      with that c [of x] show ?thesis by (auto simp: cell_bag_def split: if_splits)
    qed
    moreover have "cu_at k' p = Carried" if "cu_home k p \<noteq> None"
      using that p custody_nonnull [OF assms(1), of p] by auto
    ultimately show "headers_agree s t \<and> (\<exists>k'. in_custody n L k' t \<and> shuffled l k k'
       \<and> (\<forall>x. cu_home k x \<noteq> None \<longrightarrow> (cu_at k' x = Carried \<longleftrightarrow> x = p)) \<and> (p \<noteq> 0 \<longrightarrow> cu_home k p = Some l))"
      using k' p by blast
  qed
qed

end
