(* ===== verification/Span_Accounts.thy ===== *)
theory Span_Accounts
  imports Heap_Custody Small_Path
begin

text \<open>
  The blocks of one span: each block is live, on the local free list or on the remote one.  The lemmas say what the
  operations of the small path on one span do to this account when they are left alone.
\<close>

section \<open>The account of a span\<close>

definition account :: "address set \<Rightarrow> shared \<Rightarrow> address \<Rightarrow> nat \<Rightarrow> address list \<Rightarrow> address list \<Rightarrow> bool" where
  "account live s x c ls rs \<longleftrightarrow> sh_size_class (g_hdr s x) = c \<and> sh_block_count (g_hdr s x) = blocks_per_span (class_to_size c)
     \<and> lm_pending_remote (local_of s x) = 0 \<and> local_counted x s ls
     \<and> chain (g_block s) (rm_free (remote_of s x)) rs 0 \<and> rm_free_count (remote_of s x) = of_nat (length rs)
     \<and> distinct (ls @ rs) \<and> set (ls @ rs) = set (span_blocks x c) - live"

definition accounted :: "address set \<Rightarrow> shared \<Rightarrow> address \<Rightarrow> nat \<Rightarrow> bool" where
  "accounted live s x c \<longleftrightarrow> (\<exists>ls rs. account live s x c ls rs)"

text \<open>What the account reads of a header.\<close>

definition ledger_of :: "span_header \<Rightarrow> nat \<times> usize \<times> address \<times> usize \<times> address \<times> remote_meta" where
  "ledger_of h = (sh_size_class h, sh_block_count h, lm_free (sh_local h), lm_free_count (sh_local h),
     lm_pending_remote (sh_local h), sh_remote h)"

lemma account_frame:
  assumes "ledger_of (g_hdr t x) = ledger_of (g_hdr s x)"
    and "\<And>b. b \<in> set (span_blocks x c) - live \<Longrightarrow> g_block t b = g_block s b"
  shows "account live t x c ls rs = account live s x c ls rs"
proof -
  have "chain (g_block t) p ys 0 = chain (g_block s) p ys 0" if "set ys \<subseteq> set (span_blocks x c) - live" for p ys
    using assms(2) that by (intro chain_cong) auto
  with assms(1) show ?thesis
    by (auto simp: account_def ledger_of_def local_counted_def local_blocks_def)
qed

lemma accounted_frame:
  assumes "ledger_of (g_hdr t x) = ledger_of (g_hdr s x)"
    and "\<And>b. b \<in> set (span_blocks x c) - live \<Longrightarrow> g_block t b = g_block s b"
  shows "accounted live t x c = accounted live s x c"
  using account_frame [OF assms] by (simp add: accounted_def)

lemma account_live:
  "set (span_blocks x c) \<inter> live = set (span_blocks x c) \<inter> live' \<Longrightarrow> account live s x c ls rs = account live' s x c ls rs"
  by (auto simp: account_def)

section \<open>Blocks and spans\<close>

lemma span_block_props:
  assumes "span_base x" "c < 11" "b \<in> set (span_blocks x c)"
  shows "span_from_ptr b = x" "b \<noteq> 0" "b \<noteq> UNLINKED"
proof -
  obtain i where i: "i < block_total c" "b = block_at x c i" using assms(3) by (auto simp: span_blocks_def)
  note b = block_at_unat [OF assms(1,2) i(1)] block_offset_bound [OF assms(2) i(1)]
  define off where "off = max 1024 (2 ^ (c + 4)) + i * 2 ^ (c + 4)"
  have "unat b = unat x + off" "off + 2 ^ (c + 4) \<le> 65536" "(0 :: nat) < 2 ^ (c + 4)"
    using b i(2) by (simp_all add: off_def)
  then show "span_from_ptr b = x" by (intro span_from_interior [OF assms(1)]) linarith+
  show "b \<noteq> 0" "b \<noteq> UNLINKED" using block_at_nonnull [OF assms(1,2) i(1)] i(2) by simp_all
qed

lemma span_blocks_disjoint:
  assumes "span_base x" "c < 11" "span_base y" "c' < 11" "x \<noteq> y"
  shows "set (span_blocks x c) \<inter> set (span_blocks y c') = {}"
  using span_block_props(1) [OF assms(1,2)] span_block_props(1) [OF assms(3,4)] assms(5) by blast

lemma block_total_bounds: "c < 11 \<Longrightarrow> 0 < block_total c \<and> block_total c < 2 ^ 16"
proof -
  assume "c < 11"
  then have "c = 0 \<or> c = 1 \<or> c = 2 \<or> c = 3 \<or> c = 4 \<or> c = 5 \<or> c = 6 \<or> c = 7 \<or> c = 8 \<or> c = 9 \<or> c = 10"
    by arith
  then show ?thesis by (auto simp: block_total_def blocks_per_span_unat)
qed

lemma account_counts:
  assumes "account live s x c ls rs" "c < 11"
  shows "length ls + length rs \<le> block_total c" "length ls + length rs < 2 ^ 16"
    "unat (sh_block_count (g_hdr s x)) = block_total c" "rm_free_count (remote_of s x) = 0 \<longleftrightarrow> rs = []"
proof -
  have "distinct (ls @ rs)" using assms(1) unfolding account_def by blast
  then have "length (ls @ rs) = card (set (ls @ rs))" by (rule distinct_card [symmetric])
  also have "\<dots> \<le> card (set (span_blocks x c))" using assms(1) by (intro card_mono) (auto simp: account_def)
  also have "\<dots> \<le> block_total c" using card_length [of "span_blocks x c"] by (simp add: span_blocks_def)
  finally show len: "length ls + length rs \<le> block_total c" by simp
  with block_total_bounds [OF assms(2)] show small: "length ls + length rs < 2 ^ 16" by simp
  show "unat (sh_block_count (g_hdr s x)) = block_total c" using assms(1) by (simp add: account_def block_total_def)
  have "unat (of_nat (length rs) :: usize) = length rs" using small by (intro unat_of_nat_small) simp
  with assms(1) show "rm_free_count (remote_of s x) = 0 \<longleftrightarrow> rs = []"
    by (auto simp: account_def word_eq_iff_unat)
qed

section \<open>Operations on one span\<close>

text \<open>A step that touches one header and the blocks \<open>W\<close>, and nothing that custody depends on.\<close>

definition span_only :: "address \<Rightarrow> address set \<Rightarrow> shared \<Rightarrow> shared \<Rightarrow> bool" where
  "span_only x W s t \<longleftrightarrow> same_custody s t \<and> (\<forall>y. y \<noteq> x \<longrightarrow> g_hdr t y = g_hdr s y) \<and> (\<forall>b. b \<notin> W \<longrightarrow> g_block t b = g_block s b)
     \<and> g_pool t = g_pool s \<and> g_lhdr t = g_lhdr s \<and> g_huge t = g_huge s \<and> g_active t = g_active s"

lemma span_only_refl [simp]: "span_only x W s s"
  by (simp add: span_only_def)

lemma span_only_trans: "span_only x W s t \<Longrightarrow> span_only x W t u \<Longrightarrow> span_only x W s u"
  unfolding span_only_def by (auto intro: same_custody_trans)

lemma span_only_mono: "span_only x W s t \<Longrightarrow> W \<subseteq> V \<Longrightarrow> span_only x V s t"
  unfolding span_only_def by blast

lemma span_only_hdr:
  assumes "\<And>h. sh_owner (f h) = sh_owner h \<and> sh_node (f h) = sh_node h \<and> lm_next_local (sh_local (f h)) = lm_next_local (sh_local h)"
  shows "span_only x W s (upd_hdr f x s)"
  using assms by (auto simp: span_only_def same_custody_def next_local_def record_word_def fun_eq_iff)

lemma span_only_block: "b \<in> W \<Longrightarrow> span_only x W s (set_block b v s)"
  by (auto simp: span_only_def same_custody_def next_local_def record_word_def fun_eq_iff)

lemma span_only_stats: "span_only x W s (s\<lparr>g_stats := st\<rparr>)"
  by (simp add: span_only_def)

lemma span_only_absorb:
  assumes "b \<in> W"
  shows "span_only x W s (absorb x b s)"
  unfolding absorb_def inc_free_count_def local_push_def Let_def
proof (rule span_only_trans)
  show "span_only x W s (upd_local (lm_free_update (\<lambda>_. b)) x (set_block b (lm_free (local_of s x)) s))"
    by (rule span_only_trans [OF span_only_block [OF assms]], rule span_only_hdr, simp)
qed (rule span_only_hdr, simp)

lemma span_only_absorb_all: "set bs \<subseteq> W \<Longrightarrow> span_only x W s (fold (absorb x) bs s)"
proof (induction bs arbitrary: s)
  case (Cons b bs)
  then show ?case using span_only_trans [OF span_only_absorb [of b W x s]] by simp
qed simp

lemma absorb_all_remote [simp]: "remote_of (fold (absorb x) bs s) y = remote_of s y"
  "sh_size_class (g_hdr (fold (absorb x) bs s) y) = sh_size_class (g_hdr s y)"
  "sh_block_count (g_hdr (fold (absorb x) bs s) y) = sh_block_count (g_hdr s y)"
  "lm_pending_remote (local_of (fold (absorb x) bs s) y) = lm_pending_remote (local_of s y)"
  by (induction bs arbitrary: s) (auto simp: absorb_def inc_free_count_def local_push_def Let_def)

lemma account_take:
  assumes "account live s x c (p # ls) rs"
  shows "account (insert p live) (take_block x s) x c ls rs \<and> span_only x W s (take_block x s)"
proof -
  have "span_only x W s (take_block x s)"
    unfolding take_block_def by (rule span_only_hdr) simp
  moreover have "account (insert p live) (take_block x s) x c ls rs"
    using assms local_counted_take [of x s p ls] by (auto simp: account_def take_block_def)
  ultimately show ?thesis by simp
qed

lemma account_give:
  assumes "account live s x c ls rs" "b \<in> set (span_blocks x c)" "b \<in> live" "b \<noteq> 0"
  shows "account (live - {b}) (give_block x b s) x c (b # ls) rs"
proof -
  have b: "b \<notin> set ls" "b \<notin> set rs" using assms(1,3) by (auto simp: account_def)
  have "set (b # ls) \<union> set rs = set (span_blocks x c) - (live - {b})" using assms by (auto simp: account_def)
  then show ?thesis
    using assms(1,4) b local_counted_give [of x s ls b]
    by (auto simp: account_def give_block_def absorb_def inc_free_count_def local_push_def Let_def)
qed

text \<open>Absorbing the remote list: its blocks move to the local list, and the answer says whether there were any.\<close>

lemma chain_links: "chain nxt p xs 0 \<Longrightarrow> b \<in> set xs \<Longrightarrow> nxt b \<in> insert 0 (set xs)"
proof (induction xs arbitrary: p)
  case (Cons x xs)
  then show ?case by (cases xs) auto
qed simp

definition reclaimed :: "address \<Rightarrow> address list \<Rightarrow> shared \<Rightarrow> shared" where
  "reclaimed x rs s = remote_sub x (of_nat (length rs)) (set_pending x 0
     (fold (absorb x) rs (upd_remote (rm_free_update (\<lambda>_. 0)) x s)))"

lemma account_reclaimed:
  assumes "account live s x c ls rs" "span_base x" "c < 11"
  shows "account live (reclaimed x rs s) x c (rev rs @ ls) []" "span_only x (set rs) s (reclaimed x rs s)"
proof -
  let ?s = "upd_remote (rm_free_update (\<lambda>_. 0)) x s"
  have "distinct rs" "0 \<notin> set rs" "set rs \<inter> set ls = {}" "local_counted x ?s ls"
    using assms(1) span_block_props(2) [OF assms(2,3), of 0] by (auto simp: account_def local_counted_def local_blocks_def)
  then have "local_counted x (fold (absorb x) rs ?s) (rev rs @ ls)" by (intro absorb_all)
  then show "account live (reclaimed x rs s) x c (rev rs @ ls) []"
    using assms(1) by (auto simp: account_def reclaimed_def remote_sub_def local_counted_def local_blocks_def)
  have "span_only x (set rs) s ?s" by (rule span_only_hdr) simp
  moreover have "span_only x (set rs) ?s (fold (absorb x) rs ?s)" by (rule span_only_absorb_all) simp
  moreover have "span_only x (set rs) t (remote_sub x v (set_pending x 0 t))" for t v
    unfolding remote_sub_def by (rule span_only_trans; rule span_only_hdr, simp)
  ultimately show "span_only x (set rs) s (reclaimed x rs s)"
    unfolding reclaimed_def by (blast intro: span_only_trans)
qed

lemma refill_live_quietly:
  assumes a: "account live s x c ls rs" "span_base x" "c < 11"
  shows "quietly (refill_live x 0) s (\<lambda>r t. r = (rs \<noteq> []) \<and> account live t x c (rev rs @ ls) [] \<and> span_only x (set rs) s t)"
proof -
  let ?s = "upd_remote (rm_free_update (\<lambda>_. 0)) x s"
  have rs: "chain (g_block s) (rm_free (remote_of s x)) rs 0" "distinct rs"
    and cnt: "rm_free_count (remote_of s x) = of_nat (length rs)" using a(1) by (auto simp: account_def)
  have sub: "set rs \<subseteq> set (span_blocks x c)" using a(1) by (auto simp: account_def)
  have z: "rm_free (remote_of s x) = 0 \<longleftrightarrow> rs = []" using rs(1) by (cases rs) auto
  have "g_block s b \<noteq> UNLINKED" if "b \<in> set rs" for b
    using chain_links [OF rs(1) that] sub span_block_props(3) [OF a(2,3)] by (auto simp: UNLINKED_def usize_max_def)
  then have "remote_chain ?s (rm_free (remote_of s x)) rs 0" using rs by (simp add: remote_chain_def)
  moreover have "length rs \<le> unat (sh_block_count (g_hdr ?s x))" using account_counts [OF a(1,3)] by simp
  ultimately have app: "quietly (append_remote_to_local_bounded x (rm_free (remote_of s x))) ?s
      (\<lambda>r t. r = (of_nat (length rs), 0) \<and> t = fold (absorb x) rs ?s)"
    unfolding append_remote_to_local_bounded_def
    by (intro quietly_bind quietly_owner_op) (use append_loop_quietly [of ?s _ rs 0 _ x 0] in auto)
  note acc = account_reclaimed [OF a]
  show ?thesis
  proof (cases "rs = []")
    case True
    have "account live ?s x c ls []" using a(1) True by (auto simp: account_def local_counted_def local_blocks_def)
    moreover have "span_only x {} s ?s" by (rule span_only_hdr) simp
    ultimately show ?thesis
      using True z unfolding refill_live_def reclaim_all_def by (auto intro!: quiet_intros simp: remote_swap_def)
  next
    case False
    have "(0 :: usize) < of_nat (length rs)"
      using False account_counts(2) [OF a(1,3)] by (simp add: word_less_nat_alt unat_of_nat_small)
    with False z acc show ?thesis
      unfolding refill_live_def reclaim_all_def
      by (auto intro!: quiet_intros quietly_then [OF app] simp: remote_swap_def reclaimed_def)
  qed
qed

lemma refill_quietly:
  assumes a: "account live s x c ls rs" "span_base x" "c < 11"
  shows "quietly (refill_from_remote x) s (\<lambda>r t. r = (rs \<noteq> []) \<and> account live t x c (rev rs @ ls) [] \<and> span_only x (set rs) s t)"
proof -
  let ?s = "set_pending x 0 s"
  have "account live ?s x c ls rs" using a(1) by (auto simp: account_def local_counted_def local_blocks_def)
  note live = refill_live_quietly [OF this a(2,3)]
  have s: "span_only x (set rs) s ?s" by (rule span_only_hdr) simp
  have "lm_pending_remote (local_of s x) = 0" using a(1) by (simp add: account_def)
  then show ?thesis
    unfolding refill_from_remote_def
    by (auto intro!: quiet_intros quietly_mono [OF live] intro: span_only_trans [OF s])
qed

text \<open>A free by a thread that does not own the span.\<close>

definition pushed :: "address \<Rightarrow> address \<Rightarrow> shared \<Rightarrow> shared" where
  "pushed x b s = snd (remote_fetch_add x (set_block b (rm_free (remote_of s x)) (snd (remote_swap x b (set_block b UNLINKED s)))))"

lemma account_pushed:
  assumes "account live s x c ls rs" "b \<in> set (span_blocks x c)" "b \<in> live" "b \<noteq> 0"
  shows "account (live - {b}) (pushed x b s) x c ls (b # rs)" "span_only x {b} s (pushed x b s)"
proof -
  have b: "b \<notin> set ls" "b \<notin> set rs" using assms(1,3) by (auto simp: account_def)
  have "set ls \<union> set (b # rs) = set (span_blocks x c) - (live - {b})" using assms by (auto simp: account_def)
  then show "account (live - {b}) (pushed x b s) x c ls (b # rs)"
    using assms(1,4) b
    by (auto simp: account_def pushed_def remote_swap_def remote_fetch_add_def local_counted_def local_blocks_def add.commute)
  have "span_only x {b} s (set_block b UNLINKED s)" by (rule span_only_block) simp
  moreover have "span_only x {b} t (snd (remote_swap x b t))" "span_only x {b} t (snd (remote_fetch_add x t))"
    "span_only x {b} t (set_block b v t)" for t v
    by (auto simp: remote_swap_def remote_fetch_add_def intro!: span_only_hdr span_only_block)
  ultimately show "span_only x {b} s (pushed x b s)" unfolding pushed_def by (blast intro: span_only_trans)
qed

end
