(* ===== verification/Heap_Invariant.thy ===== *)
theory Heap_Invariant
  imports Span_Accounts
begin

text \<open>
  The invariant of the whole heap: custody of every span and run, the account of every span, and the estate, which
  says which pages of the pool each cell occupies and that the pages below the pool's cursor, and no others, are occupied.
\<close>

section \<open>The estate\<close>

datatype tenant = Vacant | CellPages address | SlotPages nat nat

text \<open>The pages \<open>i ..< i + m\<close> belong to the tenant \<open>q\<close>; the first one is at \<open>x\<close>.\<close>

definition occupies :: "span_pool \<Rightarrow> (nat \<Rightarrow> tenant) \<Rightarrow> address \<Rightarrow> nat \<Rightarrow> tenant \<Rightarrow> bool" where
  "occupies p pg x m q \<longleftrightarrow> (\<exists>i. x = span_addr p (of_nat i) \<and> i + m \<le> unat (pool_count p) \<and> (\<forall>j. i \<le> j \<and> j < i + m \<longrightarrow> pg j = q))"

definition on_estate :: "address set \<Rightarrow> custody \<Rightarrow> (nat \<Rightarrow> tenant) \<Rightarrow> span_pool \<Rightarrow> bool" where
  "on_estate D k pg p \<longleftrightarrow> pool_wf p \<and> pool_base p \<noteq> 0
     \<and> (\<forall>x l. cu_home k x = Some l \<longrightarrow> occupies p pg x (lane_pages l) (CellPages x))
     \<and> (\<forall>j. pg j \<noteq> Vacant \<longleftrightarrow> j < unat (pool_next p) \<and> j < unat (pool_count p))
     \<and> (\<forall>j x. pg j = CellPages x \<longrightarrow> cu_home k x \<noteq> None)
     \<and> (\<forall>a. cu_use k a \<noteq> Unused \<longrightarrow> a \<in> D \<or> (\<exists>x. cu_home k x \<noteq> None \<and> a = node_storage_of x))
     \<and> (\<forall>i < unat (pool_count p). node_storage_of (span_addr p (of_nat i)) \<notin> D)"

lemma estate_cong:
  assumes "on_estate D k pg p" "cu_home k' = cu_home k" "\<And>a. cu_use k' a = Unused \<longleftrightarrow> cu_use k a = Unused"
  shows "on_estate D k' pg p"
  using assms(1) unfolding on_estate_def assms(2,3) .

lemma estateD:
  assumes "on_estate D k pg p"
  shows "pool_wf p" "pool_base p \<noteq> 0" "\<And>x l. cu_home k x = Some l \<Longrightarrow> occupies p pg x (lane_pages l) (CellPages x)"
    "\<And>j. pg j \<noteq> Vacant \<longleftrightarrow> j < unat (pool_next p) \<and> j < unat (pool_count p)" "\<And>j x. pg j = CellPages x \<Longrightarrow> cu_home k x \<noteq> None"
    "\<And>a. cu_use k a \<noteq> Unused \<Longrightarrow> a \<in> D \<or> (\<exists>x. cu_home k x \<noteq> None \<and> a = node_storage_of x)"
    "\<And>i. i < unat (pool_count p) \<Longrightarrow> node_storage_of (span_addr p (of_nat i)) \<notin> D"
  using assms unfolding on_estate_def by blast+

lemma estate_vacant: "on_estate D k pg p \<Longrightarrow> unat (pool_next p) \<le> j \<Longrightarrow> pg j = Vacant"
  unfolding on_estate_def by (meson not_le)

definition small_accounts :: "custody \<Rightarrow> address set \<Rightarrow> shared \<Rightarrow> bool" where
  "small_accounts k live s \<longleftrightarrow> (\<forall>x c. cu_home k x = Some (SpanLane c) \<longrightarrow>
     c < 11 \<and> accounted live s x c \<and> cu_at k x \<noteq> Apart \<and> (cu_at k x = Loose \<longrightarrow> set (span_blocks x c) \<subseteq> live))"

definition live_blocks :: "custody \<Rightarrow> address set \<Rightarrow> bool" where
  "live_blocks k live \<longleftrightarrow> (\<forall>b \<in> live. \<exists>x c. cu_home k x = Some (SpanLane c) \<and> b \<in> set (span_blocks x c))"

definition nothing_carried :: "custody \<Rightarrow> bool" where
  "nothing_carried k \<longleftrightarrow> (\<forall>x. cu_home k x \<noteq> None \<longrightarrow> cu_at k x \<noteq> Carried)"

definition heap_inv :: "nat \<Rightarrow> lane set \<Rightarrow> address set \<Rightarrow> custody \<Rightarrow> (nat \<Rightarrow> tenant) \<Rightarrow> address set \<Rightarrow> shared \<Rightarrow> bool" where
  "heap_inv n L D k pg live s \<longleftrightarrow> in_custody n L k s \<and> on_estate D k pg (g_pool s) \<and> small_accounts k live s
     \<and> live_blocks k live \<and> nothing_carried k \<and> g_active s = n"

text \<open>What an operation on spans leaves as it is: runs, their headers, huge slots, the pages of others.\<close>

definition small_step :: "custody \<Rightarrow> (nat \<Rightarrow> tenant) \<Rightarrow> shared \<Rightarrow> custody \<Rightarrow> (nat \<Rightarrow> tenant) \<Rightarrow> shared \<Rightarrow> bool" where
  "small_step k pg s k' pg' t \<longleftrightarrow> (\<forall>x l. cu_home k x = Some l \<longrightarrow> cu_home k' x = Some l)
     \<and> (\<forall>x r. cu_home k' x = Some (RunLane r) \<longleftrightarrow> cu_home k x = Some (RunLane r))
     \<and> (\<forall>x r. cu_home k x = Some (RunLane r) \<longrightarrow> cu_at k' x = cu_at k x \<and> ledger_of (g_hdr t x) = ledger_of (g_hdr s x)
          \<and> sh_state (g_hdr t x) = sh_state (g_hdr s x))
     \<and> g_lhdr t = g_lhdr s \<and> g_huge t = g_huge s \<and> g_active t = g_active s
     \<and> (\<forall>j. pg j \<noteq> Vacant \<longrightarrow> pg' j = pg j) \<and> (\<forall>j c i. pg' j = SlotPages c i \<longrightarrow> pg j = SlotPages c i)"

lemma small_step_refl [simp]: "small_step k pg s k pg s"
  by (simp add: small_step_def)

lemma small_stepD:
  assumes "small_step k pg s k' pg' t"
  shows "\<And>x l. cu_home k x = Some l \<Longrightarrow> cu_home k' x = Some l"
    "\<And>x r. cu_home k' x = Some (RunLane r) \<longleftrightarrow> cu_home k x = Some (RunLane r)"
    "\<And>x r. cu_home k x = Some (RunLane r) \<Longrightarrow> cu_at k' x = cu_at k x"
    "\<And>x r. cu_home k x = Some (RunLane r) \<Longrightarrow> ledger_of (g_hdr t x) = ledger_of (g_hdr s x)"
    "g_lhdr t = g_lhdr s" "g_huge t = g_huge s" "g_active t = g_active s"
    "\<And>j. pg j \<noteq> Vacant \<Longrightarrow> pg' j = pg j" "\<And>j c i. pg' j = SlotPages c i \<Longrightarrow> pg j = SlotPages c i"
    "\<And>x r. cu_home k x = Some (RunLane r) \<Longrightarrow> sh_state (g_hdr t x) = sh_state (g_hdr s x)"
  using assms unfolding small_step_def by blast+

lemma small_step_trans:
  assumes "small_step k pg s k' pg' t" "small_step k' pg' t k'' pg'' u"
  shows "small_step k pg s k'' pg'' u"
proof -
  note a = small_stepD [OF assms(1)] and b = small_stepD [OF assms(2)]
  have "cu_at k'' x = cu_at k x \<and> ledger_of (g_hdr u x) = ledger_of (g_hdr s x) \<and> sh_state (g_hdr u x) = sh_state (g_hdr s x)"
    if x: "cu_home k x = Some (RunLane r)" for x r
    using a(3,4,10) [OF x] b(3,4,10) [OF a(1) [OF x]] by (simp only: simp_thms)
  moreover have "pg'' j = pg j" if j: "pg j \<noteq> Vacant" for j
  proof -
    have "pg' j = pg j" by (rule a(8) [OF j])
    with b(8) [of j] j show ?thesis by (simp only: not_False_eq_True)
  qed
  moreover have "pg j = SlotPages c i" if "pg'' j = SlotPages c i" for j c i by (rule a(9) [OF b(9) [OF that]])
  moreover have "cu_home k'' x = Some (RunLane r) \<longleftrightarrow> cu_home k x = Some (RunLane r)" for x r unfolding b(2) a(2) ..
  moreover have "cu_home k'' x = Some l" if "cu_home k x = Some l" for x l by (rule b(1) [OF a(1) [OF that]])
  moreover have "g_lhdr u = g_lhdr s" "g_huge u = g_huge s" "g_active u = g_active s" unfolding b(5-7) a(5-7) by (rule refl)+
  ultimately show ?thesis unfolding small_step_def by blast
qed

section \<open>Steps that keep the invariant\<close>

lemma heap_span:
  assumes "heap_inv n L D k pg live s" "cu_home k x = Some (SpanLane c)"
  shows "c < 11" "span_base x" "accounted live s x c" "SpanLane c \<in> L" "x \<noteq> 0"
  using assms custody_cell [of n L k s x "SpanLane c"]
  by (auto simp: heap_inv_def small_accounts_def cell_ok_def span_base_def)

lemma heap_place:
  assumes "heap_inv n L D k pg live s" "cu_home k x = Some (SpanLane c)"
  shows "cu_at k x \<noteq> Apart" "cu_at k x \<noteq> Carried" "cu_at k x = Loose \<Longrightarrow> set (span_blocks x c) \<subseteq> live"
  using assms by (auto simp: heap_inv_def small_accounts_def nothing_carried_def)

lemma heap_not_carried: "heap_inv n L D k pg live s \<Longrightarrow> cu_home k x \<noteq> None \<Longrightarrow> cu_at k x \<noteq> Carried"
  by (simp add: heap_inv_def nothing_carried_def)

text \<open>What the accounts read of a state.\<close>

definition same_accounts :: "shared \<Rightarrow> shared \<Rightarrow> bool" where
  "same_accounts s t \<longleftrightarrow> g_block t = g_block s \<and> (\<forall>x. ledger_of (g_hdr t x) = ledger_of (g_hdr s x)) \<and> g_pool t = g_pool s
     \<and> g_lhdr t = g_lhdr s \<and> g_huge t = g_huge s \<and> g_active t = g_active s"

lemma same_accounts_refl [simp]: "same_accounts s s"
  by (simp add: same_accounts_def)

lemma same_accounts_trans: "same_accounts s t \<Longrightarrow> same_accounts t u \<Longrightarrow> same_accounts s u"
  by (simp add: same_accounts_def)

lemma same_accounts_hdr: "(\<And>h. ledger_of (f h) = ledger_of h) \<Longrightarrow> same_accounts s (upd_hdr f x s)"
  by (simp add: same_accounts_def)

lemma same_accounts_ops [simp]:
  "same_accounts s (push_front l i x s)" "same_accounts s (push_back l i x s)" "same_accounts s (snd (pop_front l i s))"
  "same_accounts s (set_owner x v s)" "same_accounts s (set_span_state x st s)" "same_accounts s (enqueued l i x s)"
  "same_accounts s (s\<lparr>g_stats := g\<rparr>)"
  by (auto simp: same_accounts_def push_front_def push_back_def pop_front_def enqueued_def set_next_local_def ledger_of_def Let_def)

lemma same_accounts_remove [simp]: "same_accounts s (snd (remove_bounded l i x m s))"
proof -
  have "same_accounts s (snd (remove_loop m l i x prev cur s))" for prev cur
    by (induction m arbitrary: prev cur) (auto simp: same_accounts_def set_next_local_def ledger_of_def Let_def)
  then show ?thesis by (simp add: remove_bounded_def)
qed

lemmas same_accounts_steps = same_accounts_ops [THEN same_accounts_trans [rotated]]
  same_accounts_remove [THEN same_accounts_trans [rotated]]

lemma same_accounts_agree: "headers_agree s t \<Longrightarrow> same_accounts s t"
proof -
  have "ledger_of (h\<lparr>sh_node := 0\<rparr>) = ledger_of h" for h by (simp add: ledger_of_def)
  then show "headers_agree s t \<Longrightarrow> same_accounts s t" unfolding headers_agree_def same_accounts_def by metis
qed

text \<open>The states of all cells but one are as they were.\<close>

definition states_but :: "address \<Rightarrow> shared \<Rightarrow> shared \<Rightarrow> bool" where
  "states_but x s t \<longleftrightarrow> (\<forall>y. y \<noteq> x \<longrightarrow> sh_state (g_hdr t y) = sh_state (g_hdr s y))"

lemma states_but_refl [simp]: "states_but x s s"
  by (simp add: states_but_def)

lemma states_but_trans: "states_but x s t \<Longrightarrow> states_but x t u \<Longrightarrow> states_but x s u"
  by (simp add: states_but_def)

lemma states_but_ops [simp]:
  "states_but x s (push_front l i y s)" "states_but x s (push_back l i y s)" "states_but x s (snd (pop_front l i s))"
  "states_but x s (set_owner y v s)" "states_but x s (set_span_state x st s)" "states_but x s (enqueued l i y s)"
  "states_but x s (s\<lparr>g_stats := g\<rparr>)"
  by (auto simp: states_but_def push_front_def push_back_def pop_front_def enqueued_def set_next_local_def Let_def)

lemma states_but_remove [simp]: "states_but x s (snd (remove_bounded l i y m s))"
proof -
  have "states_but x s (snd (remove_loop m l i y prev cur s))" for prev cur
    by (induction m arbitrary: prev cur) (auto simp: states_but_def set_next_local_def Let_def)
  then show ?thesis by (simp add: remove_bounded_def)
qed

lemmas states_but_steps = states_but_ops [THEN states_but_trans [rotated]] states_but_remove [THEN states_but_trans [rotated]]

lemma agree_state: "headers_agree s t \<Longrightarrow> sh_state (g_hdr t x) = sh_state (g_hdr s x)"
proof -
  have "sh_state (h\<lparr>sh_node := 0\<rparr>) = sh_state h" for h by simp
  then show "headers_agree s t \<Longrightarrow> sh_state (g_hdr t x) = sh_state (g_hdr s x)" unfolding headers_agree_def by metis
qed

lemma states_but_agree: "headers_agree s t \<Longrightarrow> states_but x s t"
  by (simp add: states_but_def agree_state)

text \<open>A step that changes the account of one span and may move it.\<close>

lemma heap_update:
  assumes h: "heap_inv n L D k pg live s" "cu_home k x = Some (SpanLane c)"
    and k': "in_custody n L k' t" "cu_home k' = cu_home k" "\<And>a. cu_use k' a = Unused \<longleftrightarrow> cu_use k a = Unused"
      "\<And>y. y \<noteq> x \<Longrightarrow> cu_at k' y = cu_at k y" "cu_at k' x \<noteq> Apart" "cu_at k' x \<noteq> Carried" "cu_at k' x = Loose \<Longrightarrow> set (span_blocks x c) \<subseteq> live'"
    and t: "\<And>y. y \<noteq> x \<Longrightarrow> ledger_of (g_hdr t y) = ledger_of (g_hdr s y)" "\<And>b. b \<notin> set (span_blocks x c) \<Longrightarrow> g_block t b = g_block s b"
      "g_pool t = g_pool s" "g_lhdr t = g_lhdr s" "g_huge t = g_huge s" "g_active t = g_active s"
      "states_but x s t"
    and live': "account live' t x c ls rs" "live' - set (span_blocks x c) = live - set (span_blocks x c)"
  shows "heap_inv n L D k' pg live' t \<and> small_step k pg s k' pg t"
proof -
  note x = heap_span [OF h]
  have "c' < 11 \<and> accounted live' t y c' \<and> cu_at k' y \<noteq> Apart \<and> (cu_at k' y = Loose \<longrightarrow> set (span_blocks y c') \<subseteq> live')"
    if y: "cu_home k y = Some (SpanLane c')" "y \<noteq> x" for y c'
  proof -
    note y' = heap_span [OF h(1) y(1)]
    have dis: "set (span_blocks y c') \<inter> set (span_blocks x c) = {}" using span_blocks_disjoint [OF y'(2,1) x(2,1) y(2)] .
    then have li: "set (span_blocks y c') \<inter> live = set (span_blocks y c') \<inter> live'" using live'(2) by blast
    have "accounted live t y c' = accounted live s y c'"
      using t(1,2) y(2) dis by (intro accounted_frame) auto
    moreover have "accounted live t y c' = accounted live' t y c'" using account_live [OF li] by (simp add: accounted_def)
    moreover have "cu_at k y \<noteq> Apart" "cu_at k y = Loose \<Longrightarrow> set (span_blocks y c') \<subseteq> live"
      using h(1) y(1) by (simp_all add: heap_inv_def small_accounts_def)
    moreover have "set (span_blocks y c') \<subseteq> live'" if "set (span_blocks y c') \<subseteq> live" using li that by blast
    ultimately show ?thesis using y'(1,3) unfolding k'(4) [OF y(2)] by simp
  qed
  moreover have "c < 11 \<and> accounted live' t x c \<and> cu_at k' x \<noteq> Apart \<and> (cu_at k' x = Loose \<longrightarrow> set (span_blocks x c) \<subseteq> live')"
    using live'(1) x(1) k'(5,7) by (auto simp: accounted_def)
  ultimately have "small_accounts k' live' t"
    using h(2) unfolding small_accounts_def k'(2) by (metis lane.inject(1) option.inject)
  moreover have "live_blocks k' live'" using h live'(2) unfolding heap_inv_def live_blocks_def k'(2) by blast
  moreover have "on_estate D k' pg (g_pool t)"
    using h(1) unfolding t(3) heap_inv_def by (elim conjE) (rule estate_cong [OF _ k'(2,3)])
  moreover have "nothing_carried k'" using h(1) k'(2,4,6) unfolding heap_inv_def nothing_carried_def by metis
  moreover have "cu_at k' y = cu_at k y \<and> ledger_of (g_hdr t y) = ledger_of (g_hdr s y) \<and> sh_state (g_hdr t y) = sh_state (g_hdr s y)"
    if "cu_home k y = Some (RunLane r)" for y r
    using t(1,7) k'(4) h(2) that by (cases "y = x") (auto simp: states_but_def)
  then have "small_step k pg s k' pg t" using t(4-6) k'(2) by (auto simp: small_step_def)
  ultimately show ?thesis using k'(1) h(1) t(6) by (simp add: heap_inv_def)
qed

lemma heap_span_only:
  assumes h: "heap_inv n L D k pg live s" "cu_home k x = Some (SpanLane c)"
    and t: "span_only x W s t" "W \<subseteq> set (span_blocks x c)" "account live' t x c ls rs"
    and live: "live' - set (span_blocks x c) = live - set (span_blocks x c)" "cu_at k x = Loose \<Longrightarrow> set (span_blocks x c) \<subseteq> live'"
  shows "heap_inv n L D k pg live' t \<and> small_step k pg s k pg t"
  using h t live
  by (intro heap_update [OF h, where ls = ls and rs = rs])
    (auto simp: span_only_def states_but_def heap_inv_def custody_frame small_accounts_def nothing_carried_def)

text \<open>A step that moves cells and touches no account.\<close>

lemma heap_custody:
  assumes h: "heap_inv n L D k pg live s" and k': "in_custody n L k' t" "cu_home k' = cu_home k"
      "\<And>a. cu_use k' a = Unused \<longleftrightarrow> cu_use k a = Unused" "nothing_carried k'" "same_accounts s t"
      "states_but z s t" "\<And>r. cu_home k z \<noteq> Some (RunLane r)"
    and moved: "\<And>x c. cu_home k x = Some (SpanLane c) \<Longrightarrow> cu_at k' x \<noteq> Apart
        \<and> (cu_at k' x = Loose \<longrightarrow> cu_at k x = Loose \<or> set (span_blocks x c) \<subseteq> live)"
      "\<And>x r. cu_home k x = Some (RunLane r) \<Longrightarrow> cu_at k' x = cu_at k x"
  shows "heap_inv n L D k' pg live t \<and> small_step k pg s k' pg t"
proof -
  have "accounted live t x c = accounted live s x c" for x c
    using k'(5) by (intro accounted_frame) (auto simp: same_accounts_def)
  then have "small_accounts k' live t"
    using h moved(1) k'(2) unfolding heap_inv_def small_accounts_def by metis
  moreover have pool: "g_pool t = g_pool s" using k'(5) by (simp add: same_accounts_def)
  moreover have "on_estate D k' pg (g_pool t)"
    using h unfolding pool heap_inv_def by (elim conjE) (rule estate_cong [OF _ k'(2,3)])
  moreover have "live_blocks k' live" using h k'(2) by (simp add: heap_inv_def live_blocks_def)
  moreover have "sh_state (g_hdr t x) = sh_state (g_hdr s x)" if "cu_home k x = Some (RunLane r)" for x r
    using k'(6,7) that unfolding states_but_def by metis
  then have "small_step k pg s k' pg t" using k'(2,5) moved(2) by (auto simp: small_step_def same_accounts_def)
  ultimately show ?thesis using h k'(1,4,5) by (simp add: heap_inv_def same_accounts_def)
qed

end
