(* ===== verification/Small_Heap.thy ===== *)
theory Small_Heap
  imports Heap_Invariant
begin

text \<open>
  The small path on the whole heap.  A small allocation that is left alone returns null, and only when the pool is
  exhausted, or a block that is not live; a free of a live block makes it free; both keep the invariant of the heap.
\<close>

section \<open>Allocation from a private span\<close>

definition heap_post where
  "heap_post n L D k pg s live t \<longleftrightarrow> (\<exists>k' pg'. heap_inv n L D k' pg' live t \<and> small_step k pg s k' pg' t)"

text \<open>A block of class \<open>c\<close> that has just become live.\<close>

definition block_post where
  "block_post n L D k pg s live c p t \<longleftrightarrow> p \<noteq> 0 \<and> p \<notin> live
     \<and> (\<exists>k' pg' x. heap_inv n L D k' pg' (insert p live) t \<and> small_step k pg s k' pg' t
          \<and> cu_home k' x = Some (SpanLane c) \<and> p \<in> set (span_blocks x c))"

lemma heap_postI: "heap_inv n L D k' pg' live t \<Longrightarrow> small_step k pg s k' pg' t \<Longrightarrow> heap_post n L D k pg s live t"
  by (auto simp: heap_post_def)

lemma heap_post_refl: "heap_inv n L D k pg live s \<Longrightarrow> heap_post n L D k pg s live s"
  by (rule heap_postI, assumption, rule small_step_refl)

lemma heap_post_step:
  "heap_post n L D k' pg' t live u \<Longrightarrow> small_step k pg s k' pg' t \<Longrightarrow> heap_post n L D k pg s live u"
  by (auto simp: heap_post_def intro: small_step_trans)

lemma block_post_step:
  "block_post n L D k' pg' t live c p u \<Longrightarrow> small_step k pg s k' pg' t \<Longrightarrow> block_post n L D k pg s live c p u"
  unfolding block_post_def using small_step_trans by blast

lemma alloc_block:
  assumes h: "heap_inv n L D k pg live s" "cu_home k x = Some (SpanLane c)" "account live s x c ls rs"
  shows "quietly (alloc_from_local_span x) s (\<lambda>p t. if ls = [] then p = 0 \<and> t = s
     else block_post n L D k pg s live c p t \<and> g_pool t = g_pool s)"
proof (cases ls)
  case Nil
  with h(3) have "lm_free (local_of s x) = 0" by (simp add: account_def local_counted_def local_blocks_def)
  with Nil show ?thesis by (auto intro!: quietly_mono [OF alloc_from_local_span_quietly])
next
  case (Cons b bs)
  note x = heap_span [OF h(1,2)]
  have b: "lm_free (local_of s x) = b" "b \<noteq> 0" "b \<notin> live" "b \<in> set (span_blocks x c)"
    using h(3) Cons by (auto simp: account_def local_counted_def local_blocks_def)
  have a: "account (insert b live) (take_block x s) x c bs rs" "span_only x {} s (take_block x s)"
    using account_take [of live s x c b bs rs "{}"] h(3) Cons by simp_all
  have "cu_at k x = Loose \<Longrightarrow> set (span_blocks x c) \<subseteq> live" using h(1,2) by (simp add: heap_inv_def small_accounts_def)
  then have "heap_inv n L D k pg (insert b live) (take_block x s) \<and> small_step k pg s k pg (take_block x s)"
    using b(4) by (intro heap_span_only [OF h(1,2) a(2) _ a(1)]) auto
  moreover have "g_pool (take_block x s) = g_pool s" by (simp add: take_block_def)
  ultimately have "block_post n L D k pg s live c b (take_block x s)" "g_pool (take_block x s) = g_pool s"
    using b h(2) unfolding block_post_def by blast+
  then show ?thesis
    using b Cons by (auto intro!: quietly_mono [OF alloc_from_local_span_quietly])
qed

lemma refill_block:
  assumes h: "heap_inv n L D k pg live s" "cu_home k x = Some (SpanLane c)" "account live s x c ls rs"
  shows "quietly (refill_from_remote x) s (\<lambda>r t. r = (rs \<noteq> []) \<and> account live t x c (rev rs @ ls) []
     \<and> heap_inv n L D k pg live t \<and> small_step k pg s k pg t \<and> g_pool t = g_pool s \<and> same_custody s t)"
proof -
  note x = heap_span [OF h(1,2)]
  have sub: "set rs \<subseteq> set (span_blocks x c)" using h(3) by (auto simp: account_def)
  have lo: "cu_at k x = Loose \<Longrightarrow> set (span_blocks x c) \<subseteq> live" using h(1,2) by (simp add: heap_inv_def small_accounts_def)
  show ?thesis
  proof (rule quietly_mono [OF refill_quietly [OF h(3) x(2,1)]], elim conjE, intro conjI)
    fix r t assume a: "account live t x c (rev rs @ ls) []" "span_only x (set rs) s t"
    show "heap_inv n L D k pg live t" "small_step k pg s k pg t"
      using heap_span_only [OF h(1,2) a(2) sub a(1)] lo by simp_all
    show "g_pool t = g_pool s" "same_custody s t" using a(2) by (simp_all add: span_only_def)
  qed
qed

text \<open>A private span from which nothing can be had is discarded.\<close>

lemma try_discard_quietly:
  "rm_free_count (remote_of s x) = 0 \<Longrightarrow>
     quietly (try_discard x tid) s (\<lambda>r t. r \<and> t = set_span_state x Discarded (set_owner x OWNER_NONE s))"
  unfolding try_discard_def by (auto intro!: quiet_intros)

lemma front_cell:
  assumes "heap_inv n L D k pg live s" "l \<in> L" "i < n" "list_front l i s = x" "x \<noteq> 0"
  shows "cu_home k x = Some l" "cu_at k x = InList i"
proof -
  obtain xs where xs: "span_list l i s xs" "set xs = cells_at k l (InList i)"
    using assms(1-3) unfolding heap_inv_def in_custody_def lists_ok_def by blast
  with span_deque.rep_front [OF xs(1)] assms(4,5) have "x \<in> set xs" by (cases xs) auto
  with xs(2) show "cu_home k x = Some l" "cu_at k x = InList i" by (auto simp: cells_at_def)
qed

definition discarded :: "lane \<Rightarrow> nat \<Rightarrow> address \<Rightarrow> shared \<Rightarrow> shared" where
  "discarded l i x s = set_span_state x Discarded (set_owner x OWNER_NONE (snd (pop_front l i s)))"

lemma same_custody_state [simp]: "same_custody s (set_span_state x st s)"
  by (auto simp: same_custody_def next_local_def record_word_def fun_eq_iff)

lemma heap_discard:
  assumes h: "heap_inv n L D k pg live s" "cu_home k x = Some (SpanLane c)" "cu_at k x = InList i" "i < n"
    and x: "list_front (SpanLane c) i s = x" "account live s x c [] []"
  shows "heap_post n L D k pg s live ((discarded (SpanLane c) i x s)\<lparr>g_stats := st\<rparr>)"
proof -
  let ?k = "move x Loose (move x Apart k)" and ?t = "(discarded (SpanLane c) i x s)\<lparr>g_stats := st\<rparr>"
  have c: "in_custody n L k s" using h(1) by (simp add: heap_inv_def)
  have "in_custody n L (move x Apart k) (set_owner x OWNER_NONE (snd (pop_front (SpanLane c) i s)))"
    using custody_pop_front [OF c h(2-4) x(1)] by (rule custody_set_owner) simp
  moreover have "same_custody (set_owner x OWNER_NONE (snd (pop_front (SpanLane c) i s))) ?t"
    unfolding discarded_def by (rule same_custody_trans [OF same_custody_state same_custody_ops(1)])
  ultimately have "in_custody n L (move x Apart k) ?t" by (simp add: custody_frame)
  then have "in_custody n L ?k ?t" by (rule custody_lose) (simp_all add: discarded_def)
  moreover have "same_accounts s ?t" "states_but x s ?t"
    unfolding discarded_def by (intro same_accounts_steps states_but_steps same_accounts_refl states_but_refl)+
  moreover have "set (span_blocks x c) \<subseteq> live" using x(2) by (auto simp: account_def)
  moreover have "nothing_carried ?k" using heap_not_carried [OF h(1)] by (simp add: nothing_carried_def)
  ultimately have "heap_inv n L D ?k pg live ?t \<and> small_step k pg s ?k pg ?t"
    using h(2) heap_place [OF h(1)] by (intro heap_custody [OF h(1), where z = x]) auto
  then show ?thesis by (auto intro: heap_postI)
qed

lemma rotate_heap:
  assumes "heap_inv n L D k pg live s" "SpanLane c \<in> L" "unat tid < n"
  shows "quietly (rotate_local m tid c) s (\<lambda>r t. g_pool t = g_pool s \<and> (case r of
     None \<Rightarrow> heap_post n L D k pg s live t | Some p \<Rightarrow> block_post n L D k pg s live c p t))"
  using assms(1)
proof (induction m arbitrary: k pg s)
  case 0
  then show ?case by (simp add: heap_post_refl)
next
  case (Suc m)
  let ?l = "SpanLane c" and ?i = "unat tid"
  define x where "x = list_front ?l ?i s"
  let ?Q = "\<lambda>r t. g_pool t = g_pool s \<and> (case r of None \<Rightarrow> heap_post n L D k pg s live t | Some p \<Rightarrow> block_post n L D k pg s live c p t)"
  show ?case
  proof (cases "x = 0")
    case True
    then show ?thesis using Suc.prems by (auto intro!: quiet_intros intro: heap_post_refl simp: x_def)
  next
    case False
    note xc = front_cell [OF Suc.prems assms(2,3) x_def [symmetric] False]
    obtain ls rs where a: "account live s x c ls rs" using heap_span(3) [OF Suc.prems xc(1)] by (auto simp: accounted_def)
    have rest: "quietly (do {
           owner_op (pop_front ?l ?i);
           pending \<leftarrow> owner_get (\<lambda>s. lm_pending_remote (local_of s x));
           gone \<leftarrow> (if pending = 0 then try_discard x tid else ret False);
           (if gone then bump discarded_spans_update else owner_put (push_back ?l ?i x));
           rotate_local m tid c }) t ?Q"
      if t: "heap_inv n L D k pg live t" "small_step k pg s k pg t" "g_pool t = g_pool s" "same_custody s t" "account live t x c [] []" for t
    proof -
      have f: "list_front ?l ?i t = x" using t(4) by (simp add: x_def list_front_def same_custody_def)
      have hdr: "g_hdr (snd (pop_front ?l ?i t)) = g_hdr t" by (auto simp: pop_front_def Let_def)
      have z: "lm_pending_remote (local_of t x) = 0" "rm_free_count (remote_of t x) = 0" using t(5) by (simp_all add: account_def)
      have onward: "quietly (rotate_local m tid c) ((discarded ?l ?i x t)\<lparr>g_stats := st\<rparr>) ?Q" for st
      proof -
        obtain k' pg' where k': "heap_inv n L D k' pg' live ((discarded ?l ?i x t)\<lparr>g_stats := st\<rparr>)"
            "small_step k pg t k' pg' ((discarded ?l ?i x t)\<lparr>g_stats := st\<rparr>)"
          using heap_discard [OF t(1) xc assms(3) f t(5)] unfolding heap_post_def by blast
        have p: "g_pool ((discarded ?l ?i x t)\<lparr>g_stats := st\<rparr>) = g_pool s"
          using t(3) by (auto simp: discarded_def pop_front_def Let_def)
        show ?thesis
          by (rule quietly_mono [OF Suc.IH [OF k'(1)]])
            (use p small_step_trans [OF t(2) k'(2)] in \<open>auto split: option.splits intro: heap_post_step block_post_step\<close>)
      qed
      show ?thesis
        using z hdr onward
        by (auto intro!: quiet_intros quietly_mono [OF try_discard_quietly] simp: discarded_def)
    qed
    have first: "quietly (alloc_from_local_span x) s (\<lambda>p t. if ls = [] then p = 0 \<and> t = s
        else block_post n L D k pg s live c p t \<and> g_pool t = g_pool s)"
      by (rule alloc_block [OF Suc.prems xc(1) a])
    have second: "quietly (if r then alloc_from_local_span x else ret 0) t (\<lambda>p u. if rs = [] then p = 0 \<and> u = t
        else block_post n L D k pg s live c p u \<and> g_pool u = g_pool s)"
      if "r = (rs \<noteq> [])" "account live t x c (rev rs) []" "heap_inv n L D k pg live t" "small_step k pg s k pg t" "g_pool t = g_pool s" for r t
      using alloc_block [OF that(3) xc(1) that(2)] that(1,4,5)
      by (auto elim!: quietly_mono intro: block_post_step)
    show ?thesis
      unfolding rotate_local.simps
    proof (rule quietly_bind, rule quietly_owner_op, simp only: fst_conv snd_conv x_def [symmetric] False if_False,
        rule quietly_then [OF first], goal_cases)
      case (1 p t)
      show ?case
      proof (cases "ls = []")
        case True
        with 1 have "p = 0" "t = s" by simp_all
        show ?thesis
          unfolding \<open>p = 0\<close> \<open>t = s\<close>
        proof (simp, rule quietly_then [OF refill_block [OF Suc.prems xc(1) a]], elim conjE, goal_cases)
          case (1 r u)
          with True have "account live u x c (rev rs) []" by simp
          from second [OF 1(1) this 1(3-5)] show ?case
          proof (rule quietly_then, goal_cases)
            case (1 p' v)
            with \<open>heap_inv n L D k pg live u\<close> \<open>small_step k pg s k pg u\<close> \<open>g_pool u = g_pool s\<close> \<open>same_custody s u\<close>
              \<open>account live u x c (rev rs) []\<close> rest [of u]
            show ?case by (cases "rs = []") (auto simp: block_post_def)
          qed
        qed
      next
        case False
        with 1 show ?thesis by (auto simp: block_post_def)
      qed
    qed
  qed
qed

section \<open>Allocation from an acquired span\<close>

definition alloc_post where
  "alloc_post n L D k pg s live c p t \<longleftrightarrow>
     (if p = 0 then heap_post n L D k pg s live t else block_post n L D k pg s live c p t)"

lemma alloc_post_step:
  "alloc_post n L D k' pg' t live c p u \<Longrightarrow> small_step k pg s k' pg' t \<Longrightarrow> alloc_post n L D k pg s live c p u"
  by (auto simp: alloc_post_def intro: heap_post_step block_post_step)

text \<open>From a span in the thread's list: a block, or the remote blocks first.\<close>

lemma alloc_or_refill:
  assumes h: "heap_inv n L D k pg live s" "cu_home k x = Some (SpanLane c)"
  shows "quietly (do { p \<leftarrow> alloc_from_local_span x;
      if p \<noteq> 0 then ret p
      else do { refilled \<leftarrow> refill_from_remote x; if refilled then alloc_from_local_span x else ret 0 } }) s
    (\<lambda>p t. alloc_post n L D k pg s live c p t \<and> g_pool t = g_pool s)"
proof -
  obtain ls rs where a: "account live s x c ls rs" using heap_span(3) [OF h] by (auto simp: accounted_def)
  show ?thesis
  proof (rule quietly_then [OF alloc_block [OF h a]], goal_cases)
    case (1 p t)
    show ?case
    proof (cases "ls = []")
      case True
      with 1 have p: "p = 0" "t = s" by simp_all
      show ?thesis
        unfolding p
      proof (simp, rule quietly_then [OF refill_block [OF h a]], elim conjE, goal_cases)
        case (1 r u)
        have "alloc_post n L D k pg s live c 0 u" using heap_postI [OF 1(3,4)] by (simp add: alloc_post_def)
        moreover have "quietly (alloc_from_local_span x) u (\<lambda>p t. alloc_post n L D k pg s live c p t \<and> g_pool t = g_pool s)" if "rs \<noteq> []"
          using alloc_block [OF 1(3) h(2) 1(2)] that True 1(4,5)
          by (auto elim!: quietly_mono intro: block_post_step simp: alloc_post_def) (simp add: block_post_def)
        ultimately show ?case using 1 by auto
      qed
    next
      case False
      with 1 show ?thesis by (auto simp: alloc_post_def block_post_def)
    qed
  qed
qed

lemma heap_take_over:
  assumes h: "heap_inv n L D k pg live s" and i: "unat tid < n" "cu_home k x = Some (SpanLane c)"
    and k': "headers_agree s t" "in_custody n L k' t" "shuffled (SpanLane c) k k'"
      "\<And>y. cu_home k y \<noteq> None \<Longrightarrow> cu_at k' y = Carried \<longleftrightarrow> y = x"
  defines "u \<equiv> push_front (SpanLane c) (unat tid) x (set_span_state x NonEmptyLocal (set_owner x tid t))"
  shows "heap_post n L D k pg s live u" "g_pool u = g_pool s"
    "\<exists>k''. heap_inv n L D k'' pg live u \<and> small_step k pg s k'' pg u \<and> cu_home k'' x = Some (SpanLane c)"
proof -
  let ?l = "SpanLane c" and ?k = "move x (InList (unat tid)) (move x Apart k')"
  have hm: "cu_home k' = cu_home k" "\<And>a. cu_use k' a = Unused \<longleftrightarrow> cu_use k a = Unused" using k'(3) by (auto simp: shuffled_def)
  have at: "cu_at k' y = cu_at k y \<or> cu_home k y = Some ?l \<and> public_place (cu_at k' y)" for y using k'(3) by (auto simp: shuffled_def)
  have "in_custody n L (move x Apart k') t" using k'(2,4) i(2) by (intro custody_move_apart) auto
  then have "in_custody n L (move x Apart k') (set_owner x tid t)" by (rule custody_set_owner) simp
  then have "in_custody n L (move x Apart k') (set_span_state x NonEmptyLocal (set_owner x tid t))"
    by (simp only: custody_frame [OF same_custody_state])
  then have "in_custody n L ?k u" unfolding u_def by (rule custody_push(1)) (use hm i in simp_all)
  moreover have acc: "same_accounts s u" and "states_but x s u"
    unfolding u_def by (intro same_accounts_steps states_but_steps same_accounts_agree states_but_agree k'(1))+
  moreover have "nothing_carried ?k" using k'(4) hm(1) by (simp add: nothing_carried_def)
  moreover have "cu_at ?k y \<noteq> Apart \<and> (cu_at ?k y = Loose \<longrightarrow> cu_at k y = Loose)" if "cu_home k y = Some (SpanLane c')" for y c'
    using at [of y] heap_place(1) [OF h that] by (auto simp: public_place_def)
  moreover have "cu_at ?k y = cu_at k y" if "cu_home k y = Some (RunLane r)" for y r
    using at [of y] i(2) that by auto
  ultimately have r: "heap_inv n L D ?k pg live u \<and> small_step k pg s ?k pg u"
    using hm i(2) by (intro heap_custody [OF h, where z = x]) auto
  then show "heap_post n L D k pg s live u" by (auto intro: heap_postI)
  show "g_pool u = g_pool s" using acc by (simp add: same_accounts_def)
  show "\<exists>k''. heap_inv n L D k'' pg live u \<and> small_step k pg s k'' pg u \<and> cu_home k'' x = Some (SpanLane c)"
    using r hm(1) i(2) by (intro exI [of _ ?k]) simp
qed

lemma use_acquired_heap:
  assumes h: "heap_inv n L D k pg live s" and i: "unat tid < n" "cu_home k x = Some (SpanLane c)"
    and k': "headers_agree s t" "in_custody n L k' t" "shuffled (SpanLane c) k k'"
      "\<And>y. cu_home k y \<noteq> None \<Longrightarrow> cu_at k' y = Carried \<longleftrightarrow> y = x"
  shows "quietly (use_acquired x tid c) t (\<lambda>p u. alloc_post n L D k pg s live c p u \<and> g_pool u = g_pool s)"
proof -
  let ?u = "push_front (SpanLane c) (unat tid) x (set_span_state x NonEmptyLocal (set_owner x tid t))"
  obtain k'' where k'': "heap_inv n L D k'' pg live ?u" "small_step k pg s k'' pg ?u" "cu_home k'' x = Some (SpanLane c)"
    using heap_take_over(3) [OF h i k'] by blast
  note p = heap_take_over(2) [OF h i k']
  show ?thesis
    unfolding use_acquired_def
    using quietly_mono [OF alloc_or_refill [OF k''(1,3)]] alloc_post_step [OF _ k''(2)] p
    by (auto intro!: quietly_bind [OF quietly_shared_op] quietly_bind [OF quietly_owner_op])
qed

section \<open>Carving from the pool\<close>

text \<open>
  The next free pages of the pool: they belong to nobody, their address is the base of no cell, and the node embedded
  in a header there is in nobody's use.
\<close>

lemma unat_of_nat_le: "m \<le> unat (w :: usize) \<Longrightarrow> unat (of_nat m :: usize) = m"
  using le_less_trans [OF _ unat_word_lt [of w], of m] by (intro unat_of_nat_small) simp

lemma span_addr_inj:
  assumes "pool_wf p" "i < unat (pool_count p)" "j < unat (pool_count p)" "span_addr p (of_nat i) = span_addr p (of_nat j)"
  shows "i = j"
proof -
  have b: "unat (of_nat m :: usize) = m" if "m < unat (pool_count p)" for m
    using unat_of_nat_le [of m "pool_count p"] that by simp
  have u: "unat (span_addr p (of_nat m)) = unat (pool_base p) + m * 65536" if "m < unat (pool_count p)" for m
    using span_addr_unat [OF assms(1), of "of_nat m"] b [OF that] that by (simp add: word_less_nat_alt)
  have "unat (pool_base p) + i * 65536 = unat (pool_base p) + j * 65536"
    unfolding u [OF assms(2), symmetric] u [OF assms(3), symmetric] assms(4) ..
  then show ?thesis by simp
qed

lemma next_pages:
  assumes e: "on_estate D k pg p" "pool_next p < pool_count p"
  defines "x \<equiv> span_addr p (pool_next p)"
  shows "span_base x" "cu_home k x = None" "cu_use k (node_storage_of x) = Unused" "node_storage_of x \<noteq> 0"
    "\<And>j. unat (pool_next p) \<le> j \<Longrightarrow> pg j = Vacant" "x = span_addr p (of_nat (unat (pool_next p)))"
proof -
  have wf: "pool_wf p" "pool_base p \<noteq> 0" using e(1) by (simp_all add: on_estate_def)
  have i: "unat (pool_next p) < unat (pool_count p)" using e(2) by (simp add: word_less_nat_alt)
  have ux: "unat x = unat (pool_base p) + unat (pool_next p) * 65536" unfolding x_def by (rule span_addr_unat [OF wf(1) e(2)])
  have al: "65536 dvd unat (pool_base p)" using wf(1) by (simp add: pool_wf_def span_aligned_iff)
  show b: "span_base x" using ux al wf(2) by (auto simp: span_base_def word_eq_iff_unat)
  show xi: "x = span_addr p (of_nat (unat (pool_next p)))" by (simp add: x_def)
  show none: "cu_home k x = None"
  proof (rule ccontr)
    assume "cu_home k x \<noteq> None"
    then obtain l where "cu_home k x = Some l" by blast
    then have "occupies p pg x (lane_pages l) (CellPages x)" by (rule estateD(3) [OF e(1)])
    then obtain j where j: "x = span_addr p (of_nat j)" "j + lane_pages l \<le> unat (pool_count p)"
        "\<forall>m. j \<le> m \<and> m < j + lane_pages l \<longrightarrow> pg m = CellPages x"
      unfolding occupies_def by blast
    have lp: "0 < lane_pages l" by (cases l) simp_all
    then have "j = unat (pool_next p)" using j(1,2) xi i by (intro span_addr_inj [OF wf(1)]) auto
    moreover have "pg j \<noteq> Vacant" using j(3) lp by simp
    ultimately show False using estate_vacant [OF e(1), of j] by simp
  qed
  show "cu_use k (node_storage_of x) = Unused"
  proof (rule ccontr)
    assume "cu_use k (node_storage_of x) \<noteq> Unused"
    then have "node_storage_of x \<in> D \<or> (\<exists>y. cu_home k y \<noteq> None \<and> node_storage_of x = node_storage_of y)"
      by (rule estateD(6) [OF e(1)])
    moreover have "node_storage_of x \<notin> D" using estateD(7) [OF e(1) i] xi by simp
    ultimately show False using none by (auto simp: node_storage_of_def)
  qed
  have "unat (node_storage_of x) = unat x + 48"
    using span_base_room [OF b] unfolding node_storage_of_def by (subst unat_add_nowrap) simp_all
  then show "node_storage_of x \<noteq> 0" by (auto simp: word_eq_iff_unat)
  show "pg j = Vacant" if "unat (pool_next p) \<le> j" for j by (rule estate_vacant [OF e(1) that])
qed

lemma estate_advance:
  assumes "on_estate D k pg p" "unat (pool_count p) \<le> unat (pool_next p)" "unat (pool_next p) \<le> unat v"
  shows "on_estate D k pg (p\<lparr>pool_next := v\<rparr>)"
proof -
  have sa: "span_addr (p\<lparr>pool_next := v\<rparr>) = span_addr p" by (simp add: span_addr_def fun_eq_iff)
  then have "occupies (p\<lparr>pool_next := v\<rparr>) pg x m q = occupies p pg x m q" for x m q by (simp add: occupies_def)
  moreover have "j < unat v \<and> j < unat (pool_count p) \<longleftrightarrow> j < unat (pool_next p) \<and> j < unat (pool_count p)" for j
    using assms(2,3) by auto
  ultimately show ?thesis using assms(1) unfolding on_estate_def sa by (simp add: pool_wf_def)
qed

definition settle_pages :: "nat \<Rightarrow> nat \<Rightarrow> tenant \<Rightarrow> (nat \<Rightarrow> tenant) \<Rightarrow> nat \<Rightarrow> tenant" where
  "settle_pages i m q pg j = (if i \<le> j \<and> j < i + m then q else pg j)"

lemma estate_carve:
  assumes e: "on_estate D k pg p" "unat (pool_next p) + m \<le> unat (pool_count p)" "0 < m" "m = lane_pages l"
  defines "x \<equiv> span_addr p (pool_next p)"
  shows "on_estate D (settle_cell x l (node_storage_of x) k) (settle_pages (unat (pool_next p)) m (CellPages x) pg)
     (p\<lparr>pool_next := pool_next p + of_nat m\<rparr>)"
proof -
  let ?i = "unat (pool_next p)" and ?p = "p\<lparr>pool_next := pool_next p + of_nat m\<rparr>"
  let ?k = "settle_cell x l (node_storage_of x) k" and ?pg = "settle_pages (unat (pool_next p)) m (CellPages x) pg"
  have lt: "pool_next p < pool_count p" using e(2,3) by (simp add: word_less_nat_alt)
  note nx = next_pages [OF e(1) lt, folded x_def]
  have um: "unat (of_nat m :: usize) = m" using unat_of_nat_le [of m "pool_count p"] e(2) by simp
  have "?i + m < 2 ^ 64" using le_less_trans [OF e(2) unat_word_lt] by simp
  then have un: "unat (pool_next p + of_nat m) = ?i + m" using um by (subst unat_add_nowrap) simp_all
  have sa: "span_addr ?p = span_addr p" by (simp add: span_addr_def fun_eq_iff)
  have keep: "?pg j = pg j" if "pg j \<noteq> Vacant" for j using nx(5) [of j] that by (auto simp: settle_pages_def)
  have "occupies ?p ?pg y (lane_pages l') (CellPages y)" if y: "cu_home ?k y = Some l'" for y l'
  proof (cases "y = x")
    case True
    then show ?thesis using y nx(6) e(2,4) unfolding occupies_def sa
      by (intro exI [of _ ?i]) (simp add: settle_pages_def)
  next
    case False
    then have "occupies p pg y (lane_pages l') (CellPages y)" using y e(1) by (simp add: on_estate_def)
    then obtain i where i: "y = span_addr p (of_nat i)" "i + lane_pages l' \<le> unat (pool_count p)"
        "\<forall>j. i \<le> j \<and> j < i + lane_pages l' \<longrightarrow> pg j = CellPages y"
      unfolding occupies_def by blast
    then have "\<forall>j. i \<le> j \<and> j < i + lane_pages l' \<longrightarrow> ?pg j = CellPages y" using keep by simp
    with i show ?thesis unfolding occupies_def sa by auto
  qed
  moreover have "?pg j \<noteq> Vacant \<longleftrightarrow> j < ?i + m \<and> j < unat (pool_count p)" for j
    using e(1,2) by (auto simp: settle_pages_def on_estate_def)
  moreover have "cu_home ?k y \<noteq> None" if "?pg j = CellPages y" for j y
    using that e(1) by (auto simp: settle_pages_def on_estate_def split: if_splits)
  moreover have "a \<in> D \<or> (\<exists>y. cu_home ?k y \<noteq> None \<and> a = node_storage_of y)" if "cu_use ?k a \<noteq> Unused" for a
  proof (cases "a = node_storage_of x")
    case True
    then show ?thesis by (intro disjI2 exI [of _ x]) simp
  next
    case False
    then have "a \<in> D \<or> (\<exists>y. cu_home k y \<noteq> None \<and> a = node_storage_of y)" using that e(1) by (simp add: on_estate_def)
    then show ?thesis by auto
  qed
  ultimately show ?thesis
    using e(1) un unfolding on_estate_def sa by (simp add: pool_wf_def)
qed

lemma lists_of_pool [simp]:
  "local_list (s\<lparr>g_pool := p\<rparr>) l i = local_list s l i" "public_list (s\<lparr>g_pool := p\<rparr>) l i = public_list s l i"
  "record_at (s\<lparr>g_pool := p\<rparr>) l i = record_at s l i"
  by (cases l; simp)+

lemma same_custody_pool [simp]: "same_custody s (s\<lparr>g_pool := p\<rparr>)"
  by (auto simp: same_custody_def next_local_def record_word_def fun_eq_iff)

text \<open>A fresh span: carved, initialised and listed.\<close>

lemma acquire_raw_span_quietly:
  "quietly acquire_raw_span s (\<lambda>r t. r = (if pool_next (g_pool s) \<ge> pool_count (g_pool s) then 0 else span_addr (g_pool s) (pool_next (g_pool s)))
     \<and> t = s\<lparr>g_pool := (g_pool s)\<lparr>pool_next := pool_next (g_pool s) + 1\<rparr>\<rparr>)"
  by (simp add: quietly_def run_acquire_raw_span Let_def)

lemma init_span_elsewhere:
  assumes "init_span base c bs owner s = (span, t)"
  shows "local_list t = local_list s" "public_list t = public_list s" "record_word t = record_word s" "g_pool t = g_pool s"
    "g_lhdr t = g_lhdr s" "g_huge t = g_huge s" "g_active t = g_active s" "b \<noteq> node_storage_of base \<Longrightarrow> g_node t b = g_node s b"
proof -
  obtain h u where l: "link_blocks (unat ((SPAN_SIZE - first_block_offset bs) div bs)) base (first_block_offset bs) bs 0
      (upd_hdr (sh_block_count_update (\<lambda>_. (SPAN_SIZE - first_block_offset bs) div bs)) base
        (upd_hdr (sh_node_update (\<lambda>_. node_storage_of base)) base (write_header base (span_header_fresh c bs 0 owner FullLocal) s))) = (h, u)"
    by (meson surj_pair)
  note f = link_blocks_frame [OF l]
  have t: "t = upd_local (lm_free_count_update (\<lambda>_. (SPAN_SIZE - first_block_offset bs) div bs)) base (push_chain_head_for_init base h u)"
    using assms l by (auto simp: init_span_def Let_def)
  have u: "local_list u l i = local_list s l i" "public_list u l i = public_list s l i" "record_at u l i = record_at s l i" for l i
    using f by (cases l; simp add: write_header_def)+
  show "local_list t = local_list s" "public_list t = public_list s" "record_word t = record_word s" "g_pool t = g_pool s"
    "g_lhdr t = g_lhdr s" "g_huge t = g_huge s" "g_active t = g_active s" "b \<noteq> node_storage_of base \<Longrightarrow> g_node t b = g_node s b"
    using f u by (auto simp: t push_chain_head_for_init_def write_header_def record_word_def fun_eq_iff)
qed

lemma heap_fresh_span:
  fixes st :: allocator_stats
  assumes h: "heap_inv n L D k pg live s" "SpanLane c \<in> L" "c < 11" "unat tid < n" "pool_next (g_pool s) < pool_count (g_pool s)"
  defines "x \<equiv> span_addr (g_pool s) (pool_next (g_pool s))"
  defines "s' \<equiv> s\<lparr>g_pool := (g_pool s)\<lparr>pool_next := pool_next (g_pool s) + 1\<rparr>\<rparr>"
  assumes t: "init_span x c (class_to_size c) tid s' = (y, t)"
  defines "u \<equiv> push_front (SpanLane c) (unat tid) x (t\<lparr>g_stats := st\<rparr>)"
  shows "y = x" "\<exists>k' pg'. heap_inv n L D k' pg' live u \<and> small_step k pg s k' pg' u \<and> cu_home k' x = Some (SpanLane c)
     \<and> account live u x c (span_blocks x c) []" "g_pool u = g_pool s'"
proof -
  let ?l = "SpanLane c" and ?a = "node_storage_of x" and ?p = "g_pool s"
  let ?k = "move x (InList (unat tid)) (settle_cell x ?l ?a k)" and ?pg = "settle_pages (unat (pool_next ?p)) 1 (CellPages x) pg"
  have e: "on_estate D k pg ?p" using h(1) by (simp add: heap_inv_def)
  note nx = next_pages [OF e h(5), folded x_def]
  have "c < MAX_SUPPORTED_CLASSES" using h(3) by (simp add: wf_config)
  note f = init_span_facts [OF nx(1) this t] and el = init_span_elsewhere [OF t]
  show yx: "y = x" using f by simp
  have s': "in_custody n L k s'" using h(1) unfolding s'_def by (simp only: custody_frame [OF same_custody_pool] heap_inv_def)
  have "in_custody n L (settle_cell x ?l ?a k) t"
    by (rule custody_new_cell [OF s' nx(2,3) h(2) nx(1,4)]) (use f el yx in auto)
  then have c1: "in_custody n L (settle_cell x ?l ?a k) (t\<lparr>g_stats := st\<rparr>)" by (simp only: custody_frame [OF same_custody_ops(1)])
  have "in_custody n L ?k u"
    unfolding u_def by (rule custody_push(1) [OF c1]) (use f yx h(4) in simp_all)
  moreover have acc: "same_accounts t u" and st: "states_but x t u"
    unfolding u_def by (intro same_accounts_steps states_but_steps same_accounts_refl states_but_refl)+
  moreover have pool: "g_pool u = g_pool s'" using acc el(4) by (simp add: same_accounts_def)
  ultimately show "g_pool u = g_pool s'" by simp
  have fresh: "live \<inter> set (span_blocks x c) = {}"
  proof -
    have "b \<notin> set (span_blocks x c)" if "b \<in> live" for b
    proof -
      obtain z c' where z: "cu_home k z = Some (SpanLane c')" "b \<in> set (span_blocks z c')"
        using h(1) \<open>b \<in> live\<close> by (auto simp: heap_inv_def live_blocks_def)
      have "z \<noteq> x" using z(1) nx(2) by auto
      with span_blocks_disjoint [OF heap_span(2,1) [OF h(1) z(1)] nx(1) h(3)] z(2) show ?thesis by blast
    qed
    then show ?thesis by blast
  qed
  have "account live t x c (span_blocks x c) []"
    using f fresh yx by (auto simp: account_def span_counts_def)
  then have ax: "account live u x c (span_blocks x c) []"
    using account_frame [of u x t c live] acc by (simp add: same_accounts_def)
  have az: "accounted live u z c'" if z: "cu_home k z = Some (SpanLane c')" "z \<noteq> x" for z c'
  proof -
    have "ledger_of (g_hdr u z) = ledger_of (g_hdr s z)" using acc f yx z(2) by (simp add: same_accounts_def s'_def)
    moreover have "g_block u b = g_block s b" if "b \<in> set (span_blocks z c') - live" for b
      using that acc f yx span_blocks_disjoint [OF heap_span(2,1) [OF h(1) z(1)] nx(1) h(3) z(2)]
      by (auto simp: same_accounts_def s'_def)
    ultimately show ?thesis using accounted_frame heap_span(3) [OF h(1) z(1)] by metis
  qed
  have "small_accounts ?k live u"
    unfolding small_accounts_def
  proof (intro allI impI)
    fix z c' assume "cu_home ?k z = Some (SpanLane c')"
    then show "c' < 11 \<and> accounted live u z c' \<and> cu_at ?k z \<noteq> Apart \<and> (cu_at ?k z = Loose \<longrightarrow> set (span_blocks z c') \<subseteq> live)"
      using ax az h(3) heap_span(1) [OF h(1)] heap_place [OF h(1)] by (cases "z = x") (auto simp: accounted_def)
  qed
  moreover have "on_estate D ?k ?pg (g_pool u)"
    using estate_carve [OF e, of 1 ?l] h(5) unfolding pool s'_def x_def
    by (simp add: word_less_nat_alt on_estate_def)
  moreover have "live_blocks ?k live"
    using h(1) nx(2) unfolding heap_inv_def live_blocks_def by (metis fun_upd_apply move_simps(1) option.distinct(1) settle_cell_simps(1))
  moreover have "nothing_carried ?k" using h(1) by (simp add: heap_inv_def nothing_carried_def)
  moreover have "g_active u = n" using h(1) acc el(7) by (simp add: heap_inv_def same_accounts_def s'_def)
  ultimately have "heap_inv n L D ?k ?pg live u" using \<open>in_custody n L ?k u\<close> by (simp add: heap_inv_def)
  moreover have "small_step k pg s ?k ?pg u"
    using nx(2,5) acc st f el yx
    by (auto simp: small_step_def same_accounts_def states_but_def settle_pages_def s'_def)
  ultimately show "\<exists>k' pg'. heap_inv n L D k' pg' live u \<and> small_step k pg s k' pg' u \<and> cu_home k' x = Some (SpanLane c)
     \<and> account live u x c (span_blocks x c) []"
    using ax by (intro exI [of _ ?k] exI [of _ ?pg]) simp
qed

lemma heap_pool_advance:
  assumes "heap_inv n L D k pg live s" "unat (pool_count (g_pool s)) \<le> unat (pool_next (g_pool s))" "unat (pool_next (g_pool s)) \<le> unat v"
  shows "heap_inv n L D k pg live (s\<lparr>g_pool := (g_pool s)\<lparr>pool_next := v\<rparr>\<rparr>)" (is "heap_inv _ _ _ _ _ _ ?t")
proof -
  have "accounted live ?t x c = accounted live s x c" for x c by (rule accounted_frame) simp_all
  then have "small_accounts k live ?t = small_accounts k live s" by (simp add: small_accounts_def)
  then show ?thesis
    using assms estate_advance [of D k pg "g_pool s" v] unfolding heap_inv_def by (simp add: custody_frame [OF same_custody_pool])
qed

abbreviation "cursor s \<equiv> pool_next (g_pool s)"

definition pool_moved :: "shared \<Rightarrow> shared \<Rightarrow> bool" where
  "pool_moved s t \<longleftrightarrow> g_pool t = g_pool s \<or> g_pool t = (g_pool s)\<lparr>pool_next := cursor s + 1\<rparr>"

lemma use_raw_heap:
  assumes h: "heap_inv n L D k pg live s" "SpanLane c \<in> L" "c < 11" "unat tid < n" "unat (cursor s) < 2 ^ 64 - 1"
  shows "quietly (use_raw tid c) s (\<lambda>p t. alloc_post n L D k pg s live c p t
     \<and> (p = 0 \<longrightarrow> pool_count (g_pool s) \<le> cursor s) \<and> pool_moved s t)"
proof -
  let ?s = "s\<lparr>g_pool := (g_pool s)\<lparr>pool_next := cursor s + 1\<rparr>\<rparr>"
  define x where "x = span_addr (g_pool s) (cursor s)"
  have full: "alloc_post n L D k pg s live c 0 ?s" if "pool_count (g_pool s) \<le> cursor s"
  proof -
    have "heap_inv n L D k pg live ?s"
      using h(1,5) that by (intro heap_pool_advance) (simp_all add: unat_inc word_le_nat_alt)
    moreover have "small_step k pg s k pg ?s" by (simp add: small_step_def)
    ultimately show ?thesis using heap_postI by (simp add: alloc_post_def)
  qed
  have carve: "quietly (do { span \<leftarrow> owner_op (init_span x c (class_to_size c) tid); bump allocated_spans_update;
        owner_put (push_front (SpanLane c) (unat tid) span); alloc_from_local_span span }) ?s
      (\<lambda>p t. block_post n L D k pg s live c p t \<and> g_pool t = g_pool ?s)" if lt: "cursor s < pool_count (g_pool s)"
  proof -
    obtain y t where t: "init_span x c (class_to_size c) tid ?s = (y, t)" by (meson surj_pair)
    note fs = heap_fresh_span [OF h(1-4) lt, folded x_def, OF t]
    have y: "y = x" by (rule fs(1))
    have "quietly (alloc_from_local_span x) (push_front (SpanLane c) (unat tid) x (t\<lparr>g_stats := st\<rparr>))
        (\<lambda>p t. block_post n L D k pg s live c p t \<and> g_pool t = g_pool ?s)" for st
    proof -
      let ?u = "push_front (SpanLane c) (unat tid) x (t\<lparr>g_stats := st\<rparr>)"
      obtain k' pg' where u: "heap_inv n L D k' pg' live ?u" "small_step k pg s k' pg' ?u" "cu_home k' x = Some (SpanLane c)"
          "account live ?u x c (span_blocks x c) []"
        using fs(2) by blast
      have "span_blocks x c \<noteq> []" using block_total_bounds [OF h(3)] by (simp add: span_blocks_def)
      with alloc_block [OF u(1,3,4)] fs(3) [of st] u(2) show ?thesis
        by (auto elim!: quietly_mono intro: block_post_step)
    qed
    with t y show ?thesis by (auto intro!: quietly_bind [OF quietly_owner_op] quietly_bind [OF quietly_bump])
  qed
  have nz: "x \<noteq> 0" if "cursor s < pool_count (g_pool s)"
    using next_pages(1) [OF _ that, of D k pg] h(1) by (auto simp: x_def heap_inv_def span_base_def)
  show ?thesis
    unfolding use_raw_def
  proof (rule quietly_then [OF acquire_raw_span_quietly], elim conjE, goal_cases)
    case (1 r t)
    show ?case
    proof (cases "cursor s < pool_count (g_pool s)")
      case True
      with 1 nz have r: "r = x" "x \<noteq> 0" by (auto simp: x_def)
      have "block_post n L D k pg s live c p u \<Longrightarrow> p \<noteq> 0" for p u by (simp add: block_post_def)
      with carve [OF True] show ?thesis
        using r 1(2) by (auto elim!: quietly_mono simp: alloc_post_def pool_moved_def)
    next
      case False
      with 1 full show ?thesis by (auto simp: pool_moved_def)
    qed
  qed
qed

lemma alloc_post_zero:
  assumes "alloc_post n L D k pg s live c 0 t"
  obtains k' pg' where "heap_inv n L D k' pg' live t" "small_step k pg s k' pg' t"
  using assms unfolding alloc_post_def heap_post_def by auto

lemma acquire_heap:
  assumes h: "heap_inv n L D k pg live s" "SpanLane c \<in> L" "unat tid < n"
  shows "quietly (do { span \<leftarrow> spanlists_acquire_span B n (unat tid) c;
      if span \<noteq> 0 then use_acquired span tid c else ret 0 }) s
    (\<lambda>p t. alloc_post n L D k pg s live c p t \<and> g_pool t = g_pool s)"
proof -
  have c: "in_custody n L k s" using h(1) by (simp add: heap_inv_def)
  have nc: "\<And>x. cu_home k x \<noteq> None \<Longrightarrow> cu_at k x \<noteq> Carried" using heap_not_carried [OF h(1)] by blast
  show ?thesis
    unfolding spanlists_acquire_span_def
  proof (rule quietly_then [OF acquire_in_custody [OF c h(2,3) nc]], simp, elim conjE exE, goal_cases)
    case (1 x t k')
    have "alloc_post n L D k pg s live c 0 t \<and> g_pool t = g_pool s" if "x = 0"
    proof -
      have hm: "cu_home k' = cu_home k" "\<And>a. cu_use k' a = Unused \<longleftrightarrow> cu_use k a = Unused"
        and at: "\<And>y. cu_at k' y = cu_at k y \<or> cu_home k y = Some (SpanLane c) \<and> public_place (cu_at k' y)"
        using 1(3) by (auto simp: shuffled_def)
      have "nothing_carried k'" using 1(4) that hm(1) custody_nonnull [OF c] by (auto simp: nothing_carried_def)
      moreover have "cu_at k' y \<noteq> Apart \<and> (cu_at k' y = Loose \<longrightarrow> cu_at k y = Loose)" if "cu_home k y = Some (SpanLane c')" for y c'
        using at [of y] heap_place(1) [OF h(1) that] by (auto simp: public_place_def)
      moreover have "cu_at k' y = cu_at k y" if "cu_home k y = Some (RunLane r)" for y r using at [of y] that by auto
      ultimately have "heap_inv n L D k' pg live t \<and> small_step k pg s k' pg t"
        using hm 1(2) same_accounts_agree [OF 1(1)] states_but_agree [OF 1(1), of 0] custody_nonnull [OF c, of 0]
        by (intro heap_custody [OF h(1), where z = 0]) auto
      then show ?thesis using 1(1) heap_postI by (auto simp: alloc_post_def headers_agree_def)
    qed
    moreover have "quietly (use_acquired x tid c) t (\<lambda>p u. alloc_post n L D k pg s live c p u \<and> g_pool u = g_pool s)" if "x \<noteq> 0"
      using 1 that by (intro use_acquired_heap [OF h(1,3)]) auto
    ultimately show ?case by auto
  qed
qed

lemma alloc_small_heap:
  assumes h: "heap_inv n L D k pg live s" "SpanLane c \<in> L" "c < 11" "unat tid < n" "unat (cursor s) < 2 ^ 64 - 1"
  shows "quietly (alloc_small B n tid c) s (\<lambda>p t. alloc_post n L D k pg s live c p t
     \<and> (p = 0 \<longrightarrow> pool_count (g_pool s) \<le> cursor s) \<and> pool_moved s t)"
proof -
  let ?Q = "\<lambda>p t. alloc_post n L D k pg s live c p t \<and> (p = 0 \<longrightarrow> pool_count (g_pool s) \<le> cursor s) \<and> pool_moved s t"
  have raw: "quietly (use_raw tid c) t ?Q"
    if t: "heap_inv n L D k' pg' live t" "small_step k pg s k' pg' t" "g_pool t = g_pool s" for k' pg' t
    by (rule quietly_mono [OF use_raw_heap [OF t(1) h(2-4)]])
      (use h(5) t(2,3) in \<open>auto intro: alloc_post_step simp: pool_moved_def\<close>)
  have rest: "quietly (do { span \<leftarrow> spanlists_acquire_span B n (unat tid) c;
      p \<leftarrow> (if span \<noteq> 0 then use_acquired span tid c else ret 0);
      if p \<noteq> 0 then ret p else use_raw tid c }) t ?Q"
    if t: "heap_inv n L D k' pg' live t" "small_step k pg s k' pg' t" "g_pool t = g_pool s" for k' pg' t
  proof -
    have "quietly (State_Monad.bind (do { span \<leftarrow> spanlists_acquire_span B n (unat tid) c;
        if span \<noteq> 0 then use_acquired span tid c else ret 0 }) (\<lambda>p. if p \<noteq> 0 then ret p else use_raw tid c)) t ?Q"
    proof (rule quietly_then [OF acquire_heap [OF t(1) h(2,4)]], elim conjE, goal_cases)
      case (1 p u)
      show ?case
      proof (cases "p = 0")
        case True
        with 1(1) obtain k'' pg'' where "heap_inv n L D k'' pg'' live u" "small_step k' pg' t k'' pg'' u"
          by (auto elim: alloc_post_zero)
        with True t 1(2) raw show ?thesis by (auto intro: small_step_trans)
      next
        case False
        with 1 t(2,3) show ?thesis by (auto intro: alloc_post_step simp: pool_moved_def)
      qed
    qed
    then show ?thesis by (simp add: State_Monad.bind_assoc)
  qed
  show ?thesis
    unfolding alloc_small_def
  proof (rule quietly_then [OF rotate_heap [OF h(1,2,4)]], elim conjE, goal_cases)
    case (1 r t)
    show ?case
    proof (cases r)
      case None
      with 1(2) obtain k' pg' where "heap_inv n L D k' pg' live t" "small_step k pg s k' pg' t"
        unfolding heap_post_def by auto
      with None rest 1(1) show ?thesis by simp
    next
      case (Some p)
      with 1 show ?thesis by (auto simp: alloc_post_def block_post_def pool_moved_def)
    qed
  qed
qed

end
