(* ===== verification/Small_Frees.thy ===== *)
theory Small_Frees
  imports Small_Heap
begin

text \<open>
  Small frees on the whole heap: freeing a live block, by the owner of its span or by another thread, makes exactly
  that block free and keeps the invariant of the heap, whether the span stays where it is, is published or is
  claimed.
\<close>

lemma heap_frame:
  assumes "heap_inv n L D k pg live s" "same_custody s t" "same_accounts s t" "states_but x s t" "cu_home k x = Some (SpanLane c)"
  shows "heap_inv n L D k pg live t \<and> small_step k pg s k pg t"
  using assms heap_place [OF assms(1)]
  by (intro heap_custody [OF assms(1), where z = x]) (auto simp: custody_frame [OF assms(2)] heap_inv_def)

lemma owned_in_list:
  assumes h: "heap_inv n L D k pg live s" "cu_home k x = Some (SpanLane c)" "n < 2 ^ 62" "unat tid < n"
  shows "sh_owner (g_hdr s x) = tid \<longleftrightarrow> cu_at k x = InList (unat tid)"
    "sh_owner (g_hdr s x) = OWNER_NONE \<longleftrightarrow> cu_at k x = Loose"
proof -
  have c: "cell_ok n L k s x (SpanLane c)" using custody_cell h(1,2) by (auto simp: heap_inv_def)
  have t: "tid \<noteq> OWNER_NONE" "tid \<noteq> OWNER_PUBLIC" using tid_words(1,2) [OF h(4,3)] by simp_all
  show "sh_owner (g_hdr s x) = tid \<longleftrightarrow> cu_at k x = InList (unat tid)" "sh_owner (g_hdr s x) = OWNER_NONE \<longleftrightarrow> cu_at k x = Loose"
    using c t heap_place(1,2) [OF h(1,2)] tid_words [OF _ h(3)] tid_words(3) [OF h(4,3)] owner_sentinels_distinct by (cases "cu_at k x"; auto simp: cell_ok_def)+
qed

lemma live_block:
  assumes "heap_inv n L D k pg live s" "b \<in> live"
  obtains c where "cu_home k (span_from_ptr b) = Some (SpanLane c)" "b \<in> set (span_blocks (span_from_ptr b) c)" "b \<noteq> 0"
proof -
  obtain x c where x: "cu_home k x = Some (SpanLane c)" "b \<in> set (span_blocks x c)"
    using assms by (auto simp: heap_inv_def live_blocks_def)
  with span_block_props [OF heap_span(2,1) [OF assms(1) x(1)] x(2)] show ?thesis by (intro that [of c]) simp_all
qed

section \<open>By the owner\<close>

definition published :: "nat \<Rightarrow> nat \<Rightarrow> address \<Rightarrow> shared \<Rightarrow> shared" where
  "published c i x s = enqueued (SpanLane c) i x (set_span_state x FullPublic (set_owner x OWNER_PUBLIC
     (snd (remove_bounded (SpanLane c) i x (unat (list_len (SpanLane c) i s)) s))))"

lemma heap_publish:
  assumes h: "heap_inv n L D k pg live s" "cu_home k x = Some (SpanLane c)" "cu_at k x = InList i" "i < n"
  shows "fst (remove_bounded (SpanLane c) i x (unat (list_len (SpanLane c) i s)) s)"
    "heap_post n L D k pg s live ((published c i x s)\<lparr>g_stats := st\<rparr>)"
    "g_pool (published c i x s) = g_pool s"
proof -
  let ?l = "SpanLane c" and ?m = "unat (list_len (SpanLane c) i s)"
  let ?u = "snd (remove_bounded ?l i x ?m s)"
  let ?v = "set_span_state x FullPublic (set_owner x OWNER_PUBLIC ?u)"
  have c: "in_custody n L k s" using h(1) by (simp add: heap_inv_def)
  note rm = custody_remove [OF c h(2-4) order.refl]
  show "fst (remove_bounded ?l i x ?m s)" by (rule rm(1))
  have "in_custody n L (move x Apart k) (set_owner x OWNER_PUBLIC ?u)" by (rule custody_set_owner [OF rm(2)]) simp
  then have v: "in_custody n L (move x Apart k) ?v" by (simp only: custody_frame [OF same_custody_state])
  let ?k = "use_node (sh_node (g_hdr ?v x)) (Listed ?l i) (move x (InQueue i) (move x Apart k))"
  let ?t = "(published c i x s)\<lparr>g_stats := st\<rparr>"
  have "in_custody n L ?k (published c i x s)"
    unfolding published_def by (rule custody_enqueue [OF v]) (use h in simp_all)
  then have "in_custody n L ?k ?t" by (simp only: custody_frame [OF same_custody_ops(1)])
  moreover have acc: "same_accounts s ?t" and "states_but x s ?t"
    unfolding published_def by (intro same_accounts_steps states_but_steps same_accounts_refl states_but_refl)+
  moreover have "cu_use k (sh_node (g_hdr ?v x)) \<noteq> Unused"
    using custody_cell [OF v, of x ?l] h(2) by (auto simp: cell_ok_def)
  moreover have "nothing_carried ?k" using heap_not_carried [OF h(1)] by (simp add: nothing_carried_def)
  ultimately have "heap_inv n L D ?k pg live ?t \<and> small_step k pg s ?k pg ?t"
    using h(2) heap_place [OF h(1)] by (intro heap_custody [OF h(1), where z = x]) auto
  then show "heap_post n L D k pg s live ?t" by (auto intro: heap_postI)
  show "g_pool (published c i x s) = g_pool s" using acc by (simp add: same_accounts_def)
qed

lemma dealloc_local_heap:
  assumes h: "heap_inv n L D k pg live s" "cu_home k x = Some (SpanLane c)" "cu_at k x = InList (unat tid)" "unat tid < n"
    and b: "b \<in> live" "b \<in> set (span_blocks x c)" "b \<noteq> 0"
  shows "quietly (dealloc_local x b tid) s (\<lambda>_ t. heap_post n L D k pg s (live - {b}) t \<and> g_pool t = g_pool s)"
proof -
  obtain ls rs where a: "account live s x c ls rs" using heap_span(3) [OF h(1,2)] by (auto simp: accounted_def)
  let ?t = "give_block x b s" and ?Q = "\<lambda>_ t. heap_post n L D k pg s (live - {b}) t \<and> g_pool t = g_pool s"
  have so: "span_only x {b} s ?t" unfolding give_block_def by (rule span_only_absorb) simp
  have t: "heap_inv n L D k pg (live - {b}) ?t \<and> small_step k pg s k pg ?t"
    by (rule heap_span_only [OF h(1,2) so _ account_give [OF a b(2,1,3)]]) (use b h(3) in auto)
  have pool: "g_pool ?t = g_pool s" using so by (simp add: span_only_def)
  let ?f = "set_span_state x FullLocal ?t"
  have f: "heap_inv n L D k pg (live - {b}) ?f" "small_step k pg s k pg ?f"
    using heap_frame [of n L D k pg "live - {b}" ?t ?f x c] t h(2) small_step_trans by auto
  have cl: "sh_size_class (g_hdr ?f x) = c" using account_give [OF a b(2,1,3)] by (simp add: account_def)
  note pub = heap_publish [OF f(1) h(2-4)]
  have "?Q () ((published c (unat tid) x ?f)\<lparr>g_stats := st\<rparr>)" for st
    using heap_post_step [OF pub(2) f(2)] pub(3) pool by simp
  moreover have "?Q () ?t" "?Q () ?f" using t f pool by (auto intro: heap_postI)
  ultimately show ?thesis
    unfolding dealloc_local_def
    using pub(1) cl
    by (auto intro!: quiet_intros quietly_mono [OF dealloc_to_local_span_quietly] quietly_mono [OF enqueue_by_owner_quietly]
        simp: published_def)
qed

section \<open>By another thread\<close>

lemma remote_push_quietly:
  "quietly (remote_push x b) s (\<lambda>_ t. pushed x b s = snd (remote_fetch_add x t) \<and> rm_free_count (remote_of t x) = rm_free_count (remote_of s x))"
  unfolding remote_push_def push_publish_def push_link_def
  by (auto intro!: quiet_intros simp: pushed_def remote_swap_def)

definition claimed :: "nat \<Rightarrow> nat \<Rightarrow> usize \<Rightarrow> address \<Rightarrow> shared \<Rightarrow> shared" where
  "claimed c i tid x s = push_front (SpanLane c) i x (set_span_state x NonEmptyLocal (set_owner x tid s))"

lemma heap_claim:
  assumes h: "heap_inv n L D k pg live s" "cu_home k x = Some (SpanLane c)" "cu_at k x = Loose" "unat tid < n"
    and b: "b \<in> live" "b \<in> set (span_blocks x c)" "b \<noteq> 0"
  shows "heap_post n L D k pg s (live - {b}) ((claimed c (unat tid) tid x (pushed x b s))\<lparr>g_stats := st\<rparr>)"
    "g_pool (claimed c (unat tid) tid x (pushed x b s)) = g_pool s"
proof -
  let ?s = "pushed x b s" and ?k = "move x (InList (unat tid)) (move x Apart k)"
  let ?t = "(claimed c (unat tid) tid x ?s)\<lparr>g_stats := st\<rparr>"
  obtain ls rs where a: "account live s x c ls rs" using heap_span(3) [OF h(1,2)] by (auto simp: accounted_def)
  note p = account_pushed [OF a b(2,1,3)]
  have "in_custody n L k ?s" using h(1) p(2) custody_frame [of s ?s] by (simp add: heap_inv_def span_only_def)
  then have "in_custody n L (move x Apart k) ?s" using h(3) by (intro custody_move_apart) auto
  then have "in_custody n L (move x Apart k) (set_owner x tid ?s)" by (rule custody_set_owner) simp
  then have "in_custody n L (move x Apart k) (set_span_state x NonEmptyLocal (set_owner x tid ?s))"
    by (simp only: custody_frame [OF same_custody_state])
  then have "in_custody n L ?k (claimed c (unat tid) tid x ?s)"
    unfolding claimed_def by (rule custody_push(1)) (use h in simp_all)
  then have "in_custody n L ?k ?t" by (simp only: custody_frame [OF same_custody_ops(1)])
  moreover have acc: "same_accounts ?s ?t" and "states_but x ?s ?t"
    unfolding claimed_def by (intro same_accounts_steps states_but_steps same_accounts_refl states_but_refl)+
  moreover have "account (live - {b}) ?t x c ls (b # rs)"
    using account_frame [of ?t x ?s c "live - {b}"] acc p(1) by (simp add: same_accounts_def)
  ultimately have "heap_inv n L D ?k pg (live - {b}) ?t \<and> small_step k pg s ?k pg ?t"
    using p(2) b(2) by (intro heap_update [OF h(1,2)]) (auto simp: same_accounts_def span_only_def states_but_def)
  then show "heap_post n L D k pg s (live - {b}) ?t" by (auto intro: heap_postI)
  show "g_pool (claimed c (unat tid) tid x (pushed x b s)) = g_pool s" using acc p(2) by (simp add: same_accounts_def span_only_def)
qed

lemma dealloc_remote_heap:
  assumes h: "heap_inv n L D k pg live s" "cu_home k x = Some (SpanLane c)" "n < 2 ^ 62" "unat tid < n"
    and b: "b \<in> live" "b \<in> set (span_blocks x c)" "b \<noteq> 0"
  shows "quietly (dealloc_remote x b tid) s (\<lambda>_ t. heap_post n L D k pg s (live - {b}) t \<and> g_pool t = g_pool s)"
proof -
  let ?s = "pushed x b s" and ?Q = "\<lambda>_ t. heap_post n L D k pg s (live - {b}) t \<and> g_pool t = g_pool s"
  obtain ls rs where a: "account live s x c ls rs" using heap_span(3) [OF h(1,2)] by (auto simp: accounted_def)
  note p = account_pushed [OF a b(2,1,3)]
  have own: "sh_owner (g_hdr ?s x) = OWNER_NONE \<longleftrightarrow> cu_at k x = Loose"
    using owned_in_list(2) [OF h] p(2) by (simp add: span_only_def same_custody_def)
  have cl: "sh_size_class (g_hdr ?s x) = c" using p(1) by (simp add: account_def)
  have stay: "?Q () ?s" if "cu_at k x \<noteq> Loose"
    using heap_span_only [OF h(1,2) p(2) _ p(1)] b that p(2) by (auto simp: span_only_def intro: heap_postI)
  have take: "?Q () ((claimed c (unat tid) tid x ?s)\<lparr>g_stats := st\<rparr>)" if "cu_at k x = Loose" for st
    using heap_claim [OF h(1,2) that h(4) b] by simp
  have none: "rm_free_count (remote_of s x) = 0" if "cu_at k x = Loose"
  proof -
    have "set (ls @ rs) = set (span_blocks x c) - live" using a by (simp only: account_def)
    then have "set (ls @ rs) = {}" using heap_place(3) [OF h(1,2) that] by (simp only: Diff_eq_empty_iff)
    then show ?thesis using account_counts(4) [OF a heap_span(1) [OF h(1,2)]] by simp
  qed
  show ?thesis
    unfolding dealloc_remote_def
    using own cl stay take none
    by (auto intro!: quiet_intros quietly_mono [OF remote_push_quietly]
        simp: owner_cas_def claimed_def remote_fetch_add_def)
qed

text \<open>A free of a live block of a small class, by any thread.\<close>

lemma dealloc_small_heap:
  assumes h: "heap_inv n L D k pg live s" "b \<in> live" "n < 2 ^ 62" "unat tid < n"
  shows "quietly (dealloc_small b tid) s (\<lambda>_ t. heap_post n L D k pg s (live - {b}) t \<and> g_pool t = g_pool s)"
proof -
  obtain c where c: "cu_home k (span_from_ptr b) = Some (SpanLane c)" "b \<in> set (span_blocks (span_from_ptr b) c)" "b \<noteq> 0"
    using live_block [OF h(1,2)] by metis
  have "quietly (dealloc_local (span_from_ptr b) b tid) s (\<lambda>_ t. heap_post n L D k pg s (live - {b}) t \<and> g_pool t = g_pool s)"
    if "sh_owner (g_hdr s (span_from_ptr b)) = tid"
    using owned_in_list(1) [OF h(1) c(1) h(3,4)] that by (intro dealloc_local_heap [OF h(1) c(1) _ h(4,2) c(2,3)]) simp
  then show ?thesis
    unfolding dealloc_small_def Let_def block_from_payload_def
    using dealloc_remote_heap [OF h(1) c(1) h(3,4,2) c(2,3)] by (auto intro!: quiet_intros)
qed

end
