(* ===== verification/Whole_Heap.thy ===== *)
theory Whole_Heap
  imports Small_Frees Allocator
begin

text \<open>
  The whole heap: spans, runs and huge slots on one estate.  The ghost maps say which run a live large payload lies
  in and which slot a live huge payload lies in; the invariant ties them to the hidden headers, the custody of
  runs, the slot directory and the pages of the pool.  From the pages it follows that no two tenants share an
  address.
\<close>

section \<open>Geography\<close>

definition page_at :: "span_pool \<Rightarrow> nat \<Rightarrow> nat" where
  "page_at p a = (a - unat (pool_base p)) div 65536"

definition pool_end :: "span_pool \<Rightarrow> nat" where
  "pool_end p = unat (pool_base p) + unat (pool_count p) * 65536"

lemma page_unat: "pool_wf p \<Longrightarrow> i < unat (pool_count p) \<Longrightarrow> unat (span_addr p (of_nat i)) = unat (pool_base p) + i * 65536"
  using span_addr_unat [of p "of_nat i"] unat_of_nat_le [of i "pool_count p"] by (simp add: word_less_nat_alt)

lemma occupies_page:
  assumes "pool_wf p" "occupies p pg x m q" "unat x \<le> a" "a < unat x + 65536 * m"
  shows "pg (page_at p a) = q" "unat (pool_base p) \<le> a" "a < pool_end p"
proof -
  obtain i where i: "x = span_addr p (of_nat i)" "i + m \<le> unat (pool_count p)" "\<forall>j. i \<le> j \<and> j < i + m \<longrightarrow> pg j = q"
    using assms(2) unfolding occupies_def by blast
  have m: "0 < m" using assms(3,4) by (cases m) auto
  have x: "unat x = unat (pool_base p) + i * 65536" unfolding i(1) by (rule page_unat [OF assms(1)]) (use i(2) m in simp)
  show "unat (pool_base p) \<le> a" using assms(3) x by simp
  have "i \<le> page_at p a" "page_at p a < i + m"
    using assms(3,4) x by (simp_all add: page_at_def less_eq_div_iff_mult_less_eq div_less_iff_less_mult)
  then show "pg (page_at p a) = q" using i(3) by simp
  have "(i + m) * 65536 \<le> unat (pool_count p) * 65536" using i(2) by simp
  with assms(4) x show "a < pool_end p" unfolding pool_end_def add_mult_distrib by simp
qed

text \<open>A tenant's pages end before the address space does.\<close>

lemma occupies_end:
  assumes "pool_wf p" "occupies p pg x m q" "0 < m"
  shows "unat x + 65536 * m \<le> pool_end p" "pool_end p < 2 ^ 64" "65536 dvd unat x"
proof -
  have "unat x + 65536 * m - 1 < pool_end p" by (rule occupies_page(3) [OF assms(1,2)]) (use assms(3) in simp_all)
  then show "unat x + 65536 * m \<le> pool_end p" using assms(3) by linarith
  show "pool_end p < 2 ^ 64" using assms(1) by (simp add: pool_wf_def pool_end_def)
  obtain i where i: "x = span_addr p (of_nat i)" "i + m \<le> unat (pool_count p)" using assms(2) unfolding occupies_def by blast
  have "65536 dvd unat (pool_base p)" using assms(1) by (simp add: pool_wf_def span_aligned_iff)
  then show "65536 dvd unat x" unfolding i(1) using page_unat [OF assms(1), of i] i(2) assms(3) by simp
qed

lemma lane_pages_pos [simp]: "0 < lane_pages l"
  by (cases l) simp_all

section \<open>The invariant\<close>

text \<open>
  Live blocks lie in spans of their class.  Runs in use are the runs of live large payloads, whose hidden headers name
  them; the runs of \<open>X\<close> are between two uses.  The header of a run has no blocks, and its state word says where
  the run is.
\<close>

fun place_state :: "place \<Rightarrow> span_state option" where
  "place_state (InList i) = Some RunFreeLocal"
| "place_state (InQueue i) = Some RunFreePublic"
| "place_state (InRecord i) = Some RunFreePublic"
| "place_state Carried = Some RunFreePublic"
| "place_state _ = None"

definition run_header :: "nat \<Rightarrow> place \<Rightarrow> span_header \<Rightarrow> bool" where
  "run_header r p h \<longleftrightarrow> sh_size_class h = r \<and> sh_block_count h = run_class_spans r \<and> lm_free_count (sh_local h) = 0
     \<and> rm_free_count (sh_remote h) = 0 \<and> (\<forall>st. place_state p = Some st \<longrightarrow> sh_state h = st)"

definition runs_but :: "address set \<Rightarrow> custody \<Rightarrow> (address \<rightharpoonup> nat) \<Rightarrow> (address \<rightharpoonup> address \<times> nat) \<Rightarrow> shared \<Rightarrow> bool" where
  "runs_but X k S R s \<longleftrightarrow> (\<forall>b c. S b = Some c \<longrightarrow> (\<exists>x. cu_home k x = Some (SpanLane c) \<and> b \<in> set (span_blocks x c)))
     \<and> (\<forall>p x r. R p = Some (x, r) \<longrightarrow> x \<notin> X \<and> cu_home k x = Some (RunLane r) \<and> cu_at k x = Apart
        \<and> unat x + 1056 \<le> unat p \<and> unat p < unat x + 65536 * 2 ^ r
        \<and> lh_run (g_lhdr s (p - HDR_SIZE)) = x \<and> lh_run_class (g_lhdr s (p - HDR_SIZE)) = r)
     \<and> (\<forall>p q x r r'. R p = Some (x, r) \<longrightarrow> R q = Some (x, r') \<longrightarrow> p = q)
     \<and> (\<forall>x r. cu_home k x = Some (RunLane r) \<longrightarrow> x \<notin> X \<longrightarrow> cu_at k x \<noteq> Loose \<and> (cu_at k x = Apart \<longrightarrow> (\<exists>p. R p = Some (x, r))))
     \<and> (\<forall>x r. cu_home k x = Some (RunLane r) \<longrightarrow> run_header r (cu_at k x) (g_hdr s x))"

abbreviation "runs_inv \<equiv> runs_but {}"

definition slot_pages :: "usize \<Rightarrow> nat \<times> nat \<Rightarrow> nat" where
  "slot_pages hg ci = unat (huge_class_granules (fst ci) * hg)"

definition slots_settled :: "usize \<Rightarrow> (nat \<Rightarrow> tenant) \<Rightarrow> shared \<Rightarrow> bool" where
  "slots_settled hg pg s \<longleftrightarrow> (\<forall>ci \<in> set (huge_slots_from 0). hs_base (slot_at s ci) \<noteq> 0 \<longrightarrow>
       occupies (g_pool s) pg (hs_base (slot_at s ci)) (slot_pages hg ci) (SlotPages (fst ci) (snd ci)))
     \<and> (\<forall>j c i. pg j = SlotPages c i \<longrightarrow> (c, i) \<in> set (huge_slots_from 0) \<and> hs_base (slot_at s (c, i)) \<noteq> 0)"

definition slots_inv :: "usize \<Rightarrow> (nat \<Rightarrow> tenant) \<Rightarrow> (address \<rightharpoonup> address \<times> nat \<times> nat) \<Rightarrow> shared \<Rightarrow> bool" where
  "slots_inv hg pg H s \<longleftrightarrow> huge_inv hg s \<and> slots_settled hg pg s
     \<and> (\<forall>p b ci. H p = Some (b, ci) \<longrightarrow> ci \<in> huge_live s \<and> hs_base (slot_at s ci) = b \<and> unat b \<le> unat p
          \<and> unat p < unat b + unat (huge_class_bytes hg (fst ci)))
     \<and> (\<forall>p q b b' ci. H p = Some (b, ci) \<longrightarrow> H q = Some (b', ci) \<longrightarrow> p = q) \<and> (\<forall>ci \<in> huge_live s. \<exists>p b. H p = Some (b, ci))"

definition whole_heap_inv :: "nat \<Rightarrow> lane set \<Rightarrow> address set \<Rightarrow> usize \<Rightarrow> (address \<rightharpoonup> nat) \<Rightarrow> (address \<rightharpoonup> address \<times> nat) \<Rightarrow> (address \<rightharpoonup> address \<times> nat \<times> nat) \<Rightarrow> shared \<Rightarrow> bool" where
  "whole_heap_inv n L D hg S R H s \<longleftrightarrow> (\<exists>k pg. heap_inv n L D k pg (dom S) s \<and> runs_inv k S R s \<and> slots_inv hg pg H s)"

section \<open>Frames\<close>

text \<open>The pool only moves on.\<close>

definition pool_grown :: "shared \<Rightarrow> shared \<Rightarrow> bool" where
  "pool_grown s t \<longleftrightarrow> pool_base (g_pool t) = pool_base (g_pool s) \<and> pool_count (g_pool t) = pool_count (g_pool s)
     \<and> unat (cursor s) \<le> unat (cursor t) \<and> unat (cursor t) \<le> max (unat (cursor s) + 1) (unat (pool_count (g_pool s)))"

lemma pool_grown_refl: "g_pool t = g_pool s \<Longrightarrow> pool_grown s t"
  by (simp add: pool_grown_def)

lemma pool_grown_moved: "pool_moved s t \<Longrightarrow> unat (cursor s) < 2 ^ 64 - 1 \<Longrightarrow> pool_grown s t"
  by (auto simp: pool_moved_def pool_grown_def unat_inc)

lemma pool_take_room:
  assumes "unat m \<le> spans_left p" "1 \<le> m"
  shows "unat (pool_next p) + unat m \<le> unat (pool_count p)" "unat (pool_next p + m) = unat (pool_next p) + unat m"
proof -
  have "0 < unat m" using assms(2) by (simp add: word_le_nat_alt)
  then show r: "unat (pool_next p) + unat m \<le> unat (pool_count p)" using assms(1) unfolding spans_left_def by linarith
  show "unat (pool_next p + m) = unat (pool_next p) + unat m" using le_less_trans [OF r unat_word_lt] by (subst unat_add_nowrap) simp_all
qed

lemma pool_grown_taken:
  assumes "g_pool t = pool_taken m (g_pool s)" "unat m \<le> spans_left (g_pool s)" "1 \<le> m"
  shows "pool_grown s t"
  using pool_take_room [OF assms(2,3)] assms(1) by (simp add: pool_grown_def pool_taken_def)

lemma occupies_grown:
  assumes "occupies p pg x m q" "pool_base p' = pool_base p" "pool_count p' = pool_count p"
    "\<And>j. pg j \<noteq> Vacant \<Longrightarrow> pg' j = pg j" "q \<noteq> Vacant"
  shows "occupies p' pg' x m q"
proof -
  have "span_addr p' = span_addr p" using assms(2) by (simp add: span_addr_def fun_eq_iff)
  with assms show ?thesis unfolding occupies_def by metis
qed

lemma huge_inv_grown:
  assumes "huge_inv hg s" "pool_grown s t" "g_huge t = g_huge s"
  shows "huge_inv hg t"
proof -
  have sl: "slot_at t = slot_at s" using assms(3) by (simp add: slot_at_def fun_eq_iff)
  have p: "pool_base (g_pool t) = pool_base (g_pool s)" "pool_count (g_pool t) = pool_count (g_pool s)"
    "pool_limit (g_pool s) \<le> pool_limit (g_pool t)"
    using assms(2) by (auto simp: pool_grown_def pool_limit_def)
  then have "slot_ok hg (g_pool s) ci h \<Longrightarrow> slot_ok hg (g_pool t) ci h" for ci h by (auto simp: slot_ok_def)
  then show ?thesis using assms(1) p unfolding huge_inv_def sl by (simp add: pool_wf_def)
qed

lemma slots_grown:
  assumes h: "slots_inv hg pg H s" "pool_grown s t" "g_huge t = g_huge s" "\<And>j. pg j \<noteq> Vacant \<Longrightarrow> pg' j = pg j"
    "\<And>j c i. pg' j = SlotPages c i \<Longrightarrow> pg j = SlotPages c i"
  shows "slots_inv hg pg' H t"
proof -
  have sl: "slot_at t = slot_at s" using h(3) by (simp add: slot_at_def fun_eq_iff)
  have "huge_live t = huge_live s" by (simp add: huge_live_def sl)
  moreover have "huge_inv hg t" using h(1) huge_inv_grown [OF _ h(2,3)] by (simp add: slots_inv_def)
  moreover have "slots_settled hg pg' t"
    unfolding slots_settled_def sl
  proof (intro conjI ballI allI impI)
    show "(c, i) \<in> set (huge_slots_from 0)" "hs_base (slot_at s (c, i)) \<noteq> 0" if "pg' j = SlotPages c i" for j c i
      using h(1) h(5) [OF that] unfolding slots_inv_def slots_settled_def by blast+
  next
    fix ci assume "ci \<in> set (huge_slots_from 0)" "hs_base (slot_at s ci) \<noteq> 0"
    then have "occupies (g_pool s) pg (hs_base (slot_at s ci)) (slot_pages hg ci) (SlotPages (fst ci) (snd ci))"
      using h(1) by (simp add: slots_inv_def slots_settled_def)
    then show "occupies (g_pool t) pg' (hs_base (slot_at s ci)) (slot_pages hg ci) (SlotPages (fst ci) (snd ci))"
      by (rule occupies_grown) (use h(2,4) in \<open>simp_all add: pool_grown_def\<close>)
  qed
  ultimately show ?thesis using h(1) unfolding slots_inv_def sl by (elim conjE, simp only: simp_thms)
qed

lemma runs_butD:
  assumes "runs_but X k S R s" "R p = Some (x, r)"
  shows "x \<notin> X" "cu_home k x = Some (RunLane r)" "cu_at k x = Apart" "unat x + 1056 \<le> unat p" "unat p < unat x + 65536 * 2 ^ r"
    "lh_run (g_lhdr s (p - HDR_SIZE)) = x" "lh_run_class (g_lhdr s (p - HDR_SIZE)) = r"
  using assms unfolding runs_but_def by blast+

lemma runs_header: "runs_but X k S R s \<Longrightarrow> cu_home k x = Some (RunLane r) \<Longrightarrow> run_header r (cu_at k x) (g_hdr s x)"
  unfolding runs_but_def by blast

lemma run_header_cong:
  "run_header r p h \<Longrightarrow> ledger_of h' = ledger_of h \<Longrightarrow> sh_state h' = sh_state h \<or> place_state q = None \<Longrightarrow>
     place_state q = place_state p \<or> place_state q = None \<Longrightarrow> run_header r q h'"
  by (auto simp: run_header_def ledger_of_def)

lemma run_header_moved:
  "run_header r p h \<Longrightarrow> ledger_of h' = ledger_of h \<Longrightarrow> sh_state h' = sh_state h \<Longrightarrow>
     q = p \<or> public_place p \<and> public_place q \<Longrightarrow> run_header r q h'"
  by (auto simp: run_header_def ledger_of_def public_place_def)

lemma runs_but_cong:
  assumes r: "runs_but X k S R s" "g_lhdr t = g_lhdr s" "\<And>p x r. R p = Some (x, r) \<Longrightarrow> x \<notin> Y"
    and small: "\<And>x c. cu_home k x = Some (SpanLane c) \<Longrightarrow> cu_home k' x = Some (SpanLane c)"
    and same: "\<And>x r. x \<notin> Y \<Longrightarrow> cu_home k' x = Some (RunLane r) \<longleftrightarrow> cu_home k x = Some (RunLane r)"
      "\<And>x r. cu_home k x = Some (RunLane r) \<Longrightarrow> x \<notin> X \<Longrightarrow> x \<notin> Y \<Longrightarrow>
         (cu_at k' x = Apart \<longleftrightarrow> cu_at k x = Apart) \<and> (cu_at k' x = Loose \<longrightarrow> cu_at k x = Loose)"
      "\<And>x. x \<in> X \<Longrightarrow> x \<notin> Y \<Longrightarrow> cu_at k' x \<noteq> Apart \<and> cu_at k' x \<noteq> Loose"
    and hdr: "\<And>x r. cu_home k' x = Some (RunLane r) \<Longrightarrow> (cu_home k x = Some (RunLane r) \<Longrightarrow> run_header r (cu_at k x) (g_hdr s x)) \<Longrightarrow>
       run_header r (cu_at k' x) (g_hdr t x)"
  shows "runs_but Y k' S R t"
  unfolding runs_but_def r(2)
proof (intro conjI allI impI)
  fix b c assume "S b = Some c"
  then obtain x where "cu_home k x = Some (SpanLane c)" "b \<in> set (span_blocks x c)" using r(1) unfolding runs_but_def by blast
  then show "\<exists>x. cu_home k' x = Some (SpanLane c) \<and> b \<in> set (span_blocks x c)" using small by blast
next
  fix p x c assume p: "R p = Some (x, c)"
  note x = runs_butD [OF r(1) p]
  show "x \<notin> Y" using r(3) p .
  then show "cu_home k' x = Some (RunLane c)" "cu_at k' x = Apart" using same(1,2) x by blast+
  show "unat x + 1056 \<le> unat p" "unat p < unat x + 65536 * 2 ^ c" "lh_run (g_lhdr s (p - HDR_SIZE)) = x"
    "lh_run_class (g_lhdr s (p - HDR_SIZE)) = c" using x by blast+
next
  fix p q x c c' assume "R p = Some (x, c)" "R q = Some (x, c')"
  then show "p = q" using r(1) unfolding runs_but_def by blast
next
  fix x c assume x: "cu_home k' x = Some (RunLane c)" "x \<notin> Y"
  then have y: "cu_home k x = Some (RunLane c)" using same(1) by blast
  show "cu_at k' x \<noteq> Loose" "cu_at k' x = Apart \<Longrightarrow> \<exists>p. R p = Some (x, c)"
    using r(1) y x(2) same(2) [OF y _ x(2)] same(3) [OF _ x(2)] unfolding runs_but_def by blast+
next
  fix x c assume "cu_home k' x = Some (RunLane c)"
  then show "run_header c (cu_at k' x) (g_hdr t x)" by (rule hdr) (rule runs_header [OF r(1)])
qed

lemma runs_small:
  assumes "runs_inv k S R s" "small_step k pg s k' pg' t"
  shows "runs_inv k' S R t"
proof (rule runs_but_cong [OF assms(1)])
  note st = small_stepD [OF assms(2)]
  show "run_header r (cu_at k' x) (g_hdr t x)" if "cu_home k' x = Some (RunLane r)" for x r
    using that unfolding st(2) by (intro run_header_cong [OF runs_header [OF assms(1)] st(4)]) (simp_all add: st(3,10))
qed (use assms(2) in \<open>auto simp: small_step_def\<close>)

lemma runs_ledger:
  assumes "runs_but X k S R s" "\<And>b c. S' b = Some c \<Longrightarrow> S b = Some c \<or> (\<exists>x. cu_home k x = Some (SpanLane c) \<and> b \<in> set (span_blocks x c))"
  shows "runs_but X k S' R s"
proof -
  have "\<exists>x. cu_home k x = Some (SpanLane c) \<and> b \<in> set (span_blocks x c)" if "S b = Some c" for b c
    using assms(1) [unfolded runs_but_def, THEN conjunct1] that by (elim allE impE)
  then have "\<forall>b c. S' b = Some c \<longrightarrow> (\<exists>x. cu_home k x = Some (SpanLane c) \<and> b \<in> set (span_blocks x c))"
    using assms(2) by meson
  then show ?thesis unfolding runs_but_def using assms(1) [unfolded runs_but_def, THEN conjunct2] by (rule conjI)
qed

lemma whole_small:
  assumes "slots_inv hg pg H s" "heap_inv n L D k' pg' (dom S') t" "runs_inv k' S' R t" "small_step k pg s k' pg' t" "pool_grown s t"
  shows "whole_heap_inv n L D hg S' R H t"
proof -
  have "slots_inv hg pg' H t" using small_stepD(6,8,9) [OF assms(4)] by (intro slots_grown [OF assms(1,5)]) blast+
  with assms(2,3) show ?thesis
    unfolding whole_heap_inv_def by (intro exI [of _ k'] exI [of _ pg']) (rule conjI, assumption, rule conjI)
qed

section \<open>Small operations on the whole heap\<close>

lemma alloc_small_whole:
  assumes h: "whole_heap_inv n L D hg S R H s" "SpanLane c \<in> L" "c < 11" "unat tid < n" "unat (cursor s) < 2 ^ 64 - 1"
  shows "quietly (alloc_small B n tid c) s (\<lambda>p t. pool_grown s t \<and> (if p = 0 then whole_heap_inv n L D hg S R H t \<and> pool_count (g_pool s) \<le> cursor s
     else S p = None \<and> whole_heap_inv n L D hg (S(p \<mapsto> c)) R H t))"
proof -
  obtain k pg where k: "heap_inv n L D k pg (dom S) s" "runs_inv k S R s" "slots_inv hg pg H s"
    using h(1) unfolding whole_heap_inv_def by blast
  show ?thesis
  proof (rule quietly_mono [OF alloc_small_heap [OF k(1) h(2-5)]], elim conjE, goal_cases)
    case (1 p t)
    note grown = pool_grown_moved [OF 1(3) h(5)]
    show ?case
    proof (cases "p = 0")
      case True
      with 1(1) obtain k' pg' where t: "heap_inv n L D k' pg' (dom S) t" "small_step k pg s k' pg' t"
        by (auto elim: alloc_post_zero)
      with whole_small [OF k(3) t(1) runs_small [OF k(2) t(2)] t(2) grown] True 1(2) grown show ?thesis by simp
    next
      case False
      with 1(1) obtain k' pg' x where t: "p \<notin> dom S" "heap_inv n L D k' pg' (insert p (dom S)) t" "small_step k pg s k' pg' t"
          "cu_home k' x = Some (SpanLane c)" "p \<in> set (span_blocks x c)"
        by (auto simp: alloc_post_def block_post_def)
      have "runs_inv k' (S(p \<mapsto> c)) R t" by (rule runs_ledger [OF runs_small [OF k(2) t(3)]]) (use t(4,5) in \<open>auto split: if_splits\<close>)
      then have "whole_heap_inv n L D hg (S(p \<mapsto> c)) R H t" by (rule whole_small [OF k(3) _ _ t(3) grown, rotated]) (use t(2) in simp)
      with False t(1) grown show ?thesis by auto
    qed
  qed
qed

lemma dealloc_small_whole:
  assumes h: "whole_heap_inv n L D hg S R H s" "b \<in> dom S" "n < 2 ^ 62" "unat tid < n"
  shows "quietly (dealloc_small b tid) s (\<lambda>_ t. whole_heap_inv n L D hg (S(b := None)) R H t \<and> g_pool t = g_pool s)"
proof -
  obtain k pg where k: "heap_inv n L D k pg (dom S) s" "runs_inv k S R s" "slots_inv hg pg H s"
    using h(1) unfolding whole_heap_inv_def by blast
  show ?thesis
  proof (rule quietly_mono [OF dealloc_small_heap [OF k(1) h(2-4)]], elim conjE, goal_cases)
    case (1 u t)
    then obtain k' pg' where t: "heap_inv n L D k' pg' (dom S - {b}) t" "small_step k pg s k' pg' t" unfolding heap_post_def by blast
    have "runs_inv k' (S(b := None)) R t" by (rule runs_ledger [OF runs_small [OF k(2) t(2)]]) (auto split: if_splits)
    then have "whole_heap_inv n L D hg (S(b := None)) R H t"
      by (rule whole_small [OF k(3) _ _ t(2) pool_grown_refl [OF 1(2)], rotated]) (use t(1) in simp)
    with 1(2) show ?case by simp
  qed
qed

end
