(* ===== verification/Large_Heap.thy ===== *)
theory Large_Heap
  imports Whole_Heap
begin

text \<open>
  The large path on the whole heap.  A large allocation that is left alone gives a payload inside a run that no live
  payload lies in, whether the run comes from the thread's list, from a public list or from the pool, and returns null
  only when the pool has too few spans left; a free of a live payload gives its run back.
\<close>

section \<open>Steps on runs\<close>

text \<open>A step that changes no span.\<close>

lemma heap_runs:
  assumes h: "heap_inv n L D k pg live s"
    and k': "in_custody n L k' t" "on_estate D k' pg' (g_pool t)" "nothing_carried k'"
    and spans: "\<And>x c. cu_home k' x = Some (SpanLane c) \<longleftrightarrow> cu_home k x = Some (SpanLane c)"
      "\<And>x c. cu_home k x = Some (SpanLane c) \<Longrightarrow> cu_at k' x = cu_at k x \<and> ledger_of (g_hdr t x) = ledger_of (g_hdr s x)"
      "g_block t = g_block s" "g_active t = g_active s"
  shows "heap_inv n L D k' pg' live t"
proof -
  have "small_accounts k' live t"
    unfolding small_accounts_def
  proof (intro allI impI)
    fix x c assume "cu_home k' x = Some (SpanLane c)"
    then have x: "cu_home k x = Some (SpanLane c)" by (simp only: spans(1))
    have "accounted live t x c = accounted live s x c" using spans(2) [OF x] spans(3) by (intro accounted_frame) simp_all
    then show "c < 11 \<and> accounted live t x c \<and> cu_at k' x \<noteq> Apart \<and> (cu_at k' x = Loose \<longrightarrow> set (span_blocks x c) \<subseteq> live)"
      using heap_span(1,3) [OF h x] heap_place(1,3) [OF h x] spans(2) [OF x] by simp
  qed
  moreover have "live_blocks k' live" using h unfolding heap_inv_def live_blocks_def spans(1) by blast
  ultimately show ?thesis using h k' spans(4) by (simp add: heap_inv_def)
qed

lemma heap_cells:
  assumes "heap_inv n L D k pg (dom S) s" "cu_home k x = Some l"
  shows "l \<in> L" "span_base x" "occupies (g_pool s) pg x (lane_pages l) (CellPages x)" "pool_wf (g_pool s)"
    "unat x + 65536 * lane_pages l \<le> pool_end (g_pool s)" "pool_end (g_pool s) < 2 ^ 64"
proof -
  show "l \<in> L" "span_base x" using assms custody_cell [of n L k s x l] by (auto simp: heap_inv_def cell_ok_def)
  show o: "occupies (g_pool s) pg x (lane_pages l) (CellPages x)" and w: "pool_wf (g_pool s)"
    using assms by (simp_all add: heap_inv_def on_estate_def)
  show "unat x + 65536 * lane_pages l \<le> pool_end (g_pool s)" "pool_end (g_pool s) < 2 ^ 64" using occupies_end [OF w o] by simp_all
qed

text \<open>An address lies in at most one cell.\<close>

lemma heap_one_cell:
  assumes h: "heap_inv n L D k pg (dom S) s" "cu_home k x = Some l" "cu_home k y = Some l'"
    and a: "unat x \<le> a" "a < unat x + 65536 * lane_pages l" "unat y \<le> a" "a < unat y + 65536 * lane_pages l'"
  shows "x = y"
proof -
  note x = heap_cells [OF h(1,2)] and y = heap_cells [OF h(1,3)]
  have "CellPages x = CellPages y"
    unfolding occupies_page(1) [OF x(4,3) a(1,2), symmetric] occupies_page(1) [OF y(4,3) a(3,4), symmetric] ..
  then show ?thesis by simp
qed

section \<open>Allocation\<close>

definition large_post where
  "large_post n L D hg S R H lay p t \<longleftrightarrow> p \<noteq> 0 \<and> R p = None \<and> is_aligned p (lay_align lay)
     \<and> (\<exists>x r. whole_heap_inv n L D hg S (R(p \<mapsto> (x, r))) H t \<and> unat p + unat (lay_size lay) \<le> unat x + 65536 * 2 ^ r)"

text \<open>The layouts of the large path and the lanes of the heap.\<close>

definition large_request :: "lane set \<Rightarrow> layout \<Rightarrow> nat \<Rightarrow> bool" where
  "large_request L lay m \<longleftrightarrow> layout_valid lay \<and> run_class_for_layout lay = Some m
     \<and> (\<forall>r. RunLane r \<in> L \<longleftrightarrow> r < MAX_LARGE_RUN_CLASSES)"

definition finished :: "address \<Rightarrow> nat \<Rightarrow> layout \<Rightarrow> shared \<Rightarrow> shared" where
  "finished x r lay s = snd (place_large_payload x r lay (set_span_state x RunAllocated s))"

lemma record_at_lhdr: "record_at (s\<lparr>g_lhdr := x\<rparr>) l i = record_at s l i"
  by (cases l) simp_all

lemma same_custody_finished: "same_custody s (finished x r lay s)"
  unfolding finished_def place_large_payload_def Let_def
  by (auto simp: same_custody_def next_local_def record_word_def fun_eq_iff record_at_lhdr)

lemma finished_frame:
  "g_block (finished x r lay s) = g_block s" "g_pool (finished x r lay s) = g_pool s" "g_huge (finished x r lay s) = g_huge s"
  "ledger_of (g_hdr (finished x r lay s) y) = ledger_of (g_hdr s y)"
  "g_lhdr (finished x r lay s) = (g_lhdr s)(x + payload_off x lay - HDR_SIZE := \<lparr>lh_magic = LARGE_MAGIC, lh_run = x,
      lh_run_class = r, lh_span_count = run_class_spans r\<rparr>)"
  "g_active (finished x r lay s) = g_active s"
  by (auto simp: finished_def place_large_payload_def Let_def ledger_of_def)

lemma finished_states: "states_but x s (finished x r lay s)"
  by (simp add: states_but_def finished_def place_large_payload_def Let_def)

lemma even_room:
  fixes x p m b :: nat
  shows "even x \<Longrightarrow> even p \<Longrightarrow> even m \<Longrightarrow> even b \<Longrightarrow> p < x + 1056 + m \<Longrightarrow> 1056 + m \<le> b + 1 \<Longrightarrow> p < x + b"
  by presburger

lemma run_payload_fits:
  assumes h: "heap_inv n L D k pg (dom S) s" "cu_home k x = Some (RunLane r)"
    and m: "large_request L lay m" "m \<le> r"
  defines "p \<equiv> x + payload_off x lay"
  shows "is_aligned p (lay_align lay)" "unat x + 1056 \<le> unat p" "unat p + unat (lay_size lay) \<le> unat x + 65536 * 2 ^ r"
    "unat p < unat x + 65536 * 2 ^ r"
proof -
  note x = heap_cells [OF h]
  have r: "r < MAX_LARGE_RUN_CLASSES" and lay: "layout_valid lay" "run_class_for_layout lay = Some m"
    using m(1) x(1) by (simp_all add: large_request_def)
  have by': "unat (run_class_bytes r) = 65536 * 2 ^ r" using r by (simp add: run_class_bytes_unat wf_config)
  have b: "run_base x r" using x(2,5,6) by (simp add: run_base_def by')
  note f = payload_fits [OF lay m(2) r b, folded p_def]
  show "is_aligned p (lay_align lay)" "unat x + 1056 \<le> unat p" "unat p + unat (lay_size lay) \<le> unat x + 65536 * 2 ^ r"
    using f by (simp_all add: by')
  have al: "is_power_of_two (lay_align lay)" using lay(1) by (simp add: layout_valid_def)
  let ?m = "max (lay_align lay) HDR_ALIGN"
  have mc: "(2 :: nat) ^ m \<le> 2 ^ r" using m(2) by (intro power_increasing) auto
  then have "large_needed lay \<le> unat (run_class_bytes r)"
    using lay(2) unfolding run_class_for_layout_Some by' by linarith
  note pa = payload_address [OF al b r this, folded p_def]
  note up = round_up_bounds [OF large_align_pow2 [OF al], of "x + 1056", unfolded large_align_unat, OF pa(3)]
  have "even (unat x)" using x(2) unfolding span_base_def by (meson dvd_trans even_numeral)
  moreover have "even (unat p)" using f(2) by (meson dvd_trans even_numeral)
  moreover have "even (max (unat (lay_align lay)) 8)" using large_align_dvd(2) [OF al] by (meson dvd_trans even_numeral)
  moreover have "even (65536 * 2 ^ r :: nat)" by simp
  moreover have "unat p < unat x + 1056 + max (unat (lay_align lay)) 8" using up(2) unfolding pa(1) [symmetric] pa(2) .
  moreover have "1056 + max (unat (lay_align lay)) 8 \<le> 65536 * 2 ^ r + 1" using pa(4) unfolding by' by linarith
  ultimately show "unat p < unat x + 65536 * 2 ^ r" by (rule even_room)
qed

lemma finish_large_heap:
  assumes h: "heap_inv n L D k pg (dom S) s" "runs_but {x} k S R s" "slots_inv hg pg H s"
    and x: "cu_home k x = Some (RunLane r)" "cu_at k x = Apart" and m: "large_request L lay m" "m \<le> r"
  shows "quietly (finish_large x r lay) s (\<lambda>p t. large_post n L D hg S R H lay p t \<and> g_pool t = g_pool s)"
proof -
  let ?p = "x + payload_off x lay" and ?t = "finished x r lay s"
  note f = run_payload_fits [OF h(1) x(1) m] and t = finished_frame [of x r lay s]
  have fresh: "R ?p = None"
  proof (rule ccontr)
    assume "R ?p \<noteq> None"
    then obtain y r' where y: "R ?p = Some (y, r')" by (cases "R ?p") auto
    note y' = runs_butD [OF h(2) y]
    have "x = y" by (rule heap_one_cell [OF h(1) x(1) y'(2), of "unat ?p"]) (use f(2,4) y'(4,5) in simp_all)
    with y'(1) show False by simp
  qed
  have hi: "heap_inv n L D k pg (dom S) ?t"
    by (rule heap_runs [OF h(1)])
      (use h(1) in \<open>simp_all add: custody_frame [OF same_custody_finished] t heap_inv_def\<close>)
  have "runs_inv k S (R(?p \<mapsto> (x, r))) ?t"
    unfolding runs_but_def t(5)
  proof (intro conjI allI impI)
    show "\<exists>y. cu_home k y = Some (SpanLane c) \<and> b \<in> set (span_blocks y c)" if "S b = Some c" for b c
      using h(2) that unfolding runs_but_def by blast
  next
    fix q y c assume "(R(?p \<mapsto> (x, r))) q = Some (y, c)"
    then consider "q = ?p" "y = x" "c = r" | "q \<noteq> ?p" "R q = Some (y, c)" by (auto split: if_splits)
    then have "cu_home k y = Some (RunLane c) \<and> cu_at k y = Apart \<and> unat y + 1056 \<le> unat q \<and> unat q < unat y + 65536 * 2 ^ c
        \<and> lh_run (g_lhdr ?t (q - HDR_SIZE)) = y \<and> lh_run_class (g_lhdr ?t (q - HDR_SIZE)) = c"
    proof cases
      case 1
      then show ?thesis using f x by (simp add: t(5))
    next
      case 2
      then show ?thesis using runs_butD [OF h(2) 2(2)] by (simp add: t(5))
    qed
    then show "y \<notin> {}" "cu_home k y = Some (RunLane c)" "cu_at k y = Apart" "unat y + 1056 \<le> unat q" "unat q < unat y + 65536 * 2 ^ c"
      "lh_run (((g_lhdr s)(?p - HDR_SIZE := \<lparr>lh_magic = LARGE_MAGIC, lh_run = x, lh_run_class = r, lh_span_count = run_class_spans r\<rparr>)) (q - HDR_SIZE)) = y"
      "lh_run_class (((g_lhdr s)(?p - HDR_SIZE := \<lparr>lh_magic = LARGE_MAGIC, lh_run = x, lh_run_class = r, lh_span_count = run_class_spans r\<rparr>)) (q - HDR_SIZE)) = c"
      unfolding t(5) by blast+
  next
    fix q q' y c c' assume "(R(?p \<mapsto> (x, r))) q = Some (y, c)" "(R(?p \<mapsto> (x, r))) q' = Some (y, c')"
    moreover have "R q \<noteq> Some (x, c)" for q c using runs_butD(1) [OF h(2)] by blast
    moreover have "R q = Some (y, c) \<Longrightarrow> R q' = Some (y, c') \<Longrightarrow> q = q'" using h(2) unfolding runs_but_def by blast
    ultimately show "q = q'" by (auto split: if_splits)
  next
    fix y c assume y: "cu_home k y = Some (RunLane c)"
    have "cu_at k y \<noteq> Loose \<and> (cu_at k y = Apart \<longrightarrow> (\<exists>q. R q = Some (y, c)))" if "y \<noteq> x" using h(2) y that unfolding runs_but_def by blast
    moreover have "(R(?p \<mapsto> (x, r))) q = Some (y, c)" if "R q = Some (y, c)" for q using that fresh by auto
    ultimately show "cu_at k y \<noteq> Loose" "cu_at k y = Apart \<Longrightarrow> \<exists>q. (R(?p \<mapsto> (x, r))) q = Some (y, c)"
      using x y by (cases "y = x"; fastforce)+
    show "run_header c (cu_at k y) (g_hdr ?t y)"
      by (rule run_header_cong [OF runs_header [OF h(2) y] t(4)]; use finished_states [of x s r lay] x(2) in \<open>cases "y = x"; simp add: states_but_def\<close>)
  qed
  moreover have "slots_inv hg pg H ?t" by (rule slots_grown [OF h(3)]) (simp_all add: t pool_grown_refl)
  ultimately have "whole_heap_inv n L D hg S (R(?p \<mapsto> (x, r))) H ?t"
    using hi unfolding whole_heap_inv_def by (intro exI [of _ k] exI [of _ pg]) (rule conjI, assumption, rule conjI)
  moreover have "?p \<noteq> 0" using f(2) by auto
  ultimately have "large_post n L D hg S R H lay ?p ?t \<and> g_pool ?t = g_pool s"
    unfolding large_post_def using fresh f(1,3) t(2) by blast
  then show ?thesis by (intro quietly_mono [OF finish_large_quietly]) (simp add: finished_def)
qed

subsection \<open>Where the run comes from\<close>

lemma fst_pop_front: "fst (pop_front l i s) = list_front l i s"
  by (simp add: pop_front_def list_front_def Let_def)

lemma pop_front_none: "list_front l i s = 0 \<Longrightarrow> snd (pop_front l i s) = s"
  by (simp add: pop_front_def list_front_def Let_def)

text \<open>A run that was on a list, in a record or in the hands of the acquisition, and is now set apart.\<close>

lemma runs_set_apart:
  assumes "runs_inv k S R s" "cu_home k x = Some (RunLane r)" "cu_at k x \<noteq> Apart" "g_lhdr t = g_lhdr s" "cu_home k' = cu_home k"
    "\<And>y. y \<noteq> x \<Longrightarrow> cu_at k' y = cu_at k y \<or> public_place (cu_at k y) \<and> public_place (cu_at k' y)"
    "same_accounts s t" "states_but x s t" "cu_at k' x = Apart"
  shows "runs_but {x} k' S R t"
proof (rule runs_but_cong [OF assms(1,4)])
  show "y \<notin> {x}" if "R p = Some (y, c)" for p y c using runs_butD(3) [OF assms(1) that] assms(3) by auto
  show "(cu_at k' y = Apart \<longleftrightarrow> cu_at k y = Apart) \<and> (cu_at k' y = Loose \<longrightarrow> cu_at k y = Loose)" if "y \<notin> {x}" for y
    using assms(6) [of y] that by (auto simp: public_place_def)
  show "run_header c (cu_at k' y) (g_hdr t y)" if "cu_home k' y = Some (RunLane c)" for y c
  proof (cases "y = x")
    case True
    then show ?thesis using that assms(7,9) unfolding assms(5)
      by (intro run_header_cong [OF runs_header [OF assms(1)]]) (auto simp: same_accounts_def)
  next
    case False
    then show ?thesis using that assms(6) [of y] assms(7,8) unfolding assms(5)
      by (intro run_header_moved [OF runs_header [OF assms(1)]]) (auto simp: same_accounts_def states_but_def)
  qed
qed (simp_all add: assms(5))

lemma listed_run_heap:
  assumes h: "heap_inv n L D k pg (dom S) s" "runs_inv k S R s" "slots_inv hg pg H s" "RunLane r \<in> L" "unat tid < n"
    and m: "large_request L lay m" "m \<le> r" and x: "list_front (RunLane r) (unat tid) s = x" "x \<noteq> 0"
  shows "quietly (finish_large x r lay) (snd (pop_front (RunLane r) (unat tid) s))
     (\<lambda>p t. large_post n L D hg S R H lay p t \<and> g_pool t = g_pool s)"
proof -
  let ?l = "RunLane r" and ?k = "move x Apart k" let ?s = "snd (pop_front ?l (unat tid) s)"
  note c = front_cell [OF h(1,4,5) x]
  have acc: "same_accounts s ?s" by simp
  have cu: "in_custody n L ?k ?s" using h(1) by (intro custody_pop_front [OF _ c h(5) x(1)]) (simp add: heap_inv_def)
  have "heap_inv n L D ?k pg (dom S) ?s"
    by (rule heap_runs [OF h(1) cu])
      (use h(1) c(1) acc in \<open>auto simp: heap_inv_def on_estate_def same_accounts_def nothing_carried_def\<close>)
  moreover have "runs_but {x} ?k S R ?s" by (rule runs_set_apart [OF h(2) c(1)]) (use c(2) acc in \<open>simp_all add: same_accounts_def\<close>)
  moreover have "slots_inv hg pg H ?s" by (rule slots_grown [OF h(3)]) (use acc in \<open>simp_all add: same_accounts_def pool_grown_refl\<close>)
  ultimately show ?thesis
    by (rule quietly_mono [OF finish_large_heap]) (use m c(1) acc in \<open>simp_all add: same_accounts_def\<close>)
qed

lemma acquired_run_heap:
  assumes h: "heap_inv n L D k pg (dom S) s" "runs_inv k S R s" "slots_inv hg pg H s" "cu_home k x = Some (RunLane r)"
    and k': "headers_agree s t" "in_custody n L k' t" "shuffled (RunLane r) k k'"
      "\<And>y. cu_home k y \<noteq> None \<Longrightarrow> cu_at k' y = Carried \<longleftrightarrow> y = x"
    and m: "large_request L lay m" "m \<le> r"
  shows "quietly (finish_large x r lay) (set_owner x tid t) (\<lambda>p u. large_post n L D hg S R H lay p u \<and> g_pool u = g_pool s)"
proof -
  let ?k = "move x Apart k'" and ?u = "set_owner x tid t"
  have hm: "cu_home k' = cu_home k" "\<And>a. cu_use k' a = Unused \<longleftrightarrow> cu_use k a = Unused" using k'(3) by (auto simp: shuffled_def)
  have at: "cu_at k' y = cu_at k y \<or> cu_home k y = Some (RunLane r) \<and> public_place (cu_at k y) \<and> public_place (cu_at k' y)" for y
    using k'(3) by (auto simp: shuffled_def)
  have acc: "same_accounts s ?u" by (intro same_accounts_steps same_accounts_agree k'(1))
  have "in_custody n L ?k t" using k'(2,4) h(4) by (intro custody_move_apart) auto
  then have cu: "in_custody n L ?k ?u" by (rule custody_set_owner) simp
  have es: "on_estate D ?k pg (g_pool ?u)"
    using h(1) acc estate_cong [of D k pg "g_pool s" ?k] hm by (simp add: heap_inv_def same_accounts_def)
  have nc: "nothing_carried ?k" using k'(4) hm(1) by (simp add: nothing_carried_def)
  have sp: "cu_at k' y = cu_at k y" if "cu_home k y = Some (SpanLane c)" for y c using at [of y] that by auto
  have "heap_inv n L D ?k pg (dom S) ?u"
    by (rule heap_runs [OF h(1) cu es nc]) (use sp hm h(4) acc in \<open>auto simp: same_accounts_def\<close>)
  moreover have "runs_but {x} ?k S R ?u"
  proof (rule runs_set_apart [OF h(2,4)])
    have "cu_at k' x = Carried" using k'(4) h(4) by simp
    then show "cu_at k x \<noteq> Apart" using at [of x] by auto
  qed (use at hm acc k'(1) in \<open>auto simp: same_accounts_def intro: states_but_steps states_but_agree\<close>)
  moreover have "slots_inv hg pg H ?u" by (rule slots_grown [OF h(3)]) (use acc in \<open>simp_all add: same_accounts_def pool_grown_refl\<close>)
  ultimately show ?thesis
    by (rule quietly_mono [OF finish_large_heap]) (use m h(4) hm acc in \<open>simp_all add: same_accounts_def\<close>)
qed

definition fresh_run :: "address \<Rightarrow> nat \<Rightarrow> usize \<Rightarrow> shared \<Rightarrow> shared" where
  "fresh_run x r tid s = snd (init_run x r (run_class_spans r) tid s)"

lemma fresh_run_frame:
  "local_list (fresh_run x r tid s) = local_list s" "public_list (fresh_run x r tid s) = public_list s"
  "record_word (fresh_run x r tid s) = record_word s" "g_pool (fresh_run x r tid s) = g_pool s" "g_lhdr (fresh_run x r tid s) = g_lhdr s"
  "g_huge (fresh_run x r tid s) = g_huge s" "g_block (fresh_run x r tid s) = g_block s"
  "y \<noteq> x \<Longrightarrow> g_hdr (fresh_run x r tid s) y = g_hdr s y" "sh_node (g_hdr (fresh_run x r tid s) x) = node_storage_of x"
  "b \<noteq> node_storage_of x \<Longrightarrow> g_node (fresh_run x r tid s) b = g_node s b" "run_header r Apart (g_hdr (fresh_run x r tid s) x)"
  "g_active (fresh_run x r tid s) = g_active s"
proof -
  have "record_at (fresh_run x r tid s) l i = record_at s l i" "local_list (fresh_run x r tid s) l i = local_list s l i"
    "public_list (fresh_run x r tid s) l i = public_list s l i" for l i
    by (cases l; simp add: fresh_run_def init_run_def write_header_def Let_def)+
  then show "local_list (fresh_run x r tid s) = local_list s" "public_list (fresh_run x r tid s) = public_list s"
    "record_word (fresh_run x r tid s) = record_word s" by (simp_all add: record_word_def fun_eq_iff)
qed (simp_all add: fresh_run_def init_run_def write_header_def span_header_fresh_def local_meta_new_def remote_meta_new_def run_header_def Let_def)

lemma carved_run_heap:
  fixes st :: allocator_stats
  assumes h: "heap_inv n L D k pg (dom S) s" "runs_inv k S R s" "slots_inv hg pg H s" "RunLane r \<in> L" "r < 64"
    and m: "large_request L lay m" "m \<le> r" and fits: "2 ^ r \<le> spans_left (g_pool s)"
  defines "x \<equiv> span_addr (g_pool s) (cursor s)"
  defines "s' \<equiv> s\<lparr>g_pool := pool_taken (run_class_spans r) (g_pool s)\<rparr>"
  shows "quietly (finish_large x r lay) ((fresh_run x r tid s')\<lparr>g_stats := st\<rparr>)
     (\<lambda>p t. large_post n L D hg S R H lay p t \<and> g_pool t = g_pool s')" "x \<noteq> 0"
proof -
  let ?l = "RunLane r" and ?a = "node_storage_of x" and ?p = "g_pool s" and ?u = "(fresh_run x r tid s')\<lparr>g_stats := st\<rparr>"
  let ?k = "settle_cell x ?l ?a k" and ?pg = "settle_pages (unat (cursor s)) (2 ^ r) (CellPages x) pg"
  have e: "on_estate D k pg ?p" using h(1) by (simp add: heap_inv_def)
  have spans: "run_class_spans r = of_nat (2 ^ r)" by (simp add: run_class_spans_exp)
  have pos: "(0 :: nat) < 2 ^ r" by simp
  have u: "unat (run_class_spans r) = 2 ^ r" using h(5) by (simp add: run_class_spans_exp unat_exp)
  then have one: "1 \<le> run_class_spans r" by (simp add: word_le_nat_alt)
  have room: "unat (cursor s) + 2 ^ r \<le> unat (pool_count ?p)" using pool_take_room(1) [OF _ one, of ?p] fits u by simp
  have lt: "cursor s < pool_count ?p" unfolding word_less_nat_alt using room pos by linarith
  note nx = next_pages [OF e lt, folded x_def]
  note f = fresh_run_frame
  have "in_custody n L k s'" using h(1) unfolding s'_def by (simp only: custody_frame [OF same_custody_pool] heap_inv_def)
  then have "in_custody n L ?k (fresh_run x r tid s')" by (rule custody_new_cell [OF _ nx(2,3) h(4) nx(1,4)]) (simp_all add: f)
  then have cu: "in_custody n L ?k ?u" by (simp only: custody_frame [OF same_custody_ops(1)])
  have pool: "g_pool ?u = ?p\<lparr>pool_next := cursor s + of_nat (2 ^ r)\<rparr>"
    unfolding spans [symmetric] by (simp add: f s'_def pool_taken_def)
  have es: "on_estate D ?k ?pg (g_pool ?u)"
    unfolding pool using estate_carve [OF e room pos, of ?l, folded x_def] by (simp only: lane_pages.simps)
  have nc: "nothing_carried ?k" using h(1) by (simp add: heap_inv_def nothing_carried_def)
  have hi: "heap_inv n L D ?k ?pg (dom S) ?u"
    by (rule heap_runs [OF h(1) cu es nc]) (use nx(2) f in \<open>auto simp: s'_def\<close>)
  have "runs_but {x} ?k S R ?u"
  proof (rule runs_but_cong [OF h(2)])
    show "y \<notin> {x}" if "R p = Some (y, c)" for p y c using runs_butD(2) [OF h(2) that] nx(2) by auto
    show "run_header c (cu_at ?k y) (g_hdr ?u y)" if "cu_home ?k y = Some (RunLane c)" for y c
      using that f(8) [of y x r tid s'] f(11) [of r x tid s'] runs_header [OF h(2), of y c] by (cases "y = x") (auto simp: s'_def)
  qed (use nx(2) in \<open>auto simp: f s'_def\<close>)
  moreover have "pool_grown s ?u" using fits u by (intro pool_grown_taken [OF _ _ one]) (simp_all add: f s'_def)
  then have "slots_inv hg ?pg H ?u"
    by (rule slots_grown [OF h(3)]) (use nx(5) in \<open>auto simp: f s'_def settle_pages_def split: if_splits\<close>)
  ultimately show "quietly (finish_large x r lay) ?u (\<lambda>p t. large_post n L D hg S R H lay p t \<and> g_pool t = g_pool s')"
    by (rule quietly_mono [OF finish_large_heap [OF hi]]) (use m in \<open>simp_all add: f\<close>)
  show "x \<noteq> 0" using nx(1) by (simp add: span_base_def)
qed

subsection \<open>The search\<close>

definition large_step_post where
  "large_step_post n L D hg S R H lay s r t \<longleftrightarrow> (case r of
     None \<Rightarrow> whole_heap_inv n L D hg S R H t \<and> g_pool t = g_pool s
   | Some p \<Rightarrow> large_post n L D hg S R H lay p t \<and> pool_grown s t)"

lemma carve_run_heap:
  assumes h: "heap_inv n L D k pg (dom S) s" "runs_inv k S R s" "slots_inv hg pg H s" "RunLane r \<in> L" "r < 64"
    and m: "large_request L lay m" "m \<le> r"
  shows "quietly (carve_run tid lay r) s (\<lambda>v t. large_step_post n L D hg S R H lay s v t \<and> (v = None \<longrightarrow> spans_left (g_pool s) < 2 ^ r))"
proof -
  have u: "unat (run_class_spans r) = 2 ^ r" using h(5) by (simp add: run_class_spans_exp unat_exp)
  then have one: "1 \<le> run_class_spans r" by (simp add: word_le_nat_alt)
  let ?s = "s\<lparr>g_pool := pool_taken (run_class_spans r) (g_pool s)\<rparr>"
  show ?thesis
    unfolding carve_run_def
  proof (rule quietly_then [OF acquire_raw_run_quietly [OF one]], unfold u, goal_cases)
    case (1 b t)
    show ?case
    proof (cases "2 ^ r \<le> spans_left (g_pool s)")
      case True
      with 1 have b: "b = span_addr (g_pool s) (cursor s)" and t: "t = ?s" by simp_all
      note c = carved_run_heap [OF h m True, folded b]
      have grown: "g_pool v = g_pool ?s \<Longrightarrow> pool_grown s v" for v
        using True u by (intro pool_grown_taken [OF _ _ one]) simp_all
      have run: "fst (init_run b r (run_class_spans r) tid ?s) = b" by (simp add: init_run_def Let_def)
      have "quietly (finish_large b r lay) ((fresh_run b r tid ?s)\<lparr>g_stats := st\<rparr>)
          (\<lambda>p t. large_step_post n L D hg S R H lay s (Some p) t)" for st
        by (rule quietly_mono [OF c(1)]) (use grown in \<open>simp add: large_step_post_def\<close>)
      with c(2) t run show ?thesis
        by (auto intro!: quiet_intros elim!: quietly_mono simp: fresh_run_def)
    next
      case False
      with 1 have "b = 0" "t = s" by simp_all
      moreover have "whole_heap_inv n L D hg S R H s"
        using h(1-3) unfolding whole_heap_inv_def by (intro exI [of _ k] exI [of _ pg]) (rule conjI, assumption, rule conjI)
      ultimately show ?thesis using False by (simp add: large_step_post_def)
    qed
  qed
qed

lemma shuffled_none_heap:
  assumes h: "heap_inv n L D k pg (dom S) s" "runs_inv k S R s" "slots_inv hg pg H s" "l = RunLane r"
    and k': "headers_agree s t" "in_custody n L k' t" "shuffled l k k'" "\<And>y. cu_home k y \<noteq> None \<Longrightarrow> cu_at k' y \<noteq> Carried"
  shows "heap_inv n L D k' pg (dom S) t" "runs_inv k' S R t" "slots_inv hg pg H t" "g_pool t = g_pool s"
proof -
  have hm: "cu_home k' = cu_home k" "\<And>a. cu_use k' a = Unused \<longleftrightarrow> cu_use k a = Unused" using k'(3) by (auto simp: shuffled_def)
  have at: "cu_at k' y = cu_at k y \<or> cu_home k y = Some (RunLane r) \<and> public_place (cu_at k y) \<and> public_place (cu_at k' y)" for y
    using k'(3) h(4) by (auto simp: shuffled_def)
  have acc: "same_accounts s t" by (rule same_accounts_agree [OF k'(1)])
  show "g_pool t = g_pool s" using acc by (simp add: same_accounts_def)
  have es: "on_estate D k' pg (g_pool t)" using h(1) acc estate_cong [OF _ hm] by (simp add: heap_inv_def same_accounts_def)
  have nc: "nothing_carried k'" using k'(4) hm(1) by (simp add: nothing_carried_def)
  have sp: "cu_at k' y = cu_at k y" if "cu_home k y = Some (SpanLane c)" for y c using at [of y] that by auto
  show "heap_inv n L D k' pg (dom S) t"
    by (rule heap_runs [OF h(1) k'(2) es nc]) (use sp hm acc in \<open>auto simp: same_accounts_def\<close>)
  have "(cu_at k' y = Apart \<longleftrightarrow> cu_at k y = Apart) \<and> (cu_at k' y = Loose \<longrightarrow> cu_at k y = Loose)" for y
    using at [of y] by (auto simp: public_place_def)
  moreover have "run_header c (cu_at k' y) (g_hdr t y)" if "cu_home k' y = Some (RunLane c)" for y c
    using that at [of y] acc agree_state [OF k'(1), of y] unfolding hm(1)
    by (intro run_header_moved [OF runs_header [OF h(2)]]) (auto simp: same_accounts_def)
  ultimately show "runs_inv k' S R t" by (intro runs_but_cong [OF h(2)]) (use hm acc in \<open>auto simp: same_accounts_def\<close>)
  show "slots_inv hg pg H t" by (rule slots_grown [OF h(3)]) (use acc in \<open>simp_all add: same_accounts_def pool_grown_refl\<close>)
qed

lemma large_class_step_heap:
  assumes w: "whole_heap_inv n L D hg S R H s" "r < MAX_LARGE_RUN_CLASSES" "unat tid < n" and m: "large_request L lay m" "m \<le> r"
  shows "quietly (large_class_step B n tid lay m r) s (\<lambda>v t. large_step_post n L D hg S R H lay s v t
     \<and> (v = None \<and> r = m \<longrightarrow> spans_left (g_pool s) < 2 ^ m))"
proof -
  let ?l = "RunLane r" and ?P = "\<lambda>v t. large_step_post n L D hg S R H lay s v t \<and> (v = None \<and> r = m \<longrightarrow> spans_left (g_pool s) < 2 ^ m)"
  obtain k pg where h: "heap_inv n L D k pg (dom S) s" "runs_inv k S R s" "slots_inv hg pg H s"
    using w(1) unfolding whole_heap_inv_def by blast
  have lane: "?l \<in> L" "r < 64" using m(1) w(2) by (simp_all add: large_request_def wf_config)
  have cu: "in_custody n L k s" using h(1) by (simp add: heap_inv_def)
  have nc: "\<And>x. cu_home k x \<noteq> None \<Longrightarrow> cu_at k x \<noteq> Carried" using heap_not_carried [OF h(1)] by blast
  have grant: "quietly (do { p \<leftarrow> finish_large x r lay; ret (Some p) }) t ?P"
    if "quietly (finish_large x r lay) t (\<lambda>p t. large_post n L D hg S R H lay p t \<and> g_pool t = g_pool s)" for x t
    by (rule quietly_then [OF that]) (auto simp: large_step_post_def intro: pool_grown_refl)
  have rest: "quietly (do { run \<leftarrow> runlists_acquire_run B n (unat tid) r;
       if run \<noteq> 0 then do { shared_put (set_owner run tid); p \<leftarrow> finish_large run r lay; ret (Some p) }
       else if r = m then carve_run tid lay r else ret None }) s ?P"
    unfolding runlists_acquire_run_def
  proof (rule quietly_then [OF acquire_in_custody [OF cu lane(1) w(3) nc]], simp, elim conjE exE, goal_cases)
    case (1 x t k')
    show ?case
    proof (cases "x = 0")
      case True
      have nc': "\<And>y. cu_home k y \<noteq> None \<Longrightarrow> cu_at k' y \<noteq> Carried" using 1(4) True custody_nonnull [OF cu] by blast
      note t = shuffled_none_heap [OF h refl 1(1-3) nc']
      have whole: "whole_heap_inv n L D hg S R H t"
        using t(1-3) unfolding whole_heap_inv_def by (intro exI [of _ k'] exI [of _ pg]) (rule conjI, assumption, rule conjI)
      have "quietly (carve_run tid lay r) t ?P" if "r = m"
        by (rule quietly_mono [OF carve_run_heap [OF t(1-3) lane m]])
          (use t(4) that in \<open>auto simp: large_step_post_def pool_grown_def split: option.splits\<close>)
      with True whole t(4) show ?thesis by (auto simp: large_step_post_def)
    next
      case False
      then have x: "cu_home k x = Some ?l" using 1 by blast
      have ca: "\<And>y. cu_home k y \<noteq> None \<Longrightarrow> cu_at k' y = Carried \<longleftrightarrow> y = x" using 1(4) by blast
      from False show ?thesis
        by (auto intro!: quiet_intros(1) [OF quiet_intros(2)] grant acquired_run_heap [OF h x 1(1-3) ca m])
    qed
  qed
  show ?thesis
    unfolding large_class_step_def
  proof (rule quietly_bind, rule quietly_tick, rule quietly_bind, rule quietly_owner_op, unfold fst_pop_front, goal_cases)
    case 1
    show ?case
      using rest grant [OF listed_run_heap [OF h lane(1) w(3) m refl]] pop_front_none
      by (cases "list_front ?l (unat tid) s = 0") simp_all
  qed
qed

lemma large_search_heap:
  assumes w: "whole_heap_inv n L D hg S R H s" "unat tid < n" and m: "large_request L lay m"
    and cs: "\<And>r. r \<in> set cs \<Longrightarrow> m \<le> r \<and> r < MAX_LARGE_RUN_CLASSES"
  shows "quietly (large_search B n tid lay m cs) s (\<lambda>p t. pool_grown s t \<and> (if p = 0
       then whole_heap_inv n L D hg S R H t \<and> (m \<in> set cs \<longrightarrow> spans_left (g_pool s) < 2 ^ m)
       else large_post n L D hg S R H lay p t))"
  using w(1) cs
proof (induction cs arbitrary: s)
  case Nil
  then show ?case by (simp add: pool_grown_refl)
next
  case (Cons r cs)
  have r: "m \<le> r" "r < MAX_LARGE_RUN_CLASSES" using Cons.prems(2) by simp_all
  show ?case
    unfolding large_search.simps
  proof (rule quietly_then [OF large_class_step_heap [OF Cons.prems(1) r(2) w(2) m r(1)]], elim conjE, goal_cases)
    case (1 v t)
    show ?case
    proof (cases v)
      case None
      with 1(1) have t: "whole_heap_inv n L D hg S R H t" "g_pool t = g_pool s" by (simp_all add: large_step_post_def)
      note IH = Cons.IH [OF t(1) Cons.prems(2)]
      have "r = m \<Longrightarrow> spans_left (g_pool s) < 2 ^ m" using 1(2) None by simp
      with None show ?thesis
        by (auto intro!: quietly_mono [OF IH] simp: t(2) pool_grown_def split: if_splits)
    next
      case (Some p)
      with 1 show ?thesis by (auto simp: large_step_post_def large_post_def)
    qed
  qed
qed

lemma alloc_large_whole:
  assumes w: "whole_heap_inv n L D hg S R H s" "unat tid < n" and lay: "layout_valid lay"
    and L: "\<And>r. RunLane r \<in> L \<longleftrightarrow> r < MAX_LARGE_RUN_CLASSES"
  shows "quietly (alloc_large B n tid lay) s (\<lambda>p t. pool_grown s t \<and> (if p = 0
       then whole_heap_inv n L D hg S R H t \<and> (\<forall>m. run_class_for_layout lay = Some m \<longrightarrow> spans_left (g_pool s) < 2 ^ m)
       else large_post n L D hg S R H lay p t))"
proof (cases "run_class_for_layout lay")
  case None
  with w(1) show ?thesis by (simp add: alloc_large_def pool_grown_refl)
next
  case (Some m)
  have m: "large_request L lay m" "m < MAX_LARGE_RUN_CLASSES" using Some lay L by (simp_all add: large_request_def run_class_for_layout_Some)
  show ?thesis
    by (simp add: alloc_large_def Some, rule quietly_mono [OF large_search_heap [OF w m(1)]])
      (use m(2) in auto)
qed

section \<open>Deallocation\<close>

lemma large_freed_heap:
  assumes h: "heap_inv n L D k pg (dom S) s" "runs_inv k S R s" "slots_inv hg pg H s" "R p = Some (x, r)" "unat tid < n"
  shows "whole_heap_inv n L D hg S (R(p := None)) H (large_freed x r tid s)" "g_pool (large_freed x r tid s) = g_pool s"
proof -
  let ?l = "RunLane r" and ?i = "unat tid" and ?t = "large_freed x r tid s"
  note x = runs_butD [OF h(2,4)]
  have c: "in_custody n L k s" using h(1) by (simp add: heap_inv_def)
  have "\<exists>k'. in_custody n L k' ?t \<and> cu_home k' = cu_home k \<and> (\<forall>a. cu_use k' a = Unused \<longleftrightarrow> cu_use k a = Unused)
      \<and> (\<forall>y. y \<noteq> x \<longrightarrow> cu_at k' y = cu_at k y) \<and> place_index (cu_at k' x) \<noteq> None \<and> place_state (cu_at k' x) = Some (sh_state (g_hdr ?t x))"
  proof (cases "list_len ?l ?i s \<ge> LARGE_LOCAL_RUN_LIMIT_K")
    case True
    let ?v = "set_span_state x RunFreePublic (set_owner x OWNER_PUBLIC s)"
    let ?k = "use_node (sh_node (g_hdr ?v x)) (Listed ?l ?i) (move x (InQueue ?i) k)"
    have "in_custody n L k (set_owner x OWNER_PUBLIC s)" by (rule custody_set_owner [OF c x(3)])
    then have v: "in_custody n L k ?v" by (simp only: custody_frame [OF same_custody_state])
    have "in_custody n L ?k (enqueued ?l ?i x ?v)" by (rule custody_enqueue [OF v x(2,3) h(5)]) simp
    then have "in_custody n L ?k ?t" using True by (simp only: large_freed_def if_True Let_def custody_frame [OF same_custody_ops(1)])
    moreover have "cu_use k (sh_node (g_hdr ?v x)) \<noteq> Unused" using custody_cell [OF v x(2)] x(3) by (auto simp: cell_ok_def)
    moreover have "sh_state (g_hdr ?t x) = RunFreePublic" using True by (simp add: large_freed_def enqueued_def Let_def)
    ultimately show ?thesis by (intro exI [of _ ?k]) auto
  next
    case False
    let ?v = "set_span_state x RunFreeLocal (set_owner x tid s)" and ?k = "move x (InList ?i) k"
    have "in_custody n L k (set_owner x tid s)" by (rule custody_set_owner [OF c x(3)])
    then have v: "in_custody n L k ?v" by (simp only: custody_frame [OF same_custody_state])
    have "in_custody n L ?k ?t"
      using False custody_push(1) [OF v x(2,3) h(5)] by (simp add: large_freed_def)
    moreover have "sh_state (g_hdr ?t x) = RunFreeLocal" using False by (simp add: large_freed_def push_front_def set_next_local_def Let_def)
    ultimately show ?thesis by (intro exI [of _ ?k]) auto
  qed
  then obtain k' where k': "in_custody n L k' ?t" "cu_home k' = cu_home k" "\<And>a. cu_use k' a = Unused \<longleftrightarrow> cu_use k a = Unused"
      "\<And>y. y \<noteq> x \<Longrightarrow> cu_at k' y = cu_at k y" "place_index (cu_at k' x) \<noteq> None"
      "place_state (cu_at k' x) = Some (sh_state (g_hdr ?t x))" by blast
  have acc: "same_accounts s ?t"
    unfolding large_freed_def Let_def by (cases "LARGE_LOCAL_RUN_LIMIT_K \<le> list_len ?l ?i s")
      (simp_all only: if_True if_False, (intro same_accounts_steps same_accounts_refl)+)
  have stt: "states_but x s ?t"
    unfolding large_freed_def Let_def by (cases "LARGE_LOCAL_RUN_LIMIT_K \<le> list_len ?l ?i s")
      (simp_all only: if_True if_False, (intro states_but_steps states_but_refl)+)
  show "g_pool ?t = g_pool s" using acc by (simp add: same_accounts_def)
  have es: "on_estate D k' pg (g_pool ?t)" using h(1) acc estate_cong [OF _ k'(2,3)] by (simp add: heap_inv_def same_accounts_def)
  have at: "cu_at k' x \<noteq> Apart" "cu_at k' x \<noteq> Loose" "cu_at k' x \<noteq> Carried" using k'(5) by auto
  have nc: "nothing_carried k'" using k'(2,4) at(3) heap_not_carried [OF h(1)] unfolding nothing_carried_def by metis
  have sp: "cu_at k' y = cu_at k y" if "cu_home k y = Some (SpanLane c)" for y c using k'(4) [of y] x(2) that by (cases "y = x") simp_all
  have hi: "heap_inv n L D k' pg (dom S) ?t"
    by (rule heap_runs [OF h(1) k'(1) es nc]) (use sp k'(2) acc in \<open>auto simp: same_accounts_def\<close>)
  have but: "runs_but {x} k S (R(p := None)) s"
  proof -
    have "q = p" if "R q = Some (x, c)" for q c using h(2,4) that unfolding runs_but_def by blast
    then show ?thesis using h(2) h(4) unfolding runs_but_def by (auto split: if_splits) metis
  qed
  have "run_header c (cu_at k' y) (g_hdr ?t y)" if "cu_home k y = Some (RunLane c)" for y c
  proof (cases "y = x")
    case True
    with runs_header [OF h(2) that] acc k'(6) show ?thesis by (auto simp: run_header_def same_accounts_def ledger_of_def)
  next
    case False
    then show ?thesis using acc stt k'(4)
      by (intro run_header_cong [OF runs_header [OF h(2) that]]) (auto simp: same_accounts_def states_but_def)
  qed
  then have "runs_inv k' S (R(p := None)) ?t"
    by (intro runs_but_cong [OF but]) (use acc k'(2,4) at in \<open>auto simp: same_accounts_def\<close>)
  moreover have "slots_inv hg pg H ?t" by (rule slots_grown [OF h(3)]) (use acc in \<open>simp_all add: same_accounts_def pool_grown_refl\<close>)
  ultimately show "whole_heap_inv n L D hg S (R(p := None)) H ?t"
    using hi unfolding whole_heap_inv_def by (intro exI [of _ k'] exI [of _ pg]) (rule conjI, assumption, rule conjI)
qed

lemma dealloc_large_whole:
  assumes w: "whole_heap_inv n L D hg S R H s" "R p = Some (x, r)" "unat tid < n"
  shows "quietly (dealloc_large p lay tid) s (\<lambda>_ t. whole_heap_inv n L D hg S (R(p := None)) H t \<and> g_pool t = g_pool s)"
proof -
  obtain k pg where h: "heap_inv n L D k pg (dom S) s" "runs_inv k S R s" "slots_inv hg pg H s"
    using w(1) unfolding whole_heap_inv_def by blast
  show ?thesis
    by (rule quietly_mono [OF dealloc_large_quietly [OF runs_butD(6,7) [OF h(2) w(2)]]])
      (use large_freed_heap [OF h w(2,3)] in simp)
qed

end
