(* ===== verification/Huge_Heap.thy ===== *)
theory Huge_Heap
  imports Large_Heap
begin

text \<open>
  The huge path on the whole heap.  A huge allocation that is left alone claims a free slot or carves an empty one from
  the pool; its payload lies on the pages of that slot and of no other tenant.  A free of a live payload frees its slot.
\<close>

section \<open>Settling a slot\<close>

lemma estate_settle:
  assumes e: "on_estate D k pg p" "unat m \<le> spans_left p" "1 \<le> m" and q: "q = SlotPages c i"
  defines "pg' \<equiv> settle_pages (unat (pool_next p)) (unat m) q pg"
  shows "on_estate D k pg' (pool_taken m p)" "occupies (pool_taken m p) pg' (span_addr p (pool_next p)) (unat m) q"
    "\<And>j. pg j \<noteq> Vacant \<Longrightarrow> pg' j = pg j"
proof -
  note room = pool_take_room [OF e(2,3)]
  have lt: "pool_next p < pool_count p" using room(1) e(3) unfolding word_less_nat_alt word_le_nat_alt by simp
  note nx = next_pages [OF e(1) lt]
  show keep: "pg' j = pg j" if "pg j \<noteq> Vacant" for j using that nx(5) [of j] by (auto simp: pg'_def settle_pages_def)
  have sa: "span_addr (pool_taken m p) = span_addr p" by (simp add: span_addr_def pool_taken_def fun_eq_iff)
  show "occupies (pool_taken m p) pg' (span_addr p (pool_next p)) (unat m) q"
    unfolding occupies_def sa using room(1) by (intro exI [of _ "unat (pool_next p)"]) (simp add: pg'_def settle_pages_def pool_taken_def)
  have "occupies (pool_taken m p) pg' x (lane_pages l) (CellPages x)" if "cu_home k x = Some l" for x l
  proof -
    have "occupies p pg x (lane_pages l) (CellPages x)" using e(1) that by (simp add: on_estate_def)
    then show ?thesis by (rule occupies_grown) (use keep in \<open>simp_all add: pool_taken_def\<close>)
  qed
  moreover have "pg' j \<noteq> Vacant \<longleftrightarrow> j < unat (pool_next p) + unat m \<and> j < unat (pool_count p)" for j
    using q e(1) room(1) by (auto simp: pg'_def settle_pages_def on_estate_def)
  moreover have "cu_home k x \<noteq> None" if "pg' j = CellPages x" for j x
    using that e(1) q by (auto simp: pg'_def settle_pages_def on_estate_def split: if_splits)
  moreover have "pool_count (pool_taken m p) = pool_count p" "pool_next (pool_taken m p) = pool_next p + m" by (simp_all add: pool_taken_def)
  ultimately show "on_estate D k pg' (pool_taken m p)"
    using e(1) room(2) unfolding on_estate_def sa by simp
qed

text \<open>Slots are not part of what custody and accounts read.\<close>

lemma lists_of_huge [simp]:
  "local_list (s\<lparr>g_huge := x\<rparr>) l j = local_list s l j" "public_list (s\<lparr>g_huge := x\<rparr>) l j = public_list s l j"
  "record_at (s\<lparr>g_huge := x\<rparr>) l j = record_at s l j"
  by (cases l; simp)+

lemma same_custody_slot: "same_custody s (upd_slot c i f s)"
  by (auto simp: same_custody_def upd_slot_def next_local_def record_word_def fun_eq_iff)

lemma same_custody_carved: "same_custody s (huge_carved c hg s)"
proof -
  have "huge_carved c hg s = (s\<lparr>g_pool := pool_taken (huge_class_granules c * hg) (g_pool s)\<rparr>)
      \<lparr>g_stats := allocated_huge_runs_update stat_inc (g_stats s)\<rparr>" by (simp add: huge_carved_def)
  then show ?thesis using same_custody_trans [OF same_custody_pool same_custody_ops(1)] by simp
qed

lemma heap_slots:
  assumes "heap_inv n L D k pg (dom S) s" "same_custody s t" "g_block t = g_block s" "g_hdr t = g_hdr s" "on_estate D k pg' (g_pool t)"
    "g_active t = g_active s"
  shows "heap_inv n L D k pg' (dom S) t"
  using assms by (intro heap_runs [OF assms(1)]) (auto simp: custody_frame [OF assms(2)] heap_inv_def)

lemma upd_slot_rest [simp]:
  "g_active (upd_slot c i f s) = g_active s" "g_active (huge_carved c hg s) = g_active s"
  "g_block (upd_slot c i f s) = g_block s" "g_hdr (upd_slot c i f s) = g_hdr s" "g_lhdr (upd_slot c i f s) = g_lhdr s"
  "g_block (huge_carved c hg s) = g_block s" "g_hdr (huge_carved c hg s) = g_hdr s" "g_lhdr (huge_carved c hg s) = g_lhdr s"
  "g_pool (huge_carved c hg s) = pool_taken (huge_class_granules c * hg) (g_pool s)" "g_huge (huge_carved c hg s) = g_huge s"
  by (simp_all add: upd_slot_def huge_carved_def)

section \<open>Allocation\<close>

definition huge_taken :: "usize \<Rightarrow> layout \<Rightarrow> usize \<Rightarrow> shared \<Rightarrow> nat \<times> nat \<Rightarrow> shared \<Rightarrow> bool" where
  "huge_taken hg lay tid s ci t \<longleftrightarrow>
     hs_state (slot_at s ci) = HUGE_SLOT_FREE \<and> t = upd_slot (fst ci) (snd ci) (huge_claimed (hs_base (slot_at s ci)) lay tid) s
   \<or> hs_state (slot_at s ci) = HUGE_SLOT_EMPTY \<and> slot_pages hg ci \<le> spans_left (g_pool s)
     \<and> t = upd_slot (fst ci) (snd ci) (huge_claimed (span_addr (g_pool s) (cursor s)) lay tid) (huge_carved (fst ci) hg s)"

definition slot_unavailable :: "usize \<Rightarrow> shared \<Rightarrow> nat \<times> nat \<Rightarrow> bool" where
  "slot_unavailable hg s ci \<longleftrightarrow> hs_state (slot_at s ci) \<noteq> HUGE_SLOT_FREE
     \<and> (hs_state (slot_at s ci) = HUGE_SLOT_EMPTY \<longrightarrow> spans_left (g_pool s) < slot_pages hg ci)"

lemma huge_scan_shape:
  assumes inv: "huge_inv hg s"
  shows "set cis \<subseteq> set (huge_slots_from 0) \<Longrightarrow> quietly (huge_scan hg tid lay cis) s (\<lambda>p t.
     t = s \<and> p = 0 \<and> (\<forall>ci \<in> set cis. slot_unavailable hg s ci) \<or> (\<exists>ci \<in> set cis. huge_taken hg lay tid s ci t))"
proof (induction cis)
  case (Cons ci cis)
  obtain c i where ci: "ci = (c, i)" by (cases ci)
  have c: "c < 3" using Cons.prems dir_class [of ci 0] by (simp add: ci)
  have g: "granule_valid hg" "pool_wf (g_pool s)" "pool_base (g_pool s) \<noteq> 0" using huge_inv_pool [OF inv] by simp_all
  have addr: "span_addr (g_pool s) m \<noteq> 0" if "m < pool_count (g_pool s)" for m
  proof -
    have "0 < unat (span_addr (g_pool s) m)" using span_addr_unat [OF g(2) that] g(3) by (simp add: unat_gt_0)
    then show ?thesis by auto
  qed
  have IH: "quietly (huge_scan hg tid lay cis) s (\<lambda>p t.
     t = s \<and> p = 0 \<and> (\<forall>ci \<in> set cis. slot_unavailable hg s ci) \<or> (\<exists>ci \<in> set cis. huge_taken hg lay tid s ci t))"
    by (rule Cons.IH) (use Cons.prems in simp)
  show ?case
    unfolding huge_scan.simps ci
  proof (rule quietly_then [OF huge_try_slot_quietly [OF huge_run_granules(2) [OF g(1) c] addr]], assumption, goal_cases)
    case (1 r t)
    show ?case
    proof (cases r)
      case None
      with 1 have "t = s" "slot_unavailable hg s (c, i)" by (simp_all add: slot_unavailable_def slot_at_def slot_pages_def)
      with None show ?thesis by (auto intro!: quietly_mono [OF IH])
    next
      case (Some p)
      with 1 have "huge_taken hg lay tid s (c, i) t" by (auto simp: huge_taken_def slot_at_def slot_pages_def)
      with Some show ?thesis by simp
    qed
  qed
qed simp

lemma huge_taken_live:
  assumes "huge_taken hg lay tid s ci t" "ci \<in> set (huge_slots_from 0)"
  shows "huge_live t = insert ci (huge_live s)" "ci \<notin> huge_live s" "t \<noteq> s"
proof -
  have st: "hs_state (slot_at t ci) = HUGE_SLOT_ALLOCATED" using assms(1) by (auto simp: huge_taken_def huge_claimed_def)
  have same: "slot_at t cj = slot_at s cj" if "cj \<noteq> ci" for cj using assms(1) that by (auto simp: huge_taken_def prod_eq_iff)
  have "cj \<in> huge_live t \<longleftrightarrow> cj \<in> insert ci (huge_live s)" for cj
    using st assms(2) same [of cj] by (cases "cj = ci") (simp_all add: huge_live_def)
  then show "huge_live t = insert ci (huge_live s)" by blast
  show n: "ci \<notin> huge_live s" using assms(1) by (auto simp: huge_taken_def huge_live_def)
  show "t \<noteq> s" using \<open>huge_live t = insert ci (huge_live s)\<close> n by auto
qed

text \<open>The pages of the slot that is taken: its own, or the next ones of the pool.\<close>

lemma huge_taken_pages:
  assumes h: "heap_inv n L D k pg (dom S) s" "slots_inv hg pg H s" "ci \<in> set (huge_slots_from 0)" "huge_taken hg lay tid s ci t"
  obtains pg' where "heap_inv n L D k pg' (dom S) t" "slots_settled hg pg' t" "pool_grown s t" "g_lhdr t = g_lhdr s" "g_hdr t = g_hdr s"
proof (cases "hs_state (slot_at s ci) = HUGE_SLOT_FREE")
  case True
  let ?t = "upd_slot (fst ci) (snd ci) (huge_claimed (hs_base (slot_at s ci)) lay tid) s"
  have t: "t = ?t" using h(4) True by (auto simp: huge_taken_def)
  have "heap_inv n L D k pg (dom S) t"
    using h(1) unfolding t by (intro heap_slots [OF h(1) same_custody_slot]) (simp_all add: heap_inv_def)
  moreover have "hs_base (slot_at t cj) = hs_base (slot_at s cj)" for cj by (simp add: t huge_claimed_def)
  then have "slots_settled hg pg t" using h(2) by (simp add: slots_inv_def slots_settled_def t)
  ultimately show ?thesis by (rule that) (simp_all add: t pool_grown_refl)
next
  case False
  let ?m = "huge_class_granules (fst ci) * hg" and ?b = "span_addr (g_pool s) (cursor s)" and ?q = "SlotPages (fst ci) (snd ci)"
  let ?pg = "settle_pages (unat (cursor s)) (unat ?m) ?q pg"
  have t: "t = upd_slot (fst ci) (snd ci) (huge_claimed ?b lay tid) (huge_carved (fst ci) hg s)"
    and fits: "unat ?m \<le> spans_left (g_pool s)" using h(4) False by (auto simp: huge_taken_def slot_pages_def)
  have inv: "huge_inv hg s" using h(2) by (simp add: slots_inv_def)
  have one: "1 \<le> ?m" using huge_run_granules(2) [of hg "fst ci"] huge_inv_pool [OF inv] dir_class [OF h(3)] by simp
  have e: "on_estate D k pg (g_pool s)" using h(1) by (simp add: heap_inv_def)
  have "cursor s < pool_count (g_pool s)"
    using pool_take_room(1) [OF fits one] one by (simp add: word_less_nat_alt word_le_nat_alt)
  then have b: "?b \<noteq> 0" using next_pages(1) [OF e] by (auto simp: span_base_def)
  note se = estate_settle [OF e fits one, of ?q, OF refl]
  have pool: "g_pool t = pool_taken ?m (g_pool s)" by (simp add: t)
  have cu: "same_custody s t" unfolding t by (rule same_custody_trans [OF same_custody_carved same_custody_slot])
  have "heap_inv n L D k ?pg (dom S) t" by (rule heap_slots [OF h(1) cu]) (use se(1) in \<open>simp_all add: t\<close>)
  moreover have "slots_settled hg ?pg t"
    unfolding slots_settled_def pool
  proof (intro conjI ballI allI impI)
    show "(c, i) \<in> set (huge_slots_from 0)" "hs_base (slot_at t (c, i)) \<noteq> 0" if j: "?pg j = SlotPages c i" for j c i
    proof -
      have "(c, i) \<in> set (huge_slots_from 0) \<and> hs_base (slot_at s (c, i)) \<noteq> 0" if "(c, i) \<noteq> ci"
        using h(2) j that by (auto simp: slots_inv_def slots_settled_def settle_pages_def split: if_splits)
      moreover have "hs_base (slot_at t ci) \<noteq> 0" using b by (simp add: t huge_claimed_def)
      moreover have "slot_at t (c, i) = slot_at s (c, i)" if "(c, i) \<noteq> ci" using that by (auto simp: t prod_eq_iff)
      ultimately show "(c, i) \<in> set (huge_slots_from 0)" "hs_base (slot_at t (c, i)) \<noteq> 0" using h(3) by (cases "(c, i) = ci"; simp)+
    qed
  next
    fix cj assume cj: "cj \<in> set (huge_slots_from 0)" "hs_base (slot_at t cj) \<noteq> 0"
    show "occupies (pool_taken ?m (g_pool s)) ?pg (hs_base (slot_at t cj)) (slot_pages hg cj) (SlotPages (fst cj) (snd cj))"
    proof (cases "cj = ci")
      case True
      then show ?thesis using se(2) by (simp add: t huge_claimed_def slot_pages_def)
    next
      case False
      then have eq: "slot_at t cj = slot_at s cj" by (auto simp: t prod_eq_iff)
      then have "occupies (g_pool s) pg (hs_base (slot_at s cj)) (slot_pages hg cj) (SlotPages (fst cj) (snd cj))"
        using h(2) cj by (simp add: slots_inv_def slots_settled_def)
      then show ?thesis unfolding eq by (rule occupies_grown) (use se(3) in \<open>simp_all add: pool_taken_def\<close>)
    qed
  qed
  moreover have "pool_grown s t" by (rule pool_grown_taken [OF pool fits one])
  ultimately show ?thesis by (rule that) (simp_all add: t)
qed

lemma slots_grant:
  assumes h: "slots_inv hg pg H s" "huge_inv hg t" "slots_settled hg pg' t" "huge_granted hg lay s t p ci" "0 < unat (lay_size lay)"
  defines "b \<equiv> hs_base (slot_at t ci)"
  shows "H p = None" "slots_inv hg pg' (H(p \<mapsto> (b, ci))) t"
proof -
  have ci: "ci \<in> set (huge_slots_from 0)" "ci \<notin> huge_live s" "huge_live t = insert ci (huge_live s)"
    and same: "\<And>cj. cj \<noteq> ci \<Longrightarrow> slot_at t cj = slot_at s cj"
    and p: "unat b \<le> unat p" "unat p < unat b + unat (huge_class_bytes hg (fst ci))"
    using h(4,5) by (auto simp: huge_granted_def slot_run_def b_def)
  have old: "cj \<in> huge_live s" "hs_base (slot_at s cj) = b'" "unat b' \<le> unat q" "unat q < unat b' + unat (huge_class_bytes hg (fst cj))" "cj \<noteq> ci"
    if "H q = Some (b', cj)" for q b' cj using h(1) that ci(2) unfolding slots_inv_def by blast+
  have base: "hs_base (slot_at t cj) \<noteq> 0" "cj \<in> set (huge_slots_from 0)" if "cj \<in> huge_live t" for cj
    using that huge_inv_slot [OF h(2)] by (auto simp: huge_live_def slot_ok_def)
  show fresh: "H p = None"
  proof (rule ccontr)
    assume "H p \<noteq> None"
    then obtain b' cj where cj: "H p = Some (b', cj)" by (cases "H p") auto
    note o = old [OF cj]
    have live: "cj \<in> huge_live t" "ci \<in> huge_live t" using o(1) ci(3) by simp_all
    have "slots_apart hg cj (slot_at t cj) ci (slot_at t ci)" by (rule huge_inv_apart [OF h(2) base(2) [OF live(1)] ci(1) o(5)])
    then show False using base(1) [OF live(1)] base(1) [OF live(2)] o(2-4) p same [OF o(5)]
      by (auto simp: slots_apart_def apart_def slot_run_def b_def)
  qed
  have uniq: "q = q'" if "H q = Some (b1, cj)" "H q' = Some (b2, cj)" for q q' b1 b2 cj using h(1) that unfolding slots_inv_def by blast
  have all: "\<exists>q b'. H q = Some (b', cj)" if "cj \<in> huge_live s" for cj using h(1) that unfolding slots_inv_def by blast
  show "slots_inv hg pg' (H(p \<mapsto> (b, ci))) t"
    unfolding slots_inv_def ci(3)
  proof (intro conjI allI impI ballI)
    show "huge_inv hg t" "slots_settled hg pg' t" using h(2,3) .
    fix q b' cj assume "(H(p \<mapsto> (b, ci))) q = Some (b', cj)"
    then consider "q = p" "b' = b" "cj = ci" | "H q = Some (b', cj)" "q \<noteq> p" by (cases "q = p") simp_all
    then have "cj \<in> insert ci (huge_live s) \<and> hs_base (slot_at t cj) = b' \<and> unat b' \<le> unat q
        \<and> unat q < unat b' + unat (huge_class_bytes hg (fst cj))"
    proof cases
      case 2
      note o = old [OF 2(1)]
      show ?thesis using o(1-4) by (simp add: same [OF o(5)])
    qed (use p in \<open>simp add: b_def\<close>)
    then show "cj \<in> insert ci (huge_live s)" "hs_base (slot_at t cj) = b'" "unat b' \<le> unat q"
      "unat q < unat b' + unat (huge_class_bytes hg (fst cj))" by blast+
  next
    fix q q' b1 b2 cj assume "(H(p \<mapsto> (b, ci))) q = Some (b1, cj)" "(H(p \<mapsto> (b, ci))) q' = Some (b2, cj)"
    then show "q = q'"
      using uniq [of q b1 cj q' b2] old(5) [of q b1 cj] old(5) [of q' b2 cj] by (cases "q = p"; cases "q' = p") simp_all
  next
    fix cj assume cj: "cj \<in> insert ci (huge_live s)"
    show "\<exists>q b'. (H(p \<mapsto> (b, ci))) q = Some (b', cj)"
    proof (cases "cj = ci")
      case False
      then obtain q b' where "H q = Some (b', cj)" using all cj by blast
      then show ?thesis using fresh by (intro exI [of _ q] exI [of _ b']) auto
    qed auto
  qed
qed

definition huge_post where
  "huge_post n L D hg S R H lay p t \<longleftrightarrow> p \<noteq> 0 \<and> H p = None \<and> is_aligned p (lay_align lay)
     \<and> (\<exists>b ci. whole_heap_inv n L D hg S R (H(p \<mapsto> (b, ci))) t \<and> unat p + unat (lay_size lay) \<le> unat b + unat (huge_class_bytes hg (fst ci)))"

lemma alloc_huge_whole:
  assumes w: "whole_heap_inv n L D hg S R H s" and lay: "layout_valid lay" "unat (HUGE_GRANULE_BYTES hg) \<le> unat (lay_size lay)"
  shows "quietly (alloc_huge hg tid lay) s (\<lambda>p t. pool_grown s t \<and> (if p = 0
       then whole_heap_inv n L D hg S R H t \<and> (\<forall>m. huge_class_for_layout hg lay = Some m \<longrightarrow> (\<forall>ci \<in> set (huge_slots_from m). slot_unavailable hg s ci))
       else huge_post n L D hg S R H lay p t))"
proof -
  obtain k pg where h: "heap_inv n L D k pg (dom S) s" "runs_inv k S R s" "slots_inv hg pg H s"
    using w unfolding whole_heap_inv_def by blast
  have inv: "huge_inv hg s" using h(3) by (simp add: slots_inv_def)
  have pos: "0 < unat (lay_size lay)"
    using lay(2) huge_inv_pool [OF inv] granule_bytes_unat [of hg] by (auto simp: granule_valid_def)
  have grant: "huge_post n L D hg S R H lay p t \<and> pool_grown s t"
    if t: "huge_inv hg t" "huge_granted hg lay s t p ci" "huge_taken hg lay tid s cj t" "cj \<in> set (huge_slots_from 0)" for p t ci cj
  proof -
    obtain pg' where pg': "heap_inv n L D k pg' (dom S) t" "slots_settled hg pg' t" "pool_grown s t" "g_lhdr t = g_lhdr s" "g_hdr t = g_hdr s"
      using huge_taken_pages [OF h(1,3) t(4,3)] .
    note sg = slots_grant [OF h(3) t(1) pg'(2) t(2) pos]
    have "runs_inv k S R t" by (rule runs_but_cong [OF h(2)]) (simp_all add: pg'(4,5))
    with pg'(1) sg(2) have "whole_heap_inv n L D hg S R (H(p \<mapsto> (hs_base (slot_at t ci), ci))) t"
      unfolding whole_heap_inv_def by (intro exI [of _ k] exI [of _ pg']) (rule conjI, assumption, rule conjI)
    then show ?thesis using sg(1) t(2) pg'(3) unfolding huge_post_def huge_granted_def slot_run_def snd_conv by blast
  qed
  show ?thesis
  proof (cases "huge_class_for_layout hg lay")
    case None
    with w show ?thesis by (simp add: alloc_huge_def pool_grown_refl)
  next
    case (Some m)
    have sub: "set (huge_slots_from m) \<subseteq> set (huge_slots_from 0)" using dir_class by blast
    have a: "alloc_huge hg tid lay = huge_scan hg tid lay (huge_slots_from m)" by (simp add: alloc_huge_def Some)
    show ?thesis
      unfolding a
    proof (rule quietly_mono [OF quietly_conj [OF alloc_huge_grants [OF inv lay, of tid, unfolded a] huge_scan_shape [OF inv sub]]],
        elim conjE, goal_cases)
      case (1 p t)
      from 1(2) show ?case
      proof (elim disjE conjE bexE, goal_cases)
        case 1
        with w Some show ?case by (simp add: pool_grown_refl)
      next
        case (2 cj)
        note live = huge_taken_live [OF 2(2)]
        have cj: "cj \<in> set (huge_slots_from 0)" using 2(1) sub by blast
        from 1(1) live(3) [OF cj] obtain ci where "huge_inv hg t" "huge_granted hg lay s t p ci" by blast
        from grant [OF this 2(2) cj] show ?case by (auto simp: huge_post_def)
      qed
    qed
  qed
qed

section \<open>Deallocation\<close>

lemma dealloc_huge_whole:
  assumes w: "whole_heap_inv n L D hg S R H s" "H p = Some (b, ci)"
  shows "quietly (dealloc_huge hg p lay tid) s (\<lambda>_ t. whole_heap_inv n L D hg S R (H(p := None)) t \<and> g_pool t = g_pool s)"
proof -
  obtain k pg where h: "heap_inv n L D k pg (dom S) s" "runs_inv k S R s" "slots_inv hg pg H s"
    using w(1) unfolding whole_heap_inv_def by blast
  let ?f = "\<lambda>h. h\<lparr>hs_owner := tid, hs_state := HUGE_SLOT_FREE\<rparr>" let ?t = "upd_slot (fst ci) (snd ci) ?f s"
  have inv: "huge_inv hg s" and pb: "ci \<in> huge_live s" "hs_base (slot_at s ci) = b" "unat b \<le> unat p"
      "unat p < unat b + unat (huge_class_bytes hg (fst ci))"
    using h(3) w(2) unfolding slots_inv_def by blast+
  have p: "fst (slot_run hg ci (slot_at s ci)) \<le> unat p" "unat p < snd (slot_run hg ci (slot_at s ci))"
    using pb(2-4) by (simp_all add: slot_run_def)
  have ci: "(fst ci, snd ci) \<in> set (huge_slots_from 0)" "hs_state (slot_at s (fst ci, snd ci)) = HUGE_SLOT_ALLOCATED"
    using pb(1) by (simp_all add: huge_live_def)
  have inv': "huge_inv hg ?t" by (rule huge_inv_same_base [OF inv ci(1)]) (use ci(2) in simp_all)
  have live: "huge_live ?t = huge_live s - {ci}" by (auto simp: huge_live_def)
  have base: "hs_base (slot_at ?t cj) = hs_base (slot_at s cj)" for cj by simp
  have "q = p" if "H q = Some (b', ci)" for q b' using h(3) w(2) that unfolding slots_inv_def by blast
  then have other: "cj \<noteq> ci" "H q = Some (b', cj)" if "(H(p := None)) q = Some (b', cj)" for q b' cj using that by (auto split: if_splits)
  have keep: "(H(p := None)) q = Some (b', cj)" if "H q = Some (b', cj)" "cj \<noteq> ci" for q b' cj using that w(2) by auto
  have "slots_settled hg pg ?t" using h(3) unfolding slots_inv_def slots_settled_def base by simp
  moreover have "cj \<in> huge_live s - {ci} \<and> hs_base (slot_at s cj) = b' \<and> unat b' \<le> unat q \<and> unat q < unat b' + unat (huge_class_bytes hg (fst cj))"
    if "(H(p := None)) q = Some (b', cj)" for q b' cj using other [OF that] h(3) unfolding slots_inv_def by blast
  moreover have "q = q'" if "(H(p := None)) q = Some (b1, cj)" "(H(p := None)) q' = Some (b2, cj)" for q q' b1 b2 cj
    using other(2) [OF that(1)] other(2) [OF that(2)] h(3) unfolding slots_inv_def by blast
  moreover have "\<exists>q b'. (H(p := None)) q = Some (b', cj)" if "cj \<in> huge_live s - {ci}" for cj
    using that keep h(3) unfolding slots_inv_def by blast
  ultimately have "slots_inv hg pg (H(p := None)) ?t" using inv' unfolding slots_inv_def live base by blast
  moreover have "heap_inv n L D k pg (dom S) ?t"
    using h(1) by (intro heap_slots [OF h(1) same_custody_slot]) (simp_all add: heap_inv_def)
  moreover have "runs_inv k S R ?t" by (rule runs_but_cong [OF h(2)]) simp_all
  ultimately have "whole_heap_inv n L D hg S R (H(p := None)) ?t"
    unfolding whole_heap_inv_def by (intro exI [of _ k] exI [of _ pg]) (rule conjI, assumption, rule conjI)
  then show ?thesis
    unfolding dealloc_huge_def using ci(1)
    by (intro quietly_mono [OF huge_free_scan_quietly [OF inv pb(1) p]]) auto
qed

end
