(* ===== verification/Payloads.thy ===== *)
theory Payloads
  imports Huge_Heap
begin

text \<open>
  Where live payloads lie.  Every payload lies on the pages of one tenant of the pool, a span, a run or a huge slot, and
  no two payloads overlap.  A client may write whatever it likes into its payloads: nothing that the allocator
  keeps in the region is touched.
\<close>

section \<open>Lodging\<close>

text \<open>The payload \<open>p\<close>, up to the address \<open>e\<close>, lies on the pages of the tenant \<open>q\<close>.\<close>

definition lodged where
  "lodged hg k S R H p e q \<longleftrightarrow>
     (\<exists>x c i. S p = Some c \<and> q = CellPages x \<and> cu_home k x = Some (SpanLane c) \<and> i < block_total c \<and> p = block_at x c i
        \<and> e \<le> unat p + 2 ^ (c + 4))
   \<or> (\<exists>x r. R p = Some (x, r) \<and> q = CellPages x \<and> e \<le> unat x + 65536 * 2 ^ r)
   \<or> (\<exists>b ci. H p = Some (b, ci) \<and> q = SlotPages (fst ci) (snd ci) \<and> e \<le> unat b + unat (huge_class_bytes hg (fst ci)))"

lemma lodgedE [consumes 1, case_names Small Large Huge]:
  assumes "lodged hg k S R H p e q"
  obtains x c i where "S p = Some c" "q = CellPages x" "cu_home k x = Some (SpanLane c)" "i < block_total c" "p = block_at x c i"
      "e \<le> unat p + 2 ^ (c + 4)"
  | x r where "R p = Some (x, r)" "q = CellPages x" "e \<le> unat x + 65536 * 2 ^ r"
  | b ci where "H p = Some (b, ci)" "q = SlotPages (fst ci) (snd ci)" "e \<le> unat b + unat (huge_class_bytes hg (fst ci))"
  using assms unfolding lodged_def by blast

lemma block_zone:
  assumes "span_base x" "c < 11" "i < block_total c"
  shows "unat x + 1024 \<le> unat (block_at x c i)" "unat (block_at x c i) + 2 ^ (c + 4) \<le> unat x + 65536"
  using block_at_unat [OF assms] block_offset_bound [OF assms(2,3)] by simp_all

lemma slot_zone:
  assumes h: "slots_inv hg pg H s" "H p = Some (b, ci)"
  shows "occupies (g_pool s) pg b (slot_pages hg ci) (SlotPages (fst ci) (snd ci))"
    "unat (huge_class_bytes hg (fst ci)) = 65536 * slot_pages hg ci"
    "unat b \<le> unat p" "unat p < unat b + 65536 * slot_pages hg ci"
proof -
  have ci: "ci \<in> huge_live s" "hs_base (slot_at s ci) = b" "unat b \<le> unat p" "unat p < unat b + unat (huge_class_bytes hg (fst ci))"
    and inv: "huge_inv hg s" using h unfolding slots_inv_def by blast+
  have d: "ci \<in> set (huge_slots_from 0)" "hs_state (slot_at s ci) = HUGE_SLOT_ALLOCATED" using ci(1) by (simp_all add: huge_live_def)
  have "b \<noteq> 0" using huge_inv_slot [OF inv d(1)] d(2) ci(2) by (auto simp: slot_ok_def)
  then show "occupies (g_pool s) pg b (slot_pages hg ci) (SlotPages (fst ci) (snd ci))"
    using h(1) d(1) ci(2) by (auto simp: slots_inv_def slots_settled_def)
  show r: "unat (huge_class_bytes hg (fst ci)) = 65536 * slot_pages hg ci"
    using huge_run_granules(1) [of hg "fst ci"] huge_inv_pool [OF inv] dir_class [OF d(1)] by (simp add: slot_pages_def)
  show "unat b \<le> unat p" "unat p < unat b + 65536 * slot_pages hg ci" using ci(3,4) unfolding r by simp_all
qed

lemma lodged_zone:
  assumes h: "heap_inv n L D k pg (dom S) s" "runs_inv k S R s" "slots_inv hg pg H s" "lodged hg k S R H p e q"
  obtains z m where "occupies (g_pool s) pg z m q" "unat z \<le> unat p" "unat p < unat z + 65536 * m" "e \<le> unat z + 65536 * m"
  using h(4) unfolding lodged_def
proof (elim disjE exE conjE, goal_cases)
  case (1 x c i)
  note x = heap_cells [OF h(1) 1(4)]
  note b = block_zone [OF x(2) heap_span(1) [OF h(1) 1(4)] 1(5), folded 1(6)]
  have "unat p < unat p + 2 ^ (c + 4)" by simp
  then have "unat p < unat x + 65536" using b(2) by (rule less_le_trans)
  with x(3) b 1(3,7) show ?case by (intro 1(1) [of x 1]) simp_all
next
  case (2 x r)
  note x = runs_butD [OF h(2) 2(2)]
  show ?case using heap_cells(3) [OF h(1) x(2)] x(4,5) 2(3,4) by (intro 2(1) [of x "2 ^ r"]) simp_all
next
  case (3 b ci)
  note z = slot_zone [OF h(3) 3(2)]
  show ?case using z 3(3,4) by (intro 3(1)) simp_all
qed

lemma lodged_page:
  assumes h: "heap_inv n L D k pg (dom S) s" "runs_inv k S R s" "slots_inv hg pg H s" "lodged hg k S R H p e q"
  shows "pg (page_at (g_pool s) (unat p)) = q" "unat (pool_base (g_pool s)) \<le> unat p" "e \<le> pool_end (g_pool s)"
proof -
  obtain z m where z: "occupies (g_pool s) pg z m q" "unat z \<le> unat p" "unat p < unat z + 65536 * m" "e \<le> unat z + 65536 * m"
    using lodged_zone [OF h] .
  have w: "pool_wf (g_pool s)" using h(1) by (simp add: heap_inv_def on_estate_def)
  show "pg (page_at (g_pool s) (unat p)) = q" "unat (pool_base (g_pool s)) \<le> unat p" by (rule occupies_page [OF w z(1-3)])+
  have "0 < m" using z(2,3) by (cases m) simp_all
  from occupies_end(1) [OF w z(1) this] z(4) show "e \<le> pool_end (g_pool s)" by simp
qed

text \<open>The pages of two tenants do not overlap.\<close>

lemma zones_apart:
  assumes w: "pool_wf p" "occupies p pg x m a" "occupies p pg y m' b" "a \<noteq> b" "0 < m" "0 < m'"
  shows "apart (unat x, unat x + 65536 * m) (unat y, unat y + 65536 * m')"
proof (rule ccontr)
  assume "\<not> ?thesis"
  then have "unat y < unat x + 65536 * m" "unat x < unat y + 65536 * m'" by (simp_all add: apart_def)
  then have "pg (page_at p (max (unat x) (unat y))) = a" "pg (page_at p (max (unat x) (unat y))) = b"
    using w(5,6) by (intro occupies_page(1) [OF w(1,2)] occupies_page(1) [OF w(1,3)]; simp)+
  with w(4) show False by simp
qed

lemma blocks_apart:
  assumes x: "span_base x" "c < 11" "i < block_total c" "j < block_total c" "i \<noteq> j"
  shows "apart (unat (block_at x c i), unat (block_at x c i) + 2 ^ (c + 4)) (unat (block_at x c j), unat (block_at x c j) + 2 ^ (c + 4))"
proof -
  have "Suc i \<le> j \<or> Suc j \<le> i" using x(5) by arith
  then have "Suc i * 2 ^ (c + 4) \<le> j * 2 ^ (c + 4) \<or> Suc j * 2 ^ (c + 4) \<le> (i * 2 ^ (c + 4) :: nat)"
    using mult_le_mono1 by blast
  then show ?thesis unfolding apart_def block_at_unat [OF x(1,2,3)] block_at_unat [OF x(1,2,4)] by auto
qed

lemma lodged_apart:
  assumes h: "heap_inv n L D k pg (dom S) s" "runs_inv k S R s" "slots_inv hg pg H s"
    and l: "lodged hg k S R H p e q" "lodged hg k S R H p' e' q'" "p \<noteq> p'"
  shows "apart (unat p, e) (unat p', e')"
proof (cases "q = q'")
  case False
  obtain z m where z: "occupies (g_pool s) pg z m q" "unat z \<le> unat p" "unat p < unat z + 65536 * m" "e \<le> unat z + 65536 * m"
    using lodged_zone [OF h l(1)] .
  obtain y m' where y: "occupies (g_pool s) pg y m' q'" "unat y \<le> unat p'" "unat p' < unat y + 65536 * m'" "e' \<le> unat y + 65536 * m'"
    using lodged_zone [OF h l(2)] .
  have w: "pool_wf (g_pool s)" using h(1) by (simp add: heap_inv_def on_estate_def)
  have "0 < m" using z(2,3) by (cases m) simp_all
  moreover have "0 < m'" using y(2,3) by (cases m') simp_all
  ultimately show ?thesis using zones_apart [OF w z(1) y(1) False] z y by (auto simp: apart_def)
next
  case True
  have run: "cu_home k x = Some (RunLane r)" if "R a = Some (x, r)" for a x r using runs_butD(2) [OF h(2) that] .
  have once: "a = b" if "R a = Some (x, r)" "R b = Some (x, r')" for a b x r r' using h(2) that unfolding runs_but_def by blast
  have slot: "a = b" if "H a = Some (z, ci)" "H b = Some (z', ci)" for a b z z' ci using h(3) that unfolding slots_inv_def by blast
  from l(1) show ?thesis
  proof (cases rule: lodgedE)
    case p: (Small x c i)
    from l(2) show ?thesis
    proof (cases rule: lodgedE)
      case (Small x' c' j)
      then have x: "x' = x" "c' = c" using p True by simp_all
      have "i \<noteq> j" using Small(5) p(5) x l(3) by auto
      with blocks_apart [OF heap_cells(2) [OF h(1) p(3)] heap_span(1) [OF h(1) p(3)] p(4), of j] Small(4-6) p(5,6) x show ?thesis
        by (auto simp: apart_def)
    next
      case (Large x' r)
      with run [of p' x' r] p True show ?thesis by simp
    qed (use p True in simp)
  next
    case p: (Large x r)
    from l(2) show ?thesis
    proof (cases rule: lodgedE)
      case (Small x' c j)
      with run [of p x r] p True show ?thesis by simp
    next
      case (Large x' r')
      with once [of p x r p' r'] p l(3) True show ?thesis by simp
    qed (use p True in simp)
  next
    case p: (Huge b ci)
    from l(2) show ?thesis
      by (cases rule: lodgedE) (use p slot [of p b ci p'] l(3) True in \<open>auto simp: prod_eq_iff\<close>)
  qed
qed

section \<open>Writes of the client\<close>

text \<open>
  A cell of \<open>m\<close> bytes at \<open>a\<close> overlaps a payload.  A write of the client may change every cell that does: span headers, the
  link of a free block, list nodes and hidden headers.
\<close>

definition touched :: "(address \<rightharpoonup> layout) \<Rightarrow> address \<Rightarrow> nat \<Rightarrow> bool" where
  "touched held a m \<longleftrightarrow> (\<exists>p lay. held p = Some lay \<and> unat a < unat p + unat (lay_size lay) \<and> unat p < unat a + m)"

definition client_write :: "(address \<rightharpoonup> layout) \<Rightarrow> shared \<Rightarrow> shared \<Rightarrow> bool" where
  "client_write held s t \<longleftrightarrow> (\<exists>gh gb gn gl. t = s\<lparr>g_hdr := gh, g_block := gb, g_node := gn, g_lhdr := gl\<rparr>
     \<and> (\<forall>a. \<not> touched held a (unat SPAN_HEADER_RESERVE) \<longrightarrow> gh a = g_hdr s a) \<and> (\<forall>a. \<not> touched held a 8 \<longrightarrow> gb a = g_block s a)
     \<and> (\<forall>a. \<not> touched held a 16 \<longrightarrow> gn a = g_node s a) \<and> (\<forall>a. \<not> touched held a (unat HDR_SIZE) \<longrightarrow> gl a = g_lhdr s a))"

lemma custody_write:
  assumes k: "in_custody n L k s" and same: "local_list t = local_list s" "public_list t = public_list s" "record_word t = record_word s"
    and hdr: "\<And>x. cu_home k x \<noteq> None \<Longrightarrow> g_hdr t x = g_hdr s x" and node: "\<And>a. cu_use k a \<noteq> Unused \<Longrightarrow> g_node t a = g_node s a"
  shows "in_custody n L k t"
proof -
  have "lists_ok n L (\<lambda>l i. cells_at k l (InList i)) t"
    unfolding lists_ok_def
  proof (intro ballI allI impI)
    fix l i assume "l \<in> L" "i < n"
    then obtain xs where xs: "span_list l i s xs" "set xs = cells_at k l (InList i)" using k unfolding in_custody_def lists_ok_def by blast
    have "span_list l i t xs = span_list l i s xs"
      by (rule span_list_cong) (use same xs(2) hdr in \<open>auto simp: cells_at_def next_local_def\<close>)
    with xs show "\<exists>xs. span_list l i t xs \<and> set xs = cells_at k l (InList i)" by blast
  qed
  moreover have "queues_ok n L (nodes_at k) (\<lambda>l i. cells_at k l (InQueue i)) t"
    unfolding queues_ok_def
  proof (intro ballI allI impI)
    fix l i assume li: "l \<in> L" "i < n"
    obtain ns xs where q: "public_rep l i ns s xs" "distinct xs" "set xs = cells_at k l (InQueue i)" "set ns = nodes_at k l i"
      using custody_queue [OF k li] .
    have "public_rep l i ns t xs = public_rep l i ns s xs"
      by (rule public_rep_cong) (use same q(4) node in \<open>auto simp: nodes_at_def\<close>)
    with q show "\<exists>ns xs. public_rep l i ns t xs \<and> distinct xs \<and> set xs = cells_at k l (InQueue i) \<and> set ns = nodes_at k l i" by blast
  qed
  moreover have "records_ok n L (\<lambda>l i. cells_at k l (InRecord i)) t"
    using k components_cong(3) [OF same(3)] by (simp only: in_custody_def)
  moreover have "cell_ok n L k t x l" if "cu_home k x = Some l" for x l
    using custody_cell [OF k that] hdr [of x] that by (simp add: cell_ok_def)
  ultimately show ?thesis by (simp add: in_custody_def)
qed

text \<open>What lies on the pages of a tenant is touched by the payloads of that tenant only.\<close>

lemma lodged_elsewhere:
  assumes h: "heap_inv n L D k pg (dom S) s" "runs_inv k S R s" "slots_inv hg pg H s" "lodged hg k S R H p e q"
    and x: "cu_home k x = Some l" "q \<noteq> CellPages x" "unat x \<le> a" "a + m \<le> unat x + 65536 * lane_pages l"
  shows "\<not> (a < e \<and> unat p < a + m)"
proof -
  obtain z j where z: "occupies (g_pool s) pg z j q" "unat z \<le> unat p" "unat p < unat z + 65536 * j" "e \<le> unat z + 65536 * j"
    using lodged_zone [OF h] .
  note c = heap_cells [OF h(1) x(1)]
  have "0 < j" using z(2,3) by (cases j) simp_all
  then have "apart (unat z, unat z + 65536 * j) (unat x, unat x + 65536 * lane_pages l)"
    by (intro zones_apart [OF c(4) z(1) c(3) x(2)]) simp_all
  then show ?thesis using z x(3,4) by (auto simp: apart_def)
qed

definition dummies_outside :: "address set \<Rightarrow> span_pool \<Rightarrow> bool" where
  "dummies_outside D p \<longleftrightarrow> (\<forall>d \<in> D. unat d + 16 \<le> unat (pool_base p) \<or> pool_end p \<le> unat d)"

definition all_lodged where
  "all_lodged n L D hg k pg S R H s held \<longleftrightarrow> heap_inv n L D k pg (dom S) s \<and> runs_inv k S R s \<and> slots_inv hg pg H s
     \<and> (\<forall>p lay. held p = Some lay \<longrightarrow> (\<exists>q. lodged hg k S R H p (unat p + unat (lay_size lay)) q))"

lemma touched_lodged:
  assumes "all_lodged n L D hg k pg S R H s held" "touched held a m"
  obtains p e q where "lodged hg k S R H p e q" "unat a < e" "unat p < unat a + m"
    "heap_inv n L D k pg (dom S) s" "runs_inv k S R s" "slots_inv hg pg H s"
  using assms unfolding all_lodged_def touched_def by blast

text \<open>A payload on the pages of a cell starts behind the header reserve.\<close>

lemma lodged_behind_header:
  assumes h: "heap_inv n L D k pg (dom S) s" "runs_inv k S R s" "lodged hg k S R H p e (CellPages x)"
  shows "unat x + 1024 \<le> unat p"
  using h(3)
proof (cases rule: lodgedE)
  case (Small y c i)
  then show ?thesis using block_zone(1) [OF heap_cells(2) [OF h(1)] heap_span(1) [OF h(1)], of y "SpanLane c"] by simp
next
  case (Large y r)
  then show ?thesis using runs_butD(4) [OF h(2)] by fastforce
qed simp

lemma header_untouched:
  assumes a: "all_lodged n L D hg k pg S R H s held" and x: "cu_home k x = Some l"
  shows "\<not> touched held x 1024"
proof
  assume "touched held x 1024"
  then obtain p e q where p: "lodged hg k S R H p e q" "unat x < e" "unat p < unat x + 1024"
      and h: "heap_inv n L D k pg (dom S) s" "runs_inv k S R s" "slots_inv hg pg H s" by (rule touched_lodged [OF a])
  have "1 \<le> lane_pages l" using lane_pages_pos [of l] by linarith
  then have "unat x + 1024 \<le> unat x + 65536 * lane_pages l" by linarith
  with lodged_elsewhere [OF h p(1) x, of "unat x" 1024] p(2,3) have "q = CellPages x" by auto
  with lodged_behind_header [OF h(1,2)] p(1,3) show False by fastforce
qed

lemma node_untouched:
  assumes a: "all_lodged n L D hg k pg S R H s held" and x: "cu_home k x = Some l"
  shows "\<not> touched held (node_storage_of x) 16"
proof
  assume t: "touched held (node_storage_of x) 16"
  have h: "heap_inv n L D k pg (dom S) s" using a by (simp add: all_lodged_def)
  have "1 \<le> lane_pages l" using lane_pages_pos [of l] by linarith
  then have "unat x + 48 < 2 ^ 64" using heap_cells(5,6) [OF h x] by linarith
  then have "unat (node_storage_of x) = unat x + 48" unfolding node_storage_of_def by (subst unat_add_nowrap) simp_all
  then have "touched held x 1024" using t unfolding touched_def by force
  with header_untouched [OF a x] show False by simp
qed

lemma dummy_untouched:
  assumes a: "all_lodged n L D hg k pg S R H s held" and d: "d \<in> D" "dummies_outside D (g_pool s)"
  shows "\<not> touched held d 16"
proof
  assume "touched held d 16"
  then obtain p e q where p: "lodged hg k S R H p e q" "unat d < e" "unat p < unat d + 16"
      and h: "heap_inv n L D k pg (dom S) s" "runs_inv k S R s" "slots_inv hg pg H s" by (rule touched_lodged [OF a])
  from lodged_page(2,3) [OF h p(1)] p(2,3) d show False by (force simp: dummies_outside_def)
qed

lemma free_block_untouched:
  assumes a: "all_lodged n L D hg k pg S R H s held"
    and b: "cu_home k x = Some (SpanLane c)" "b \<in> set (span_blocks x c)" "b \<notin> dom S"
  shows "\<not> touched held b 8"
proof
  assume "touched held b 8"
  then obtain p e q where p: "lodged hg k S R H p e q" "unat b < e" "unat p < unat b + 8"
      and h: "heap_inv n L D k pg (dom S) s" "runs_inv k S R s" "slots_inv hg pg H s" by (rule touched_lodged [OF a])
  note x = heap_cells(2) [OF h(1) b(1)] heap_span(1) [OF h(1) b(1)]
  obtain i where i: "i < block_total c" "b = block_at x c i" using b(2) by (auto simp: span_blocks_def)
  have big: "8 \<le> (2 :: nat) ^ (c + 4)" using power_increasing [of 3 "c + 4" "2 :: nat"] by simp
  note z = block_zone [OF x i(1), folded i(2)]
  have "unat x \<le> unat b" "unat b + 8 \<le> unat x + 65536 * lane_pages (SpanLane c)" using z big by simp_all
  with lodged_elsewhere [OF h p(1) b(1), of "unat b" 8] p(2,3) have q: "q = CellPages x" by auto
  from p(1) show False
  proof (cases rule: lodgedE)
    case (Small y c' j)
    then have y: "y = x" "c' = c" using q b(1) by simp_all
    have "i \<noteq> j" using i(2) b(3) Small(1,5) y by auto
    with blocks_apart [OF x i(1), of j] Small(4-6) y i(2) p(2,3) big show False by (auto simp: apart_def)
  next
    case (Large y r)
    then show False using q b(1) runs_butD(2) [OF h(2) Large(1)] by simp
  qed (use q in simp)
qed

lemma hidden_header_untouched:
  assumes a: "all_lodged n L D hg k pg S R H s held" and r: "R p = Some (x, r)"
  shows "\<not> touched held (p - HDR_SIZE) 32"
proof
  assume "touched held (p - HDR_SIZE) 32"
  then obtain p' e q where p: "lodged hg k S R H p' e q" "unat (p - HDR_SIZE) < e" "unat p' < unat (p - HDR_SIZE) + 32"
      and h: "heap_inv n L D k pg (dom S) s" "runs_inv k S R s" "slots_inv hg pg H s" by (rule touched_lodged [OF a])
  note x = runs_butD [OF h(2) r]
  have u: "unat (p - HDR_SIZE) = unat p - 32" using x(4) by (simp add: HDR_SIZE_def unat_sub_le word_le_nat_alt)
  have "unat x \<le> unat (p - HDR_SIZE)" "unat (p - HDR_SIZE) + 32 \<le> unat x + 65536 * lane_pages (RunLane r)"
    using u x(4,5) by simp_all
  with lodged_elsewhere [OF h p(1) x(2), of "unat (p - HDR_SIZE)" 32] p(2,3) have q: "q = CellPages x" by auto
  from p(1) show False
  proof (cases rule: lodgedE)
    case (Small y c' j)
    then show False using q x(2) by simp
  next
    case (Large y r')
    then have "p' = p" using q r h(2) unfolding runs_but_def by blast
    then show False using p(3) u x(4) by simp
  qed (use q in simp)
qed

lemma reserve_bytes: "unat SPAN_HEADER_RESERVE = 1024" "unat HDR_SIZE = 32"
  by (simp_all add: wf_config HDR_SIZE_def)

lemma runs_hidden:
  assumes "runs_but X k S R s" "\<And>p x r. R p = Some (x, r) \<Longrightarrow> g_lhdr t (p - HDR_SIZE) = g_lhdr s (p - HDR_SIZE)"
    "\<And>x l. cu_home k x = Some l \<Longrightarrow> g_hdr t x = g_hdr s x"
  shows "runs_but X k S R t"
proof -
  have "x \<notin> X \<and> cu_home k x = Some (RunLane r) \<and> cu_at k x = Apart \<and> unat x + 1056 \<le> unat p \<and> unat p < unat x + 65536 * 2 ^ r
      \<and> lh_run (g_lhdr t (p - HDR_SIZE)) = x \<and> lh_run_class (g_lhdr t (p - HDR_SIZE)) = r" if p: "R p = Some (x, r)" for p x r
    unfolding assms(2) [OF p] by (intro conjI runs_butD [OF assms(1) p])
  moreover have "run_header r (cu_at k x) (g_hdr t x)" if "cu_home k x = Some (RunLane r)" for x r
    unfolding assms(3) [OF that] by (rule runs_header [OF assms(1) that])
  moreover note assms(1) [unfolded runs_but_def]
  ultimately show ?thesis unfolding runs_but_def by (elim conjE) (intro conjI allI impI; blast)
qed

lemma client_write_whole:
  assumes a: "all_lodged n L D hg k pg S R H s held" and d: "dummies_outside D (g_pool s)" and w: "client_write held s t"
  shows "all_lodged n L D hg k pg S R H t held" "g_pool t = g_pool s"
proof -
  have h: "heap_inv n L D k pg (dom S) s" "runs_inv k S R s" "slots_inv hg pg H s"
    and lod: "\<And>p lay. held p = Some lay \<Longrightarrow> \<exists>q. lodged hg k S R H p (unat p + unat (lay_size lay)) q"
    using a unfolding all_lodged_def by blast+
  obtain gh gb gn gl where t: "t = s\<lparr>g_hdr := gh, g_block := gb, g_node := gn, g_lhdr := gl\<rparr>"
    and keep: "\<And>a. \<not> touched held a 1024 \<Longrightarrow> gh a = g_hdr s a" "\<And>a. \<not> touched held a 8 \<Longrightarrow> gb a = g_block s a"
      "\<And>a. \<not> touched held a 16 \<Longrightarrow> gn a = g_node s a" "\<And>a. \<not> touched held a 32 \<Longrightarrow> gl a = g_lhdr s a"
    using w unfolding client_write_def by (simp only: reserve_bytes) blast
  show pool: "g_pool t = g_pool s" by (simp add: t)
  have hdr: "g_hdr t x = g_hdr s x" if "cu_home k x = Some l" for x l using keep(1) [OF header_untouched [OF a that]] by (simp add: t)
  have node: "g_node t b = g_node s b" if "cu_use k b \<noteq> Unused" for b
  proof -
    have "b \<in> D \<or> (\<exists>x l. cu_home k x = Some l \<and> b = node_storage_of x)" using h(1) that by (auto simp: heap_inv_def on_estate_def)
    then show ?thesis using keep(3) dummy_untouched [OF a _ d] node_untouched [OF a] by (auto simp: t)
  qed
  have same: "local_list t l i = local_list s l i" "public_list t l i = public_list s l i" "record_at t l i = record_at s l i" for l i
    by (cases l; simp add: t)+
  have cu: "in_custody n L k t"
    by (rule custody_write [of n L k s]) (use h(1) hdr node same in \<open>auto simp: heap_inv_def record_word_def fun_eq_iff\<close>)
  have "small_accounts k (dom S) t"
    unfolding small_accounts_def
  proof (intro allI impI)
    fix x c assume x: "cu_home k x = Some (SpanLane c)"
    have "accounted (dom S) t x c = accounted (dom S) s x c"
      by (rule accounted_frame) (use hdr [OF x] keep(2) [OF free_block_untouched [OF a x]] in \<open>simp_all add: t\<close>)
    then show "c < 11 \<and> accounted (dom S) t x c \<and> cu_at k x \<noteq> Apart \<and> (cu_at k x = Loose \<longrightarrow> set (span_blocks x c) \<subseteq> dom S)"
      using heap_span(1,3) [OF h(1) x] heap_place(1,3) [OF h(1) x] by simp
  qed
  then have "heap_inv n L D k pg (dom S) t" using cu h(1) by (simp add: heap_inv_def pool) (simp add: t)
  moreover have "g_lhdr t (p - HDR_SIZE) = g_lhdr s (p - HDR_SIZE)" if "R p = Some (x, r)" for p x r
    using keep(4) [OF hidden_header_untouched [OF a that]] by (simp add: t)
  then have "runs_inv k S R t" using hdr by (rule runs_hidden [OF h(2)])
  moreover have "slots_inv hg pg H t" by (rule slots_grown [OF h(3)]) (simp_all add: t pool_grown_def)
  ultimately show "all_lodged n L D hg k pg S R H t held" using lod unfolding all_lodged_def by blast
qed

end
