(* ===== verification/Heap_Service.thy ===== *)
theory Heap_Service
  imports Payloads
begin

text \<open>
  What one call does to the heap as the client sees it.  The client's view is a map from the payloads it holds to the layouts
  it asked for; every call of the dispatcher keeps the heap in step with that view.
\<close>

section \<open>The view of the client\<close>

text \<open>The payload \<open>p\<close> was given out by the path of its layout and has room for it.\<close>

definition granted where
  "granted classes hg S R H p lay \<longleftrightarrow> (case small_class classes lay of
     Some c \<Rightarrow> S p = Some c
   | None \<Rightarrow> if HUGE_THRESHOLD hg \<le> lay_size lay
       then \<exists>b ci. H p = Some (b, ci) \<and> unat p + unat (lay_size lay) \<le> unat b + unat (huge_class_bytes hg (fst ci))
       else \<exists>x r. R p = Some (x, r) \<and> unat p + unat (lay_size lay) \<le> unat x + 65536 * 2 ^ r)"

definition serves where
  "serves classes hg S R H held \<longleftrightarrow> dom held = dom S \<union> dom R \<union> dom H
     \<and> (\<forall>p lay. held p = Some lay \<longrightarrow> layout_valid lay \<and> is_aligned p (lay_align lay) \<and> p \<noteq> 0 \<and> granted classes hg S R H p lay)"

text \<open>
  The allocator serves the client: some spans, runs and slots account for exactly the payloads that the client holds.
\<close>

definition in_service :: "nat \<Rightarrow> nat \<Rightarrow> address set \<Rightarrow> usize \<Rightarrow> (address \<rightharpoonup> layout) \<Rightarrow> shared \<Rightarrow> bool" where
  "in_service n classes D hg held s \<longleftrightarrow>
     (\<exists>S R H. whole_heap_inv n (set (lanes classes)) D hg S R H s \<and> serves classes hg S R H held)"

lemma in_serviceI:
  "whole_heap_inv n (set (lanes classes)) D hg S R H s \<Longrightarrow> serves classes hg S R H held \<Longrightarrow> in_service n classes D hg held s"
  unfolding in_service_def by blast

lemma servesD:
  assumes "serves classes hg S R H held" "held p = Some lay"
  shows "layout_valid lay" "is_aligned p (lay_align lay)" "p \<noteq> 0" "granted classes hg S R H p lay"
  using assms unfolding serves_def by blast+

lemma serves_change:
  assumes s: "serves classes hg S R H held" and other: "\<And>q. q \<noteq> p \<Longrightarrow> S' q = S q \<and> R' q = R q \<and> H' q = H q"
    and v: "S' p = None \<and> R' p = None \<and> H' p = None \<longleftrightarrow> v = None"
      "\<And>lay. v = Some lay \<Longrightarrow> layout_valid lay \<and> is_aligned p (lay_align lay) \<and> p \<noteq> 0 \<and> granted classes hg S' R' H' p lay"
  shows "serves classes hg S' R' H' (held(p := v))"
proof -
  have d: "held q \<noteq> None \<longleftrightarrow> S q \<noteq> None \<or> R q \<noteq> None \<or> H q \<noteq> None" for q using s unfolding serves_def by blast
  have "(held(p := v)) q \<noteq> None \<longleftrightarrow> S' q \<noteq> None \<or> R' q \<noteq> None \<or> H' q \<noteq> None" for q
    using d [of q] other [of q] v(1) by (cases "q = p") auto
  then have "dom (held(p := v)) = dom S' \<union> dom R' \<union> dom H'" by blast
  moreover have "layout_valid lay \<and> is_aligned q (lay_align lay) \<and> q \<noteq> 0 \<and> granted classes hg S' R' H' q lay"
    if "(held(p := v)) q = Some lay" for q lay
  proof (cases "q = p")
    case False
    have "granted classes hg S' R' H' q lay = granted classes hg S R H q lay" using other [OF False] by (simp only: granted_def)
    then show ?thesis using that servesD [OF s, of q lay] False by simp
  qed (use that v(2) in simp)
  ultimately show ?thesis unfolding serves_def by blast
qed

lemma serves_lodged:
  assumes h: "runs_inv k S R s" "serves classes hg S R H held" "held p = Some lay"
  shows "\<exists>q. lodged hg k S R H p (unat p + unat (lay_size lay)) q"
proof -
  note sv = servesD [OF h(2,3)]
  have al: "is_power_of_two (lay_align lay)" using sv(1) by (simp add: layout_valid_def)
  consider c where "small_class classes lay = Some c" | "small_class classes lay = None" "HUGE_THRESHOLD hg \<le> lay_size lay"
    | "small_class classes lay = None" "\<not> HUGE_THRESHOLD hg \<le> lay_size lay" by (cases "small_class classes lay") auto
  then show ?thesis
  proof cases
    case (1 c)
    have s: "S p = Some c" using sv(4) 1 by (simp add: granted_def)
    then obtain x where x: "cu_home k x = Some (SpanLane c)" "p \<in> set (span_blocks x c)" using h(1) unfolding runs_but_def by blast
    then obtain i where i: "i < block_total c" "p = block_at x c i" by (auto simp: span_blocks_def)
    have "unat (lay_size lay) \<le> 2 ^ (c + 4)" using 1 by (simp add: small_class_Some size_to_class_Some)
    with s x i show ?thesis unfolding lodged_def by (intro exI [of _ "CellPages x"] disjI1 exI [of _ x] exI [of _ c] exI [of _ i]) simp
  qed (use sv(4) in \<open>auto simp: granted_def lodged_def\<close>)
qed

lemma service_lodged:
  assumes "in_service n classes D hg held s"
  obtains k pg S R H where "all_lodged n (set (lanes classes)) D hg k pg S R H s held" "serves classes hg S R H held"
proof -
  obtain S R H where w: "whole_heap_inv n (set (lanes classes)) D hg S R H s" "serves classes hg S R H held"
    using assms unfolding in_service_def by blast
  then obtain k pg where "heap_inv n (set (lanes classes)) D k pg (dom S) s" "runs_inv k S R s" "slots_inv hg pg H s"
    unfolding whole_heap_inv_def by blast
  then have "all_lodged n (set (lanes classes)) D hg k pg S R H s held"
    unfolding all_lodged_def using serves_lodged [OF _ w(2)] by blast
  then show ?thesis using w(2) by (rule that)
qed

text \<open>Payloads of different paths are different.\<close>

lemma lodged_trivial:
  assumes "runs_inv k S R s" "slots_inv hg pg H s"
  shows "S p = Some c \<Longrightarrow> \<exists>x. lodged hg k S R H p (unat p) (CellPages x) \<and> cu_home k x = Some (SpanLane c)"
    "R p = Some (x, r) \<Longrightarrow> lodged hg k S R H p (unat p) (CellPages x) \<and> cu_home k x = Some (RunLane r)"
    "H p = Some (b, ci) \<Longrightarrow> lodged hg k S R H p (unat p) (SlotPages (fst ci) (snd ci))"
proof -
  show "\<exists>x. lodged hg k S R H p (unat p) (CellPages x) \<and> cu_home k x = Some (SpanLane c)" if s: "S p = Some c"
  proof -
    obtain x where x: "cu_home k x = Some (SpanLane c)" "p \<in> set (span_blocks x c)" using assms(1) s unfolding runs_but_def by blast
    then obtain i where i: "i < block_total c" "p = block_at x c i" by (auto simp: span_blocks_def)
    show ?thesis
      unfolding lodged_def using s x i by (intro exI [of _ x] conjI disjI1 exI [of _ c] exI [of _ i]) simp_all
  qed
  show "lodged hg k S R H p (unat p) (CellPages x) \<and> cu_home k x = Some (RunLane r)" if "R p = Some (x, r)"
    using runs_butD [OF assms(1) that] that unfolding lodged_def by auto
  show "lodged hg k S R H p (unat p) (SlotPages (fst ci) (snd ci))" if "H p = Some (b, ci)"
    using slot_zone [OF assms(2) that] that unfolding lodged_def by auto
qed

lemma paths_apart:
  assumes w: "whole_heap_inv n L D hg S R H s"
  shows "S p = None \<or> R p = None" "S p = None \<or> H p = None" "R p = None \<or> H p = None"
proof -
  obtain k pg where h: "heap_inv n L D k pg (dom S) s" "runs_inv k S R s" "slots_inv hg pg H s"
    using w unfolding whole_heap_inv_def by blast
  note tr = lodged_trivial [OF h(2,3)]
  have one: "q = q'" if "lodged hg k S R H p (unat p) q" "lodged hg k S R H p (unat p) q'" for q q'
    using lodged_page(1) [OF h that(1)] lodged_page(1) [OF h that(2)] by simp
  have SR: False if sr: "S p = Some c" "R p = Some (y, r)" for c y r
  proof -
    obtain x where x: "lodged hg k S R H p (unat p) (CellPages x)" "cu_home k x = Some (SpanLane c)" using tr(1) [OF sr(1)] by blast
    have z: "lodged hg k S R H p (unat p) (CellPages y)" "cu_home k y = Some (RunLane r)" using tr(2) [OF sr(2)] by blast+
    from one [OF x(1) z(1)] x(2) z(2) show False by simp
  qed
  have no: False if "H p = Some (b, ci)" "lodged hg k S R H p (unat p) (CellPages x)" for b ci x
    using one [OF that(2) tr(3) [OF that(1)]] by simp
  show "S p = None \<or> R p = None" using SR by (cases "S p"; cases "R p") auto
  show "S p = None \<or> H p = None" using no tr(1) by (cases "S p"; cases "H p") fastforce+
  show "R p = None \<or> H p = None" using no tr(2) by (cases "R p"; cases "H p") fastforce+
qed

section \<open>Allocation\<close>

text \<open>Why a request of this layout cannot be met: the pool, or the slots that are large enough, are used up.\<close>

definition out_of_memory :: "nat \<Rightarrow> usize \<Rightarrow> layout \<Rightarrow> shared \<Rightarrow> bool" where
  "out_of_memory classes hg lay s \<longleftrightarrow> (case small_class classes lay of
     Some c \<Rightarrow> pool_count (g_pool s) \<le> cursor s
   | None \<Rightarrow> if HUGE_THRESHOLD hg \<le> lay_size lay
       then (\<forall>m. huge_class_for_layout hg lay = Some m \<longrightarrow> (\<forall>ci \<in> set (huge_slots_from m). slot_unavailable hg s ci))
       else (\<forall>m. run_class_for_layout lay = Some m \<longrightarrow> spans_left (g_pool s) < 2 ^ m))"

definition call_post where
  "call_post n classes D hg held lay s p t \<longleftrightarrow> pool_grown s t
     \<and> (if p = 0 then in_service n classes D hg held t \<and> out_of_memory classes hg lay s
        else held p = None \<and> in_service n classes D hg (held(p \<mapsto> lay)) t)"

lemma run_lanes: "RunLane r \<in> set (lanes classes) \<longleftrightarrow> r < MAX_LARGE_RUN_CLASSES" "SpanLane c \<in> set (lanes classes) \<longleftrightarrow> c < classes"
  by (auto simp: lanes_def)

lemma alloc_in_service:
  assumes v: "allocator_valid classes hg" "layout_valid lay" and i: "in_service n classes D hg held s" "unat (tok_id token) < n"
    and c: "unat (cursor s) < 2 ^ 64 - 1"
  shows "quietly (alloc_with_token B n classes hg lay token) s (call_post n classes D hg held lay s)"
proof -
  obtain S R H where w: "whole_heap_inv n (set (lanes classes)) D hg S R H s" "serves classes hg S R H held"
    using i(1) unfolding in_service_def by blast
  have al: "is_power_of_two (lay_align lay)" using v(2) by (simp add: layout_valid_def)
  have free: "held p = None" if "S p = None" "R p = None" "H p = None" for p
    using w(2) that unfolding serves_def by blast
  have none: "call_post n classes D hg held lay s 0 t"
    if "pool_grown s t" "whole_heap_inv n (set (lanes classes)) D hg S R H t" "out_of_memory classes hg lay s" for t
    using that in_serviceI [OF that(2) w(2)] by (simp add: call_post_def)
  have "quietly (alloc_with_token_counted B n classes hg lay token) s (call_post n classes D hg held lay s)"
  proof (cases "small_class classes lay")
    case (Some k)
    then have k: "k < classes" "k < 11" by (simp_all add: small_class_Some size_to_class_Some)
    have grant: "call_post n classes D hg held lay s p t"
      if gr: "p \<noteq> 0" "S p = None" "whole_heap_inv n (set (lanes classes)) D hg (S(p \<mapsto> k)) R H t" "pool_grown s t" for p t
    proof -
      have f: "R p = None" "H p = None" using paths_apart(1,2) [OF gr(3), of p] by simp_all
      obtain g pg where g: "heap_inv n (set (lanes classes)) D g pg (dom (S(p \<mapsto> k))) t" "runs_inv g (S(p \<mapsto> k)) R t"
        using gr(3) unfolding whole_heap_inv_def by blast
      obtain x where x: "cu_home g x = Some (SpanLane k)" "p \<in> set (span_blocks x k)"
        using g(2) fun_upd_same [of S p "Some k"] unfolding runs_but_def by blast
      then obtain j where "j < block_total k" "p = block_at x k j" by (auto simp: span_blocks_def)
      then have "is_aligned p (lay_align lay)" using small_block_fits(3) [OF Some al heap_cells(2) [OF g(1) x(1)]] by simp
      then have "serves classes hg (S(p \<mapsto> k)) R H (held(p \<mapsto> lay))"
        using v(2) gr(1) Some by (intro serves_change [OF w(2)]) (auto simp: granted_def)
      from in_serviceI [OF gr(3) this] gr(1,4) free [OF gr(2) f] show ?thesis by (simp add: call_post_def)
    qed
    show ?thesis
      by (simp add: alloc_with_token_counted_def Some, rule quietly_mono [OF alloc_small_whole [OF w(1) _ k(2) i(2) c]])
        (use k(1) grant none Some in \<open>auto simp: run_lanes out_of_memory_def split: if_splits\<close>)
  next
    case None
    show ?thesis
    proof (cases "HUGE_THRESHOLD hg \<le> lay_size lay")
      case True
      have big: "unat (HUGE_GRANULE_BYTES hg) \<le> unat (lay_size lay)"
        using True by (simp add: HUGE_THRESHOLD_def HUGE_GRANULE_BYTES_def word_le_nat_alt)
      have grant: "call_post n classes D hg held lay s p t" if hp: "huge_post n (set (lanes classes)) D hg S R H lay p t" "pool_grown s t" for p t
      proof -
        obtain b ci where b: "p \<noteq> 0" "H p = None" "is_aligned p (lay_align lay)"
            "whole_heap_inv n (set (lanes classes)) D hg S R (H(p \<mapsto> (b, ci))) t"
            "unat p + unat (lay_size lay) \<le> unat b + unat (huge_class_bytes hg (fst ci))"
          using hp(1) unfolding huge_post_def by blast
        have f: "S p = None" "R p = None" using paths_apart(2,3) [OF b(4), of p] by auto
        have "serves classes hg S R (H(p \<mapsto> (b, ci))) (held(p \<mapsto> lay))"
          using v(2) b None True by (intro serves_change [OF w(2)]) (auto simp: granted_def)
        from in_serviceI [OF b(4) this] b(1) hp(2) free [OF f b(2)] show ?thesis by (simp add: call_post_def)
      qed
      show ?thesis
        by (simp add: alloc_with_token_counted_def None True, rule quietly_mono [OF alloc_huge_whole [OF w(1) v(2) big]])
          (use grant none None True in \<open>auto simp: out_of_memory_def split: if_splits\<close>)
    next
      case False
      have grant: "call_post n classes D hg held lay s p t" if lp: "large_post n (set (lanes classes)) D hg S R H lay p t" "pool_grown s t" for p t
      proof -
        obtain x r where b: "p \<noteq> 0" "R p = None" "is_aligned p (lay_align lay)"
            "whole_heap_inv n (set (lanes classes)) D hg S (R(p \<mapsto> (x, r))) H t" "unat p + unat (lay_size lay) \<le> unat x + 65536 * 2 ^ r"
          using lp(1) unfolding large_post_def by blast
        have f: "S p = None" "H p = None" using paths_apart(1,3) [OF b(4), of p] by auto
        have "serves classes hg S (R(p \<mapsto> (x, r))) H (held(p \<mapsto> lay))"
          using v(2) b None False by (intro serves_change [OF w(2)]) (auto simp: granted_def)
        from in_serviceI [OF b(4) this] b(1) lp(2) free [OF f(1) b(2) f(2)] show ?thesis by (simp add: call_post_def)
      qed
      show ?thesis
        by (simp add: alloc_with_token_counted_def None False, rule quietly_mono [OF alloc_large_whole [OF w(1) i(2) v(2) run_lanes(1)]])
          (use grant none None False in \<open>auto simp: out_of_memory_def split: if_splits\<close>)
    qed
  qed
  then show ?thesis
    unfolding alloc_with_token_def by (intro quietly_bind) (simp add: quietly_def)
qed

section \<open>Deallocation\<close>

lemma dealloc_in_service:
  assumes i: "in_service n classes D hg held s" "held p = Some lay" "unat (tok_id token) < n" "n < 2 ^ 62"
  shows "quietly (dealloc_with_token classes hg p lay token) s (\<lambda>_ t. in_service n classes D hg (held(p := None)) t \<and> g_pool t = g_pool s)"
proof -
  obtain S R H where w: "whole_heap_inv n (set (lanes classes)) D hg S R H s" "serves classes hg S R H held"
    using i(1) unfolding in_service_def by blast
  note sv = servesD [OF w(2) i(2)] and ap = paths_apart [OF w(1), of p]
  have "quietly (dealloc_with_token_counted classes hg p lay token) s (\<lambda>_ t. in_service n classes D hg (held(p := None)) t \<and> g_pool t = g_pool s)"
  proof (cases "small_class classes lay")
    case (Some c)
    then have S: "p \<in> dom S" using sv(4) by (auto simp: granted_def)
    have "serves classes hg (S(p := None)) R H (held(p := None))" by (rule serves_change [OF w(2)]) (use ap S in auto)
    then show ?thesis
      by (simp add: dealloc_with_token_counted_def Some sv(3), intro quietly_mono [OF dealloc_small_whole [OF w(1) S i(4,3)]])
        (blast intro: in_serviceI)
  next
    case None
    show ?thesis
    proof (cases "HUGE_THRESHOLD hg \<le> lay_size lay")
      case True
      then obtain b ci where H: "H p = Some (b, ci)" using sv(4) None by (auto simp: granted_def)
      have "serves classes hg S R (H(p := None)) (held(p := None))" by (rule serves_change [OF w(2)]) (use ap H in auto)
      then show ?thesis
        by (simp add: dealloc_with_token_counted_def None True sv(3), intro quietly_mono [OF dealloc_huge_whole [OF w(1) H]])
          (blast intro: in_serviceI)
    next
      case False
      then obtain x r where R: "R p = Some (x, r)" using sv(4) None by (auto simp: granted_def)
      have "serves classes hg S (R(p := None)) H (held(p := None))" by (rule serves_change [OF w(2)]) (use ap R in auto)
      then show ?thesis
        by (simp add: dealloc_with_token_counted_def None False sv(3), intro quietly_mono [OF dealloc_large_whole [OF w(1) R i(3)]])
          (blast intro: in_serviceI)
    qed
  qed
  then show ?thesis
    unfolding dealloc_with_token_def by (intro quietly_bind) (simp add: quietly_def)
qed

section \<open>Writes\<close>

lemma write_in_service:
  assumes i: "in_service n classes D hg held s" "dummies_outside D (g_pool s)" "client_write held s t"
  shows "in_service n classes D hg held t" "g_pool t = g_pool s"
proof -
  obtain k pg S R H where l: "all_lodged n (set (lanes classes)) D hg k pg S R H s held" "serves classes hg S R H held"
    using service_lodged [OF i(1)] .
  note w = client_write_whole [OF l(1) i(2,3)]
  show "g_pool t = g_pool s" by (rule w(2))
  have "whole_heap_inv n (set (lanes classes)) D hg S R H t" using w(1) unfolding all_lodged_def whole_heap_inv_def by blast
  then show "in_service n classes D hg held t" using l(2) by (rule in_serviceI)
qed

section \<open>What the client can rely on\<close>

lemma service_payloads:
  assumes "in_service n classes D hg held s"
  shows "held p = Some lay \<Longrightarrow> layout_valid lay \<and> p \<noteq> 0 \<and> is_aligned p (lay_align lay)
       \<and> unat (pool_base (g_pool s)) \<le> unat p \<and> unat p + unat (lay_size lay) \<le> pool_end (g_pool s)"
    "held p = Some lay \<Longrightarrow> held q = Some lay' \<Longrightarrow> p \<noteq> q \<Longrightarrow>
       apart (unat p, unat p + unat (lay_size lay)) (unat q, unat q + unat (lay_size lay'))"
    "pool_wf (g_pool s)" "g_active s = n"
proof -
  obtain k pg S R H where l: "all_lodged n (set (lanes classes)) D hg k pg S R H s held" "serves classes hg S R H held"
    using service_lodged assms by blast
  then have h: "heap_inv n (set (lanes classes)) D k pg (dom S) s" "runs_inv k S R s" "slots_inv hg pg H s"
    and lod: "\<And>p lay. held p = Some lay \<Longrightarrow> \<exists>q. lodged hg k S R H p (unat p + unat (lay_size lay)) q"
    unfolding all_lodged_def by blast+
  show "layout_valid lay \<and> p \<noteq> 0 \<and> is_aligned p (lay_align lay)
       \<and> unat (pool_base (g_pool s)) \<le> unat p \<and> unat p + unat (lay_size lay) \<le> pool_end (g_pool s)" if p: "held p = Some lay"
  proof -
    obtain q where q: "lodged hg k S R H p (unat p + unat (lay_size lay)) q" using lod [OF p] by blast
    with lodged_page(2,3) [OF h q] servesD [OF l(2) p] show ?thesis by simp
  qed
  show "apart (unat p, unat p + unat (lay_size lay)) (unat q, unat q + unat (lay_size lay'))"
    if "held p = Some lay" "held q = Some lay'" "p \<noteq> q"
    using lod [OF that(1)] lod [OF that(2)] lodged_apart [OF h _ _ that(3)] by blast
  show "pool_wf (g_pool s)" "g_active s = n" using h(1) by (simp_all add: heap_inv_def on_estate_def)
qed

end
