(* ===== verification/Heap_Sessions.thy ===== *)
theory Heap_Sessions
  imports Heap_Service
begin

text \<open>
  Sessions: any sequence of allocations, frees and writes of the client, by any threads, on a freshly initialised
  allocator, each call left alone while it runs.
\<close>

section \<open>Sessions\<close>

text \<open>
  \<open>session B n classes hg s0 m s held\<close>: from \<open>s0\<close>, after \<open>m\<close> allocations, the allocator is in the state \<open>s\<close> and the client holds
  the payloads of \<open>held\<close>.  The client frees what it holds, with the layout it asked for, and writes into what it holds.
\<close>

inductive session :: "backend \<Rightarrow> nat \<Rightarrow> nat \<Rightarrow> usize \<Rightarrow> shared \<Rightarrow> nat \<Rightarrow> shared \<Rightarrow> (address \<rightharpoonup> layout) \<Rightarrow> bool"
  for B n classes hg s0 where
  session_start: "session B n classes hg s0 0 s0 Map.empty"
| session_alloc: "session B n classes hg s0 m s held \<Longrightarrow> unat (tok_id token) < n \<Longrightarrow> layout_valid lay \<Longrightarrow>
    w_sh w = s \<Longrightarrow> w_env w = [] \<Longrightarrow> run_state (alloc_with_token B n classes hg lay token) w = (p, w') \<Longrightarrow>
    session B n classes hg s0 (Suc m) (w_sh w') (if p = 0 then held else held(p \<mapsto> lay))"
| session_free: "session B n classes hg s0 m s held \<Longrightarrow> unat (tok_id token) < n \<Longrightarrow> held p = Some lay \<Longrightarrow>
    w_sh w = s \<Longrightarrow> w_env w = [] \<Longrightarrow> run_state (dealloc_with_token classes hg p lay token) w = (u, w') \<Longrightarrow>
    session B n classes hg s0 m (w_sh w') (held(p := None))"
| session_write: "session B n classes hg s0 m s held \<Longrightarrow> client_write held s t \<Longrightarrow> session B n classes hg s0 m t held"

inductive_cases session_zeroE: "session B n classes hg s0 0 s held"

section \<open>The start\<close>

definition dummies_placed :: "nat \<Rightarrow> nat \<Rightarrow> (lane \<Rightarrow> nat \<Rightarrow> address) \<Rightarrow> address \<Rightarrow> usize \<Rightarrow> bool" where
  "dummies_placed n classes dummy_at region len \<longleftrightarrow>
     (\<forall>l \<in> set (lanes classes). \<forall>i < n. dummy_at l i \<noteq> 0
        \<and> (unat (dummy_at l i) + 16 \<le> unat region \<or> unat region + unat len \<le> unat (dummy_at l i)))
     \<and> inj_on (\<lambda>(l, i). dummy_at l i) (set (lanes classes) \<times> {..<n})"

definition start_ok :: "nat \<Rightarrow> nat \<Rightarrow> usize \<Rightarrow> (lane \<Rightarrow> nat \<Rightarrow> address) \<Rightarrow> address \<Rightarrow> usize \<Rightarrow> bool" where
  "start_ok n classes hg dummy_at region len \<longleftrightarrow> allocator_valid classes hg \<and> 0 < n \<and> n < 2 ^ 62
     \<and> region \<noteq> 0 \<and> unat region + unat len < 2 ^ 64 \<and> unat region + unat SPAN_SIZE \<le> 2 ^ 64
     \<and> 0 < pool_count (set_region region len pool_new) \<and> dummies_placed n classes dummy_at region len"

definition dummy_set :: "nat \<Rightarrow> nat \<Rightarrow> (lane \<Rightarrow> nat \<Rightarrow> address) \<Rightarrow> address set" where
  "dummy_set n classes dummy_at = (\<lambda>(l, i). dummy_at l i) ` (set (lanes classes) \<times> {..<n})"

lemma region_pool:
  assumes "start_ok n classes hg dummy_at region len"
  defines "p \<equiv> set_region region len pool_new"
  shows "pool_wf p" "pool_next p = 0" "unat region \<le> unat (pool_base p)" "pool_end p \<le> unat region + unat len" "pool_base p \<noteq> 0"
proof -
  have a: "unat region + unat len < 2 ^ 64" "unat region + unat SPAN_SIZE \<le> 2 ^ 64" "0 < unat (pool_count p)" "region \<noteq> 0"
    using assms(1) by (simp_all add: start_ok_def p_def word_less_nat_alt)
  note u = set_region_unat [of region len pool_new, folded p_def]
  let ?b = "unat (pool_base p)" and ?c = "unat (pool_count p)" and ?e = "unat region + unat len"
  have b: "?b = (unat region + 65535) div 65536 * 65536" and c: "?c = (?e - ?b) div 65536" using u a(1,2) by simp_all
  show up: "unat region \<le> ?b" using div_mult_round_up(1) [of 65536 "unat region"] unfolding b by simp
  have "?c * 65536 \<le> ?e - ?b" unfolding c by (rule div_times_less_eq_dividend)
  with a(3) show fits: "pool_end p \<le> ?e" unfolding pool_end_def by linarith
  have "65536 dvd ?b" unfolding b by simp
  with fits a(1) show "pool_wf p" by (simp add: pool_wf_def pool_end_def span_aligned_iff)
  show "pool_next p = 0" by (simp add: p_def set_region_def Let_def)
  show "pool_base p \<noteq> 0" using up a(4) by (auto simp: unat_zero_iff [symmetric])
qed

lemma start_dummies:
  assumes ok: "start_ok n classes hg dummy_at region len"
  shows "dummies_outside (dummy_set n classes dummy_at) (set_region region len pool_new)"
    "i < unat (pool_count (set_region region len pool_new)) \<Longrightarrow>
       node_storage_of (span_addr (set_region region len pool_new) (of_nat i)) \<notin> dummy_set n classes dummy_at"
proof -
  let ?p = "set_region region len pool_new"
  note r = region_pool [OF ok]
  show out: "dummies_outside (dummy_set n classes dummy_at) ?p"
    using ok r(3,4) unfolding dummies_outside_def dummy_set_def start_ok_def dummies_placed_def by fastforce
  show "node_storage_of (span_addr ?p (of_nat i)) \<notin> dummy_set n classes dummy_at" if i: "i < unat (pool_count ?p)"
  proof -
    have "Suc i * 65536 \<le> unat (pool_count ?p) * 65536" using i by (intro mult_le_mono1) simp
    then have room: "unat (pool_base ?p) + i * 65536 + 65536 \<le> pool_end ?p" by (simp add: pool_end_def)
    moreover have "pool_end ?p < 2 ^ 64" using r(1) by (simp add: pool_wf_def pool_end_def)
    ultimately have "unat (node_storage_of (span_addr ?p (of_nat i))) = unat (pool_base ?p) + i * 65536 + 48"
      unfolding node_storage_of_def using page_unat [OF r(1) i] by (subst unat_add_nowrap) simp_all
    with out room show ?thesis unfolding dummies_outside_def by force
  qed
qed

definition empty_custody :: "nat \<Rightarrow> nat \<Rightarrow> (lane \<Rightarrow> nat \<Rightarrow> address) \<Rightarrow> custody" where
  "empty_custody n classes dummy_at = \<lparr>cu_home = \<lambda>_. None, cu_at = \<lambda>_. Apart,
     cu_use = \<lambda>a. if a \<in> dummy_set n classes dummy_at
       then case inv_into (set (lanes classes) \<times> {..<n}) (\<lambda>(l, i). dummy_at l i) a of (l, i) \<Rightarrow> Listed l i else Unused\<rparr>"

lemma empty_nodes:
  assumes "inj_on (\<lambda>(l, i). dummy_at l i) (set (lanes classes) \<times> {..<n})" "l \<in> set (lanes classes)" "i < n"
  shows "nodes_at (empty_custody n classes dummy_at) l i = {dummy_at l i}"
proof -
  let ?A = "set (lanes classes) \<times> {..<n}" and ?f = "\<lambda>(l, i). dummy_at l i"
  have "cu_use (empty_custody n classes dummy_at) a = Listed l i \<longleftrightarrow> a \<in> ?f ` ?A \<and> inv_into ?A ?f a = (l, i)" for a
    by (cases "inv_into ?A ?f a") (simp add: empty_custody_def dummy_set_def)
  moreover have "inv_into ?A ?f a = (l, i) \<and> a \<in> ?f ` ?A \<longleftrightarrow> a = dummy_at l i" for a
    using inv_into_f_f [OF assms(1), of "(l, i)"] f_inv_into_f [of a ?f ?A] assms(2,3) by force
  ultimately show ?thesis unfolding nodes_at_def by blast
qed

lemma init_in_service:
  assumes ok: "start_ok n classes hg dummy_at region len"
    and s: "s = init classes region len (from_uninit classes n dummy_at mem)"
  shows "in_service n classes (dummy_set n classes dummy_at) hg Map.empty s" "g_pool s = set_region region len pool_new"
proof -
  let ?L = "set (lanes classes)" and ?k = "empty_custody n classes dummy_at" and ?D = "dummy_set n classes dummy_at"
  have n: "0 < n" and inj: "inj_on (\<lambda>(l, i). dummy_at l i) (?L \<times> {..<n})" and nz: "\<And>l i. l \<in> ?L \<Longrightarrow> i < n \<Longrightarrow> dummy_at l i \<noteq> 0"
    and g: "granule_valid hg" using ok allocator_valid_granule by (auto simp: start_ok_def dummies_placed_def)
  have e: "span_list l i s [] \<and> public_rep l i [dummy_at l i] s [] \<and> record_word s l i = req_empty
      \<and> (\<forall>ci. hs_state (slot_at s ci) = HUGE_SLOT_EMPTY \<and> hs_base (slot_at s ci) = 0) \<and> g_pool s = set_region region len pool_new"
    if "l \<in> ?L" "i < n" for l i using init_allocator_empty [where s = s, OF that(2,1) nz [OF that] s] by blast
  have l0: "RunLane 0 \<in> ?L" by (simp add: run_lanes wf_config)
  show pool: "g_pool s = set_region region len pool_new" using e [OF l0 n] by blast
  have slots: "hs_state (slot_at s ci) = HUGE_SLOT_EMPTY" "hs_base (slot_at s ci) = 0" for ci using e [OF l0 n] by blast+
  note r = region_pool [OF ok, folded pool] and d = start_dummies [OF ok, folded pool]
  have home: "cu_home ?k x = None" for x by (simp add: empty_custody_def)
  have none: "cells_at ?k l p = {}" for l p by (simp add: cells_at_def home)
  have "in_custody n ?L ?k s"
    unfolding in_custody_def lists_ok_def queues_ok_def records_ok_def none home
  proof (intro conjI ballI allI impI)
    fix l i assume li: "l \<in> ?L" "i < n"
    note li' = e [OF li]
    show "\<exists>xs. span_list l i s xs \<and> set xs = {}" using li' by (intro exI [of _ "[]"]) simp
    show "\<exists>ns xs. public_rep l i ns s xs \<and> distinct xs \<and> set xs = {} \<and> set ns = nodes_at ?k l i"
      using li' by (intro exI [of _ "[dummy_at l i]"] exI [of _ "[]"]) (simp add: empty_nodes [OF inj li])
    show "set_mset (record_bag (record_word s l i)) = {}" using li' by (simp add: req_empty_def)
  qed simp
  moreover have "on_estate ?D ?k (\<lambda>_. Vacant) (g_pool s)"
    using r(1,2,5) d(2) by (auto simp: on_estate_def home empty_custody_def)
  moreover have "g_active s = n" by (simp add: s init_def init_lists_def Let_def init_fold) (simp add: from_uninit_def)
  ultimately have "heap_inv n ?L ?D ?k (\<lambda>_. Vacant) (dom Map.empty) s"
    by (simp add: heap_inv_def small_accounts_def live_blocks_def nothing_carried_def home)
  moreover have "runs_inv ?k Map.empty Map.empty s" by (simp add: runs_but_def home)
  moreover have "huge_inv hg s" using g r(1,5) slots by (simp add: huge_inv_def slot_ok_def slots_apart_def)
  then have "slots_inv hg (\<lambda>_. Vacant) Map.empty s"
    by (simp add: slots_inv_def slots_settled_def huge_live_def slots)
  ultimately have "whole_heap_inv n ?L ?D hg Map.empty Map.empty Map.empty s" unfolding whole_heap_inv_def by blast
  then show "in_service n classes ?D hg Map.empty s" by (rule in_serviceI) (simp add: serves_def)
qed

section \<open>The invariant of a session\<close>

lemma session_in_service:
  assumes ok: "start_ok n classes hg dummy_at region len" "s0 = init classes region len (from_uninit classes n dummy_at mem)"
    and s: "session B n classes hg s0 m s held" and bound: "unat (pool_count (set_region region len pool_new)) + m < 2 ^ 64"
  defines "p0 \<equiv> set_region region len pool_new"
  shows "in_service n classes (dummy_set n classes dummy_at) hg held s \<and> pool_base (g_pool s) = pool_base p0
     \<and> pool_count (g_pool s) = pool_count p0 \<and> unat (cursor s) \<le> unat (pool_count p0) + m"
  using s bound
proof (induction rule: session.induct)
  case session_start
  then show ?case using init_in_service [OF ok] region_pool(2) [OF ok(1)] by (simp add: p0_def)
next
  case (session_alloc m s held token lay w p w')
  then have IH: "in_service n classes (dummy_set n classes dummy_at) hg held s" "pool_base (g_pool s) = pool_base p0"
      "pool_count (g_pool s) = pool_count p0" "unat (cursor s) \<le> unat (pool_count p0) + m" by simp_all
  have v: "allocator_valid classes hg" using ok(1) by (simp add: start_ok_def)
  have c: "unat (cursor s) < 2 ^ 64 - 1" using IH(4) session_alloc.prems by (simp add: p0_def)
  have "call_post n classes (dummy_set n classes dummy_at) hg held lay s p (w_sh w')"
    using quietlyD [OF alloc_in_service [OF v session_alloc.hyps(3) IH(1) session_alloc.hyps(2) c] session_alloc.hyps(5,4,6)] by blast
  then show ?case using IH(2-4) by (auto simp: call_post_def pool_grown_def split: if_splits)
next
  case (session_free m s held token p lay w u w')
  then have IH: "in_service n classes (dummy_set n classes dummy_at) hg held s" "pool_base (g_pool s) = pool_base p0"
      "pool_count (g_pool s) = pool_count p0" "unat (cursor s) \<le> unat (pool_count p0) + m" by simp_all
  have n: "n < 2 ^ 62" using ok(1) by (simp add: start_ok_def)
  have "in_service n classes (dummy_set n classes dummy_at) hg (held(p := None)) (w_sh w')" "g_pool (w_sh w') = g_pool s"
    using quietlyD [OF dealloc_in_service [OF IH(1) session_free.hyps(3,2) n] session_free.hyps(5,4,6)] by blast+
  then show ?case using IH(2-4) by (simp only: simp_thms)
next
  case (session_write m s held t)
  then have IH: "in_service n classes (dummy_set n classes dummy_at) hg held s" "pool_base (g_pool s) = pool_base p0"
      "pool_count (g_pool s) = pool_count p0" "unat (cursor s) \<le> unat (pool_count p0) + m" by simp_all
  have "dummies_outside (dummy_set n classes dummy_at) (g_pool s)"
    using start_dummies(1) [OF ok(1)] IH(2,3) by (simp add: dummies_outside_def pool_end_def p0_def)
  from write_in_service [OF IH(1) this session_write.hyps(2)] IH(2-4) show ?case by simp
qed

section \<open>What the client can rely on\<close>

lemma place_of_idle:
  assumes h: "heap_inv n L D k pg {} s" "runs_inv k S Map.empty s" "cu_home k x = Some l"
  shows "place_index (cu_at k x) \<noteq> None"
proof -
  have "cu_at k x \<noteq> Carried" using heap_not_carried [OF h(1)] h(3) by simp
  moreover have "cu_at k x \<noteq> Loose \<and> cu_at k x \<noteq> Apart"
  proof (cases l)
    case (SpanLane c)
    then have x: "cu_home k x = Some (SpanLane c)" using h(3) by simp
    have "set (span_blocks x c) \<noteq> {}" using block_total_bounds [OF heap_span(1) [OF h(1) x]] by (simp add: span_blocks_def)
    then show ?thesis using heap_place(1,3) [OF h(1) x] by auto
  next
    case (RunLane r)
    then have "cu_home k x = Some (RunLane r)" using h(3) by simp
    then show ?thesis using h(2) unfolding runs_but_def by fastforce
  qed
  ultimately show ?thesis by (cases "cu_at k x") simp_all
qed

text \<open>Every span that the pool has given out is in one place, and no block, run or slot is in use.\<close>

definition all_idle :: "nat \<Rightarrow> nat \<Rightarrow> shared \<Rightarrow> bool" where
  "all_idle n classes s \<longleftrightarrow> (\<exists>k pg. in_custody n (set (lanes classes)) k s
    \<and> (\<forall>j. j < unat (cursor s) \<longrightarrow> j < unat (pool_count (g_pool s)) \<longrightarrow> pg j \<noteq> Vacant)
    \<and> (\<forall>j x. pg j = CellPages x \<longrightarrow> cu_home k x \<noteq> None)
    \<and> (\<forall>j c i. pg j = SlotPages c i \<longrightarrow> hs_state (slot_at s (c, i)) = HUGE_SLOT_FREE)
    \<and> (\<forall>x l. cu_home k x = Some l \<longrightarrow> place_index (cu_at k x) \<noteq> None \<and> occupies (g_pool s) pg x (lane_pages l) (CellPages x))
    \<and> (\<forall>x c. cu_home k x = Some (SpanLane c) \<longrightarrow> accounted {} s x c))"

lemma all_returned:
  assumes "in_service n classes D hg Map.empty s"
  shows "all_idle n classes s"
proof -
  obtain S R H where w: "whole_heap_inv n (set (lanes classes)) D hg S R H s" "serves classes hg S R H Map.empty"
    using assms unfolding in_service_def by blast
  have z: "dom S = {}" "R = Map.empty" "H = Map.empty" using w(2) unfolding serves_def by auto
  obtain k pg where h: "heap_inv n (set (lanes classes)) D k pg {} s" "runs_inv k S Map.empty s" "slots_inv hg pg Map.empty s"
    using w(1) unfolding whole_heap_inv_def z by blast
  note e = estateD [of D k pg "g_pool s"]
  have es: "on_estate D k pg (g_pool s)" using h(1) by (simp add: heap_inv_def)
  have "hs_state (slot_at s (c, i)) = HUGE_SLOT_FREE" if "pg j = SlotPages c i" for j c i
  proof -
    have d: "(c, i) \<in> set (huge_slots_from 0)" "hs_base (slot_at s (c, i)) \<noteq> 0" "huge_inv hg s"
      using h(3) that unfolding slots_inv_def slots_settled_def by blast+
    moreover have "(c, i) \<notin> huge_live s" using h(3) unfolding slots_inv_def by auto
    ultimately show ?thesis using huge_inv_slot [OF d(3,1)] by (auto simp: slot_ok_def huge_live_def)
  qed
  moreover have "accounted {} s x c" if "cu_home k x = Some (SpanLane c)" for x c using heap_span(3) [OF h(1) that] .
  moreover have "in_custody n (set (lanes classes)) k s" using h(1) by (simp add: heap_inv_def)
  ultimately show ?thesis
    using e(3-5) [OF es] place_of_idle [OF h(1,2)] unfolding all_idle_def by (intro exI [of _ k] exI [of _ pg]) blast
qed

text \<open>
  C1. The client of a freshly initialised allocator, whatever it allocates, frees and writes, by whatever threads, holds
  payloads that are aligned as requested, lie inside the region handed to the allocator and never overlap, on the small,
  large and huge paths together.
\<close>

theorem session_payloads_sound:
  assumes "start_ok n classes hg dummy_at region len"
    and "session B n classes hg (init classes region len (from_uninit classes n dummy_at mem)) m s held"
    and "unat (pool_count (set_region region len pool_new)) + m < 2 ^ 64"
  shows "(\<forall>p lay. held p = Some lay \<longrightarrow> p \<noteq> 0 \<and> is_aligned p (lay_align lay)
       \<and> unat region \<le> unat p \<and> unat p + unat (lay_size lay) \<le> unat region + unat len)
    \<and> (\<forall>p q lay lay'. held p = Some lay \<longrightarrow> held q = Some lay' \<longrightarrow> p \<noteq> q \<longrightarrow>
         apart (unat p, unat p + unat (lay_size lay)) (unat q, unat q + unat (lay_size lay')))"
proof -
  note r = region_pool [OF assms(1)] and i = session_in_service [OF assms(1) refl assms(2,3)]
  note sp = service_payloads [OF i [THEN conjunct1]]
  have e: "pool_end (g_pool s) = pool_end (set_region region len pool_new)" "pool_base (g_pool s) = pool_base (set_region region len pool_new)"
    using i by (simp_all add: pool_end_def)
  have "p \<noteq> 0 \<and> is_aligned p (lay_align lay) \<and> unat region \<le> unat p \<and> unat p + unat (lay_size lay) \<le> unat region + unat len"
    if "held p = Some lay" for p lay using sp(1) [OF that] r(3,4) e by simp
  with sp(2) show ?thesis by blast
qed


text \<open>
  C3. Nothing is ever lost: when the client has freed all it held, whatever happened before and whichever threads freed
  it, every span of the region that the pool has given out belongs to a span, to a run or to a huge slot; every such span
  and run is on a private list, on a public list or in a completed help record, every block of every span is on the
  free lists of that span, and no huge slot is allocated.
\<close>

theorem session_nothing_lost:
  assumes "start_ok n classes hg dummy_at region len"
    and "session B n classes hg (init classes region len (from_uninit classes n dummy_at mem)) m s Map.empty"
    and "unat (pool_count (set_region region len pool_new)) + m < 2 ^ 64"
  shows "\<exists>k pg. in_custody n (set (lanes classes)) k s
    \<and> (\<forall>j. j < unat (cursor s) \<longrightarrow> j < unat (pool_count (g_pool s)) \<longrightarrow> pg j \<noteq> Vacant)
    \<and> (\<forall>j x. pg j = CellPages x \<longrightarrow> cu_home k x \<noteq> None)
    \<and> (\<forall>j c i. pg j = SlotPages c i \<longrightarrow> hs_state (slot_at s (c, i)) = HUGE_SLOT_FREE)
    \<and> (\<forall>x l. cu_home k x = Some l \<longrightarrow> place_index (cu_at k x) \<noteq> None \<and> occupies (g_pool s) pg x (lane_pages l) (CellPages x))
    \<and> (\<forall>x c. cu_home k x = Some (SpanLane c) \<longrightarrow> accounted {} s x c)"
  using all_returned [OF session_in_service [OF assms(1) refl assms(2,3), THEN conjunct1]] unfolding all_idle_def .

section \<open>An example\<close>

definition example_dummy :: "lane \<Rightarrow> nat \<Rightarrow> address" where
  "example_dummy l i = of_nat (16 + 16 * (2 * (case l of SpanLane c \<Rightarrow> c | RunLane r \<Rightarrow> 11 + r) + i))"

definition example_start :: shared where
  "example_start = init 11 1048576 655360 (from_uninit 11 2 example_dummy zero_memory)"

lemma example_dummy_unat:
  assumes "l \<in> set (lanes 11)" "i < 2"
  shows "unat (example_dummy l i) = 16 + 16 * (2 * (case l of SpanLane c \<Rightarrow> c | RunLane r \<Rightarrow> 11 + r) + i)"
    "unat (example_dummy l i) < 1024"
proof -
  have "(case l of SpanLane c \<Rightarrow> c | RunLane r \<Rightarrow> 11 + r) < 28" using assms(1) by (auto simp: lanes_def wf_config)
  then show "unat (example_dummy l i) = 16 + 16 * (2 * (case l of SpanLane c \<Rightarrow> c | RunLane r \<Rightarrow> 11 + r) + i)" "unat (example_dummy l i) < 1024"
    using assms(2) unat_of_nat_small [of "16 + 16 * (2 * (case l of SpanLane c \<Rightarrow> c | RunLane r \<Rightarrow> 11 + r) + i)"]
    by (simp_all add: example_dummy_def)
qed

lemma example_pool: "set_region 1048576 655360 pool_new = \<lparr>pool_base = 1048576, pool_count = 10, pool_next = 0\<rparr>"
  by (simp add: set_region_def pool_new_def round_up_def saturating_add_def saturating_sub_def
      wf_config Let_def word_le_nat_alt unat_div_distrib word_eq_iff_unat)

lemma example_start_ok: "start_ok 2 11 16384 example_dummy 1048576 655360"
proof -
  have v: "allocator_valid 11 16384" by (simp add: allocator_valid_def wf_config checked_mul_def)
  have nz: "example_dummy l i \<noteq> 0" if "l \<in> set (lanes 11)" "i < 2" for l i
    using example_dummy_unat(1) [OF that] by auto
  have "l = l' \<and> i = j" if eq: "example_dummy l i = example_dummy l' j" and l: "l \<in> set (lanes 11)" "i < 2" "l' \<in> set (lanes 11)" "j < 2" for l l' i j
  proof -
    have "2 * (case l of SpanLane c \<Rightarrow> c | RunLane r \<Rightarrow> 11 + r) + i = 2 * (case l' of SpanLane c \<Rightarrow> c | RunLane r \<Rightarrow> 11 + r) + j"
      using example_dummy_unat(1) [OF l(1,2)] example_dummy_unat(1) [OF l(3,4)] eq by simp
    then have "(case l of SpanLane c \<Rightarrow> c | RunLane r \<Rightarrow> 11 + r) = (case l' of SpanLane c \<Rightarrow> c | RunLane r \<Rightarrow> 11 + r)" "i = j"
      using l(2,4) by presburger+
    then show ?thesis using l(1,3) by (auto simp: lanes_def split: lane.splits)
  qed
  then have inj: "inj_on (\<lambda>(l, i). example_dummy l i) (set (lanes 11) \<times> {..<2})" by (auto simp: inj_on_def)
  have "dummies_placed 2 11 example_dummy 1048576 655360"
    unfolding dummies_placed_def using nz example_dummy_unat(2) inj by fastforce
  with v show ?thesis by (simp add: start_ok_def example_pool)
qed

lemma example_alloc:
  obtains p s where "session Cmpxchg16b 2 11 16384 example_start 1 s [p \<mapsto> \<lparr>lay_size = 100, lay_align = 8\<rparr>]" "p \<noteq> 0"
proof -
  let ?lay = "\<lparr>lay_size = 100 :: usize, lay_align = 8\<rparr>" and ?tok = "\<lparr>tok_id = 1 :: usize\<rparr>"
  define w where "w = \<lparr>w_sh = example_start, w_step = step_new, w_env = [], w_sc_fail = []\<rparr>"
  obtain p w' where run: "run_state (alloc_with_token Cmpxchg16b 2 11 16384 ?lay ?tok) w = (p, w')" by (meson surj_pair)
  have al: "is_power_of_two 8" using is_power_of_two_exp [of 3] by simp
  have lay: "layout_valid ?lay" by (simp add: layout_valid_def al)
  have v: "allocator_valid 11 16384" by (simp add: allocator_valid_def wf_config checked_mul_def)
  have c: "small_class 11 ?lay = Some 3" by (auto simp: small_class_Some size_to_class_Some less_Suc_eq numeral_3_eq_3)
  note i = init_in_service [OF example_start_ok example_start_def]
  have pool: "g_pool example_start = \<lparr>pool_base = 1048576, pool_count = 10, pool_next = 0\<rparr>" using i(2) by (simp only: example_pool)
  have "call_post 2 11 (dummy_set 2 11 example_dummy) 16384 Map.empty ?lay example_start p (w_sh w')"
    using quietlyD [OF alloc_in_service [OF v lay i(1), of ?tok Cmpxchg16b] _ _ run] by (simp add: pool w_def)
  then have nz: "p \<noteq> 0" by (auto simp: call_post_def out_of_memory_def c pool)
  have "session Cmpxchg16b 2 11 16384 example_start (Suc 0) (w_sh w') (if p = 0 then Map.empty else [p \<mapsto> ?lay])"
    by (rule session_alloc [OF session_start, of ?tok _ _ w]) (use lay run in \<open>simp_all add: w_def\<close>)
  with nz show ?thesis by (intro that [of "w_sh w'" p]) simp_all
qed

theorem session_payloads_sound_witness:
  "\<exists>p s. session Cmpxchg16b 2 11 16384 example_start 1 s [p \<mapsto> \<lparr>lay_size = 100, lay_align = 8\<rparr>]
     \<and> is_aligned p 8 \<and> 1048576 \<le> unat p \<and> unat p + 100 \<le> 1703936"
proof -
  obtain p s where s: "session Cmpxchg16b 2 11 16384 example_start 1 s [p \<mapsto> \<lparr>lay_size = 100, lay_align = 8\<rparr>]" "p \<noteq> 0"
    using example_alloc .
  have "unat (pool_count (set_region 1048576 655360 pool_new)) + 1 < 2 ^ 64" by (simp add: example_pool)
  from session_payloads_sound [OF example_start_ok s(1) [unfolded example_start_def] this, THEN conjunct1, rule_format, of p "\<lparr>lay_size = 100, lay_align = 8\<rparr>"]
  show ?thesis using s by (intro exI [of _ p] exI [of _ s]) simp
qed


theorem session_nothing_lost_witness:
  "\<exists>p s t. session Cmpxchg16b 2 11 16384 example_start 1 s [p \<mapsto> \<lparr>lay_size = 100, lay_align = 8\<rparr>] \<and> p \<noteq> 0
     \<and> session Cmpxchg16b 2 11 16384 example_start 1 t Map.empty
     \<and> (\<exists>k. in_custody 2 (set (lanes 11)) k t \<and> (\<forall>x l. cu_home k x = Some l \<longrightarrow> place_index (cu_at k x) \<noteq> None))"
proof -
  let ?lay = "\<lparr>lay_size = 100 :: usize, lay_align = 8\<rparr>" and ?tok = "\<lparr>tok_id = 0 :: usize\<rparr>"
  obtain p s where s: "session Cmpxchg16b 2 11 16384 example_start 1 s [p \<mapsto> ?lay]" "p \<noteq> 0" using example_alloc .
  define w where "w = \<lparr>w_sh = s, w_step = step_new, w_env = [], w_sc_fail = []\<rparr>"
  obtain u w' where run: "run_state (dealloc_with_token 11 16384 p ?lay ?tok) w = (u, w')" by (meson surj_pair)
  have "session Cmpxchg16b 2 11 16384 example_start 1 (w_sh w') ([p \<mapsto> ?lay](p := None))"
    by (rule session_free [OF s(1) _ _ _ _ run]) (simp_all add: w_def)
  then have t: "session Cmpxchg16b 2 11 16384 example_start 1 (w_sh w') Map.empty" by simp
  have "unat (pool_count (set_region 1048576 655360 pool_new)) + 1 < 2 ^ 64" by (simp add: example_pool)
  from session_nothing_lost [OF example_start_ok t [unfolded example_start_def] this] s t show ?thesis by blast
qed

end
