(* ===== verification/Checked_Sessions.thy ===== *)
theory Checked_Sessions
  imports Heap_Sessions Quiescent_Check
begin

text \<open>
  The checker accepts every state of every session: the invariant of the whole heap implies each assertion of
  \<^verbatim>\<open>src/verify.rs\<close>.  The proof follows the walk of the checker and keeps track of the cells it has met and of the
  tenants whose pages it has claimed.
\<close>

section \<open>One span or run\<close>

lemma walk_blocks_complete:
  assumes "path (g_block s) cur bs 0" "distinct bs" "length bs \<le> k" "set bs \<inter> B = {}"
    "\<And>b. b \<in> set bs \<Longrightarrow> base < b \<and> b < base + SPAN_SIZE \<and> b \<noteq> UNLINKED"
  shows "walk_blocks s base k cur B = Some (length bs)"
  using assms
proof (induction bs arbitrary: cur k B)
  case Nil
  then show ?case by (cases k) simp_all
next
  case (Cons b bs)
  then obtain m where k: "k = Suc m" by (cases k) auto
  have "walk_blocks s base m (g_block s b) (insert b B) = Some (length bs)"
    using Cons.prems by (intro Cons.IH) (auto simp: k)
  with Cons.prems show ?case by (simp add: k)
qed

lemma sint_of_nat_small: "m < 2 ^ 32 \<Longrightarrow> sint (of_nat m :: usize) = int m"
  by (simp add: sint_uint uint_nat unat_of_nat_small signed_take_bit_int_eq_self)

fun place_tid :: "place \<Rightarrow> nat option" where
  "place_tid (InList i) = Some i"
| "place_tid _ = None"

lemma span_passes:
  assumes h: "heap_inv n L D k pg (dom S) s" "cu_home k x = Some (SpanLane c)"
  shows "check_span s x (place_tid (cu_at k x)) c"
proof -
  note x = heap_span [OF h] and cell = heap_cells [OF h]
  obtain ls rs where a: "account (dom S) s x c ls rs" using x(3) by (auto simp: accounted_def)
  note cnt = account_counts [OF a x(1)]
  have bl: "path (g_block s) (lm_free (local_of s x)) ls 0" "distinct ls" "lm_free_count (local_of s x) = of_nat (length ls)"
    "rm_free_count (remote_of s x) = of_nat (length rs)" "sh_size_class (g_hdr s x) = c"
    and sub: "set ls \<subseteq> set (span_blocks x c)"
    using a by (auto simp: account_def local_counted_def local_blocks_def chain_def)
  have m: "sh_block_count (g_hdr s x) = of_nat (block_total c)" using cnt(3) by (simp flip: cnt(3))
  have small: "block_total c < 2 ^ 32" "length ls < 2 ^ 32" "length rs < 2 ^ 32" "length ls + length rs < 2 ^ 32"
    using block_total_bounds [OF x(1)] cnt(2) by simp_all
  have q: "unat (lm_free_count (local_of s x)) = length ls" unfolding bl(3) using small by (intro unat_of_nat_small) simp
  have e: "unat (x + SPAN_SIZE) = unat x + 65536" using cell(5,6) by (subst unat_add_nowrap) (simp_all add: wf_config)
  have "x < b \<and> b < x + SPAN_SIZE \<and> b \<noteq> UNLINKED" if b: "b \<in> set ls" for b
  proof -
    obtain i where i: "i < block_total c" "b = block_at x c i" using sub b by (auto simp: span_blocks_def)
    have pos: "0 < (2 :: nat) ^ (c + 4)" by simp
    from block_zone [OF x(2,1) i(1), folded i(2)] have "unat x < unat b" "unat b < unat x + 65536" using pos by linarith+
    then show ?thesis using e span_block_props(3) [OF x(2,1)] sub b by (auto simp: word_less_nat_alt)
  qed
  then have "walk_blocks s x (unat (sh_block_count (g_hdr s x))) (lm_free (local_of s x)) {} = Some (length ls)"
    using bl cnt(1,3) by (intro walk_blocks_complete) auto
  moreover have "lm_free_count (local_of s x) \<le> sh_block_count (g_hdr s x)"
    unfolding word_le_nat_alt q cnt(3) using cnt(1) by simp
  moreover have "sint (lm_free_count (local_of s x) + rm_free_count (remote_of s x)) \<le> sint (sh_block_count (g_hdr s x))"
    unfolding bl(3,4) m of_nat_add [symmetric] using small cnt(1) by (simp add: sint_of_nat_small del: of_nat_add)
  moreover have "0 \<le> sint (rm_free_count (remote_of s x))" unfolding bl(4) using small by (simp add: sint_of_nat_small)
  moreover have "sh_owner (g_hdr s x) = of_nat t" if "place_tid (cu_at k x) = Some t" for t
    using custody_cell [of n L k s x] h that by (cases "cu_at k x") (auto simp: heap_inv_def cell_ok_def)
  ultimately show ?thesis using bl(5) q by (auto simp: check_span_def Let_def peek_for_verify_def split: option.splits)
qed

lemma run_passes:
  assumes h: "heap_inv n L D k pg (dom S) s" "runs_inv k S R s" "cu_home k x = Some (RunLane r)" "place_index (cu_at k x) \<noteq> None"
  shows "check_run s x (place_tid (cu_at k x)) r"
proof -
  have "sh_owner (g_hdr s x) = of_nat t" if "place_tid (cu_at k x) = Some t" for t
    using custody_cell [of n L k s x] h(1,3) that by (cases "cu_at k x") (auto simp: heap_inv_def cell_ok_def)
  with runs_header [OF h(2,3)] h(4) show ?thesis
    by (cases "cu_at k x") (auto simp: run_header_def check_run_def run_class_spans_def Let_def)
qed

lemma item_passes:
  assumes h: "heap_inv n L D k pg (dom S) s" "runs_inv k S R s" "cu_home k x = Some l" "place_index (cu_at k x) \<noteq> None"
  shows "check_item s l (place_tid (cu_at k x)) x"
  using h span_passes [OF h(1)] run_passes [OF h(1,2)] by (cases l) auto

section \<open>What the checker has met\<close>

definition met :: "(nat \<Rightarrow> tenant) \<Rightarrow> address set \<Rightarrow> (nat \<times> nat) set \<Rightarrow> checker \<Rightarrow> bool" where
  "met pg A B ck \<longleftrightarrow> ck_seen ck = A
     \<and> (\<forall>j \<in> ck_pages ck. (\<exists>x \<in> A. pg j = CellPages x) \<or> (\<exists>ci \<in> B. pg j = SlotPages (fst ci) (snd ci)))"

lemma claim_pages_free: "{first ..< first + m} \<inter> P = {} \<Longrightarrow> claim_pages first m P = Some (P \<union> {first ..< first + m})"
proof (induction m arbitrary: first P)
  case (Suc m)
  have "{first ..< first + Suc m} = insert first {first + 1 ..< first + 1 + m}" by auto
  with Suc.prems Suc.IH [of "first + 1" "insert first P"] show ?case by auto
qed simp

lemma claim_tenant:
  assumes "pool_wf p" "pool_base p \<noteq> 0" "occupies p pg x m q" "0 < m" "\<And>j. j \<in> ck_pages ck \<Longrightarrow> pg j \<noteq> q"
  shows "\<exists>P. claim (base_addr p) x m ck = Some (ck\<lparr>ck_pages := P\<rparr>) \<and> (\<forall>j \<in> P. j \<in> ck_pages ck \<or> pg j = q)"
proof -
  obtain i where i: "x = span_addr p (of_nat i)" "i + m \<le> unat (pool_count p)" "\<forall>j. i \<le> j \<and> j < i + m \<longrightarrow> pg j = q"
    using assms(3) unfolding occupies_def by blast
  have x: "unat x = unat (pool_base p) + i * 65536" unfolding i(1) by (rule page_unat [OF assms(1)]) (use i(2) assms(4) in simp)
  then have ge: "pool_base p \<le> x" by (simp add: word_le_nat_alt)
  have "unat ((x - pool_base p) div SPAN_SIZE) = i"
    using x unat_sub_le [of "pool_base p" x] by (simp add: unat_div_distrib wf_config)
  moreover have "{i ..< i + m} \<inter> ck_pages ck = {}" using assms(5) i(3) by (metis atLeastLessThan_iff disjoint_iff)
  ultimately have "claim (base_addr p) x m ck = Some (ck\<lparr>ck_pages := ck_pages ck \<union> {i ..< i + m}\<rparr>)"
    using ge assms(2) by (simp add: claim_def base_addr_def claim_pages_free)
  with i(3) show ?thesis by auto
qed

text \<open>A cell that has its pages and passes its own checks.\<close>

definition passes :: "(nat \<Rightarrow> tenant) \<Rightarrow> shared \<Rightarrow> lane \<Rightarrow> nat option \<Rightarrow> address \<Rightarrow> bool" where
  "passes pg s l owner x \<longleftrightarrow> check_item s l owner x \<and> occupies (g_pool s) pg x (lane_pages l) (CellPages x)
     \<and> pool_wf (g_pool s) \<and> pool_base (g_pool s) \<noteq> 0 \<and> (owner = None \<longrightarrow> sh_owner (g_hdr s x) = OWNER_PUBLIC)"

lemma check_entry_met:
  assumes "met pg A B ck" "x \<notin> A" "passes pg s l owner x"
  shows "\<exists>ck'. check_entry s l owner x ck = Some ck' \<and> met pg (insert x A) B ck'"
proof -
  let ?ck = "ck\<lparr>ck_seen := insert x (ck_seen ck)\<rparr>"
  have "pg j \<noteq> CellPages x" if "j \<in> ck_pages ?ck" for j using assms(1,2) that by (auto simp: met_def)
  then have "\<exists>P. claim (base_addr (g_pool s)) x (lane_pages l) ?ck = Some (?ck\<lparr>ck_pages := P\<rparr>) \<and> (\<forall>j \<in> P. j \<in> ck_pages ?ck \<or> pg j = CellPages x)"
    using assms(3) by (intro claim_tenant) (simp_all add: passes_def)
  then obtain P where
    P: "claim (base_addr (g_pool s)) x (lane_pages l) ?ck = Some (?ck\<lparr>ck_pages := P\<rparr>)" "\<forall>j \<in> P. j \<in> ck_pages ?ck \<or> pg j = CellPages x"
    by blast
  then have "check_entry s l owner x ck = Some (?ck\<lparr>ck_pages := P\<rparr>)"
    using assms by (simp add: check_entry_def mark_seen_def met_def passes_def require_def)
  moreover have "met pg (insert x A) B (?ck\<lparr>ck_pages := P\<rparr>)" using assms(1) P(2) by (auto simp: met_def)
  ultimately show ?thesis by blast
qed

lemma walk_local_met:
  assumes "path (next_local s) cur xs 0" "distinct xs" "set xs \<inter> A = {}" "length xs \<le> m" "met pg A B ck"
    "\<And>x. x \<in> set xs \<Longrightarrow> passes pg s l (Some i) x"
  shows "\<exists>ck'. walk_local s l i m cur ck = Some (length xs, ck') \<and> met pg (A \<union> set xs) B ck'"
  using assms
proof (induction xs arbitrary: cur m A ck)
  case Nil
  then show ?case by (cases m) simp_all
next
  case (Cons x xs)
  then obtain m' where m: "m = Suc m'" by (cases m) auto
  have "passes pg s l (Some i) x" "x \<notin> A" using Cons.prems(3,6) by simp_all
  then obtain ck1 where c: "check_entry s l (Some i) x ck = Some ck1" "met pg (insert x A) B ck1"
    using check_entry_met [OF Cons.prems(5)] by blast
  have "\<exists>ck'. walk_local s l i m' (next_local s x) ck1 = Some (length xs, ck') \<and> met pg (insert x A \<union> set xs) B ck'"
    by (rule Cons.IH [OF _ _ _ _ c(2)]) (use Cons.prems m in auto)
  with c(1) Cons.prems(1) m show ?case by auto
qed

lemma walk_public_met:
  assumes "path (node_next s) (node_next s node) ns 0" "xs = List.map (\<lambda>a. nd_span (g_node s a)) ns" "distinct xs" "set xs \<inter> A = {}"
    "length xs \<le> m" "met pg A B ck" "\<And>x. x \<in> set xs \<Longrightarrow> passes pg s l None x"
  shows "\<exists>ck'. walk_public s l m node ck = Some (length xs, ck') \<and> met pg (A \<union> set xs) B ck'"
  using assms
proof (induction ns arbitrary: node xs m A ck)
  case Nil
  then show ?case by (cases m) simp_all
next
  case (Cons a ns)
  let ?x = "nd_span (g_node s a)" and ?xs = "List.map (\<lambda>a. nd_span (g_node s a)) ns"
  have xs: "xs = ?x # ?xs" using Cons.prems(2) by simp
  then obtain m' where m: "m = Suc m'" using Cons.prems(5) by (cases m) auto
  have "passes pg s l None ?x" "?x \<notin> A" using Cons.prems(4,7) xs by simp_all
  then obtain ck1 where c: "check_entry s l None ?x ck = Some ck1" "met pg (insert ?x A) B ck1"
    using check_entry_met [OF Cons.prems(6)] by blast
  have own: "sh_owner (g_hdr s ?x) = OWNER_PUBLIC" using Cons.prems(7) xs by (simp add: passes_def)
  have "\<exists>ck'. walk_public s l m' a ck1 = Some (length ?xs, ck') \<and> met pg (insert ?x A \<union> set ?xs) B ck'"
    by (rule Cons.IH [OF _ refl _ _ _ c(2)]) (use Cons.prems m xs in auto)
  with c(1) Cons.prems(1) m xs own show ?case by (auto simp: require_def)
qed

section \<open>All sources\<close>

fun source_place :: "source \<Rightarrow> place" where
  "source_place (Private l i) = InList i"
| "source_place (Public l i) = InQueue i"
| "source_place (Completed l i) = InRecord i"

abbreviation source_cells :: "custody \<Rightarrow> source \<Rightarrow> address set" where
  "source_cells k y \<equiv> cells_at k (source_lane y) (source_place y)"

lemma source_cells_apart: "y \<noteq> z \<Longrightarrow> source_cells k y \<inter> source_cells k z = {}"
  by (cases y; cases z) (auto simp: cells_at_def)

lemma cells_pass:
  assumes h: "heap_inv n L D k pg (dom S) s" "runs_inv k S R s" and x: "x \<in> source_cells k y"
  shows "passes pg s (source_lane y) (place_tid (source_place y)) x"
proof -
  have c: "cu_home k x = Some (source_lane y)" "cu_at k x = source_place y" using x by (simp_all add: cells_at_def)
  have p: "place_index (cu_at k x) \<noteq> None" unfolding c(2) by (cases y) simp_all
  note cell = heap_cells [OF h(1) c(1)]
  have "pool_base (g_pool s) \<noteq> 0" using h(1) by (simp add: heap_inv_def on_estate_def)
  moreover have "sh_owner (g_hdr s x) = OWNER_PUBLIC" if "place_tid (source_place y) = None"
    using custody_cell [of n L k s x] h(1) c that by (cases y) (auto simp: heap_inv_def cell_ok_def)
  ultimately show ?thesis using item_passes [OF h c(1) p] cell(3,4) by (simp add: passes_def c(2))
qed

text \<open>There are no more cells than spans in the region.\<close>

lemma cells_bounded:
  assumes h: "heap_inv n L D k pg (dom S) s" and A: "\<And>x. x \<in> A \<Longrightarrow> cu_home k x \<noteq> None"
  shows "finite A" "card A \<le> unat (cursor s)" "card A \<le> unat (pool_count (g_pool s))"
proof -
  let ?f = "\<lambda>x. page_at (g_pool s) (unat x)" and ?J = "{j. j < unat (cursor s) \<and> j < unat (pool_count (g_pool s))}"
  have e: "on_estate D k pg (g_pool s)" using h by (simp add: heap_inv_def)
  have pg: "pg (?f x) = CellPages x" if "x \<in> A" for x
  proof -
    obtain l where l: "cu_home k x = Some l" using A \<open>x \<in> A\<close> by blast
    show ?thesis by (rule occupies_page(1) [OF heap_cells(4,3) [OF h l]]) simp_all
  qed
  have inj: "inj_on ?f A" by (rule inj_onI) (metis pg tenant.inject(1))
  have sub: "?f ` A \<subseteq> ?J" using estateD(4) [OF e] pg by force
  have fin: "finite ?J" by simp
  show "finite A" by (rule inj_on_finite [OF inj sub fin])
  have "card A \<le> card ?J" by (rule card_inj_on_le [OF inj sub fin])
  moreover have "card ?J \<le> card {..<unat (cursor s)}" "card ?J \<le> card {..<unat (pool_count (g_pool s))}" by (intro card_mono; auto)+
  ultimately show "card A \<le> unat (cursor s)" "card A \<le> unat (pool_count (g_pool s))" by simp_all
qed

lemma span_limit:
  assumes "pool_wf p"
  shows "unat (spans_total p + 1) = unat (pool_count p) + 1"
  using assms unat_word_lt [of "pool_count p"] by (subst unat_add_nowrap) (auto simp: spans_total_def pool_wf_def)

lemma check_source_met:
  assumes h: "heap_inv n L D k pg (dom S) s" "runs_inv k S R s" and y: "source_lane y \<in> L" "place_index (source_place y) = Some i" "i < n"
    and m: "met pg A B ck" "A \<inter> source_cells k y = {}"
  shows "\<exists>ck'. check_source s (unat (spans_total (g_pool s) + 1)) y ck = Some (card (source_cells k y), ck')
     \<and> met pg (A \<union> source_cells k y) B ck'"
proof -
  let ?C = "source_cells k y" and ?lim = "unat (spans_total (g_pool s) + 1)"
  have cu: "in_custody n L k s" and wf: "pool_wf (g_pool s)" using h(1) by (simp_all add: heap_inv_def on_estate_def)
  have lim: "length xs \<le> ?lim" if "distinct xs" "set xs = ?C" for xs
    using cells_bounded(3) [OF h(1), of ?C] distinct_card [OF that(1)] that(2) unfolding span_limit [OF wf] by (simp add: cells_at_def)
  note pass = cells_pass [OF h, of _ y]
  show ?thesis
  proof (cases y)
    case (Private l j)
    then have j: "j = i" "l \<in> L" using y by simp_all
    then obtain xs where xs: "span_list l i s xs" "set xs = cells_at k l (InList i)"
      using cu y(3) unfolding in_custody_def lists_ok_def by blast
    have d: "path (next_local s) (list_front l i s) xs 0" "distinct xs" "list_len l i s = of_nat (length xs)"
      using xs(1) by (simp_all add: span_list_def chain_def list_front_def list_len_def)
    have "\<exists>ck'. walk_local s l i ?lim (list_front l i s) ck = Some (length xs, ck') \<and> met pg (A \<union> set xs) B ck'"
      by (rule walk_local_met [OF d(1,2) _ lim [OF d(2)] m(1)]) (use m(2) pass xs Private j in auto)
    with d(3) xs(2) j distinct_card [OF d(2)] Private show ?thesis by (auto simp: check_local_list_def require_def)
  next
    case (Public l j)
    then have j: "j = i" using y(2) by simp
    obtain ns xs where q: "public_rep l i ns s xs" "distinct xs" "set xs = cells_at k l (InQueue i)" "set ns = nodes_at k l i"
      by (rule custody_queue [OF cu, of l i]) (use y Public in simp_all)
    then obtain d ms where ns: "ns = d # ms" by (cases ns) (auto simp: public_rep_def public_nodes_def)
    have d: "hw_ptr (head_at s l i) = d" "d \<noteq> 0" "path (node_next s) (node_next s d) ms 0" "xs = List.map (\<lambda>a. nd_span (g_node s a)) ms"
      using q(1) unfolding ns by (auto simp: public_rep_def public_nodes_def chain_def)
    have "\<exists>ck'. walk_public s l ?lim d ck = Some (length xs, ck') \<and> met pg (A \<union> set xs) B ck'"
      by (rule walk_public_met [OF d(3,4) q(2) _ lim [OF q(2)] m(1)]) (use m(2) pass q Public j in auto)
    with d(1,2) q(3) distinct_card [OF q(2)] Public j show ?thesis by (auto simp: walk_public_list_def require_def)
  next
    case (Completed l j)
    then have j: "j = i" using y(2) by simp
    have r: "set_mset (record_bag (record_word s l i)) = ?C"
      using cu y Completed j unfolding in_custody_def records_ok_def by simp
    show ?thesis
    proof (cases "req_is_empty (record_word s l i) \<or> req_is_pending (record_word s l i)")
      case True
      with r m(1) Completed j show ?thesis by (auto simp: check_record_def record_bag_def)
    next
      case False
      let ?x = "req_span (record_word s l i)"
      have c: "?C = {?x}" using r False by (simp add: record_bag_def)
      have p: "passes pg s l None ?x" using pass [of ?x] c Completed by simp
      obtain ck1 where "check_entry s l None ?x ck = Some ck1" "met pg (insert ?x A) B ck1"
        using check_entry_met [OF m(1) _ p] m(2) c by blast
      with p c False Completed j show ?thesis by (auto simp: check_record_def require_def passes_def)
    qed
  qed
qed

lemma check_sources_met:
  assumes h: "heap_inv n L D k pg (dom S) s" "runs_inv k S R s"
    and y: "\<And>y. y \<in> set ys \<Longrightarrow> source_lane y \<in> L \<and> (\<exists>i < n. place_index (source_place y) = Some i)" "distinct ys"
    and m: "met pg A B ck" "\<And>y. y \<in> set ys \<Longrightarrow> A \<inter> source_cells k y = {}"
  shows "\<exists>ck'. check_sources s (unat (spans_total (g_pool s) + 1)) ys ck = Some (List.map (\<lambda>y. card (source_cells k y)) ys, ck')
     \<and> met pg (A \<union> (\<Union>y \<in> set ys. source_cells k y)) B ck'"
  using y m
proof (induction ys arbitrary: A ck)
  case (Cons y ys)
  obtain i where i: "source_lane y \<in> L" "place_index (source_place y) = Some i" "i < n" using Cons.prems(1) [of y] by auto
  have "A \<inter> source_cells k y = {}" using Cons.prems(4) by simp
  from check_source_met [OF h i Cons.prems(3) this] obtain ck1 where
    c: "check_source s (unat (spans_total (g_pool s) + 1)) y ck = Some (card (source_cells k y), ck1)" "met pg (A \<union> source_cells k y) B ck1"
    by blast
  have "(A \<union> source_cells k y) \<inter> source_cells k z = {}" if "z \<in> set ys" for z
    using source_cells_apart [of y z k] Cons.prems(2,4) that by auto
  with Cons.IH [OF _ _ c(2)] Cons.prems(1,2) c(1) show ?case by (auto simp: Un_assoc)
qed simp

lemma sources_distinct: "distinct (sources classes n)"
proof -
  have "distinct (List.map f [0..<m])" if "inj f" for f :: "nat \<Rightarrow> source" and m
    using inj_on_subset [OF that] by (simp add: distinct_map)
  moreover have "inj (\<lambda>c. Private (SpanLane c) i)" "inj (\<lambda>c. Public (SpanLane c) i)" "inj (\<lambda>c. Completed (SpanLane c) i)"
    "inj (\<lambda>c. Private (RunLane c) i)" "inj (\<lambda>c. Public (RunLane c) i)" "inj (\<lambda>c. Completed (RunLane c) i)" for i
    by (auto intro: injI)
  ultimately have one: "distinct (List.map (\<lambda>c. Private (SpanLane c) i) [0..<m])" "distinct (List.map (\<lambda>c. Public (SpanLane c) i) [0..<m])"
    "distinct (List.map (\<lambda>c. Completed (SpanLane c) i) [0..<m])" "distinct (List.map (\<lambda>c. Private (RunLane c) i) [0..<m])"
    "distinct (List.map (\<lambda>c. Public (RunLane c) i) [0..<m])" "distinct (List.map (\<lambda>c. Completed (RunLane c) i) [0..<m])" for i m
    by blast+
  have rows: "distinct (concat (List.map f [0..<m]))"
    if "\<And>i. distinct (f i)" "\<And>i j. i \<noteq> j \<Longrightarrow> set (f i) \<inter> set (f j) = {}" for f :: "nat \<Rightarrow> source list" and m
    using that by (induction m) (auto simp: disjoint_iff, metis less_irrefl)
  show ?thesis
    unfolding sources_def distinct_append by (intro conjI rows) (auto simp: one)
qed

lemma slot_pages_count:
  assumes "huge_inv hg s" "(c, i) \<in> set (huge_slots_from 0)"
  shows "slot_pages hg (c, i) = 2 ^ c * unat hg" "0 < slot_pages hg (c, i)"
proof -
  have g: "granule_valid hg" "c < 3" using assms dir_class [OF assms(2)] by (simp_all add: huge_inv_def)
  then have "(2 :: nat) ^ c \<le> 4" using power_increasing [of c 2 "2 :: nat"] by simp
  then have "2 ^ c * unat hg \<le> 4 * unat hg" by simp
  then have "2 ^ c * unat hg < 2 ^ 64" using g(1) unfolding granule_valid_def by linarith
  moreover have "unat (huge_class_granules c) = 2 ^ c" using g(2) by (simp add: huge_class_granules_def unat_exp push_bit_eq_mult)
  ultimately show u: "slot_pages hg (c, i) = 2 ^ c * unat hg" by (simp add: slot_pages_def unat_mult_nowrap)
  show "0 < slot_pages hg (c, i)" unfolding u using g(1) by (simp add: granule_valid_def)
qed

lemma check_slots_met:
  assumes h: "slots_inv hg pg H s" and cis: "set cis \<subseteq> set (huge_slots_from 0)" "distinct cis" "B \<inter> set cis = {}" "met pg A B ck"
  shows "\<exists>ck'. check_slots hg s cis ck = Some ck'"
  using cis
proof (induction cis arbitrary: B ck)
  case (Cons ci cis)
  obtain c i where ci: "ci = (c, i)" by (cases ci)
  have d: "(c, i) \<in> set (huge_slots_from 0)" using Cons.prems(1) ci by simp
  have inv: "huge_inv hg s" "slots_settled hg pg s" using h by (simp_all add: slots_inv_def)
  have ok: "slot_ok hg (g_pool s) ci (slot_at s ci)" using huge_inv_slot [OF inv(1) d] ci by simp
  have p: "pool_wf (g_pool s)" "pool_base (g_pool s) \<noteq> 0" using inv(1) by (simp_all add: huge_inv_def)
  show ?case
  proof (cases "hs_state (slot_at s ci) = HUGE_SLOT_EMPTY")
    case True
    then have "check_huge_slot hg s ci ck = Some ck"
      using ok by (simp add: check_huge_slot_def slot_ok_def slot_at_def require_def ci)
    moreover have "\<exists>ck'. check_slots hg s cis ck = Some ck'" by (rule Cons.IH [OF _ _ _ Cons.prems(4)]) (use Cons.prems in auto)
    ultimately show ?thesis by auto
  next
    case False
    then have b: "hs_base (slot_at s ci) \<noteq> 0" using ok by (auto simp: slot_ok_def)
    have o: "occupies (g_pool s) pg (hs_base (slot_at s ci)) (slot_pages hg ci) (SlotPages c i)"
      using inv(2) d b by (auto simp: slots_settled_def ci)
    note n = slot_pages_count [OF inv(1) d, folded ci]
    have "pg j \<noteq> SlotPages c i" if "j \<in> ck_pages ck" for j
      using Cons.prems(3,4) that ci unfolding met_def by (metis Int_iff empty_iff fst_conv list.set_intros(1) prod.collapse snd_conv tenant.distinct(5) tenant.inject(2))
    from claim_tenant [OF p o n(2) this] obtain P where
      P: "claim (base_addr (g_pool s)) (hs_base (slot_at s ci)) (slot_pages hg ci) ck = Some (ck\<lparr>ck_pages := P\<rparr>)"
        "\<forall>j \<in> P. j \<in> ck_pages ck \<or> pg j = SlotPages c i" by blast
    have "check_huge_slot hg s ci ck = Some (ck\<lparr>ck_pages := P\<rparr>)"
      using ok False b P(1) unfolding n(1) by (auto simp: check_huge_slot_def slot_ok_def slot_at_def require_def ci Let_def)
    moreover have "met pg A (insert ci B) (ck\<lparr>ck_pages := P\<rparr>)" using Cons.prems(4) P(2) ci by (auto simp: met_def)
    then have "\<exists>ck'. check_slots hg s cis (ck\<lparr>ck_pages := P\<rparr>) = Some ck'" by (rule Cons.IH [rotated 3]) (use Cons.prems in auto)
    ultimately show ?thesis by auto
  qed
qed simp

section \<open>The checker never panics\<close>

lemma whole_heap_passes:
  assumes "whole_heap_inv n (set (lanes classes)) D hg S R H s"
  shows "\<exists>a b c. check_quiescent classes hg s = Some (a, b, c) \<and> a + b + c \<le> unat (cursor s) \<and> a + b + c \<le> unat (pool_count (g_pool s))"
proof -
  obtain k pg where h: "heap_inv n (set (lanes classes)) D k pg (dom S) s" "runs_inv k S R s" "slots_inv hg pg H s"
    using assms unfolding whole_heap_inv_def by blast
  let ?ys = "sources classes n"
  let ?ns = "List.map (\<lambda>y. card (source_cells k y)) ?ys" and ?A = "\<Union>y \<in> set ?ys. source_cells k y"
  have act: "active_threads s = n" using h(1) by (simp add: heap_inv_def active_threads_def)
  have m: "met pg {} {} \<lparr>ck_seen = {}, ck_pages = {}\<rparr>" by (simp add: met_def)
  have y: "source_lane y \<in> set (lanes classes) \<and> (\<exists>i < n. place_index (source_place y) = Some i)" if "y \<in> set ?ys" for y
    using sources_lanes [OF that] by auto
  from check_sources_met [OF h(1,2) y sources_distinct m] obtain ck where
    c: "check_sources s (unat (spans_total (g_pool s) + 1)) ?ys \<lparr>ck_seen = {}, ck_pages = {}\<rparr> = Some (?ns, ck)" "met pg ?A {} ck" by auto
  have "distinct (huge_slots_from 0)" by (simp add: huge_slots_from_def distinct_product)
  from check_slots_met [OF h(3) subset_refl this _ c(2)] obtain ck' where c': "check_slots hg s (huge_slots_from 0) ck = Some ck'" by auto
  have A: "cu_home k x \<noteq> None" if "x \<in> ?A" for x using that by (auto simp: cells_at_def)
  note bound = cells_bounded [of n "set (lanes classes)" D k pg S s ?A, OF h(1) A]
  have "sum_list ?ns = (\<Sum>y \<in> set ?ys. card (source_cells k y))" by (simp add: sum_list_distinct_conv_sum_set sources_distinct)
  also have "\<dots> = card ?A"
    using bound(1) source_cells_apart by (intro card_UN_disjoint [symmetric]) (auto intro: finite_subset)
  finally have "tally is_private ?ys ?ns + tally is_public ?ys ?ns + tally is_completed ?ys ?ns = card ?A" by (simp add: tally_total)
  with bound(2,3) c(1) c' act show ?thesis by (simp add: check_quiescent_def Let_def)
qed

text \<open>
  C6. The checker the test suites run between operations never panics: in every state that any sequence of
  allocations, frees and client writes on a fresh allocator leads to, all its assertions hold, and the spans and
  runs it finds on lists and in help records are at most the spans the pool has given out.
\<close>

theorem session_passes_check:
  assumes "start_ok n classes hg dummy_at region len"
    and "session B n classes hg (init classes region len (from_uninit classes n dummy_at mem)) m s held"
    and "unat (pool_count (set_region region len pool_new)) + m < 2 ^ 64"
  shows "\<exists>nl np nh. check_quiescent classes hg s = Some (nl, np, nh)
    \<and> nl + np + nh \<le> unat (cursor s) \<and> nl + np + nh \<le> unat (pool_count (g_pool s))"
proof -
  have "in_service n classes (dummy_set n classes dummy_at) hg held s"
    using session_in_service [OF assms(1) refl assms(2,3)] by blast
  then show ?thesis using whole_heap_passes unfolding in_service_def by blast
qed

theorem session_passes_check_witness:
  "\<exists>p s. session Cmpxchg16b 2 11 16384 example_start 1 s [p \<mapsto> \<lparr>lay_size = 100, lay_align = 8\<rparr>] \<and> p \<noteq> 0
     \<and> check_quiescent 11 16384 s \<noteq> None"
proof -
  obtain p s where s: "session Cmpxchg16b 2 11 16384 example_start 1 s [p \<mapsto> \<lparr>lay_size = 100, lay_align = 8\<rparr>]" "p \<noteq> 0"
    using example_alloc .
  have "unat (pool_count (set_region 1048576 655360 pool_new)) + 1 < 2 ^ 64" by (simp add: example_pool)
  from session_passes_check [OF example_start_ok s(1) [unfolded example_start_def] this]
  have "check_quiescent 11 16384 s \<noteq> None" by auto
  with s show ?thesis by blast
qed

end
