(* ===== verification/Global_Headers.thy ===== *)
theory Global_Headers
  imports Allocator
begin

text \<open>
  The hidden header of the hosted \<^verbatim>\<open>GlobalAlloc\<close> wrapper (\<^verbatim>\<open>src/global.rs\<close>): the layout of the storage that
  holds header and payload, writing the header, and validating it before a free.  The theorems say when
  a layout can be served at all, where payload and header lie, and that a free recovers what the
  allocation recorded.
\<close>

unbundle bit_operations_syntax

section \<open>Constants and data\<close>

definition SERVICE_TOKEN_ID :: usize where
  "SERVICE_TOKEN_ID = 0"

definition DEFAULT_THREADS_PER_SHARD :: usize where
  "DEFAULT_THREADS_PER_SHARD = 64"

definition DEFAULT_REGION_SPANS :: usize where
  "DEFAULT_REGION_SPANS = 1024"

definition HEADER_MAGIC :: usize where
  "HEADER_MAGIC = 0x5746474C4F423100"

definition BACKEND_WFSPAN :: usize where
  "BACKEND_WFSPAN = 1"

definition BACKEND_SYSTEM :: usize where
  "BACKEND_SYSTEM = 2"

record allocation_header =
  ah_magic :: usize
  ah_backend :: usize
  ah_shard :: usize
  ah_storage_size :: usize
  ah_storage_align :: usize
  ah_offset :: usize

text \<open>Size and alignment of the \<^verbatim>\<open>repr(C)\<close> struct of six words.\<close>

definition HEADER_SIZE :: usize where
  "HEADER_SIZE = 48"

definition HEADER_ALIGN :: usize where
  "HEADER_ALIGN = 8"

record header_info =
  hi_backend :: usize
  hi_shard :: usize
  hi_storage :: layout
  hi_offset :: usize

record allocation_layout =
  al_storage :: layout
  al_offset :: usize

section \<open>Operations\<close>

text \<open>The debug assertions repeat the checks that follow them; the checks decide.\<close>

definition validate_header :: "allocation_header \<Rightarrow> header_info option" where
  "validate_header h =
     (if ah_magic h \<noteq> HEADER_MAGIC then None
      else if ah_backend h \<noteq> BACKEND_WFSPAN \<and> ah_backend h \<noteq> BACKEND_SYSTEM then None
      else if ah_offset h < HEADER_SIZE \<or> ah_offset h > ah_storage_size h then None
      else case from_size_align (ah_storage_size h) (ah_storage_align h) of
        None \<Rightarrow> None
      | Some storage \<Rightarrow>
          if ah_backend h = BACKEND_WFSPAN \<and> ah_shard h = 0 then None
          else Some \<lparr>hi_backend = ah_backend h, hi_shard = ah_shard h, hi_storage = storage, hi_offset = ah_offset h\<rparr>)"

definition align_up :: "usize \<Rightarrow> usize \<Rightarrow> usize option" where
  "align_up v algn = map_option (\<lambda>x. x AND NOT (algn - 1)) (checked_add v (algn - 1))"

definition layout_for_allocation :: "layout \<Rightarrow> allocation_layout option" where
  "layout_for_allocation lay =
     (let algn = max (lay_align lay) HEADER_ALIGN in
      do {
        off \<leftarrow> align_up HEADER_SIZE algn;
        sz \<leftarrow> checked_add off (lay_size lay);
        storage \<leftarrow> from_size_align sz algn;
        Some \<lparr>al_storage = storage, al_offset = off\<rparr> })"

definition finish_allocation :: "address \<Rightarrow> allocation_layout \<Rightarrow> usize \<Rightarrow> usize
    \<Rightarrow> (address \<Rightarrow> allocation_header) \<Rightarrow> address \<times> (address \<Rightarrow> allocation_header)" where
  "finish_allocation raw adjusted backend shard hdr =
     (let user = raw + al_offset adjusted;
          header = user - HEADER_SIZE
      in (user, hdr(header := \<lparr>ah_magic = HEADER_MAGIC, ah_backend = backend, ah_shard = shard,
            ah_storage_size = lay_size (al_storage adjusted), ah_storage_align = lay_align (al_storage adjusted),
            ah_offset = al_offset adjusted\<rparr>)))"

section \<open>The storage layout\<close>

lemma align_up_same: "align_up v a = align_up_usize v a"
  by (simp add: align_up_def align_up_usize_def)

text \<open>The payload offset: the header size rounded up to the alignment of the storage.\<close>

definition storage_align :: "layout \<Rightarrow> nat" where
  "storage_align lay = max (unat (lay_align lay)) 8"

definition payload_offset :: "layout \<Rightarrow> nat" where
  "payload_offset lay = (48 + storage_align lay - 1) div storage_align lay * storage_align lay"

lemma payload_offset_bounds:
  "48 \<le> payload_offset lay" "payload_offset lay < 48 + storage_align lay" "storage_align lay dvd payload_offset lay"
  using div_mult_round_up [of "storage_align lay" 48] unfolding payload_offset_def
  by (simp_all add: storage_align_def)

lemma header_consts: "unat HEADER_SIZE = 48" "unat HEADER_ALIGN = 8" "is_power_of_two HEADER_ALIGN"
  using is_power_of_two_exp [of 3] by (simp_all add: HEADER_SIZE_def HEADER_ALIGN_def)

lemma max_align:
  assumes "is_power_of_two (lay_align lay)"
  shows "unat (max (lay_align lay) HEADER_ALIGN) = storage_align lay" "is_power_of_two (max (lay_align lay) HEADER_ALIGN)"
    "unat (lay_align lay) dvd storage_align lay" "8 dvd storage_align lay"
proof -
  show u: "unat (max (lay_align lay) HEADER_ALIGN) = storage_align lay"
    by (auto simp: max_def storage_align_def header_consts word_le_nat_alt)
  show p: "is_power_of_two (max (lay_align lay) HEADER_ALIGN)" using assms header_consts(3) by (simp add: max_def)
  show "unat (lay_align lay) dvd storage_align lay"
    using power_of_two_dvd [OF assms p] by (simp add: u)
  show "8 dvd storage_align lay"
    using power_of_two_dvd [OF header_consts(3) p] by (simp add: u header_consts(2))
qed

lemma of_nat_unat_id: "of_nat (unat x) = (x :: usize)"
  by simp

lemma align_up_header:
  assumes "is_power_of_two a" "unat a \<le> 2 ^ 63"
  shows "align_up HEADER_SIZE a = Some (of_nat ((48 + unat a - 1) div unat a * unat a))"
    "(48 + unat a - 1) div unat a * unat a < 2 ^ 64"
proof -
  have pos: "0 < unat a" using assms(1) by (rule is_power_of_two_pos)
  note b = div_mult_round_up [OF pos, of 48]
  show "(48 + unat a - 1) div unat a * unat a < 2 ^ 64" using b(2) assms(2) by simp
  obtain x where x: "align_up HEADER_SIZE a = Some x"
    using align_up_usize_None [OF assms(1), of HEADER_SIZE] assms(2)
    by (cases "align_up HEADER_SIZE a") (auto simp: align_up_same header_consts)
  have s: "48 \<le> unat x" "unat x < 48 + unat a" "unat a dvd unat x"
    using align_up_usize_Some [OF assms(1), of HEADER_SIZE x] x by (simp_all add: align_up_same header_consts)
  then obtain k where k: "unat x = k * unat a" by (metis dvdE mult.commute)
  have "(48 + unat a - 1) div unat a = k"
    using s k pos by (intro div_nat_eqI) (simp_all add: algebra_simps)
  then have "unat x = (48 + unat a - 1) div unat a * unat a" using k by simp
  then have "x = of_nat ((48 + unat a - 1) div unat a * unat a)" by (metis of_nat_unat_id)
  with x show "align_up HEADER_SIZE a = Some (of_nat ((48 + unat a - 1) div unat a * unat a))" by simp
qed

lemma layout_for_allocation_eq:
  assumes "layout_valid lay"
  shows "layout_for_allocation lay =
     (if payload_offset lay + unat (lay_size lay) + storage_align lay \<le> 2 ^ 63
      then Some \<lparr>al_storage = \<lparr>lay_size = of_nat (payload_offset lay) + lay_size lay, lay_align = of_nat (storage_align lay)\<rparr>,
                 al_offset = of_nat (payload_offset lay)\<rparr>
      else None)"
proof -
  have v: "is_power_of_two (lay_align lay)" "unat (lay_size lay) + unat (lay_align lay) \<le> 2 ^ 63"
    using assms by (simp_all add: layout_valid_def)
  note m = max_align [OF v(1)]
  have sa: "storage_align lay \<le> 2 ^ 63" using v(2) by (simp add: storage_align_def)
  let ?a = "max (lay_align lay) HEADER_ALIGN"
  have a: "align_up HEADER_SIZE ?a = Some (of_nat (payload_offset lay))" "payload_offset lay < 2 ^ 64"
    using align_up_header [OF m(2)] sa by (simp_all add: m(1) payload_offset_def)
  have al: "?a = of_nat (storage_align lay)" by (metis m(1) of_nat_unat_id)
  have po: "unat (of_nat (payload_offset lay) :: usize) = payload_offset lay" using a(2) by (rule unat_of_nat_small)
  have sum: "payload_offset lay + unat (lay_size lay) < 2 ^ 64"
    using payload_offset_bounds(2) [of lay] v(2) by (simp add: storage_align_def)
  then have "unat (of_nat (payload_offset lay) + lay_size lay) = payload_offset lay + unat (lay_size lay)"
    using unat_add_nowrap [of "of_nat (payload_offset lay)" "lay_size lay"] by (simp only: po)
  then have "from_size_align (of_nat (payload_offset lay) + lay_size lay) ?a =
      (if payload_offset lay + unat (lay_size lay) + storage_align lay \<le> 2 ^ 63
       then Some \<lparr>lay_size = of_nat (payload_offset lay) + lay_size lay, lay_align = ?a\<rparr> else None)"
    using m(1,2) by (simp add: from_size_align_def layout_valid_def Let_def)
  moreover have "checked_add (of_nat (payload_offset lay)) (lay_size lay) = Some (of_nat (payload_offset lay) + lay_size lay)"
    using sum by (simp only: checked_add_Some po simp_thms)
  ultimately show ?thesis using a(1) by (simp add: layout_for_allocation_def Let_def al)
qed

text \<open>
  C32. The wrapper serves a layout exactly when header, padding and payload together, rounded up to the
  alignment, still fit a Rust layout; the payload offset is then the header size rounded up to the
  alignment, and the storage is aligned for both payload and header.
\<close>

theorem storage_layout_exact:
  assumes "layout_valid lay"
  shows "(layout_for_allocation lay = None \<longleftrightarrow> 2 ^ 63 < payload_offset lay + unat (lay_size lay) + storage_align lay)
    \<and> (\<forall>adj. layout_for_allocation lay = Some adj \<longrightarrow> layout_valid (al_storage adj)
         \<and> unat (al_offset adj) = payload_offset lay
         \<and> unat (lay_size (al_storage adj)) = payload_offset lay + unat (lay_size lay)
         \<and> unat (lay_align (al_storage adj)) = storage_align lay)"
proof -
  have sa: "storage_align lay < 2 ^ 64" using assms by (simp add: layout_valid_def storage_align_def)
  have "\<forall>adj. layout_for_allocation lay = Some adj \<longrightarrow> layout_valid (al_storage adj)"
    by (auto simp: layout_for_allocation_def Let_def bind_Some_iff from_size_align_Some)
  moreover have "unat (of_nat (payload_offset lay) + lay_size lay) = payload_offset lay + unat (lay_size lay)"
    "unat (of_nat (payload_offset lay) :: usize) = payload_offset lay" "unat (of_nat (storage_align lay) :: usize) = storage_align lay"
    if "payload_offset lay + unat (lay_size lay) + storage_align lay \<le> 2 ^ 63"
    using that sa by (simp_all add: unat_of_nat_small unat_add_nowrap)
  ultimately show ?thesis
    using layout_for_allocation_eq [OF assms] by (auto split: if_splits)
qed

theorem storage_layout_exact_witness:
  "layout_valid \<lparr>lay_size = 100, lay_align = 64\<rparr> \<and> layout_for_allocation \<lparr>lay_size = 100, lay_align = 64\<rparr> \<noteq> None
    \<and> payload_offset \<lparr>lay_size = 100, lay_align = 64\<rparr> = 64"
proof -
  have v: "layout_valid \<lparr>lay_size = 100, lay_align = 64\<rparr>"
    using is_power_of_two_exp [of 6] by (simp add: layout_valid_def)
  from storage_layout_exact [OF v] show ?thesis by (simp add: v payload_offset_def storage_align_def)
qed

section \<open>Recovering an allocation from its payload\<close>

definition header_written :: "address \<Rightarrow> allocation_layout \<Rightarrow> usize \<Rightarrow> usize \<Rightarrow> (address \<Rightarrow> allocation_header) \<Rightarrow> bool" where
  "header_written user adj backend shard hdr \<longleftrightarrow> validate_header (hdr (user - HEADER_SIZE)) =
     Some \<lparr>hi_backend = backend, hi_shard = shard, hi_storage = al_storage adj, hi_offset = al_offset adj\<rparr>"

lemma finish_allocation_header:
  assumes "layout_for_allocation lay = Some adj" "layout_valid lay"
    and "backend = BACKEND_SYSTEM \<or> backend = BACKEND_WFSPAN \<and> shard \<noteq> 0"
    and "finish_allocation raw adj backend shard hdr = (user, hdr')"
  shows "header_written user adj backend shard hdr'" "user - al_offset adj = raw"
proof -
  note e = layout_for_allocation_eq [OF assms(2)]
  have le: "payload_offset lay + unat (lay_size lay) + storage_align lay \<le> 2 ^ 63"
    using e assms(1) by (auto split: if_splits)
  then have o: "unat (al_offset adj) = payload_offset lay"
    "unat (lay_size (al_storage adj)) = payload_offset lay + unat (lay_size lay)"
    using e assms(1) by (auto simp: unat_of_nat_small unat_add_nowrap)
  have "from_size_align (lay_size (al_storage adj)) (lay_align (al_storage adj)) = Some (al_storage adj)"
    using assms(1) by (auto simp: layout_for_allocation_def Let_def bind_Some_iff from_size_align_Some)
  moreover have "\<not> al_offset adj < HEADER_SIZE" "\<not> al_offset adj > lay_size (al_storage adj)"
    using o payload_offset_bounds(1) [of lay] by (simp_all add: word_less_nat_alt header_consts)
  ultimately show "header_written user adj backend shard hdr'"
    using assms(3,4)
    by (auto simp: finish_allocation_def header_written_def Let_def validate_header_def BACKEND_WFSPAN_def BACKEND_SYSTEM_def)
  show "user - al_offset adj = raw" using assms(4) by (auto simp: finish_allocation_def Let_def)
qed

lemma storage_facts:
  assumes "layout_for_allocation lay = Some adj" "layout_valid lay"
  shows "layout_valid (al_storage adj)" "unat (al_offset adj) = payload_offset lay"
    "unat (lay_size (al_storage adj)) = payload_offset lay + unat (lay_size lay)" "unat (lay_align (al_storage adj)) = storage_align lay"
proof -
  note e = layout_for_allocation_eq [OF assms(2)]
  have le: "payload_offset lay + unat (lay_size lay) + storage_align lay \<le> 2 ^ 63"
    using e assms(1) by (auto split: if_splits)
  then show "unat (al_offset adj) = payload_offset lay" "unat (lay_size (al_storage adj)) = payload_offset lay + unat (lay_size lay)"
    "unat (lay_align (al_storage adj)) = storage_align lay"
    using e assms(1) by (auto simp: unat_of_nat_small unat_add_nowrap)
  show "layout_valid (al_storage adj)"
    using assms(1) by (auto simp: layout_for_allocation_def Let_def bind_Some_iff from_size_align_Some)
qed

lemma payload_place:
  assumes "layout_for_allocation lay = Some adj" "layout_valid lay"
    and "is_aligned raw (lay_align (al_storage adj))" "unat raw + unat (lay_size (al_storage adj)) < 2 ^ 64"
  defines "user \<equiv> raw + al_offset adj"
  shows "is_aligned user (lay_align lay)" "unat user + unat (lay_size lay) = unat raw + unat (lay_size (al_storage adj))"
    "unat raw + 48 \<le> unat user" "is_aligned (user - HEADER_SIZE) HEADER_ALIGN"
proof -
  have al: "is_power_of_two (lay_align lay)" using assms(2) by (simp add: layout_valid_def)
  note m = max_align [OF al] and o = storage_facts [OF assms(1,2)]
  have sp: "is_power_of_two (lay_align (al_storage adj))" using o(1) by (simp add: layout_valid_def)
  have u: "unat user = unat raw + payload_offset lay"
    unfolding user_def using assms(4) o by (subst unat_add_nowrap) simp_all
  then show "unat user + unat (lay_size lay) = unat raw + unat (lay_size (al_storage adj))" "unat raw + 48 \<le> unat user"
    using o payload_offset_bounds(1) [of lay] by simp_all
  have d: "storage_align lay dvd unat raw" using assms(3) sp by (simp add: is_aligned_unat o)
  then have du: "storage_align lay dvd unat user" using payload_offset_bounds(3) by (simp add: u)
  have h: "unat (user - HEADER_SIZE) = unat user - 48"
    using u payload_offset_bounds(1) [of lay] by (simp add: unat_sub_le header_consts)
  have "8 dvd unat user" using m(4) du by (rule dvd_trans)
  then have "8 dvd unat user - 48" by (intro dvd_diff_nat) simp_all
  then show "is_aligned (user - HEADER_SIZE) HEADER_ALIGN" by (simp add: is_aligned_unat h header_consts)
  show "is_aligned user (lay_align lay)" using m(3) du al by (auto simp: is_aligned_unat intro: dvd_trans)
qed

text \<open>
  C15. For every storage block that satisfies the storage layout, the payload handed out is aligned as the caller
  asked and ends exactly where the storage ends, the header lies inside the storage right before it
  and is aligned, and reading that header back yields the backend, the shard and the storage layout
  of the allocation and the address of its storage.
\<close>

theorem header_round_trip:
  assumes "layout_for_allocation lay = Some adj" and "layout_valid lay"
    and "is_aligned raw (lay_align (al_storage adj))" and "unat raw + unat (lay_size (al_storage adj)) < 2 ^ 64"
    and "backend = BACKEND_SYSTEM \<or> backend = BACKEND_WFSPAN \<and> shard \<noteq> 0"
    and "finish_allocation raw adj backend shard hdr = (user, hdr')"
  shows "is_aligned user (lay_align lay) \<and> unat user + unat (lay_size lay) = unat raw + unat (lay_size (al_storage adj))
    \<and> unat raw + unat HEADER_SIZE \<le> unat user \<and> is_aligned (user - HEADER_SIZE) HEADER_ALIGN
    \<and> header_written user adj backend shard hdr' \<and> user - al_offset adj = raw"
proof -
  have user: "user = raw + al_offset adj" using assms(6) by (auto simp: finish_allocation_def Let_def)
  note p = payload_place [OF assms(1-4), folded user]
  show ?thesis using finish_allocation_header [OF assms(1,2,5,6)] p by (simp add: header_consts)
qed

theorem header_round_trip_witness:
  "\<forall>hdr. \<exists>adj hdr'. layout_for_allocation \<lparr>lay_size = 100, lay_align = 64\<rparr> = Some adj
     \<and> finish_allocation 8192 adj BACKEND_WFSPAN 4096 hdr = (8256, hdr') \<and> is_aligned 8256 64
     \<and> header_written 8256 adj BACKEND_WFSPAN 4096 hdr'"
proof
  fix hdr :: "address \<Rightarrow> allocation_header"
  let ?l = "\<lparr>lay_size = 100, lay_align = 64\<rparr> :: layout"
  let ?adj = "\<lparr>al_storage = \<lparr>lay_size = 164, lay_align = 64\<rparr>, al_offset = 64\<rparr>"
  have v: "layout_valid ?l" using is_power_of_two_exp [of 6] by (simp add: layout_valid_def)
  have a: "layout_for_allocation ?l = Some ?adj"
    using layout_for_allocation_eq [OF v] by (simp add: payload_offset_def storage_align_def)
  define hdr' where "hdr' = snd (finish_allocation 8192 ?adj BACKEND_WFSPAN 4096 hdr)"
  have f: "finish_allocation 8192 ?adj BACKEND_WFSPAN 4096 hdr = (8256, hdr')"
    by (simp add: finish_allocation_def Let_def hdr'_def)
  have "is_aligned 8192 (lay_align (al_storage ?adj))" by (simp add: is_aligned_def)
  moreover have "unat (8192 :: usize) + unat (lay_size (al_storage ?adj)) < 2 ^ 64" by simp
  ultimately have "is_aligned 8256 64 \<and> header_written 8256 ?adj BACKEND_WFSPAN 4096 hdr'"
    using header_round_trip [OF a v _ _ _ f] by simp
  with a f show "\<exists>adj hdr'. layout_for_allocation ?l = Some adj
     \<and> finish_allocation 8192 adj BACKEND_WFSPAN 4096 hdr = (8256, hdr') \<and> is_aligned 8256 64
     \<and> header_written 8256 adj BACKEND_WFSPAN 4096 hdr'" by blast
qed

end
