(* ===== verification/Global_Wrapper.thy ===== *)
theory Global_Wrapper
  imports Global_Headers
begin

text \<open>
  The hosted \<^verbatim>\<open>GlobalAlloc\<close> wrapper (\<^verbatim>\<open>src/global.rs\<close>): shards, each with a core allocator, a table of user
  tokens and a reserved service token; the thread-local binding of a thread to a token; growth by new
  shards; the fallback to the system allocator.

  One thread runs against an environment, as in the core: before each access to shared state the other
  threads apply an arbitrary function to it.  The answers of \<^verbatim>\<open>System.alloc\<close> are an input (null once
  they run out), and so are the environments of the calls into the core.  Operations that take
  a spin lock or walk the list of shards may wait for ever, so every operation has an option as
  its result, with \<^verbatim>\<open>None\<close> where it does not return.
\<close>

section \<open>State\<close>

record hosted_shard =
  hsh_next :: address
  hsh_user_slots :: usize
  hsh_token_in_use :: address
  hsh_service_lock :: bool
  hsh_region_spans :: usize
  hsh_alloc :: shared

record global_config =
  cfg_threads_per_shard :: usize
  cfg_region_spans :: usize

text \<open>The counters and fields of \<^verbatim>\<open>HostedLazyGlobalWfSpanAllocator\<close>.\<close>

record global_allocator =
  ga_head :: address
  ga_create_lock :: bool
  ga_threads_per_shard :: usize
  ga_region_spans :: usize
  ga_shard_count :: usize
  ga_token_acquisition_failures :: usize
  ga_shard_creation_failures :: usize
  ga_wfspan_allocations :: usize
  ga_wfspan_allocation_failures :: usize
  ga_system_allocations :: usize
  ga_system_deallocations :: usize
  ga_service_token_deallocations :: usize

record global_stats =
  st_shard_count :: usize
  st_user_tokens_in_use :: usize
  st_token_acquisition_failures :: usize
  st_shard_creation_failures :: usize
  st_wfspan_allocations :: usize
  st_wfspan_allocation_failures :: usize
  st_system_allocations :: usize
  st_system_deallocations :: usize
  st_service_token_deallocations :: usize
  st_largest_shard_spans :: usize

text \<open>
  The state all threads share: the wrapper, the shards and token cells by address, the headers and the payload
  bytes in memory, and the blocks \<^verbatim>\<open>System\<close> has handed out.  The memory a shard's core works on is part of
  the core's own state.
\<close>

record global_state =
  gs_ga :: global_allocator
  gs_shard :: "address \<Rightarrow> hosted_shard"
  gs_cell :: "address \<Rightarrow> usize"
  gs_hdr :: "address \<Rightarrow> allocation_header"
  gs_byte :: "address \<Rightarrow> 8 word"
  gs_sys :: "(address \<times> layout) list"

text \<open>
  The thread-local cells; \<open>tl_guard\<close> is false once the guard of the thread has been destroyed.  The cells
  themselves have no destructor and stay accessible.
\<close>

record thread_locals =
  tl_alloc_id :: usize
  tl_shard :: address
  tl_token_id :: usize
  tl_token_slot :: address
  tl_guard :: bool

record gworld =
  gw_st :: global_state
  gw_tls :: thread_locals
  gw_env :: "(global_state \<Rightarrow> global_state) list"
  gw_sys :: "address list"
  gw_core :: "((shared \<Rightarrow> shared) list \<times> bool list) list"

text \<open>
  What the compiler and the target fix: the backend, the const generics, the row layouts, the layout of a
  shard; and what fresh memory holds.  \<open>gc_self\<close> is the address of the wrapper.
\<close>

record global_const =
  gc_self :: address
  gc_backend :: backend
  gc_classes :: nat
  gc_hg :: usize
  gc_rows :: row_layout
  gc_shard_layout :: layout
  gc_memory :: shared

definition tls_new :: thread_locals where
  "tls_new = \<lparr>tl_alloc_id = 0, tl_shard = 0, tl_token_id = usize_max, tl_token_slot = 0, tl_guard = True\<rparr>"

definition DEFAULT_CONFIG :: global_config where
  "DEFAULT_CONFIG = \<lparr>cfg_threads_per_shard = DEFAULT_THREADS_PER_SHARD, cfg_region_spans = DEFAULT_REGION_SPANS\<rparr>"

definition config_new :: "usize \<Rightarrow> usize \<Rightarrow> global_config" where
  "config_new threads spans = \<lparr>cfg_threads_per_shard = threads, cfg_region_spans = spans\<rparr>"

definition with_config :: "global_config \<Rightarrow> global_allocator" where
  "with_config c = \<lparr>ga_head = 0, ga_create_lock = False, ga_threads_per_shard = cfg_threads_per_shard c,
     ga_region_spans = cfg_region_spans c, ga_shard_count = 0, ga_token_acquisition_failures = 0,
     ga_shard_creation_failures = 0, ga_wfspan_allocations = 0, ga_wfspan_allocation_failures = 0,
     ga_system_allocations = 0, ga_system_deallocations = 0, ga_service_token_deallocations = 0\<rparr>"

definition ga_new :: "usize \<Rightarrow> usize \<Rightarrow> global_allocator" where
  "ga_new threads spans = with_config (config_new threads spans)"

definition default_hosted :: global_allocator where
  "default_hosted = with_config DEFAULT_CONFIG"

section \<open>Accesses\<close>

definition seen :: "gworld \<Rightarrow> global_state" where
  "seen w = (case gw_env w of [] \<Rightarrow> gw_st w | e # _ \<Rightarrow> e (gw_st w))"

definition g_op :: "(global_state \<Rightarrow> 'a \<times> global_state) \<Rightarrow> gworld \<Rightarrow> 'a \<times> gworld" where
  "g_op f w =
     (let r = f (seen w)
      in (fst r, w\<lparr>gw_st := snd r, gw_env := tl (gw_env w)\<rparr>))"

abbreviation g_get :: "(global_state \<Rightarrow> 'a) \<Rightarrow> gworld \<Rightarrow> 'a \<times> gworld" where
  "g_get f \<equiv> g_op (\<lambda>s. (f s, s))"

definition g_put :: "(global_state \<Rightarrow> global_state) \<Rightarrow> gworld \<Rightarrow> gworld" where
  "g_put f w = snd (g_op (\<lambda>s. ((), f s)) w)"

definition on_ga :: "(global_allocator \<Rightarrow> global_allocator) \<Rightarrow> global_state \<Rightarrow> global_state" where
  "on_ga f s = s\<lparr>gs_ga := f (gs_ga s)\<rparr>"

definition on_shard :: "address \<Rightarrow> (hosted_shard \<Rightarrow> hosted_shard) \<Rightarrow> global_state \<Rightarrow> global_state" where
  "on_shard a f s = s\<lparr>gs_shard := (gs_shard s)(a := f (gs_shard s a))\<rparr>"

definition set_cell :: "address \<Rightarrow> usize \<Rightarrow> global_state \<Rightarrow> global_state" where
  "set_cell a v s = s\<lparr>gs_cell := (gs_cell s)(a := v)\<rparr>"

definition cell_cas :: "address \<Rightarrow> usize \<Rightarrow> usize \<Rightarrow> global_state \<Rightarrow> bool \<times> global_state" where
  "cell_cas a current new s = (if gs_cell s a = current then (True, set_cell a new s) else (False, s))"

abbreviation bump_ga :: "((usize \<Rightarrow> usize) \<Rightarrow> global_allocator \<Rightarrow> global_allocator) \<Rightarrow> gworld \<Rightarrow> gworld" where
  "bump_ga fld \<equiv> g_put (on_ga (fld (\<lambda>k. k + 1)))"

text \<open>\<^verbatim>\<open>System.alloc\<close> and \<^verbatim>\<open>System.dealloc\<close>.\<close>

definition sys_alloc :: "layout \<Rightarrow> gworld \<Rightarrow> address \<times> gworld" where
  "sys_alloc lay w =
     (case gw_sys w of
        [] \<Rightarrow> (0, w)
      | a # as \<Rightarrow> (a, (if a = 0 then w else g_put (\<lambda>s. s\<lparr>gs_sys := (a, lay) # gs_sys s\<rparr>) w)\<lparr>gw_sys := as\<rparr>))"

definition sys_dealloc :: "address \<Rightarrow> layout \<Rightarrow> gworld \<Rightarrow> gworld" where
  "sys_dealloc a lay = g_put (\<lambda>s. s\<lparr>gs_sys := remove1 (a, lay) (gs_sys s)\<rparr>)"

text \<open>A call into the core of a shard, against the next core environment.\<close>

definition core_call :: "address \<Rightarrow> (nat \<Rightarrow> 'a prog) \<Rightarrow> gworld \<Rightarrow> 'a \<times> gworld" where
  "core_call shard p w =
     (let core = hsh_alloc (gs_shard (gw_st w) shard);
          (env, sc) = (case gw_core w of [] \<Rightarrow> ([], []) | e # _ \<Rightarrow> e);
          r = run_state (p (active_threads core)) \<lparr>w_sh = core, w_step = step_new, w_env = env, w_sc_fail = sc\<rparr>
      in (fst r, w\<lparr>gw_st := on_shard shard (hsh_alloc_update (\<lambda>_. w_sh (snd r))) (gw_st w), gw_core := tl (gw_core w)\<rparr>))"

definition core_alloc :: "global_const \<Rightarrow> address \<Rightarrow> layout \<Rightarrow> usize \<Rightarrow> gworld \<Rightarrow> address \<times> gworld" where
  "core_alloc G shard storage tok =
     core_call shard (\<lambda>n. alloc_with_token (gc_backend G) n (gc_classes G) (gc_hg G) storage \<lparr>tok_id = tok\<rparr>)"

definition core_dealloc :: "global_const \<Rightarrow> address \<Rightarrow> address \<Rightarrow> layout \<Rightarrow> usize \<Rightarrow> gworld \<Rightarrow> gworld" where
  "core_dealloc G shard raw storage tok w =
     snd (core_call shard (\<lambda>n. dealloc_with_token (gc_classes G) (gc_hg G) raw storage \<lparr>tok_id = tok\<rparr>) w)"

section \<open>Spin lock\<close>

text \<open>\<^verbatim>\<open>try_lock\<close> is one turn of the loop: the CAS on the flag, given by its reader and its writer.\<close>

definition try_lock :: "(global_state \<Rightarrow> bool) \<Rightarrow> (bool \<Rightarrow> global_state \<Rightarrow> global_state) \<Rightarrow> global_state \<Rightarrow> bool \<times> global_state" where
  "try_lock held put s = (if held s then (False, s) else (True, put True s))"

partial_function (option) lock :: "(global_state \<Rightarrow> bool) \<Rightarrow> (bool \<Rightarrow> global_state \<Rightarrow> global_state) \<Rightarrow> gworld \<Rightarrow> gworld option" where
  "lock held put w =
     (case g_op (try_lock held put) w of (ok, w) \<Rightarrow> if ok then Some w else lock held put w)"

definition unlock :: "(bool \<Rightarrow> global_state \<Rightarrow> global_state) \<Rightarrow> gworld \<Rightarrow> gworld" where
  "unlock put = g_put (put False)"

definition create_lock_held :: "global_state \<Rightarrow> bool" where
  "create_lock_held s = ga_create_lock (gs_ga s)"

definition set_create_lock :: "bool \<Rightarrow> global_state \<Rightarrow> global_state" where
  "set_create_lock b = on_ga (ga_create_lock_update (\<lambda>_. b))"

definition service_lock_held :: "address \<Rightarrow> global_state \<Rightarrow> bool" where
  "service_lock_held shard s = hsh_service_lock (gs_shard s shard)"

definition set_service_lock :: "address \<Rightarrow> bool \<Rightarrow> global_state \<Rightarrow> global_state" where
  "set_service_lock shard b = on_shard shard (hsh_service_lock_update (\<lambda>_. b))"

section \<open>Shards\<close>

text \<open>The four layouts of a shard: metadata, region, token cells and the shard itself.\<close>

definition shard_layouts :: "global_const \<Rightarrow> usize \<Rightarrow> usize \<Rightarrow> (usize \<times> layout \<times> layout \<times> layout) option" where
  "shard_layouts G user_slots region_spans =
     (if user_slots = 0 \<or> region_spans = 0 then None
      else do {
        n_active \<leftarrow> checked_add user_slots 1;
        metadata_size \<leftarrow> metadata_region_size (gc_rows G) n_active;
        metadata_layout \<leftarrow> from_size_align metadata_size (metadata_region_align (gc_rows G));
        region_len \<leftarrow> checked_mul region_spans SPAN_SIZE;
        region_layout \<leftarrow> from_size_align region_len SPAN_SIZE;
        token_size \<leftarrow> checked_mul 8 user_slots;
        token_layout \<leftarrow> from_size_align token_size 8;
        Some (n_active, metadata_layout, region_layout, token_layout) })"

text \<open>The four allocations in their order; a failure frees the earlier ones, last first.\<close>

fun sys_alloc_all :: "layout list \<Rightarrow> (address \<times> layout) list \<Rightarrow> gworld \<Rightarrow> address list option \<times> gworld" where
  "sys_alloc_all [] got w = (Some (List.map fst (rev got)), w)"
| "sys_alloc_all (lay # lays) got w =
     (case sys_alloc lay w of (a, w) \<Rightarrow>
        if a = 0 then (None, fold (\<lambda>(b, l). sys_dealloc b l) got w)
        else sys_alloc_all lays ((a, lay) # got) w)"

definition clear_cells :: "address \<Rightarrow> usize \<Rightarrow> global_state \<Rightarrow> global_state" where
  "clear_cells base n s = fold (\<lambda>i. set_cell (base + 8 * of_nat i) 0) [0..<unat n] s"

text \<open>What follows the allocations: \<open>ml\<close>, \<open>rl\<close> and \<open>kl\<close> are the layouts of metadata, region and token cells.\<close>

definition shard_install :: "global_const \<Rightarrow> usize \<Rightarrow> usize \<Rightarrow> usize \<times> layout \<times> layout \<times> layout
    \<Rightarrow> address \<Rightarrow> address \<Rightarrow> address \<Rightarrow> address \<Rightarrow> gworld \<Rightarrow> address \<times> gworld" where
  "shard_install G user_slots region_spans lays metadata region token_mem shard_mem w =
     (case lays of (n_active, ml, rl, kl) \<Rightarrow>
      let w = g_put (clear_cells token_mem user_slots) w in
      case from_metadata_region (gc_rows G) (gc_classes G) n_active metadata (lay_size ml) (gc_memory G) of
        None \<Rightarrow>
          (0, sys_dealloc metadata ml (sys_dealloc region rl (sys_dealloc token_mem kl
             (sys_dealloc shard_mem (gc_shard_layout G) w))))
      | Some (core, _) \<Rightarrow>
          let core = init (gc_classes G) region (lay_size rl) core in
          (shard_mem, g_put (on_shard shard_mem (\<lambda>_. \<lparr>hsh_next = 0, hsh_user_slots = user_slots,
             hsh_token_in_use = token_mem, hsh_service_lock = False, hsh_region_spans = region_spans,
             hsh_alloc = core\<rparr>)) w))"

definition shard_create :: "global_const \<Rightarrow> usize \<Rightarrow> usize \<Rightarrow> gworld \<Rightarrow> address \<times> gworld" where
  "shard_create G user_slots region_spans w =
     (case shard_layouts G user_slots region_spans of
        None \<Rightarrow> (0, w)
      | Some lays \<Rightarrow>
          (case lays of (n_active, ml, rl, kl) \<Rightarrow>
           case sys_alloc_all [ml, rl, kl, gc_shard_layout G] [] w of
             (None, w) \<Rightarrow> (0, w)
           | (Some as, w) \<Rightarrow> shard_install G user_slots region_spans lays (as ! 0) (as ! 1) (as ! 2) (as ! 3) w))"

text \<open>Scanning the token cells of a shard from index \<open>i\<close>, with \<open>k\<close> cells left.\<close>

fun token_scan :: "address \<Rightarrow> nat \<Rightarrow> nat \<Rightarrow> gworld \<Rightarrow> (usize \<times> address) option \<times> gworld" where
  "token_scan base i 0 w = (None, w)"
| "token_scan base i (Suc k) w =
     (let slot = base + 8 * of_nat i in
      case g_op (cell_cas slot 0 1) w of (ok, w) \<Rightarrow>
        if ok then (Some (of_nat (i + 1), slot), w) else token_scan base (i + 1) k w)"

text \<open>The fields \<^verbatim>\<open>user_slots\<close>, \<^verbatim>\<open>token_in_use\<close> and \<^verbatim>\<open>region_spans\<close> of a shard never change.\<close>

definition acquire_user_token :: "address \<Rightarrow> gworld \<Rightarrow> (usize \<times> address) option \<times> gworld" where
  "acquire_user_token shard w =
     (let sh = gs_shard (gw_st w) shard
      in token_scan (hsh_token_in_use sh) 0 (unat (hsh_user_slots sh)) w)"

definition release_user_token :: "address \<Rightarrow> usize \<Rightarrow> gworld \<Rightarrow> gworld" where
  "release_user_token shard token_id w =
     (let sh = gs_shard (gw_st w) shard in
      if token_id = 0 \<or> token_id > hsh_user_slots sh then w
      else g_put (set_cell (hsh_token_in_use sh + 8 * (token_id - 1)) 0) w)"

fun cells_in_use :: "address \<Rightarrow> nat \<Rightarrow> nat \<Rightarrow> gworld \<Rightarrow> usize \<times> gworld" where
  "cells_in_use base i 0 w = (0, w)"
| "cells_in_use base i (Suc k) w =
     (case g_get (\<lambda>s. gs_cell s (base + 8 * of_nat i)) w of (v, w) \<Rightarrow>
      case cells_in_use base (i + 1) k w of (n, w) \<Rightarrow> ((if v \<noteq> 0 then 1 else 0) + n, w))"

definition shard_tokens_in_use :: "address \<Rightarrow> gworld \<Rightarrow> usize \<times> gworld" where
  "shard_tokens_in_use shard w =
     (let sh = gs_shard (gw_st w) shard
      in cells_in_use (hsh_token_in_use sh) 0 (unat (hsh_user_slots sh)) w)"

section \<open>Walking the list of shards\<close>

partial_function (option) tokens_walk :: "address \<Rightarrow> usize \<Rightarrow> gworld \<Rightarrow> (usize \<times> gworld) option" where
  "tokens_walk cur n w =
     (if cur = 0 then Some (n, w)
      else case shard_tokens_in_use cur w of (k, w) \<Rightarrow>
           case g_get (\<lambda>s. hsh_next (gs_shard s cur)) w of (nxt, w) \<Rightarrow> tokens_walk nxt (n + k) w)"

definition user_tokens_in_use :: "gworld \<Rightarrow> (usize \<times> gworld) option" where
  "user_tokens_in_use w = (case g_get (\<lambda>s. ga_head (gs_ga s)) w of (cur, w) \<Rightarrow> tokens_walk cur 0 w)"

partial_function (option) largest_walk :: "address \<Rightarrow> usize \<Rightarrow> gworld \<Rightarrow> (usize \<times> gworld) option" where
  "largest_walk cur largest w =
     (if cur = 0 then Some (largest, w)
      else let spans = hsh_region_spans (gs_shard (gw_st w) cur) in
           case g_get (\<lambda>s. hsh_next (gs_shard s cur)) w of (nxt, w) \<Rightarrow> largest_walk nxt (max largest spans) w)"

definition largest_shard_spans :: "gworld \<Rightarrow> (usize \<times> gworld) option" where
  "largest_shard_spans w = (case g_get (\<lambda>s. ga_head (gs_ga s)) w of (cur, w) \<Rightarrow> largest_walk cur 0 w)"

definition shard_count :: "gworld \<Rightarrow> usize \<times> gworld" where
  "shard_count = g_get (\<lambda>s. ga_shard_count (gs_ga s))"

definition system_allocations :: "gworld \<Rightarrow> usize \<times> gworld" where
  "system_allocations = g_get (\<lambda>s. ga_system_allocations (gs_ga s))"

definition ga_stats :: "gworld \<Rightarrow> (global_stats \<times> gworld) option" where
  "ga_stats w = do {
     let (sc, w) = shard_count w;
     (ut, w) \<leftarrow> user_tokens_in_use w;
     let (tf, w) = g_get (\<lambda>s. ga_token_acquisition_failures (gs_ga s)) w;
     let (cf, w) = g_get (\<lambda>s. ga_shard_creation_failures (gs_ga s)) w;
     let (wa, w) = g_get (\<lambda>s. ga_wfspan_allocations (gs_ga s)) w;
     let (wf, w) = g_get (\<lambda>s. ga_wfspan_allocation_failures (gs_ga s)) w;
     let (sa, w) = g_get (\<lambda>s. ga_system_allocations (gs_ga s)) w;
     let (sd, w) = g_get (\<lambda>s. ga_system_deallocations (gs_ga s)) w;
     let (sv, w) = g_get (\<lambda>s. ga_service_token_deallocations (gs_ga s)) w;
     (ls, w) \<leftarrow> largest_shard_spans w;
     Some (\<lparr>st_shard_count = sc, st_user_tokens_in_use = ut, st_token_acquisition_failures = tf,
       st_shard_creation_failures = cf, st_wfspan_allocations = wa, st_wfspan_allocation_failures = wf,
       st_system_allocations = sa, st_system_deallocations = sd, st_service_token_deallocations = sv,
       st_largest_shard_spans = ls\<rparr>, w) }"

definition inner :: "gworld \<Rightarrow> shared option \<times> gworld" where
  "inner w =
     (case g_get (\<lambda>s. ga_head (gs_ga s)) w of (head, w) \<Rightarrow>
        (if head = 0 then None else Some (hsh_alloc (gs_shard (gw_st w) head)), w))"

definition threads_per_shard :: "global_state \<Rightarrow> usize" where
  "threads_per_shard s =
     (if ga_threads_per_shard (gs_ga s) = 0 then DEFAULT_THREADS_PER_SHARD else ga_threads_per_shard (gs_ga s))"

definition region_spans :: "global_state \<Rightarrow> usize" where
  "region_spans s =
     (if ga_region_spans (gs_ga s) = 0 then DEFAULT_REGION_SPANS else ga_region_spans (gs_ga s))"

section \<open>Growth and binding\<close>

definition create_and_link_shard :: "global_const \<Rightarrow> usize \<Rightarrow> gworld \<Rightarrow> (address option \<times> gworld) option" where
  "create_and_link_shard G min_region_spans w = do {
     w \<leftarrow> lock create_lock_held set_create_lock w;
     let spans = max (region_spans (gw_st w)) min_region_spans;
     let (shard, w) = shard_create G (threads_per_shard (gw_st w)) spans w;
     if shard = 0 then
       let w = bump_ga ga_shard_creation_failures_update w in
       Some (None, unlock set_create_lock w)
     else
       let (old_head, w) = g_get (\<lambda>s. ga_head (gs_ga s)) w;
           w = g_put (on_shard shard (hsh_next_update (\<lambda>_. old_head))) w;
           w = g_put (on_ga (ga_head_update (\<lambda>_. shard))) w;
           w = bump_ga ga_shard_count_update w in
       Some (Some shard, unlock set_create_lock w) }"

text \<open>The inner loop of \<^verbatim>\<open>acquire_token_from_any_shard\<close> over the list of shards.\<close>

partial_function (option) acquire_walk :: "address \<Rightarrow> gworld \<Rightarrow> ((address \<times> usize \<times> address) option \<times> gworld) option" where
  "acquire_walk cur w =
     (if cur = 0 then Some (None, w)
      else case acquire_user_token cur w of
        (Some (token, slot), w) \<Rightarrow> Some (Some (cur, token, slot), w)
      | (None, w) \<Rightarrow> case g_get (\<lambda>s. hsh_next (gs_shard s cur)) w of (nxt, w) \<Rightarrow> acquire_walk nxt w)"

partial_function (option) acquire_token_from_any_shard :: "global_const \<Rightarrow> gworld
    \<Rightarrow> ((address \<times> usize \<times> address) option \<times> gworld) option" where
  "acquire_token_from_any_shard G w = do {
     let (head, w) = g_get (\<lambda>s. ga_head (gs_ga s)) w;
     (got, w) \<leftarrow> acquire_walk head w;
     case got of
       Some r \<Rightarrow> Some (Some r, w)
     | None \<Rightarrow> do {
         (made, w) \<leftarrow> create_and_link_shard G (region_spans (gw_st w)) w;
         case made of
           None \<Rightarrow> Some (None, bump_ga ga_token_acquisition_failures_update w)
         | Some new_shard \<Rightarrow>
             case acquire_user_token new_shard w of
               (Some (token, slot), w) \<Rightarrow> Some (Some (new_shard, token, slot), w)
             | (None, w) \<Rightarrow> acquire_token_from_any_shard G w } }"

definition bound_token :: "global_const \<Rightarrow> thread_locals \<Rightarrow> (address \<times> usize) option" where
  "bound_token G t =
     (if tl_alloc_id t = gc_self G \<and> tl_shard t \<noteq> 0 \<and> tl_token_id t \<noteq> usize_max
      then Some (tl_shard t, tl_token_id t) else None)"

definition bind_thread :: "global_const \<Rightarrow> gworld \<Rightarrow> ((address \<times> usize) option \<times> gworld) option" where
  "bind_thread G w =
     (case bound_token G (gw_tls w) of
        Some b \<Rightarrow> Some (Some b, w)
      | None \<Rightarrow>
          if \<not> tl_guard (gw_tls w) then Some (None, w)
          else do {
            (got, w) \<leftarrow> acquire_token_from_any_shard G w;
            case got of
              None \<Rightarrow> Some (None, w)
            | Some (shard, token_id, token_slot) \<Rightarrow>
                Some (Some (shard, token_id), w\<lparr>gw_tls := (gw_tls w)\<lparr>tl_alloc_id := gc_self G, tl_shard := shard,
                  tl_token_id := token_id, tl_token_slot := token_slot\<rparr>\<rparr>) })"

text \<open>The destructor of the thread-local guard, run when the thread exits.\<close>

definition guard_drop :: "gworld \<Rightarrow> gworld" where
  "guard_drop w =
     (let slot = tl_token_slot (gw_tls w);
          w = w\<lparr>gw_tls := (gw_tls w)\<lparr>tl_token_slot := 0\<rparr>\<rparr>;
          w = (if slot \<noteq> 0 then g_put (set_cell slot 0) w else w)
      in w\<lparr>gw_tls := (gw_tls w)\<lparr>tl_token_id := usize_max, tl_shard := 0, tl_alloc_id := 0, tl_guard := False\<rparr>\<rparr>)"

section \<open>Allocation\<close>

text \<open>
  The second half of \<^verbatim>\<open>alloc_from_wfspan\<close>: the bound shard could not serve the request.  \<open>growth_spans\<close> is
  \<^verbatim>\<open>needed_spans\<close>.
\<close>

definition growth_spans :: "layout \<Rightarrow> usize" where
  "growth_spans storage = max (div_ceil (lay_size storage) SPAN_SIZE) 1"

definition grow_and_retry :: "global_const \<Rightarrow> layout \<Rightarrow> address \<Rightarrow> usize \<Rightarrow> gworld \<Rightarrow> (address \<times> gworld) option" where
  "grow_and_retry G storage shard token w = do {
     (made, w) \<leftarrow> create_and_link_shard G (max (growth_spans storage) (region_spans (gw_st w))) w;
     (raw, w) \<leftarrow> (case made of
         None \<Rightarrow> Some (0, w)
       | Some new_shard \<Rightarrow>
           let w = release_user_token shard token w in
           case acquire_user_token new_shard w of
             (None, w) \<Rightarrow> Some (0, w)
           | (Some (new_token_id, new_token_slot), w) \<Rightarrow>
               let w = w\<lparr>gw_tls := (gw_tls w)\<lparr>tl_shard := new_shard, tl_token_id := new_token_id,
                 tl_token_slot := new_token_slot\<rparr>\<rparr> in
               Some (core_alloc G new_shard storage new_token_id w));
     if raw \<noteq> 0 then Some (raw, bump_ga ga_wfspan_allocations_update w)
     else Some (0, bump_ga ga_wfspan_allocation_failures_update w) }"

definition alloc_from_wfspan :: "global_const \<Rightarrow> layout \<Rightarrow> gworld \<Rightarrow> (address \<times> gworld) option" where
  "alloc_from_wfspan G storage w = do {
     (bound, w) \<leftarrow> bind_thread G w;
     case bound of
       None \<Rightarrow> Some (0, bump_ga ga_token_acquisition_failures_update w)
     | Some (shard, token) \<Rightarrow>
         let (raw, w) = core_alloc G shard storage token w in
         if raw \<noteq> 0 then Some (raw, bump_ga ga_wfspan_allocations_update w)
         else grow_and_retry G storage shard token w }"

definition dealloc_to_wfspan :: "global_const \<Rightarrow> address \<Rightarrow> address \<Rightarrow> layout \<Rightarrow> gworld \<Rightarrow> (unit \<times> gworld) option" where
  "dealloc_to_wfspan G shard raw storage w =
     (if shard = 0 then Some ((), w)
      else if tl_shard (gw_tls w) = shard \<and> tl_token_id (gw_tls w) \<noteq> usize_max
      then Some ((), core_dealloc G shard raw storage (tl_token_id (gw_tls w)) w)
      else do {
        w \<leftarrow> lock (service_lock_held shard) (set_service_lock shard) w;
        let w = bump_ga ga_service_token_deallocations_update w;
        let w = core_dealloc G shard raw storage SERVICE_TOKEN_ID w;
        Some ((), unlock (set_service_lock shard) w) })"

text \<open>Storage is written by the thread that just obtained it, so these writes meet no interference.\<close>

definition finish_in :: "address \<Rightarrow> allocation_layout \<Rightarrow> usize \<Rightarrow> usize \<Rightarrow> gworld \<Rightarrow> address \<times> gworld" where
  "finish_in raw adjusted backend shard w =
     (case finish_allocation raw adjusted backend shard (gs_hdr (gw_st w)) of (user, hdr) \<Rightarrow>
        (user, w\<lparr>gw_st := (gw_st w)\<lparr>gs_hdr := hdr\<rparr>\<rparr>))"

definition alloc_system :: "allocation_layout \<Rightarrow> gworld \<Rightarrow> address \<times> gworld" where
  "alloc_system adjusted w =
     (case sys_alloc (al_storage adjusted) w of (raw, w) \<Rightarrow>
        if raw = 0 then (0, w)
        else finish_in raw adjusted BACKEND_SYSTEM 0 (bump_ga ga_system_allocations_update w))"

definition ga_alloc :: "global_const \<Rightarrow> layout \<Rightarrow> gworld \<Rightarrow> (address \<times> gworld) option" where
  "ga_alloc G lay w =
     (case layout_for_allocation lay of
        None \<Rightarrow> Some (0, w)
      | Some adjusted \<Rightarrow> do {
          (raw, w) \<leftarrow> alloc_from_wfspan G (al_storage adjusted) w;
          if raw \<noteq> 0 then Some (finish_in raw adjusted BACKEND_WFSPAN (tl_shard (gw_tls w)) w)
          else Some (alloc_system adjusted w) })"

definition write_bytes :: "address \<Rightarrow> 8 word list \<Rightarrow> global_state \<Rightarrow> global_state" where
  "write_bytes p bs s = s\<lparr>gs_byte := fold (\<lambda>i m. m(p + of_nat i := bs ! i)) [0..<length bs] (gs_byte s)\<rparr>"

definition read_bytes :: "address \<Rightarrow> nat \<Rightarrow> global_state \<Rightarrow> 8 word list" where
  "read_bytes p n s = List.map (\<lambda>i. gs_byte s (p + of_nat i)) [0..<n]"

definition alloc_zeroed :: "global_const \<Rightarrow> layout \<Rightarrow> gworld \<Rightarrow> (address \<times> gworld) option" where
  "alloc_zeroed G lay w = do {
     (p, w) \<leftarrow> ga_alloc G lay w;
     if p \<noteq> 0 then Some (p, w\<lparr>gw_st := write_bytes p (replicate (unat (lay_size lay)) 0) (gw_st w)\<rparr>)
     else Some (p, w) }"

definition ga_dealloc :: "global_const \<Rightarrow> address \<Rightarrow> layout \<Rightarrow> gworld \<Rightarrow> (unit \<times> gworld) option" where
  "ga_dealloc G p lay w =
     (if p = 0 then Some ((), w)
      else case validate_header (gs_hdr (gw_st w) (p - HEADER_SIZE)) of
        None \<Rightarrow> Some ((), w)
      | Some info \<Rightarrow>
          let raw = p - hi_offset info in
          if hi_backend info = BACKEND_WFSPAN then dealloc_to_wfspan G (hi_shard info) raw (hi_storage info) w
          else Some ((), sys_dealloc raw (hi_storage info) (bump_ga ga_system_deallocations_update w)))"

definition ga_realloc :: "global_const \<Rightarrow> address \<Rightarrow> layout \<Rightarrow> usize \<Rightarrow> gworld \<Rightarrow> (address \<times> gworld) option" where
  "ga_realloc G p old_layout new_size w =
     (case from_size_align new_size (lay_align old_layout) of
        None \<Rightarrow> Some (0, w)
      | Some new_layout \<Rightarrow>
          if new_size = 0 then do {
            (_, w) \<leftarrow> (if p \<noteq> 0 then ga_dealloc G p old_layout w else Some ((), w));
            Some (0, w) }
          else if p = 0 then ga_alloc G new_layout w
          else do {
            (new_ptr, w) \<leftarrow> ga_alloc G new_layout w;
            if new_ptr = 0 then Some (0, w)
            else do {
              let w = w\<lparr>gw_st := write_bytes new_ptr (read_bytes p (unat (min (lay_size old_layout) new_size)) (gw_st w)) (gw_st w)\<rparr>;
              (_, w) \<leftarrow> ga_dealloc G p old_layout w;
              Some (new_ptr, w) } })"

end
