(* ===== verification/Global_Allocation.thy ===== *)
theory Global_Allocation
  imports Global_Wrapper
begin

text \<open>
  Properties of the hosted wrapper.  Whatever the other threads do, an allocation records in its header the
  backend and the shard that served it, and a free by any thread takes it back there.  The locale
  states what every operation of the wrapper keeps for an arbitrary relation that the accesses keep.
\<close>

section \<open>What the operations leave alone\<close>

text \<open>
  The interface between the accesses and the operations composed of them: a relation between the worlds before and after
  that is transitive and holds for each access not writing payload bytes, for a call into the core and for an answer
  of \<^verbatim>\<open>System\<close> holds for the composed operations too.
\<close>

definition byteless :: "(global_state \<Rightarrow> 'a \<times> global_state) \<Rightarrow> bool" where
  "byteless f \<longleftrightarrow> (\<forall>s. gs_byte (snd (f s)) = gs_byte s)"

lemma byteless_updates [simp]:
  "byteless (\<lambda>s. (h s, s))" "byteless (\<lambda>s. ((), on_ga g s))" "byteless (\<lambda>s. ((), on_shard a k s))"
  "byteless (\<lambda>s. ((), set_cell a v s))" "byteless (cell_cas a v u)" "byteless (\<lambda>s. ((), s\<lparr>gs_sys := q s\<rparr>))"
  by (simp_all add: byteless_def on_ga_def on_shard_def set_cell_def cell_cas_def)

lemma byteless_clear [simp]: "byteless (\<lambda>s. ((), clear_cells a n s))"
proof -
  have "gs_byte (fold (\<lambda>i. set_cell (a + 8 * of_nat i) 0) is s) = gs_byte s" for "is" s
    by (induction "is" arbitrary: s) (simp_all add: set_cell_def)
  then show ?thesis by (simp add: byteless_def clear_cells_def)
qed

lemma byteless_locks [simp]:
  "byteless (try_lock create_lock_held set_create_lock)" "byteless (\<lambda>s. ((), set_create_lock b s))"
  "byteless (try_lock (service_lock_held sh) (set_service_lock sh))" "byteless (\<lambda>s. ((), set_service_lock sh b s))"
  by (simp_all add: byteless_def try_lock_def set_create_lock_def set_service_lock_def on_ga_def on_shard_def)

locale wrapper_frame =
  fixes K :: "gworld \<Rightarrow> gworld \<Rightarrow> bool"
  assumes K_refl: "K w w"
    and K_trans: "K w w' \<Longrightarrow> K w' w'' \<Longrightarrow> K w w''"
    and K_access: "gs_byte s = gs_byte (seen w) \<Longrightarrow> K w (w\<lparr>gw_st := s, gw_env := tl (gw_env w)\<rparr>)"
    and K_call: "K w (w\<lparr>gw_st := on_shard shard f (gw_st w), gw_core := tl (gw_core w)\<rparr>)"
    and K_answer: "gw_sys w = a # as \<Longrightarrow> K w (w\<lparr>gw_sys := as\<rparr>)"
begin

lemma K_op: "byteless f \<Longrightarrow> g_op f w = (r, w') \<Longrightarrow> K w w'"
  by (auto simp: g_op_def Let_def byteless_def intro: K_access)

lemma K_put: "byteless (\<lambda>s. ((), f s)) \<Longrightarrow> K w (g_put f w)"
  unfolding g_put_def by (metis K_op surjective_pairing)

lemma K_core: "K w (snd (core_call shard p w))"
  by (simp add: core_call_def Let_def split_beta K_call)

lemma K_core_alloc: "core_alloc G sh lay t w = (r, w') \<Longrightarrow> K w w'"
  unfolding core_alloc_def by (drule arg_cong [where f = snd]) (simp, hypsubst, rule K_core)

lemma K_core_dealloc: "K w (core_dealloc G sh raw lay t w)"
  unfolding core_dealloc_def by (rule K_core)

lemma K_lock: "lock held put w = Some w' \<Longrightarrow> byteless (try_lock held put) \<Longrightarrow> K w w'"
proof (induction rule: lock.raw_induct [rotated, consumes 1])
  case (1 rec held put w w')
  obtain ok v where g: "g_op (try_lock held put) w = (ok, v)" by (meson surj_pair)
  from 1 K_op [OF _ g] show ?case by (auto simp: g split: if_splits intro: K_trans)
qed

lemma K_token_scan: "token_scan b i k w = (r, w') \<Longrightarrow> K w w'"
proof (induction k arbitrary: i w)
  case 0
  then show ?case by (simp add: K_refl)
next
  case (Suc k)
  obtain ok v where g: "g_op (cell_cas (b + 8 * of_nat i) 0 1) w = (ok, v)" by (meson surj_pair)
  from Suc K_op [OF _ g] show ?case by (auto simp: g split: if_splits intro: K_trans)
qed

lemma K_acquire_user_token: "acquire_user_token sh w = (r, w') \<Longrightarrow> K w w'"
  unfolding acquire_user_token_def Let_def by (rule K_token_scan)

lemma K_release_user_token: "K w (release_user_token sh t w)"
  by (simp add: release_user_token_def Let_def K_refl K_put)

lemma K_sys_alloc:
  assumes "sys_alloc lay w = (a, w')"
  shows "K w w'"
proof (cases "gw_sys w")
  case Nil
  with assms show ?thesis by (simp add: sys_alloc_def K_refl)
next
  case (Cons b bs)
  define v where "v = (if b = 0 then w else g_put (\<lambda>s. s\<lparr>gs_sys := (b, lay) # gs_sys s\<rparr>) w)"
  have "K w v" by (simp add: v_def K_refl K_put)
  moreover have "gw_sys v = b # bs" using Cons by (simp add: v_def g_put_def g_op_def Let_def)
  then have "K v (v\<lparr>gw_sys := bs\<rparr>)" by (rule K_answer)
  moreover have "w' = v\<lparr>gw_sys := bs\<rparr>" using assms Cons by (auto simp: sys_alloc_def v_def)
  ultimately show ?thesis using K_trans by blast
qed

lemma K_sys_dealloc: "K w (sys_dealloc a lay w)"
  by (simp add: sys_dealloc_def K_put)

lemma K_fold_dealloc: "K w (fold (\<lambda>(b, l). sys_dealloc b l) bs w)"
proof (induction bs arbitrary: w)
  case Nil
  then show ?case by (simp add: K_refl)
next
  case (Cons b bs)
  show ?case using K_trans [OF K_sys_dealloc Cons] by (simp add: split_beta)
qed

lemma K_sys_alloc_all: "sys_alloc_all lays got w = (r, w') \<Longrightarrow> K w w'"
proof (induction lays arbitrary: got w)
  case Nil
  then show ?case by (simp add: K_refl)
next
  case (Cons lay lays)
  obtain a v where a: "sys_alloc lay w = (a, v)" by (meson surj_pair)
  from Cons K_sys_alloc [OF a] K_fold_dealloc [of v got] show ?case
    by (auto simp: a split: if_splits intro: K_trans)
qed

lemma K_shard_install: "shard_install G n sp lays a b c d w = (r, w') \<Longrightarrow> K w w'"
  by (auto simp: shard_install_def Let_def split: option.splits prod.splits
      intro!: K_trans [OF _ K_sys_dealloc] K_trans [OF _ K_put] K_put)

lemma K_shard_create: "shard_create G n sp w = (r, w') \<Longrightarrow> K w w'"
  by (auto simp: shard_create_def K_refl simp del: sys_alloc_all.simps split: option.splits prod.splits
      dest!: K_sys_alloc_all K_shard_install intro: K_trans)

lemma K_create_and_link:
  assumes "create_and_link_shard G m w = Some (r, w')"
  shows "K w w'"
proof -
  obtain w1 where l: "lock create_lock_held set_create_lock w = Some w1"
    using assms by (auto simp: create_and_link_shard_def bind_Some_iff)
  obtain sh w2 where c: "shard_create G (threads_per_shard (gw_st w1)) (max (region_spans (gw_st w1)) m) w1 = (sh, w2)"
    by (meson surj_pair)
  obtain h w3 where g: "g_get (\<lambda>s. ga_head (gs_ga s)) w2 = (h, w3)" by (meson surj_pair)
  have t: "K w w2" using K_lock [OF l] K_shard_create [OF c] by (auto intro: K_trans)
  then have t3: "K w w3" using K_op [OF _ g] by (auto intro: K_trans)
  show ?thesis
    using assms t t3
    by (auto simp: create_and_link_shard_def l c g Let_def unlock_def split: if_splits intro!: K_trans [OF _ K_put])
qed

lemma K_acquire_walk: "acquire_walk cur w = Some x \<Longrightarrow> K w (snd x)"
proof (induction rule: acquire_walk.raw_induct [rotated, consumes 1])
  case (1 rec cur w x)
  show ?case
  proof (cases "cur = 0")
    case True
    then show ?thesis using 1(2) by (auto simp: K_refl)
  next
    case False
    obtain r w1 where a: "acquire_user_token cur w = (r, w1)" by (meson surj_pair)
    note t1 = K_acquire_user_token [OF a]
    obtain nxt w2 where g: "g_get (\<lambda>s. hsh_next (gs_shard s cur)) w1 = (nxt, w2)" by (meson surj_pair)
    have t2: "K w w2" using t1 K_op [OF _ g] by (auto intro: K_trans)
    show ?thesis
      using 1(2) 1(1) [of nxt w2 x] False t1 t2 by (auto simp: a g split: option.splits intro: K_trans)
  qed
qed

lemma K_acquire_any: "acquire_token_from_any_shard G w = Some x \<Longrightarrow> K w (snd x)"
proof (induction rule: acquire_token_from_any_shard.raw_induct [rotated, consumes 1])
  case (1 rec G w x)
  obtain head w1 where h: "g_get (\<lambda>s. ga_head (gs_ga s)) w = (head, w1)" by (meson surj_pair)
  then have t1: "K w w1" by (rule K_op [rotated]) simp
  obtain got w2 where a: "acquire_walk head w1 = Some (got, w2)"
    using 1(2) by (auto simp: h bind_Some_iff)
  have t2: "K w w2" using t1 K_acquire_walk [OF a] by (auto intro: K_trans)
  show ?case
  proof (cases got)
    case (Some g)
    then show ?thesis using 1(2) t2 by (auto simp: h a)
  next
    case None
    then obtain made w3 where c: "create_and_link_shard G (region_spans (gw_st w2)) w2 = Some (made, w3)"
      using 1(2) by (auto simp: h a bind_Some_iff)
    have t3: "K w w3" using t2 K_create_and_link [OF c] by (rule K_trans)
    show ?thesis
    proof (cases made)
      case None
      with \<open>got = None\<close> show ?thesis using 1(2) t3 by (auto simp: h a c intro!: K_trans [OF _ K_put])
    next
      case (Some sh)
      obtain r w4 where u: "acquire_user_token sh w3 = (r, w4)" by (meson surj_pair)
      with \<open>got = None\<close> Some show ?thesis
        using 1(2) 1(1) [of G w4 x] K_trans [OF t3 K_acquire_user_token [OF u]]
        by (auto simp: h a c split: option.splits intro: K_trans)
    qed
  qed
qed

lemma K_dealloc_to_wfspan:
  assumes "dealloc_to_wfspan G sh raw lay w = Some (u, w')"
  shows "K w w'"
proof (cases "sh = 0 \<or> tl_shard (gw_tls w) = sh \<and> tl_token_id (gw_tls w) \<noteq> usize_max")
  case True
  then show ?thesis using assms K_core_dealloc K_refl by (cases "sh = 0") (simp_all add: dealloc_to_wfspan_def, metis)
next
  case False
  then obtain v where v: "lock (service_lock_held sh) (set_service_lock sh) w = Some v"
    using assms by (auto simp: dealloc_to_wfspan_def bind_Some_iff split: if_splits)
  have "K w v" using K_lock [OF v] by simp
  with False v assms show ?thesis
    by (auto simp: dealloc_to_wfspan_def Let_def unlock_def
        intro!: K_trans [OF _ K_put] K_trans [OF _ K_core_dealloc] split: if_splits)
qed

lemma K_ga_dealloc: "ga_dealloc G p lay w = Some (u, w') \<Longrightarrow> K w w'"
  by (auto simp: ga_dealloc_def Let_def K_refl split: if_splits option.splits dest: K_dealloc_to_wfspan
      intro!: K_trans [OF _ K_sys_dealloc] K_put)

end

text \<open>Most operations leave the thread-local cells alone and only consume answers of \<^verbatim>\<open>System\<close>.\<close>

definition keeps :: "gworld \<Rightarrow> gworld \<Rightarrow> bool" where
  "keeps w w' \<longleftrightarrow> gw_tls w' = gw_tls w \<and> set (gw_sys w') \<subseteq> set (gw_sys w)"

interpretation calm: wrapper_frame keeps
  by unfold_locales (auto simp: keeps_def)

text \<open>Left alone, they do not touch payload bytes.\<close>

definition keeps_bytes :: "gworld \<Rightarrow> gworld \<Rightarrow> bool" where
  "keeps_bytes w w' \<longleftrightarrow> (gw_env w = [] \<longrightarrow> gw_env w' = [] \<and> gs_byte (gw_st w') = gs_byte (gw_st w))"

interpretation bytes: wrapper_frame keeps_bytes
  by unfold_locales (auto simp: keeps_bytes_def seen_def on_shard_def)

lemma keeps_tls: "keeps w w' \<Longrightarrow> gw_tls w' = gw_tls w"
  by (simp add: keeps_def)

lemma keeps_g_put [simp]: "gw_tls (g_put f w) = gw_tls w" "gw_sys (g_put f w) = gw_sys w"
  by (simp_all add: g_put_def g_op_def Let_def)

lemma sys_alloc_answer: "sys_alloc lay w = (a, w') \<Longrightarrow> a \<noteq> 0 \<Longrightarrow> a \<in> set (gw_sys w)"
  by (auto simp: sys_alloc_def split: list.splits)

section \<open>Bound shards are not null\<close>

lemma create_and_link_nonnull:
  assumes "create_and_link_shard G m w = Some (r, w')"
  shows "r \<noteq> Some 0"
proof -
  obtain w1 where l: "lock create_lock_held set_create_lock w = Some w1"
    using assms by (auto simp: create_and_link_shard_def bind_Some_iff)
  obtain sh w2 where c: "shard_create G (threads_per_shard (gw_st w1)) (max (region_spans (gw_st w1)) m) w1 = (sh, w2)"
    by (meson surj_pair)
  show ?thesis using assms by (auto simp: create_and_link_shard_def l c Let_def split: if_splits prod.splits)
qed

lemma acquire_walk_nonnull: "acquire_walk cur w = Some x \<Longrightarrow> fst x = Some (sh, y) \<Longrightarrow> sh \<noteq> 0"
proof (induction rule: acquire_walk.raw_induct [rotated, consumes 1])
  case (1 rec cur w x)
  then show ?case by (auto split: if_splits prod.splits option.splits)
qed

lemma acquire_any_nonnull: "acquire_token_from_any_shard G w = Some x \<Longrightarrow> fst x = Some (sh, y) \<Longrightarrow> sh \<noteq> 0"
proof (induction rule: acquire_token_from_any_shard.raw_induct [rotated, consumes 1])
  case (1 rec G w x)
  obtain head w1 where h: "g_get (\<lambda>s. ga_head (gs_ga s)) w = (head, w1)" by (meson surj_pair)
  obtain got w2 where a: "acquire_walk head w1 = Some (got, w2)"
    using 1(2) by (auto simp: h bind_Some_iff)
  show ?case
  proof (cases got)
    case (Some g)
    then show ?thesis using 1(2,3) acquire_walk_nonnull [OF a] by (auto simp: h a)
  next
    case None
    then obtain made w3 where c: "create_and_link_shard G (region_spans (gw_st w2)) w2 = Some (made, w3)"
      using 1(2) by (auto simp: h a bind_Some_iff)
    show ?thesis
      using 1 None create_and_link_nonnull [OF c] by (auto simp: h a c split: option.splits prod.splits)
  qed
qed

lemma bind_thread_keeps:
  assumes "bind_thread G w = Some (r, w')"
  shows "set (gw_sys w') \<subseteq> set (gw_sys w) \<and> keeps_bytes w w' \<and> (\<forall>sh t. r = Some (sh, t) \<longrightarrow> sh \<noteq> 0 \<and> tl_shard (gw_tls w') = sh)"
proof (cases "bound_token G (gw_tls w) = None \<and> tl_guard (gw_tls w)")
  case True
  then obtain y w1 where x: "acquire_token_from_any_shard G w = Some (y, w1)"
    using assms by (auto simp: bind_thread_def bind_Some_iff)
  note k = calm.K_acquire_any [OF x] bytes.K_acquire_any [OF x] acquire_any_nonnull [OF x]
  show ?thesis
  proof (cases y)
    case None
    with True x k assms show ?thesis by (auto simp: bind_thread_def keeps_def)
  next
    case (Some z)
    with True x k assms show ?thesis by (cases z) (auto simp: bind_thread_def keeps_def keeps_bytes_def)
  qed
qed (use assms in \<open>auto simp: bind_thread_def bound_token_def bytes.K_refl split: if_splits option.splits\<close>)

section \<open>Allocations go back where they came from\<close>

definition served_by :: "global_const \<Rightarrow> layout \<Rightarrow> address \<Rightarrow> address \<Rightarrow> bool" where
  "served_by G storage shard raw \<longleftrightarrow> shard \<noteq> 0 \<and> (\<exists>tok v. fst (core_alloc G shard storage tok v) = raw)"

lemma grow_served:
  assumes "grow_and_retry G storage shard token w = Some (raw, w')" and "raw \<noteq> 0"
  shows "served_by G storage (tl_shard (gw_tls w')) raw"
proof -
  let ?k = "max (growth_spans storage) (region_spans (gw_st w))"
  obtain made w1 where c: "create_and_link_shard G ?k w = Some (made, w1)"
    using assms(1) by (auto simp: grow_and_retry_def bind_Some_iff Let_def)
  with assms obtain sh where sh: "made = Some sh"
    by (cases made) (auto simp: grow_and_retry_def Let_def)
  have nz: "sh \<noteq> 0" using create_and_link_nonnull [OF c] sh by simp
  obtain r w2 where u: "acquire_user_token sh (release_user_token shard token w1) = (r, w2)" by (meson surj_pair)
  with assms c sh obtain t slot where r: "r = Some (t, slot)"
    by (cases r) (auto simp: grow_and_retry_def Let_def)
  let ?w3 = "w2\<lparr>gw_tls := (gw_tls w2)\<lparr>tl_shard := sh, tl_token_id := t, tl_token_slot := slot\<rparr>\<rparr>"
  obtain raw' w4 where k: "core_alloc G sh storage t ?w3 = (raw', w4)" by (meson surj_pair)
  have t4: "tl_shard (gw_tls w4) = sh" using keeps_tls [OF calm.K_core_alloc [OF k]] by simp
  have "raw' = raw \<and> w' = bump_ga ga_wfspan_allocations_update w4"
    using assms c sh u r k by (auto simp: grow_and_retry_def Let_def split: if_splits)
  then show ?thesis using t4 k nz unfolding served_by_def by (metis fst_conv keeps_g_put(1))
qed

lemma wfspan_served:
  assumes "alloc_from_wfspan G storage w = Some (raw, w')" and "raw \<noteq> 0"
  shows "served_by G storage (tl_shard (gw_tls w')) raw"
proof -
  obtain b w1 where b: "bind_thread G w = Some (b, w1)" using assms(1) by (auto simp: alloc_from_wfspan_def bind_Some_iff)
  with assms obtain sh t where t: "b = Some (sh, t)"
    by (cases b) (auto simp: alloc_from_wfspan_def)
  obtain raw' w2 where k: "core_alloc G sh storage t w1 = (raw', w2)" by (meson surj_pair)
  show ?thesis
  proof (cases "raw' = 0")
    case True
    then have "grow_and_retry G storage sh t w2 = Some (raw, w')"
      using assms(1) by (simp add: alloc_from_wfspan_def b t k)
    then show ?thesis using assms(2) by (rule grow_served)
  next
    case False
    then have "raw = raw' \<and> w' = bump_ga ga_wfspan_allocations_update w2"
      using assms(1) by (simp add: alloc_from_wfspan_def b t k)
    then show ?thesis
      using bind_thread_keeps [OF b] keeps_tls [OF calm.K_core_alloc [OF k]] k t unfolding served_by_def
      by (metis fst_conv keeps_g_put(1))
  qed
qed

lemma grow_sys:
  assumes "grow_and_retry G storage shard token w = Some (raw, w')"
  shows "set (gw_sys w') \<subseteq> set (gw_sys w)"
proof -
  let ?k = "max (growth_spans storage) (region_spans (gw_st w))"
  obtain made w1 where c: "create_and_link_shard G ?k w = Some (made, w1)"
    using assms(1) by (auto simp: grow_and_retry_def bind_Some_iff Let_def)
  note k1 = calm.K_create_and_link [OF c]
  show ?thesis
  proof (cases made)
    case None
    then show ?thesis using assms c k1 by (auto simp: grow_and_retry_def Let_def keeps_def)
  next
    case (Some sh)
    obtain r w2 where u: "acquire_user_token sh (release_user_token shard token w1) = (r, w2)" by (meson surj_pair)
    have k2: "keeps w w2" using k1 calm.K_release_user_token calm.K_acquire_user_token [OF u] by (blast intro: calm.K_trans)
    let ?tls = "\<lambda>t slot. w2\<lparr>gw_tls := (gw_tls w2)\<lparr>tl_shard := sh, tl_token_id := t, tl_token_slot := slot\<rparr>\<rparr>"
    have k3: "core_alloc G sh storage t (?tls t slot) = (x, v) \<Longrightarrow> set (gw_sys v) \<subseteq> set (gw_sys w)" for t slot x v
      using calm.K_core_alloc [of G sh storage t "?tls t slot" x v] k2 by (auto simp: keeps_def)
    show ?thesis
    proof (cases r)
      case None
      then show ?thesis using assms c u k2 Some by (auto simp: grow_and_retry_def Let_def keeps_def)
    next
      case r: (Some ts)
      obtain t slot where ts: "ts = (t, slot)" by (cases ts)
      obtain x v where x: "core_alloc G sh storage t (?tls t slot) = (x, v)" by (meson surj_pair)
      then show ?thesis
        using assms c u Some r ts k3 [OF x] by (auto simp: grow_and_retry_def Let_def split: if_splits)
    qed
  qed
qed

lemma wfspan_sys:
  assumes "alloc_from_wfspan G storage w = Some (raw, w')"
  shows "set (gw_sys w') \<subseteq> set (gw_sys w)"
proof -
  obtain b w1 where b: "bind_thread G w = Some (b, w1)" using assms by (auto simp: alloc_from_wfspan_def bind_Some_iff)
  note k1 = bind_thread_keeps [OF b]
  show ?thesis
  proof (cases b)
    case None
    then show ?thesis using assms b k1 by (auto simp: alloc_from_wfspan_def)
  next
    case (Some st)
    obtain sh t where st: "st = (sh, t)" by (cases st)
    obtain x w2 where k: "core_alloc G sh storage t w1 = (x, w2)" by (meson surj_pair)
    have "set (gw_sys w2) \<subseteq> set (gw_sys w)" using calm.K_core_alloc [OF k] k1 by (auto simp: keeps_def)
    then show ?thesis
      using assms b Some st k grow_sys [of G storage sh t w2 raw w'] by (auto simp: alloc_from_wfspan_def split: if_splits)
  qed
qed

text \<open>What an allocation leaves behind: header, storage and origin of the payload \<open>p\<close>.\<close>

definition allocated :: "global_const \<Rightarrow> layout \<Rightarrow> address \<Rightarrow> address list \<Rightarrow> (address \<Rightarrow> allocation_header) \<Rightarrow> usize \<Rightarrow> address \<Rightarrow> allocation_layout \<Rightarrow> bool" where
  "allocated G lay p answers hdr backend shard adj \<longleftrightarrow>
     layout_for_allocation lay = Some adj \<and> header_written p adj backend shard hdr
     \<and> p - al_offset adj \<noteq> 0
     \<and> (backend = BACKEND_SYSTEM \<and> shard = 0 \<and> p - al_offset adj \<in> set answers
        \<or> backend = BACKEND_WFSPAN \<and> served_by G (al_storage adj) shard (p - al_offset adj))"

lemma finish_in_header:
  assumes "layout_for_allocation lay = Some adj" "layout_valid lay"
    and "backend = BACKEND_SYSTEM \<or> backend = BACKEND_WFSPAN \<and> shard \<noteq> 0"
    and "finish_in raw adj backend shard w = (p, w')"
  shows "header_written p adj backend shard (gs_hdr (gw_st w'))" "p - al_offset adj = raw" "gw_tls w' = gw_tls w"
  using finish_allocation_header [OF assms(1-3), of raw "gs_hdr (gw_st w)"] assms(4)
  by (auto simp: finish_in_def split: prod.splits)

lemma ga_alloc_allocated:
  assumes "layout_valid lay" and "ga_alloc G lay w = Some (p, w')" and "p \<noteq> 0"
  shows "\<exists>backend shard adj. allocated G lay p (gw_sys w) (gs_hdr (gw_st w')) backend shard adj"
proof -
  obtain adj where adj: "layout_for_allocation lay = Some adj"
    using assms(2,3) by (auto simp: ga_alloc_def split: option.splits)
  obtain raw w1 where r: "alloc_from_wfspan G (al_storage adj) w = Some (raw, w1)"
    using assms(2) by (auto simp: ga_alloc_def adj bind_Some_iff)
  show ?thesis
  proof (cases "raw = 0")
    case False
    note sv = wfspan_served [OF r False]
    have f: "finish_in raw adj BACKEND_WFSPAN (tl_shard (gw_tls w1)) w1 = (p, w')"
      using assms(2) False by (simp add: ga_alloc_def adj r)
    have "tl_shard (gw_tls w1) \<noteq> 0" using sv by (simp add: served_by_def)
    from finish_in_header [OF adj assms(1) disjI2 [OF conjI [OF refl this]] f] sv False adj
    have "allocated G lay p (gw_sys w) (gs_hdr (gw_st w')) BACKEND_WFSPAN (tl_shard (gw_tls w1)) adj"
      by (simp add: allocated_def)
    then show ?thesis by blast
  next
    case True
    have a: "alloc_system adj w1 = (p, w')" using assms(2) True by (simp add: ga_alloc_def adj r)
    obtain x w2 where x: "sys_alloc (al_storage adj) w1 = (x, w2)" by (meson surj_pair)
    have nz: "x \<noteq> 0" using a assms(3) x by (auto simp: alloc_system_def)
    then have f: "finish_in x adj BACKEND_SYSTEM 0 (bump_ga ga_system_allocations_update w2) = (p, w')"
      using a x by (simp add: alloc_system_def)
    have "x \<in> set (gw_sys w)" using sys_alloc_answer [OF x] nz wfspan_sys [OF r] by blast
    with finish_in_header [OF adj assms(1) disjI1 [OF refl] f] nz adj
    have "allocated G lay p (gw_sys w) (gs_hdr (gw_st w')) BACKEND_SYSTEM 0 adj" by (simp add: allocated_def)
    then show ?thesis by blast
  qed
qed

lemma dealloc_recovers:
  assumes "header_written p adj backend shard (gs_hdr (gw_st v))" and "p \<noteq> 0"
    and "backend = BACKEND_SYSTEM \<or> backend = BACKEND_WFSPAN"
  shows "ga_dealloc G p lay v =
     (if backend = BACKEND_WFSPAN then dealloc_to_wfspan G shard (p - al_offset adj) (al_storage adj) v
      else Some ((), sys_dealloc (p - al_offset adj) (al_storage adj) (bump_ga ga_system_deallocations_update v)))"
  using assms by (simp add: ga_dealloc_def header_written_def Let_def)


definition global_start :: "address list \<Rightarrow> gworld" where
  "global_start answers = \<lparr>gw_st = \<lparr>gs_ga = ga_new 1 4, gs_shard = \<lambda>_. \<lparr>hsh_next = 0, hsh_user_slots = 0, hsh_token_in_use = 0,
       hsh_service_lock = False, hsh_region_spans = 0, hsh_alloc = zero_memory\<rparr>, gs_cell = \<lambda>_. 0,
       gs_hdr = \<lambda>_. \<lparr>ah_magic = 0, ah_backend = 0, ah_shard = 0, ah_storage_size = 0, ah_storage_align = 0, ah_offset = 0\<rparr>,
       gs_byte = \<lambda>_. 0, gs_sys = []\<rparr>, gw_tls = tls_new, gw_env = [], gw_sys = answers, gw_core = []\<rparr>"


end
