(* ===== verification/Global_Tokens.thy ===== *)
theory Global_Tokens
  imports Global_Allocation
begin

text \<open>
  Locks and tokens of the hosted wrapper.  The spin lock returns exactly when it finds its flag free, and excludes;
  the token scan takes the first free token in a quiet environment and always a token of its shard;
  threads that hold tokens hold different ones, except when a thread that moves to a new shard finds
  no token there: it then keeps using the token it has given back.
\<close>

section \<open>Spin lock\<close>

text \<open>The states the loop sees if it never succeeds: the state before its \<open>k\<close>-th attempt.\<close>

fun attempt :: "gworld \<Rightarrow> nat \<Rightarrow> global_state" where
  "attempt w 0 = seen w"
| "attempt w (Suc k) = attempt (w\<lparr>gw_st := attempt w 0, gw_env := tl (gw_env w)\<rparr>) k"

lemma try_lock_run:
  "g_op (try_lock held put) w =
     (if held (attempt w 0) then (False, w\<lparr>gw_st := attempt w 0, gw_env := tl (gw_env w)\<rparr>)
      else (True, w\<lparr>gw_st := put True (attempt w 0), gw_env := tl (gw_env w)\<rparr>))"
  by (simp add: g_op_def Let_def try_lock_def)

lemma lock_unfold:
  "lock held put w =
     (if held (attempt w 0) then lock held put (w\<lparr>gw_st := attempt w 0, gw_env := tl (gw_env w)\<rparr>)
      else Some (w\<lparr>gw_st := put True (attempt w 0), gw_env := tl (gw_env w)\<rparr>))"
  by (subst lock.simps) (simp add: try_lock_run del: attempt.simps)

lemma lock_returns:
  "\<not> held (attempt w k) \<Longrightarrow> \<exists>j \<le> k. \<not> held (attempt w j) \<and> (\<forall>i < j. held (attempt w i))
     \<and> (\<exists>w'. lock held put w = Some w' \<and> gw_st w' = put True (attempt w j))"
proof (induction k arbitrary: w)
  case 0
  then show ?case by (subst lock_unfold) auto
next
  case (Suc k)
  show ?case
  proof (cases "held (attempt w 0)")
    case False
    then show ?thesis by (intro exI [of _ 0]) (subst lock_unfold, auto)
  next
    case True
    let ?w = "w\<lparr>gw_st := attempt w 0, gw_env := tl (gw_env w)\<rparr>"
    have "\<not> held (attempt ?w k)" using Suc.prems by (simp del: attempt.simps(1))
    from Suc.IH [OF this] obtain j where j: "j \<le> k" "\<not> held (attempt ?w j)" "\<forall>i < j. held (attempt ?w i)"
      "\<exists>w'. lock held put ?w = Some w' \<and> gw_st w' = put True (attempt ?w j)"
      by blast
    have "\<forall>i < Suc j. held (attempt w i)"
    proof (intro allI impI)
      fix i assume "i < Suc j"
      then show "held (attempt w i)" using True j(3) by (cases i) (auto simp del: attempt.simps(1))
    qed
    moreover have "lock held put w = lock held put ?w" using True by (subst lock_unfold) simp
    ultimately show ?thesis using j by (intro exI [of _ "Suc j"]) (simp del: attempt.simps(1))
  qed
qed

lemma lock_found: "lock held put w = Some w' \<Longrightarrow> \<exists>k. \<not> held (attempt w k)"
proof (induction rule: lock.raw_induct [rotated, consumes 1])
  case (1 rec held put w w')
  let ?w = "w\<lparr>gw_st := attempt w 0, gw_env := tl (gw_env w)\<rparr>"
  show ?case
  proof (cases "held (attempt w 0)")
    case True
    then have "rec held put ?w = Some w'" using 1(2) by (simp add: try_lock_run del: attempt.simps)
    from 1(1) [OF this] obtain k where "\<not> held (attempt ?w k)" ..
    then have "\<not> held (attempt w (Suc k))" by (simp del: attempt.simps(1))
    then show ?thesis ..
  qed blast
qed

text \<open>
  C22. The spin lock is acquired at the first attempt that finds the flag free, whatever the other threads do
  to the state between the attempts, and the call fails to return exactly when the flag is taken at
  every attempt.
\<close>

theorem lock_first_free:
  "(lock held put w = None \<longleftrightarrow> (\<forall>k. held (attempt w k)))
   \<and> (\<forall>j. \<not> held (attempt w j) \<longrightarrow> (\<forall>i < j. held (attempt w i)) \<longrightarrow>
        (\<exists>w'. lock held put w = Some w' \<and> gw_st w' = put True (attempt w j)))"
proof (intro conjI iffI allI impI)
  show "held (attempt w k)" if "lock held put w = None" for k
    using that lock_returns [of held w k put] by auto
  show "lock held put w = None" if "\<forall>k. held (attempt w k)"
    using that lock_found [of held put w] by (cases "lock held put w") auto
  fix j assume "\<not> held (attempt w j)" "\<forall>i < j. held (attempt w i)"
  with lock_returns [of held w j put] show "\<exists>w'. lock held put w = Some w' \<and> gw_st w' = put True (attempt w j)"
    by (metis le_neq_implies_less)
qed

theorem lock_first_free_witness:
  "\<exists>w'. lock create_lock_held set_create_lock
      ((global_start [])\<lparr>gw_env := [set_create_lock True, id, set_create_lock False]\<rparr>) = Some w'"
proof -
  let ?w = "(global_start [])\<lparr>gw_env := [set_create_lock True, id, set_create_lock False]\<rparr>"
  have "\<not> create_lock_held (attempt ?w 2)"
    by (simp add: numeral_2_eq_2 create_lock_held_def set_create_lock_def on_ga_def seen_def)
  moreover have "\<forall>i < 2. create_lock_held (attempt ?w i)"
    by (simp add: numeral_2_eq_2 less_Suc_eq create_lock_held_def set_create_lock_def on_ga_def seen_def)
  ultimately show ?thesis using lock_first_free [of create_lock_held set_create_lock ?w] by blast
qed

section \<open>Taking and giving back a token\<close>

lemma token_scan_result:
  "token_scan base i k w = (Some (tok, slot), w') \<Longrightarrow>
     \<exists>j s. i \<le> j \<and> j < i + k \<and> tok = of_nat (j + 1) \<and> slot = base + 8 * of_nat j
       \<and> gs_cell s slot = 0 \<and> gw_st w' = set_cell slot 1 s"
proof (induction k arbitrary: i w)
  case (Suc k)
  let ?slot = "base + 8 * of_nat i"
  obtain ok v where g: "g_op (cell_cas ?slot 0 1) w = (ok, v)" by (meson surj_pair)
  show ?case
  proof (cases ok)
    case True
    then obtain s where "gs_cell s ?slot = 0" "gw_st v = set_cell ?slot 1 s"
      using g by (auto simp: g_op_def seen_def Let_def cell_cas_def split: if_splits)
    with Suc.prems g True show ?thesis by (auto simp: Let_def)
  next
    case False
    then have "token_scan base (i + 1) k v = (Some (tok, slot), w')" using Suc.prems g by (simp add: Let_def)
    from Suc.IH [OF this] obtain j s where "i + 1 \<le> j" "j < i + 1 + k" "tok = of_nat (j + 1)" "slot = base + 8 * of_nat j"
      "gs_cell s slot = 0" "gw_st w' = set_cell slot 1 s" by blast
    then show ?thesis by (intro exI [of _ j] exI [of _ s]) simp
  qed
qed simp

text \<open>
  A token taken from a shard is one of its user tokens, never the service token, and valid for the
  core of the shard, which has one participant more than there are user tokens; its cell was free when it was taken;
  and releasing the token, or the exit of the thread it is bound to, clears exactly that cell.
\<close>

theorem user_token_valid:
  assumes "acquire_user_token shard w = (Some (tok, slot), w')"
    and "hsh_token_in_use (gs_shard (gw_st v) shard) = hsh_token_in_use (gs_shard (gw_st w) shard)"
    and "hsh_user_slots (gs_shard (gw_st v) shard) = hsh_user_slots (gs_shard (gw_st w) shard)"
  shows "tok \<noteq> SERVICE_TOKEN_ID \<and> unat tok \<le> unat (hsh_user_slots (gs_shard (gw_st w) shard))
    \<and> (\<exists>s. gs_cell s slot = 0 \<and> gw_st w' = set_cell slot 1 s)
    \<and> release_user_token shard tok v = g_put (set_cell slot 0) v
    \<and> (tl_token_slot (gw_tls v) = slot \<longrightarrow> slot \<noteq> 0 \<longrightarrow> gw_st (guard_drop v) = gw_st (g_put (set_cell slot 0) v))"
proof -
  let ?sh = "gs_shard (gw_st w) shard"
  obtain j s where j: "j < unat (hsh_user_slots ?sh)" "tok = of_nat (j + 1)" "slot = hsh_token_in_use ?sh + 8 * of_nat j"
    "gs_cell s slot = 0" "gw_st w' = set_cell slot 1 s"
    using token_scan_result [of "hsh_token_in_use ?sh" 0 "unat (hsh_user_slots ?sh)" w tok slot w'] assms(1)
    by (auto simp: acquire_user_token_def Let_def)
  have "j + 1 \<le> unat (hsh_user_slots ?sh)" using j(1) by simp
  also have "\<dots> < 18446744073709551616" by (rule unat_word_lt)
  finally have "j + 1 < 2 ^ 64" by simp
  then have u: "unat tok = j + 1" unfolding j(2) by (rule unat_of_nat_small)
  then have nz: "tok \<noteq> 0" by auto
  have "tok - 1 = of_nat j" by (simp add: j(2))
  moreover have "\<not> tok > hsh_user_slots ?sh" using j(1) u by (simp add: word_less_nat_alt)
  ultimately have "release_user_token shard tok v = g_put (set_cell slot 0) v"
    using nz assms(2,3) by (simp add: release_user_token_def Let_def j(3))
  moreover have "gw_st (guard_drop v) = gw_st (g_put (set_cell slot 0) v)" if "tl_token_slot (gw_tls v) = slot" "slot \<noteq> 0"
    using that by (cases "gw_env v") (simp_all add: guard_drop_def Let_def g_put_def g_op_def seen_def)
  ultimately show ?thesis using j(1,4,5) u nz by (auto simp: SERVICE_TOKEN_ID_def)
qed

theorem user_token_valid_witness:
  "\<exists>w w'. acquire_user_token 4096 w = (Some (2, 2056), w') \<and> release_user_token 4096 2 w' = g_put (set_cell 2056 0) w'"
proof -
  define w where "w = (global_start [])\<lparr>gw_st := set_cell 2048 1 (on_shard 4096
    (\<lambda>h. h\<lparr>hsh_user_slots := 2, hsh_token_in_use := 2048\<rparr>) (gw_st (global_start [])))\<rparr>"
  have two: "token_scan b i 2 v = token_scan b i (Suc (Suc 0)) v" for b i v by (simp only: numeral_2_eq_2)
  have "\<exists>w'. acquire_user_token 4096 w = (Some (2, 2056), w') \<and> gs_shard (gw_st w') = gs_shard (gw_st w)"
    by (simp add: acquire_user_token_def w_def set_cell_def on_shard_def g_op_def seen_def cell_cas_def Let_def global_start_def two)
  then obtain w' where a: "acquire_user_token 4096 w = (Some (2, 2056), w')" and s: "gs_shard (gw_st w') = gs_shard (gw_st w)"
    by blast
  from user_token_valid [OF a, of w'] a s show ?thesis by auto
qed

section \<open>Held tokens are different\<close>

text \<open>
  The token cells under any interleaving: \<open>tz_slot s t\<close> is the cell thread \<open>t\<close> holds, null for none.  A thread
  takes a cell by the CAS of the scan and clears its cell when it exits or moves to another shard;
  the creation of a shard clears cells nobody holds.
\<close>

record token_sys =
  tz_st :: global_state
  tz_slot :: "nat \<Rightarrow> address"

inductive tz_step :: "token_sys \<Rightarrow> token_sys \<Rightarrow> bool" where
  take_token: "tz_slot s t = 0 \<Longrightarrow> slot \<noteq> 0 \<Longrightarrow> cell_cas slot 0 1 (tz_st s) = (True, st) \<Longrightarrow>
    tz_step s (s\<lparr>tz_st := st, tz_slot := (tz_slot s)(t := slot)\<rparr>)"
| give_token: "tz_slot s t = slot \<Longrightarrow> slot \<noteq> 0 \<Longrightarrow>
    tz_step s (s\<lparr>tz_st := set_cell slot 0 (tz_st s), tz_slot := (tz_slot s)(t := 0)\<rparr>)"
| new_shard: "\<forall>t. tz_slot s t \<notin> (\<lambda>i. base + 8 * of_nat i) ` {..<unat n} \<Longrightarrow>
    tz_step s (s\<lparr>tz_st := clear_cells base n (tz_st s)\<rparr>)"
| other: "gs_cell st = gs_cell (tz_st s) \<Longrightarrow> tz_step s (s\<lparr>tz_st := st\<rparr>)"

definition tz_inv :: "token_sys \<Rightarrow> bool" where
  "tz_inv s \<longleftrightarrow> (\<forall>t. tz_slot s t \<noteq> 0 \<longrightarrow> gs_cell (tz_st s) (tz_slot s t) = 1)
     \<and> (\<forall>t u. tz_slot s t \<noteq> 0 \<longrightarrow> tz_slot s t = tz_slot s u \<longrightarrow> t = u)"

lemma set_cell_at [simp]: "gs_cell (set_cell a v s) = (gs_cell s)(a := v)"
  by (simp add: set_cell_def)

lemma clear_cells_at:
  "gs_cell (clear_cells base n s) a = (if a \<in> (\<lambda>i. base + 8 * of_nat i) ` {..<unat n} then 0 else gs_cell s a)"
proof -
  have "gs_cell (fold (\<lambda>i. set_cell (base + 8 * of_nat i) 0) is s) a =
      (if a \<in> (\<lambda>i. base + 8 * of_nat i) ` set is then 0 else gs_cell s a)" for "is"
    by (induction "is" arbitrary: s) auto
  from this [of "[0..<unat n]"] show ?thesis by (simp add: clear_cells_def atLeast0LessThan)
qed

lemma tz_step_inv:
  assumes "tz_step s s'" and "tz_inv s"
  shows "tz_inv s'"
  using assms
proof cases
  case (take_token t slot st)
  then have "gs_cell (tz_st s) slot = 0" "gs_cell st = (gs_cell (tz_st s))(slot := 1)"
    by (auto simp: cell_cas_def split: if_splits)
  with take_token assms(2) show ?thesis unfolding tz_inv_def by auto
next
  case (give_token t slot)
  with assms(2) show ?thesis unfolding tz_inv_def by auto
next
  case (new_shard base n)
  with assms(2) show ?thesis unfolding tz_inv_def by (simp add: clear_cells_at)
next
  case (other st)
  with assms(2) show ?thesis unfolding tz_inv_def by simp
qed

interpretation token_cells: inductive_invariant "\<lambda>s. tz_slot s = (\<lambda>_. 0)" tz_step tz_inv
  by unfold_locales (auto simp: tz_inv_def dest: tz_step_inv [unfolded tz_inv_def])



section \<open>A move that finds no token\<close>

text \<open>
  One shard at 4096 with one user token, held by the running thread; the request is too large for the core, so the
  thread creates a second shard (at 12288, its token cell at 8192) and gives its token back; before it scans the new
  cells, another thread has taken the only token there.
\<close>

definition race_const :: global_const where
  "race_const = \<lparr>gc_self = 64, gc_backend = Cmpxchg16b, gc_classes = 11, gc_hg = 1,
     gc_rows = \<lparr>heap_size = 100, heap_align = 64, records_size = 48, records_align = 16,
        run_records_size = 272, run_records_align = 16, dummy_off = \<lambda>_. 0\<rparr>,
     gc_shard_layout = \<lparr>lay_size = 1024, lay_align = 64\<rparr>, gc_memory = zero_memory\<rparr>"

definition race_storage :: layout where
  "race_storage = \<lparr>lay_size = 300000, lay_align = 8\<rparr>"

definition token_race :: gworld where
  "token_race = (global_start [65536, 1048576, 8192, 12288])\<lparr>
     gw_st := set_cell 2048 1 (on_ga (ga_head_update (\<lambda>_. 4096)) (on_shard 4096 (\<lambda>h. h\<lparr>hsh_user_slots := 1, hsh_token_in_use := 2048\<rparr>)
       (gw_st (global_start [])))),
     gw_tls := \<lparr>tl_alloc_id = 64, tl_shard = 4096, tl_token_id = 1, tl_token_slot = 2048, tl_guard = True\<rparr>,
     gw_env := replicate 13 id @ [set_cell 8192 1]\<rparr>"

lemma shard_same [simp]: "on_shard a (hsh_alloc_update (\<lambda>_. hsh_alloc (gs_shard s a))) s = s"
  by (simp add: on_shard_def)

lemma race_core_null: "core_alloc race_const sh race_storage t w = (0, w\<lparr>gw_core := tl (gw_core w)\<rparr>)"
proof -
  have "(2 :: nat) ^ (a + 4) \<le> 2 ^ 14" if "a < 11" for a using that by (intro power_increasing) auto
  then have "size_to_class 300000 8 = None"
    by (cases "size_to_class 300000 8") (fastforce simp: size_to_class_Some)+
  then have small: "small_class 11 race_storage = None" by (simp add: small_class_def race_storage_def)
  have "huge_class_for_layout 1 race_storage = None"
  proof (cases "huge_class_for_layout 1 race_storage")
    case (Some c)
    have "granule_valid 1" by (simp add: granule_valid_def)
    from Some [unfolded huge_class_Some [OF this]] have "c < 3" "300000 \<le> unat (huge_class_bytes 1 c)"
      by (simp_all add: wf_config race_storage_def huge_needed_def)
    moreover have "(2 :: nat) ^ c \<le> 2 ^ 2" if "c < 3" using that by (intro power_increasing) auto
    ultimately show ?thesis using huge_class_bytes_unat [OF \<open>granule_valid 1\<close>, of c] by simp
  qed simp
  with small have "alloc_with_token Cmpxchg16b n 11 1 race_storage tok = do { fresh_step; ret 0 }" for n tok
    by (simp add: alloc_with_token_def alloc_with_token_counted_def HUGE_THRESHOLD_def wf_config alloc_huge_def)
      (simp add: race_storage_def)
  then show ?thesis
    by (simp add: core_alloc_def core_call_def race_const_def Let_def fresh_step_def run_simps split_beta)
qed

lemma race_layouts: "shard_layouts race_const 1 5 =
    Some (2, \<lparr>lay_size = 848, lay_align = 64\<rparr>, \<lparr>lay_size = 327680, lay_align = 65536\<rparr>, \<lparr>lay_size = 8, lay_align = 8\<rparr>)"
proof -
  have al: "is_power_of_two 64" "is_power_of_two 65536" "is_power_of_two 8"
    using is_power_of_two_exp [of 6] is_power_of_two_exp [of 16] is_power_of_two_exp [of 3] by simp_all
  show ?thesis
    by (simp add: shard_layouts_def race_const_def metadata_region_size_def metadata_offsets_def align_up_usize_def
        checked_add_def checked_mul_def from_size_align_def layout_valid_def Let_def metadata_region_align_def max_usize_def
        wf_config al)
qed

lemma race_metadata: "\<exists>core. from_metadata_region (gc_rows race_const) 11 2 65536 848 zero_memory = Some (core, 848)"
  by (simp add: from_metadata_region_def race_const_def metadata_offsets_def align_up_usize_def checked_add_def checked_mul_def
      metadata_region_align_def max_usize_def)

lemma race_grow:
  "\<exists>w'. grow_and_retry race_const race_storage 4096 1 token_race = Some (0, w')
     \<and> gw_tls w' = gw_tls token_race \<and> gw_env w' = []
     \<and> gs_cell (gw_st w') 2048 = 0 \<and> gs_cell (gw_st w') 8192 = 1 \<and> ga_head (gs_ga (gw_st w')) = 12288
     \<and> hsh_user_slots (gs_shard (gw_st w') 12288) = 1 \<and> hsh_token_in_use (gs_shard (gw_st w') 12288) = 8192
     \<and> hsh_next (gs_shard (gw_st w') 12288) = 4096
     \<and> hsh_user_slots (gs_shard (gw_st w') 4096) = 1 \<and> hsh_token_in_use (gs_shard (gw_st w') 4096) = 2048"
proof -
  obtain core where core: "from_metadata_region (gc_rows race_const) 11 2 65536 848 zero_memory = Some (core, 848)"
    using race_metadata by blast
  have c: "gc_classes race_const = 11" "gc_memory race_const = zero_memory" by (simp_all add: race_const_def)
  have need: "growth_spans race_storage = 5"
    by (simp add: growth_spans_def race_storage_def div_ceil_def wf_config Let_def)
  define st0 where "st0 = gw_st token_race"
  have reg: "region_spans (set_create_lock b st0) = 4" "threads_per_shard (set_create_lock b st0) = 1" "region_spans st0 = 4"
    "\<not> create_lock_held st0" for b
    by (simp_all add: st0_def region_spans_def threads_per_shard_def token_race_def global_start_def ga_new_def with_config_def
        config_new_def on_ga_def on_shard_def set_cell_def set_create_lock_def create_lock_held_def)
  have w0: "token_race = \<lparr>gw_st = st0, gw_tls = gw_tls token_race, gw_env = [id, id, id, id, id, id, id, id, id, id, id, id, id, set_cell 8192 1],
     gw_sys = [65536, 1048576, 8192, 12288], gw_core = []\<rparr>"
    by (simp add: st0_def token_race_def global_start_def numeral_eq_Suc)
  define tls where "tls = gw_tls token_race"
  have shards: "hsh_user_slots (gs_shard st0 4096) = 1" "hsh_token_in_use (gs_shard st0 4096) = 2048"
    by (simp_all add: st0_def token_race_def set_cell_def on_ga_def on_shard_def)
  have heads: "ga_head (gs_ga st0) = 4096"
    by (simp add: st0_def token_race_def set_cell_def on_ga_def on_shard_def)
  note ops = g_op_def seen_def g_put_def Let_def
  have lock: "lock create_lock_held set_create_lock token_race = Some \<lparr>gw_st = set_create_lock True st0, gw_tls = tls,
      gw_env = [id, id, id, id, id, id, id, id, id, id, id, id, set_cell 8192 1], gw_sys = [65536, 1048576, 8192, 12288], gw_core = []\<rparr>"
    by (subst w0, subst lock_unfold) (simp add: reg tls_def seen_def)
  have create: "\<exists>st. shard_create race_const 1 5 \<lparr>gw_st = set_create_lock True st0, gw_tls = tls,
      gw_env = [id, id, id, id, id, id, id, id, id, id, id, id, set_cell 8192 1], gw_sys = [65536, 1048576, 8192, 12288], gw_core = []\<rparr>
    = (12288, \<lparr>gw_st = st, gw_tls = tls, gw_env = [id, id, id, id, id, id, set_cell 8192 1], gw_sys = [], gw_core = []\<rparr>)
     \<and> gs_ga st = gs_ga (set_create_lock True st0) \<and> gs_cell st = (gs_cell st0)(8192 := 0) \<and> gs_shard st 4096 = gs_shard st0 4096
     \<and> hsh_user_slots (gs_shard st 12288) = 1 \<and> hsh_token_in_use (gs_shard st 12288) = 8192"
    by (simp add: shard_create_def race_layouts shard_install_def c core ops sys_alloc_def)
      (simp add: on_shard_def clear_cells_def set_cell_def on_ga_def set_create_lock_def)
  then obtain st where st: "shard_create race_const 1 5 \<lparr>gw_st = set_create_lock True st0, gw_tls = tls,
      gw_env = [id, id, id, id, id, id, id, id, id, id, id, id, set_cell 8192 1], gw_sys = [65536, 1048576, 8192, 12288], gw_core = []\<rparr>
    = (12288, \<lparr>gw_st = st, gw_tls = tls, gw_env = [id, id, id, id, id, id, set_cell 8192 1], gw_sys = [], gw_core = []\<rparr>)"
     "gs_ga st = gs_ga (set_create_lock True st0)" "gs_cell st = (gs_cell st0)(8192 := 0)" "gs_shard st 4096 = gs_shard st0 4096"
     "hsh_user_slots (gs_shard st 12288) = 1" "hsh_token_in_use (gs_shard st 12288) = 8192"
    by blast
  have rs: "region_spans (gw_st token_race) = 4" using reg(3) by (simp add: st0_def)
  obtain st2 where link: "create_and_link_shard race_const 5 token_race
      = Some (Some 12288, \<lparr>gw_st = st2, gw_tls = tls, gw_env = [id, set_cell 8192 1], gw_sys = [], gw_core = []\<rparr>)"
    and st2: "ga_head (gs_ga st2) = 12288" "gs_cell st2 = gs_cell st" "gs_shard st2 4096 = gs_shard st 4096"
      "gs_shard st2 12288 = (gs_shard st 12288)\<lparr>hsh_next := 4096\<rparr>"
    using heads
    by (simp add: create_and_link_shard_def lock reg st(1) ops unlock_def)
      (simp add: on_ga_def on_shard_def set_create_lock_def st(2))
  note sh = st(4-6) shards
  show ?thesis
    by (simp add: grow_and_retry_def need rs link release_user_token_def acquire_user_token_def st2 sh ops cell_cas_def set_cell_def on_ga_def)
      (simp add: st2 sh st(3) tls_def)
qed

text \<open>
  C21. Moving to a new shard can leave two threads with the same token: the thread gives its token back before it has
  one in the new shard; when another thread has meanwhile taken the last token there, the call falls back, and the
  thread stays bound to the token it gave back, which the next thread to ask for a token receives too.
\<close>

theorem growth_shares_token:
  "bound_token race_const (gw_tls token_race) = Some (4096, 1) \<and> gs_cell (gw_st token_race) 2048 = 1
   \<and> (\<exists>w' v. alloc_from_wfspan race_const race_storage token_race = Some (0, w')
        \<and> bound_token race_const (gw_tls w') = Some (4096, 1)
        \<and> bind_thread race_const (w'\<lparr>gw_tls := tls_new\<rparr>) = Some (Some (4096, 1), v))"
proof -
  have b: "bound_token race_const (gw_tls token_race) = Some (4096, 1)"
    by (simp add: bound_token_def race_const_def token_race_def usize_max_def)
  have core: "token_race\<lparr>gw_core := tl (gw_core token_race)\<rparr> = token_race"
    by (simp add: token_race_def global_start_def)
  obtain w' where g: "grow_and_retry race_const race_storage 4096 1 token_race = Some (0, w')"
    and w': "gw_tls w' = gw_tls token_race" "gw_env w' = []"
     "gs_cell (gw_st w') 2048 = 0" "gs_cell (gw_st w') 8192 = 1" "ga_head (gs_ga (gw_st w')) = 12288"
     "hsh_user_slots (gs_shard (gw_st w') 12288) = 1" "hsh_token_in_use (gs_shard (gw_st w') 12288) = 8192"
     "hsh_next (gs_shard (gw_st w') 12288) = 4096"
     "hsh_user_slots (gs_shard (gw_st w') 4096) = 1" "hsh_token_in_use (gs_shard (gw_st w') 4096) = 2048"
    using race_grow by blast
  have a: "alloc_from_wfspan race_const race_storage token_race = Some (0, w')"
    by (simp add: alloc_from_wfspan_def bind_thread_def b race_core_null core g)
  let ?w = "w'\<lparr>gw_tls := tls_new\<rparr>"
  have e: "w'\<lparr>gw_tls := x, gw_env := []\<rparr> = w'\<lparr>gw_tls := x\<rparr>" for x using w'(2) by simp
  have "\<exists>v. acquire_walk 4096 ?w = Some (Some (4096, 1, 2048), v)"
    by (subst acquire_walk.simps) (simp add: g_op_def seen_def Let_def acquire_user_token_def w' cell_cas_def)
  then obtain v where "acquire_walk 4096 ?w = Some (Some (4096, 1, 2048), v)" ..
  then have "acquire_walk 12288 ?w = Some (Some (4096, 1, 2048), v)"
    by (subst acquire_walk.simps) (simp add: g_op_def seen_def Let_def acquire_user_token_def w' cell_cas_def e)
  then have "acquire_token_from_any_shard race_const ?w = Some (Some (4096, 1, 2048), v)"
    by (subst acquire_token_from_any_shard.simps) (simp add: g_op_def seen_def Let_def w' e)
  then have "\<exists>v. bind_thread race_const ?w = Some (Some (4096, 1), v)"
    by (simp add: bind_thread_def bound_token_def tls_new_def)
  moreover have "gs_cell (gw_st token_race) 2048 = 1" by (simp add: token_race_def)
  ultimately show ?thesis using b a w'(1) by metis
qed

end
