(* ===== verification/Quiet_Wrapper.thy ===== *)
theory Quiet_Wrapper
  imports Global_Contents Heap_Sessions
begin

text \<open>
  The wrapper with every call left alone: what its locks, its walks over the shards and the creation of a shard do
  when no other thread runs and the blocks of the system allocator are as that allocator promises.
\<close>

section \<open>Accesses\<close>

definition alone :: "gworld \<Rightarrow> bool" where
  "alone w \<longleftrightarrow> gw_env w = [] \<and> gw_core w = []"

lemma alone_keeps [simp]:
  "alone (w\<lparr>gw_st := s\<rparr>) = alone w" "alone (w\<lparr>gw_tls := t\<rparr>) = alone w" "alone (w\<lparr>gw_sys := a\<rparr>) = alone w"
  by (simp_all add: alone_def)

lemma alone_op:
  assumes "alone w"
  shows "g_op f w = (fst (f (gw_st w)), w\<lparr>gw_st := snd (f (gw_st w))\<rparr>)" "g_put h w = w\<lparr>gw_st := h (gw_st w)\<rparr>"
proof -
  have "w\<lparr>gw_st := s, gw_env := tl (gw_env w)\<rparr> = w\<lparr>gw_st := s\<rparr>" for s
    using assms by (cases w) (simp add: alone_def)
  then show o: "g_op f w = (fst (f (gw_st w)), w\<lparr>gw_st := snd (f (gw_st w))\<rparr>)" for f :: "global_state \<Rightarrow> 'b \<times> global_state"
    using assms by (simp add: g_op_def seen_def alone_def Let_def)
  show "g_put h w = w\<lparr>gw_st := h (gw_st w)\<rparr>" by (simp add: g_put_def o)
qed

lemma alone_lock:
  assumes "alone w" "\<not> held (gw_st w)"
  shows "lock held put w = Some (w\<lparr>gw_st := put True (gw_st w)\<rparr>)"
  by (subst lock.simps) (simp add: alone_op [OF assms(1)] try_lock_def assms(2))

lemma alone_core:
  assumes "alone w" "active_threads (hsh_alloc (gs_shard (gw_st w) sh)) = n"
    and q: "quietly (p n) (hsh_alloc (gs_shard (gw_st w) sh)) Q" and r: "core_call sh p w = (r, w')"
  obtains t where "Q r t" "w' = w\<lparr>gw_st := on_shard sh (hsh_alloc_update (\<lambda>_. t)) (gw_st w)\<rparr>"
proof -
  let ?w = "\<lparr>w_sh = hsh_alloc (gs_shard (gw_st w) sh), w_step = step_new, w_env = [], w_sc_fail = []\<rparr>"
  obtain x v where x: "run_state (p n) ?w = (x, v)" by (meson surj_pair)
  have "w\<lparr>gw_st := s, gw_core := tl (gw_core w)\<rparr> = w\<lparr>gw_st := s\<rparr>" for s
    using assms(1) by (cases w) (simp add: alone_def)
  then have "r = x" "w' = w\<lparr>gw_st := on_shard sh (hsh_alloc_update (\<lambda>_. w_sh v)) (gw_st w)\<rparr>"
    using r assms(1,2) x by (auto simp: core_call_def alone_def Let_def)
  moreover have "Q x (w_sh v)" using quietlyD [OF q _ _ x] by simp
  ultimately show ?thesis using that by blast
qed

lemma on_shard_same [simp]: "gs_shard (on_shard a f s) b = (if b = a then f (gs_shard s a) else gs_shard s b)"
  "gs_ga (on_shard a f s) = gs_ga s" "gs_sys (on_shard a f s) = gs_sys s" "gs_hdr (on_shard a f s) = gs_hdr s"
  "gs_cell (on_shard a f s) = gs_cell s" "gs_shard (on_ga g s) = gs_shard s" "gs_ga (on_ga g s) = g (gs_ga s)"
  "gs_sys (on_ga g s) = gs_sys s" "gs_hdr (on_ga g s) = gs_hdr s" "gs_cell (on_ga g s) = gs_cell s"
  "gs_shard (set_cell c v s) = gs_shard s" "gs_ga (set_cell c v s) = gs_ga s" "gs_sys (set_cell c v s) = gs_sys s"
  "gs_hdr (set_cell c v s) = gs_hdr s"
  by (simp_all add: on_shard_def on_ga_def set_cell_def)

section \<open>The system allocator\<close>

text \<open>
  What \<^verbatim>\<open>System\<close> promises of the blocks it has given out and not taken back: they are aligned for their layouts and do
  not overlap.
\<close>

definition sys_wf :: "(address \<times> layout) list \<Rightarrow> bool" where
  "sys_wf bs \<longleftrightarrow> distinct bs
     \<and> (\<forall>(a, lay) \<in> set bs. a \<noteq> 0 \<and> is_aligned a (lay_align lay) \<and> unat a + unat (lay_size lay) < 2 ^ 64)
     \<and> (\<forall>x \<in> set bs. \<forall>y \<in> set bs. x \<noteq> y \<longrightarrow>
          apart (unat (fst x), unat (fst x) + unat (lay_size (snd x))) (unat (fst y), unat (fst y) + unat (lay_size (snd y))))"

lemma sys_wf_append: "sys_wf (xs @ ys) \<Longrightarrow> sys_wf ys"
  unfolding sys_wf_def by simp

lemma sys_wf_subset: "sys_wf bs \<Longrightarrow> distinct cs \<Longrightarrow> set cs \<subseteq> set bs \<Longrightarrow> sys_wf cs"
  unfolding sys_wf_def by blast

lemma sys_wf_block:
  "sys_wf bs \<Longrightarrow> (a, lay) \<in> set bs \<Longrightarrow> a \<noteq> 0 \<and> is_aligned a (lay_align lay) \<and> unat a + unat (lay_size lay) < 2 ^ 64"
  unfolding sys_wf_def by blast

lemma sys_wf_apart:
  "sys_wf bs \<Longrightarrow> (a, l) \<in> set bs \<Longrightarrow> (b, m) \<in> set bs \<Longrightarrow> (a, l) \<noteq> (b, m) \<Longrightarrow>
     apart (unat a, unat a + unat (lay_size l)) (unat b, unat b + unat (lay_size m))"
  unfolding sys_wf_def by fastforce

text \<open>What creating a shard leaves alone: all but cells, the answers and, on success, the record of the shard.\<close>

definition given :: "(address \<times> layout) list \<Rightarrow> gworld \<Rightarrow> gworld \<Rightarrow> bool" where
  "given bs w w' \<longleftrightarrow> (\<exists>as. w' = w\<lparr>gw_st := (gw_st w)\<lparr>gs_sys := bs @ gs_sys (gw_st w)\<rparr>, gw_sys := as\<rparr>)"

lemma gworld_order [simp]:
  fixes w :: gworld
  shows "w\<lparr>gw_sys := a, gw_st := s\<rparr> = w\<lparr>gw_st := s, gw_sys := a\<rparr>" "w\<lparr>gw_sys := a, gw_tls := t\<rparr> = w\<lparr>gw_tls := t, gw_sys := a\<rparr>"
    "w\<lparr>gw_tls := t, gw_st := s\<rparr> = w\<lparr>gw_st := s, gw_tls := t\<rparr>"
  by (cases w; simp)+

lemma given_refl: "given [] w w"
  unfolding given_def by (rule exI [of _ "gw_sys w"]) simp

lemma alone_sys_alloc:
  assumes "alone w" "sys_alloc lay w = (a, w')"
  shows "alone w'" "if a = 0 then given [] w w' else given [(a, lay)] w w'"
proof -
  have "alone w' \<and> (if a = 0 then given [] w w' else given [(a, lay)] w w')"
  proof (cases "gw_sys w")
    case Nil
    then show ?thesis using assms given_refl by (simp add: sys_alloc_def)
  next
    case (Cons b bs)
    then have "a = b" "w' = (if b = 0 then w else w\<lparr>gw_st := (gw_st w)\<lparr>gs_sys := (b, lay) # gs_sys (gw_st w)\<rparr>\<rparr>)\<lparr>gw_sys := bs\<rparr>"
      using assms(2) by (auto simp: sys_alloc_def alone_op [OF assms(1)])
    then show ?thesis using assms(1) by (auto simp: given_def intro!: exI [of _ bs])
  qed
  then show "alone w'" "if a = 0 then given [] w w' else given [(a, lay)] w w'" by blast+
qed

lemma alone_sys_dealloc: "alone w \<Longrightarrow> sys_dealloc a lay w = w\<lparr>gw_st := (gw_st w)\<lparr>gs_sys := remove1 (a, lay) (gs_sys (gw_st w))\<rparr>\<rparr>"
  by (simp add: sys_dealloc_def alone_op)

lemma given_trans: "given bs w w' \<Longrightarrow> given cs w' w'' \<Longrightarrow> given (cs @ bs) w w''"
  by (auto simp: given_def)

lemma given_back: "alone w \<Longrightarrow> given (bs @ cs) w w' \<Longrightarrow> given cs w (fold (\<lambda>(b, l). sys_dealloc b l) bs w') \<and> alone (fold (\<lambda>(b, l). sys_dealloc b l) bs w')"
proof (induction bs arbitrary: w')
  case Nil
  then show ?case by (auto simp: given_def)
next
  case (Cons b bs)
  obtain a l where b: "b = (a, l)" by (cases b)
  have "alone w'" using Cons.prems by (auto simp: given_def)
  then have "given (bs @ cs) w (sys_dealloc a l w')" using Cons.prems(2) by (auto simp: given_def alone_sys_dealloc b)
  from Cons.IH [OF Cons.prems(1) this] show ?case by (simp add: b)
qed

lemma alone_sys_alloc_all:
  assumes "alone v" "given got v w" "sys_alloc_all lays got w = (r, w')"
  shows "alone w' \<and> (case r of None \<Rightarrow> given [] v w'
    | Some as \<Rightarrow> as = List.map fst (rev got) @ drop (length got) as \<and> length as = length got + length lays
        \<and> 0 \<notin> set (drop (length got) as) \<and> given (rev (zip (drop (length got) as) lays) @ got) v w')"
  using assms
proof (induction lays arbitrary: got w)
  case Nil
  then show ?case by (auto simp: given_def)
next
  case (Cons lay lays)
  have w: "alone w" using Cons.prems(1,2) by (auto simp: given_def)
  obtain a u where a: "sys_alloc lay w = (a, u)" by (meson surj_pair)
  note al = alone_sys_alloc [OF w a]
  show ?case
  proof (cases "a = 0")
    case True
    then have "given got v u" using given_trans [OF Cons.prems(2), of "[]" u] al(2) by simp
    from given_back [of v got "[]" u] this Cons.prems(1,3) True a show ?thesis by (auto simp: given_def)
  next
    case False
    then have g: "given ((a, lay) # got) v u" using given_trans [OF Cons.prems(2), of "[(a, lay)]" u] al(2) by simp
    have "sys_alloc_all lays ((a, lay) # got) u = (r, w')" using Cons.prems(3) False a by simp
    from Cons.IH [OF Cons.prems(1) g this] show ?thesis
    proof (elim conjE, intro conjI, goal_cases)
      case 2
      show ?case
      proof (cases r)
        case None
        with 2 show ?thesis by simp
      next
        case (Some as)
        with 2 have as: "as = (List.map fst (rev got) @ [a]) @ drop (Suc (length got)) as" "length as = Suc (length got + length lays)"
            "0 \<notin> set (drop (Suc (length got)) as)" "given (rev (zip (drop (Suc (length got)) as) lays) @ (a, lay) # got) v w'"
          by simp_all
        have "as ! length got = a" by (subst as(1)) (simp add: nth_append)
        then have d: "drop (length got) as = a # drop (Suc (length got)) as" using as(2) by (metis Cons_nth_drop_Suc add_Suc_right le_imp_less_Suc le_add1)
        then show ?thesis using as False Some by auto
      qed
    qed
  qed
qed

section \<open>Creating a shard\<close>

lemma clear_cells_shape: "\<exists>cells. clear_cells b n s = s\<lparr>gs_cell := cells\<rparr> \<and> (0 < n \<longrightarrow> cells b = 0)"
proof -
  have "\<exists>cells. fold (\<lambda>i. set_cell (b + 8 * of_nat i) 0) [0..<k] s = s\<lparr>gs_cell := cells\<rparr> \<and> (0 < k \<longrightarrow> cells b = 0)" for k
  proof (induction k)
    case 0
    show ?case by (rule exI [of _ "gs_cell s"]) simp
  next
    case (Suc k)
    then obtain cells where c: "fold (\<lambda>i. set_cell (b + 8 * of_nat i) 0) [0..<k] s = s\<lparr>gs_cell := cells\<rparr>" "0 < k \<longrightarrow> cells b = 0" by blast
    have "fold (\<lambda>i. set_cell (b + 8 * of_nat i) 0) [0..<Suc k] s = s\<lparr>gs_cell := cells(b + 8 * of_nat k := 0)\<rparr>"
      by (simp add: c(1)) (simp add: set_cell_def)
    moreover have "(cells(b + 8 * of_nat k := 0)) b = 0" using c(2) by (cases "k = 0") simp_all
    ultimately show ?case by blast
  qed
  from this [of "unat n"] show ?thesis by (simp add: clear_cells_def word_less_nat_alt)
qed

definition shard_blocks :: "global_const \<Rightarrow> layout \<times> layout \<times> layout \<Rightarrow> address \<Rightarrow> address \<Rightarrow> address \<Rightarrow> address \<Rightarrow> (address \<times> layout) list" where
  "shard_blocks G lays m r t a = (case lays of (ml, rl, kl) \<Rightarrow> [(a, gc_shard_layout G), (t, kl), (r, rl), (m, ml)])"

text \<open>The record of a new shard at \<open>a\<close> and its blocks.\<close>

definition fresh_shard where
  "fresh_shard G a us bs sh \<longleftrightarrow> (\<exists>sp n ml rl kl m r t core used. shard_layouts G us sp = Some (n, ml, rl, kl)
     \<and> from_metadata_region (gc_rows G) (gc_classes G) n m (lay_size ml) (gc_memory G) = Some (core, used)
     \<and> bs = shard_blocks G (ml, rl, kl) m r t a
     \<and> sh = \<lparr>hsh_next = 0, hsh_user_slots = us, hsh_token_in_use = t, hsh_service_lock = False,
           hsh_region_spans = sp, hsh_alloc = init (gc_classes G) r (lay_size rl) core\<rparr>)"

definition created where
  "created G us w a w' \<longleftrightarrow> (\<exists>bs sh cells as. fresh_shard G a us bs sh \<and> (0 < us \<longrightarrow> cells (hsh_token_in_use sh) = 0)
     \<and> w' = w\<lparr>gw_st := on_shard a (\<lambda>_. sh) ((gw_st w)\<lparr>gs_cell := cells, gs_sys := bs @ gs_sys (gw_st w)\<rparr>), gw_sys := as\<rparr>)"

definition not_created where
  "not_created w w' \<longleftrightarrow> (\<exists>cells as. w' = w\<lparr>gw_st := (gw_st w)\<lparr>gs_cell := cells\<rparr>, gw_sys := as\<rparr>)"

lemma not_created_refl: "not_created w w"
  unfolding not_created_def by (intro exI [of _ "gs_cell (gw_st w)"] exI [of _ "gw_sys w"]) simp

lemma alone_shard_create:
  assumes "alone w" "shard_create G us sp w = (a, w')"
  shows "alone w'" "if a = 0 then not_created w w' else created G us w a w'"
proof -
  have "alone w' \<and> (if a = 0 then not_created w w' else created G us w a w')"
  proof (cases "shard_layouts G us sp")
    case None
    then show ?thesis using assms not_created_refl by (simp add: shard_create_def)
  next
    case (Some lays)
    obtain n ml rl kl where l: "lays = (n, ml, rl, kl)" by (cases lays)
    obtain x v where x: "sys_alloc_all [ml, rl, kl, gc_shard_layout G] [] w = (x, v)" by (meson surj_pair)
    note al = alone_sys_alloc_all [OF assms(1) given_refl x]
    show ?thesis
    proof (cases x)
      case None
      then show ?thesis
        using assms(2) al by (auto simp: shard_create_def Some l x given_def not_created_def simp del: sys_alloc_all.simps
            intro!: exI [of _ "gs_cell (gw_st w)"])
    next
      case as: (Some xs)
      then obtain m r t b where xs: "xs = [m, r, t, b]" "b \<noteq> 0" "alone v" "given [(b, gc_shard_layout G), (t, kl), (r, rl), (m, ml)] w v"
        using al by (auto simp: length_Suc_conv)
      then obtain ys where v: "v = w\<lparr>gw_st := (gw_st w)\<lparr>gs_sys := [(b, gc_shard_layout G), (t, kl), (r, rl), (m, ml)] @ gs_sys (gw_st w)\<rparr>, gw_sys := ys\<rparr>"
        by (auto simp: given_def)
      obtain cells where c: "clear_cells t us (gw_st v) = (gw_st v)\<lparr>gs_cell := cells\<rparr>" "0 < us \<longrightarrow> cells t = 0"
        using clear_cells_shape by blast
      have u: "g_put (clear_cells t us) v = w\<lparr>gw_st := (gw_st w)\<lparr>gs_cell := cells, gs_sys := [(b, gc_shard_layout G), (t, kl), (r, rl), (m, ml)] @ gs_sys (gw_st w)\<rparr>, gw_sys := ys\<rparr>"
        by (simp add: alone_op xs(3) c(1)) (simp add: v)
      have i: "shard_install G us sp lays m r t b v = (a, w')"
        using assms(2) by (simp add: shard_create_def Some l x as xs(1) del: sys_alloc_all.simps)
      show ?thesis
      proof (cases "from_metadata_region (gc_rows G) (gc_classes G) n m (lay_size ml) (gc_memory G)")
        case None
        then show ?thesis
          using i assms(1) by (auto simp: shard_install_def l u alone_sys_dealloc not_created_def)
      next
        case (Some p)
        obtain core used where "p = (core, used)" by (cases p)
        then have s: "from_metadata_region (gc_rows G) (gc_classes G) n m (lay_size ml) (gc_memory G) = Some (core, used)"
          using Some by simp
        let ?sh = "\<lparr>hsh_next = 0, hsh_user_slots = us, hsh_token_in_use = t, hsh_service_lock = False,
            hsh_region_spans = sp, hsh_alloc = init (gc_classes G) r (lay_size rl) core\<rparr>"
        have ab: "a = b" "w' = w\<lparr>gw_st := on_shard b (\<lambda>_. ?sh)
            ((gw_st w)\<lparr>gs_cell := cells, gs_sys := shard_blocks G (ml, rl, kl) m r t b @ gs_sys (gw_st w)\<rparr>), gw_sys := ys\<rparr>"
          using i assms(1) by (auto simp: shard_install_def l u alone_op shard_blocks_def Let_def s)
        have "shard_layouts G us sp = Some (n, ml, rl, kl)" using \<open>shard_layouts G us sp = Some lays\<close> by (simp only: l)
        then have "fresh_shard G b us (shard_blocks G (ml, rl, kl) m r t b) ?sh" using s unfolding fresh_shard_def by blast
        moreover have "0 < us \<longrightarrow> cells (hsh_token_in_use ?sh) = 0" using c(2) by simp
        ultimately have "created G us w a w'" unfolding created_def ab by blast
        with ab(1) assms(1) xs(2) show ?thesis by (auto simp: created_def)
      qed
    qed
  qed
  then show "alone w'" "if a = 0 then not_created w w' else created G us w a w'" by blast+
qed

section \<open>Tokens and growth\<close>

text \<open>Nothing but token cells and counters changes.\<close>

definition unmoved :: "global_state \<Rightarrow> global_state \<Rightarrow> bool" where
  "unmoved s t \<longleftrightarrow> gs_shard t = gs_shard s \<and> gs_hdr t = gs_hdr s \<and> gs_sys t = gs_sys s
     \<and> ga_head (gs_ga t) = ga_head (gs_ga s) \<and> ga_create_lock (gs_ga t) = ga_create_lock (gs_ga s)"

lemma unmoved_refl [simp]: "unmoved s s"
  by (simp add: unmoved_def)

lemma unmoved_trans [trans]: "unmoved s t \<Longrightarrow> unmoved t u \<Longrightarrow> unmoved s u"
  by (simp add: unmoved_def)

lemma unmoved_cells [simp]: "unmoved s (set_cell c v s)" "unmoved s (s\<lparr>gs_cell := cells\<rparr>)" "unmoved s (s\<lparr>gs_byte := bytes\<rparr>)"
  by (simp_all add: unmoved_def set_cell_def)

text \<open>A shard at \<open>a\<close> has become the head of the list.\<close>

definition grown :: "global_const \<Rightarrow> global_state \<Rightarrow> address \<Rightarrow> global_state \<Rightarrow> bool" where
  "grown G s a t \<longleftrightarrow> a \<noteq> 0 \<and> (\<exists>us bs sh. fresh_shard G a us bs sh \<and> gs_shard t = (gs_shard s)(a := sh\<lparr>hsh_next := ga_head (gs_ga s)\<rparr>)
     \<and> gs_sys t = bs @ gs_sys s \<and> gs_hdr t = gs_hdr s \<and> ga_head (gs_ga t) = a \<and> ga_create_lock (gs_ga t) = ga_create_lock (gs_ga s)
     \<and> (0 < us \<longrightarrow> gs_cell t (hsh_token_in_use sh) = 0))"

lemma alone_create_link:
  assumes w: "alone w" "\<not> ga_create_lock (gs_ga (gw_st w))"
  obtains r w' where "create_and_link_shard G m w = Some (r, w')" "alone w'" "gw_tls w' = gw_tls w"
    "case r of None \<Rightarrow> unmoved (gw_st w) (gw_st w') | Some a \<Rightarrow> grown G (gw_st w) a (gw_st w')"
proof -
  define v where "v = w\<lparr>gw_st := set_create_lock True (gw_st w)\<rparr>"
  have l: "lock create_lock_held set_create_lock w = Some v"
    unfolding v_def by (rule alone_lock) (use w in \<open>simp_all add: create_lock_held_def\<close>)
  obtain a u where c: "shard_create G (threads_per_shard (gw_st v)) (max (region_spans (gw_st v)) m) v = (a, u)"
    by (meson surj_pair)
  note al = alone_shard_create [OF _ c]
  have v: "alone v" using w by (simp add: v_def)
  have u: "alone u" using al(1) v by simp
  show ?thesis
  proof (cases "a = 0")
    case True
    then obtain cells as where u': "u = v\<lparr>gw_st := (gw_st v)\<lparr>gs_cell := cells\<rparr>, gw_sys := as\<rparr>" using al(2) v by (auto simp: not_created_def)
    let ?w' = "unlock set_create_lock (bump_ga ga_shard_creation_failures_update u)"
    have "create_and_link_shard G m w = Some (None, ?w')" by (simp add: create_and_link_shard_def l c True)
    moreover have "alone ?w'" using u by (simp add: unlock_def alone_op)
    moreover have "unmoved (gw_st w) (gw_st ?w')"
      using u w(2) by (simp add: unlock_def alone_op unmoved_def set_create_lock_def) (simp add: u' v_def set_create_lock_def)
    moreover have "gw_tls ?w' = gw_tls w" by (simp add: unlock_def u' v_def)
    ultimately show ?thesis by (intro that [of None ?w']) simp_all
  next
    case False
    then obtain bs sh cells as where sh: "fresh_shard G a (threads_per_shard (gw_st v)) bs sh"
        "0 < threads_per_shard (gw_st v) \<longrightarrow> cells (hsh_token_in_use sh) = 0"
      and u': "u = v\<lparr>gw_st := on_shard a (\<lambda>_. sh) ((gw_st v)\<lparr>gs_cell := cells, gs_sys := bs @ gs_sys (gw_st v)\<rparr>), gw_sys := as\<rparr>"
      using al(2) v by (auto simp: created_def)
    let ?w' = "unlock set_create_lock (bump_ga ga_shard_count_update (g_put (on_ga (ga_head_update (\<lambda>_. a)))
      (g_put (on_shard a (hsh_next_update (\<lambda>_. ga_head (gs_ga (gw_st u))))) u)))"
    have "create_and_link_shard G m w = Some (Some a, ?w')"
      using False u by (simp add: create_and_link_shard_def l c alone_op(1))
    moreover have "alone ?w'" using u by (simp add: unlock_def alone_op)
    moreover have "gw_tls ?w' = gw_tls w" by (simp add: unlock_def u' v_def)
    moreover have st: "gw_st ?w' = set_create_lock False (on_ga (ga_shard_count_update (\<lambda>k. k + 1)) (on_ga (ga_head_update (\<lambda>_. a))
        (on_shard a (hsh_next_update (\<lambda>_. ga_head (gs_ga (gw_st u)))) (gw_st u))))"
      using u by (simp add: unlock_def alone_op)
    have "gs_shard (gw_st ?w') = (gs_shard (gw_st w))(a := sh\<lparr>hsh_next := ga_head (gs_ga (gw_st w))\<rparr>)"
      "gs_sys (gw_st ?w') = bs @ gs_sys (gw_st w)" "gs_hdr (gw_st ?w') = gs_hdr (gw_st w)" "ga_head (gs_ga (gw_st ?w')) = a"
      "ga_create_lock (gs_ga (gw_st ?w')) = ga_create_lock (gs_ga (gw_st w))" "gs_cell (gw_st ?w') = cells"
      unfolding st using w(2) by (simp_all add: set_create_lock_def u' v_def fun_eq_iff)
    then have "grown G (gw_st w) a (gw_st ?w')" using False sh unfolding grown_def by auto
    ultimately show ?thesis by (intro that [of "Some a" ?w']) simp_all
  qed
qed

lemma alone_token_scan:
  assumes "alone w" "token_scan b i k w = (r, w')" "i + k < 2 ^ 64"
  shows "\<exists>cells. w' = w\<lparr>gw_st := (gw_st w)\<lparr>gs_cell := cells\<rparr>\<rparr>"
    "r = Some (t, slot) \<Longrightarrow> i < unat t \<and> unat t \<le> i + k"
    "0 < k \<Longrightarrow> gs_cell (gw_st w) (b + 8 * of_nat i) = 0 \<Longrightarrow> r \<noteq> None"
proof -
  have "(\<exists>cells. w' = w\<lparr>gw_st := (gw_st w)\<lparr>gs_cell := cells\<rparr>\<rparr>) \<and> (\<forall>t slot. r = Some (t, slot) \<longrightarrow> i < unat t \<and> unat t \<le> i + k)"
    using assms
  proof (induction k arbitrary: i)
    case 0
    then show ?case by (auto intro!: exI [of _ "gs_cell (gw_st w)"])
  next
    case (Suc k)
    let ?a = "b + 8 * of_nat i :: address"
    show ?case
    proof (cases "gs_cell (gw_st w) ?a = 0")
      case True
      have "unat (of_nat (i + 1) :: usize) = i + 1" using Suc.prems(3) by (intro unat_of_nat_small) simp
      then show ?thesis
        using Suc.prems True by (auto simp: alone_op cell_cas_def set_cell_def Let_def)
    next
      case False
      have "w\<lparr>gw_st := gw_st w\<rparr> = w" by simp
      then have "token_scan b (Suc i) k w = (r, w')" using Suc.prems(1,2) False by (simp add: alone_op cell_cas_def Let_def)
      from Suc.IH [OF Suc.prems(1) this] Suc.prems(3) show ?thesis by auto
    qed
  qed
  then show "\<exists>cells. w' = w\<lparr>gw_st := (gw_st w)\<lparr>gs_cell := cells\<rparr>\<rparr>" "r = Some (t, slot) \<Longrightarrow> i < unat t \<and> unat t \<le> i + k" by auto
  show "r \<noteq> None" if "0 < k" "gs_cell (gw_st w) (b + 8 * of_nat i) = 0"
    using that assms(1,2) by (cases k) (auto simp: alone_op cell_cas_def Let_def)
qed

lemma alone_acquire:
  assumes "alone w" "acquire_user_token a w = (r, w')"
  shows "alone w'" "gw_tls w' = gw_tls w" "unmoved (gw_st w) (gw_st w')"
    "r = Some (t, slot) \<Longrightarrow> unat t \<le> unat (hsh_user_slots (gs_shard (gw_st w) a))"
    "0 < hsh_user_slots (gs_shard (gw_st w) a) \<Longrightarrow> gs_cell (gw_st w) (hsh_token_in_use (gs_shard (gw_st w) a)) = 0 \<Longrightarrow> r \<noteq> None"
proof -
  let ?sh = "gs_shard (gw_st w) a"
  have r: "token_scan (hsh_token_in_use ?sh) 0 (unat (hsh_user_slots ?sh)) w = (r, w')" using assms(2) by (simp add: acquire_user_token_def Let_def)
  have b: "0 + unat (hsh_user_slots ?sh) < 2 ^ 64" by simp
  note s = alone_token_scan [OF assms(1) r b]
  show "alone w'" "gw_tls w' = gw_tls w" "unmoved (gw_st w) (gw_st w')" using s(1) assms(1) by auto
  show "unat t \<le> unat (hsh_user_slots ?sh)" if "r = Some (t, slot)" using s(2) [OF that] by simp
  show "r \<noteq> None" if "0 < hsh_user_slots ?sh" "gs_cell (gw_st w) (hsh_token_in_use ?sh) = 0"
    using s(3) that by (simp add: word_less_nat_alt)
qed

text \<open>The list of shards.\<close>

abbreviation shard_list :: "(address \<Rightarrow> hosted_shard) \<Rightarrow> address \<Rightarrow> address list \<Rightarrow> bool" where
  "shard_list f a xs \<equiv> chain (\<lambda>x. hsh_next (f x)) a xs 0"

text \<open>A binding is to a shard of the list and to one of its tokens.\<close>

definition token_ok :: "(address \<Rightarrow> hosted_shard) \<Rightarrow> address list \<Rightarrow> address \<Rightarrow> usize \<Rightarrow> bool" where
  "token_ok f shs a t \<longleftrightarrow> a \<in> set shs \<and> unat t \<le> unat (hsh_user_slots (f a))"

lemma alone_walk:
  assumes "alone w" "shard_list (gs_shard (gw_st w)) a xs"
  obtains r w' where "acquire_walk a w = Some (r, w')" "alone w'" "gw_tls w' = gw_tls w" "unmoved (gw_st w) (gw_st w')"
    "\<And>b t slot. r = Some (b, t, slot) \<Longrightarrow> token_ok (gs_shard (gw_st w)) xs b t"
  using assms
proof (induction xs arbitrary: a w thesis)
  case Nil
  then show ?case using acquire_walk.simps [of a w] by auto
next
  case (Cons x xs)
  have a: "a = x" "x \<noteq> 0" "shard_list (gs_shard (gw_st w)) (hsh_next (gs_shard (gw_st w) x)) xs" using Cons.prems(3) by auto
  obtain r v where r: "acquire_user_token x w = (r, v)" by (meson surj_pair)
  note q = alone_acquire [OF Cons.prems(2) r]
  have g: "gs_shard (gw_st v) = gs_shard (gw_st w)" using q(3) by (simp add: unmoved_def)
  show ?case
  proof (cases r)
    case (Some y)
    obtain t slot where y: "y = (t, slot)" by (cases y)
    have "acquire_walk a w = Some (Some (x, t, slot), v)" by (subst acquire_walk.simps) (simp add: a r Some y)
    moreover have "token_ok (gs_shard (gw_st w)) (x # xs) x t" using q(4) Some y by (simp add: token_ok_def)
    ultimately show ?thesis by (intro Cons.prems(1) [OF _ q(1-3)]) auto
  next
    case None
    have "acquire_walk a w = acquire_walk (hsh_next (gs_shard (gw_st v) x)) v"
      using a by (subst acquire_walk.simps) (simp add: r None alone_op(1) [OF q(1)])
    moreover obtain r' w' where r': "acquire_walk (hsh_next (gs_shard (gw_st v) x)) v = Some (r', w')" "alone w'" "gw_tls w' = gw_tls v"
        "unmoved (gw_st v) (gw_st w')" "\<And>b t slot. r' = Some (b, t, slot) \<Longrightarrow> token_ok (gs_shard (gw_st v)) xs b t"
      using Cons.IH [OF _ q(1), of "hsh_next (gs_shard (gw_st v) x)"] a(3) g by auto
    ultimately show ?thesis
      using r' q(2) unmoved_trans [OF q(3) r'(4)] g by (intro Cons.prems(1) [of r' w']) (auto simp: token_ok_def)
  qed
qed

text \<open>
  What the compiler guarantees of the layouts: alignments are powers of two, the dummy nodes of a heap row lie inside the
  row, apart from one another.
\<close>

definition const_ok :: "global_const \<Rightarrow> bool" where
  "const_ok G \<longleftrightarrow> allocator_valid (gc_classes G) (gc_hg G) \<and> rows_valid (gc_rows G) \<and> 0 < lay_size (gc_shard_layout G)
     \<and> (\<forall>l \<in> set (lanes (gc_classes G)). unat (dummy_off (gc_rows G) l) + 16 \<le> unat (heap_size (gc_rows G)))
     \<and> inj_on (dummy_off (gc_rows G)) (set (lanes (gc_classes G)))"

lemma shard_layouts_Some:
  assumes "shard_layouts G us sp = Some (n, ml, rl, kl)"
  shows "us \<noteq> 0" "sp \<noteq> 0" "unat n = unat us + 1" "metadata_region_size (gc_rows G) n = Some (lay_size ml)" "layout_valid ml"
    "unat (lay_size rl) = unat sp * 65536" "lay_align rl = SPAN_SIZE" "layout_valid rl"
proof -
  obtain ms rlen where d: "us \<noteq> 0" "sp \<noteq> 0" "checked_add us 1 = Some n" "metadata_region_size (gc_rows G) n = Some ms"
    "from_size_align ms (metadata_region_align (gc_rows G)) = Some ml" "checked_mul sp SPAN_SIZE = Some rlen"
    "from_size_align rlen SPAN_SIZE = Some rl"
    using assms by (auto simp: shard_layouts_def bind_Some_iff split: if_splits)
  then show "us \<noteq> 0" "sp \<noteq> 0" "unat n = unat us + 1" "metadata_region_size (gc_rows G) n = Some (lay_size ml)" "layout_valid ml"
    "unat (lay_size rl) = unat sp * 65536" "lay_align rl = SPAN_SIZE" "layout_valid rl"
    using checked_add_unat [OF d(3)] checked_mul_unat [OF d(6)] by (auto simp: from_size_align_Some wf_config)
qed

lemma shard_layouts_slots:
  assumes "shard_layouts G us sp = Some (n, ml, rl, kl)"
  shows "unat us + 1 < 2 ^ 62"
proof -
  obtain ts where "checked_mul 8 us = Some ts" "from_size_align ts 8 = Some kl"
    using assms by (auto simp: shard_layouts_def bind_Some_iff split: if_splits)
  then have "8 * unat us + 8 \<le> 2 ^ 63" using checked_mul_unat [of 8 us ts] by (auto simp: from_size_align_Some layout_valid_def)
  then show ?thesis by simp
qed

end
