(* ===== verification/Global_Service.thy ===== *)
theory Global_Service
  imports Quiet_Wrapper
begin

text \<open>
  The shards of the wrapper and the storage they serve.  A shard is in order when its core serves the storages it has given
  out and its region is one of the blocks obtained from the system allocator for it.
\<close>

section \<open>Shards\<close>

text \<open>
  \<open>bs\<close> are the blocks of the shard at \<open>a\<close>, \<open>held\<close> the storages its core has given out, in at most \<open>k\<close> calls.
\<close>

definition shard_at where
  "shard_at G D r rl k bs held a sh \<longleftrightarrow> (a, gc_shard_layout G) \<in> set bs \<and> (r, rl) \<in> set bs
     \<and> unat (hsh_user_slots sh) + 1 < 2 ^ 62 \<and> \<not> hsh_service_lock sh
     \<and> in_service (unat (hsh_user_slots sh) + 1) (gc_classes G) D (gc_hg G) held (hsh_alloc sh)
     \<and> dummies_outside D (g_pool (hsh_alloc sh)) \<and> unat r \<le> unat (pool_base (g_pool (hsh_alloc sh)))
     \<and> pool_end (g_pool (hsh_alloc sh)) \<le> unat r + unat (lay_size rl)
     \<and> unat (cursor (hsh_alloc sh)) \<le> unat (pool_count (g_pool (hsh_alloc sh))) + k \<and> length bs = 4"

definition shard_ok :: "global_const \<Rightarrow> nat \<Rightarrow> (address \<times> layout) list \<Rightarrow> (address \<rightharpoonup> layout) \<Rightarrow> address \<Rightarrow> hosted_shard \<Rightarrow> bool" where
  "shard_ok G k bs held a sh \<longleftrightarrow> (\<exists>D r rl. shard_at G D r rl k bs held a sh)"

lemma shard_atD:
  assumes "shard_at G D r rl k bs held a sh"
  shows "(a, gc_shard_layout G) \<in> set bs" "(r, rl) \<in> set bs" "unat (hsh_user_slots sh) + 1 < 2 ^ 62" "\<not> hsh_service_lock sh"
    "in_service (unat (hsh_user_slots sh) + 1) (gc_classes G) D (gc_hg G) held (hsh_alloc sh)" "dummies_outside D (g_pool (hsh_alloc sh))"
    "unat r \<le> unat (pool_base (g_pool (hsh_alloc sh)))" "pool_end (g_pool (hsh_alloc sh)) \<le> unat r + unat (lay_size rl)"
    "unat (cursor (hsh_alloc sh)) \<le> unat (pool_count (g_pool (hsh_alloc sh))) + k" "length bs = 4"
  using assms unfolding shard_at_def by blast+

text \<open>The dummy nodes lie in the metadata block.\<close>

lemma metadata_dummies:
  assumes G: "const_ok G" and o: "metadata_offsets (gc_rows G) n = Some (h, ro, rr, used)" and u: "used \<le> len"
    and m: "m \<noteq> 0" "unat m + unat len < 2 ^ 64"
    and dummy_at: "dummy_at = (\<lambda>l i. m + h + of_nat i * heap_size (gc_rows G) + dummy_off (gc_rows G) l)"
  shows "l \<in> set (lanes (gc_classes G)) \<Longrightarrow> i < unat n \<Longrightarrow>
       unat (dummy_at l i) = unat m + i * unat (heap_size (gc_rows G)) + unat (dummy_off (gc_rows G) l)
       \<and> unat (dummy_at l i) + 16 \<le> unat m + unat len"
    "inj_on (\<lambda>(l, i). dummy_at l i) (set (lanes (gc_classes G)) \<times> {..<unat n})"
proof -
  let ?L = "set (lanes (gc_classes G))" and ?z = "unat (heap_size (gc_rows G))" and ?d = "\<lambda>l. unat (dummy_off (gc_rows G) l)"
  have rv: "rows_valid (gc_rows G)" and off: "\<And>l. l \<in> ?L \<Longrightarrow> ?d l + 16 \<le> ?z" and inj: "inj_on (dummy_off (gc_rows G)) ?L"
    using G by (simp_all add: const_ok_def)
  note mo = metadata_offsets_Some [OF rv o]
  have len: "?z * unat n \<le> unat len" using mo(2,4,6) u by (simp add: word_le_nat_alt)
  have at: "unat (dummy_at l i) = unat m + i * ?z + ?d l \<and> unat (dummy_at l i) + 16 \<le> unat m + unat len"
    if l: "l \<in> ?L" "i < unat n" for l i
  proof -
    have "Suc i * ?z \<le> unat n * ?z" using l(2) by (intro mult_le_mono1) simp
    then have room: "i * ?z + ?d l + 16 \<le> unat len" using off [OF l(1)] len by (simp add: mult.commute)
    have "?z \<noteq> 0" using off [OF l(1)] by simp
    then have "i \<le> i * ?z" by simp
    with room m(2) have "i < 2 ^ 64" by linarith
    then have i: "unat (of_nat i :: usize) = i" by (rule unat_of_nat_small)
    have "unat (of_nat i * heap_size (gc_rows G)) = i * ?z" using room m(2) by (subst unat_mult_nowrap) (simp_all add: i)
    then have "unat (m + of_nat i * heap_size (gc_rows G)) = unat m + i * ?z" using room m(2) by (subst unat_add_nowrap) simp_all
    then have "unat (dummy_at l i) = unat m + i * ?z + ?d l"
      unfolding dummy_at mo(1) using room m(2) by (simp, subst unat_add_nowrap) simp_all
    with room show ?thesis by simp
  qed
  then show "l \<in> ?L \<Longrightarrow> i < unat n \<Longrightarrow> unat (dummy_at l i) = unat m + i * ?z + ?d l \<and> unat (dummy_at l i) + 16 \<le> unat m + unat len" .
  have "l = l' \<and> i = j" if q: "dummy_at l i = dummy_at l' j" and l: "l \<in> ?L" "i < unat n" "l' \<in> ?L" "j < unat n" for l l' i j
  proof -
    have e: "i * ?z + ?d l = j * ?z + ?d l'" using at [OF l(1,2)] at [OF l(3,4)] q by simp
    have b: "?d l < ?z" "?d l' < ?z" using off [OF l(1)] off [OF l(3)] by simp_all
    have "(i * ?z + ?d l) div ?z = i" "(j * ?z + ?d l') div ?z = j" using b by (simp_all add: div_add1_eq)
    then have "i = j" using e by metis
    then have "dummy_off (gc_rows G) l = dummy_off (gc_rows G) l'" using e by (simp add: word_eq_iff_unat)
    then show ?thesis using inj l(1,3) \<open>i = j\<close> by (auto dest: inj_onD)
  qed
  then show "inj_on (\<lambda>(l, i). dummy_at l i) (?L \<times> {..<unat n})" by (auto simp: inj_on_def)
qed

lemma fresh_shard_ok:
  assumes G: "const_ok G" and f: "fresh_shard G a us bs sh" and b: "sys_wf bs"
  shows "shard_ok G 0 bs Map.empty a (sh\<lparr>hsh_next := x\<rparr>)" "us \<noteq> 0" "hsh_user_slots sh = us"
proof -
  obtain sp n ml rl kl m r t core used where l: "shard_layouts G us sp = Some (n, ml, rl, kl)"
      and mr: "from_metadata_region (gc_rows G) (gc_classes G) n m (lay_size ml) (gc_memory G) = Some (core, used)"
      and bs: "bs = shard_blocks G (ml, rl, kl) m r t a"
      and sh: "sh = \<lparr>hsh_next = 0, hsh_user_slots = us, hsh_token_in_use = t, hsh_service_lock = False,
           hsh_region_spans = sp, hsh_alloc = init (gc_classes G) r (lay_size rl) core\<rparr>"
    using f unfolding fresh_shard_def by blast
  note y = shard_layouts_Some [OF l]
  show "us \<noteq> 0" "hsh_user_slots sh = us" using y(1) by (simp_all add: sh)
  have mem: "(m, ml) \<in> set bs" "(r, rl) \<in> set bs" "(a, gc_shard_layout G) \<in> set bs" "(m, ml) \<noteq> (r, rl)"
    using b by (auto simp: bs shard_blocks_def sys_wf_def)
  note bm = sys_wf_block [OF b mem(1)] and br = sys_wf_block [OF b mem(2)] and ap = sys_wf_apart [OF b mem(1,2,4)]
  obtain h ro rr where o: "metadata_offsets (gc_rows G) n = Some (h, ro, rr, used)" "used \<le> lay_size ml"
    and core: "core = from_uninit (gc_classes G) (unat n) (\<lambda>l i. m + h + of_nat i * heap_size (gc_rows G) + dummy_off (gc_rows G) l) (gc_memory G)"
    using mr by (auto simp: from_metadata_region_def bind_Some_iff split: if_splits prod.splits)
  define dummy_at where "dummy_at = (\<lambda>l i. m + h + of_nat i * heap_size (gc_rows G) + dummy_off (gc_rows G) l)"
  note dm = metadata_dummies [OF G o _ _ dummy_at_def]
  have len: "unat (lay_size rl) = unat sp * 65536" "0 < unat sp" using y(2,6) by (auto simp: unat_gt_0)
  have "65536 dvd unat r" using br is_power_of_two_exp [of 16] y(7) by (simp add: is_aligned_unat wf_config)
  then have u: "unat (pool_base (set_region r (lay_size rl) pool_new)) = unat r" "unat (pool_count (set_region r (lay_size rl) pool_new)) = unat sp"
    using set_region_unat [of r "lay_size rl" pool_new] br len by auto
  have pl: "dummies_placed (unat n) (gc_classes G) dummy_at r (lay_size rl)"
    unfolding dummies_placed_def
  proof (intro conjI ballI allI impI)
    fix l i assume li: "l \<in> set (lanes (gc_classes G))" "i < unat n"
    note d = dm(1) [OF _ _ li]
    show "dummy_at l i \<noteq> 0" using d bm by (auto simp flip: unat_zero_iff)
    show "unat (dummy_at l i) + 16 \<le> unat r \<or> unat r + unat (lay_size rl) \<le> unat (dummy_at l i)"
      using d bm ap by (auto simp: apart_def)
  qed (use dm(2) bm in simp)
  have v: "allocator_valid (gc_classes G) (gc_hg G)" using G by (simp add: const_ok_def)
  have st: "start_ok (unat n) (gc_classes G) (gc_hg G) dummy_at r (lay_size rl)"
    unfolding start_ok_def using v y(3) br len u(2) pl shard_layouts_slots [OF l] by (auto simp: wf_config word_less_nat_alt)
  note i = init_in_service [OF st refl, of "gc_memory G", folded core [folded dummy_at_def]] and rp = region_pool [OF st]
  have four: "length bs = 4" by (simp add: bs shard_blocks_def)
  show "shard_ok G 0 bs Map.empty a (sh\<lparr>hsh_next := x\<rparr>)"
    unfolding shard_ok_def shard_at_def sh
    using i y(3) mem rp start_dummies(1) [OF st] shard_layouts_slots [OF l] four by (auto simp: i(2))
qed

lemma shard_ok_mono: "shard_ok G k bs held a sh \<Longrightarrow> k \<le> k' \<Longrightarrow> shard_ok G k' bs held a sh"
  unfolding shard_ok_def shard_at_def by (meson add_left_mono order_trans)

lemma shard_ok_facts:
  assumes "shard_ok G k bs held a sh" "k < 2 ^ 63"
  shows "(a, gc_shard_layout G) \<in> set bs" "\<not> hsh_service_lock sh" "unat (cursor (hsh_alloc sh)) < 2 ^ 64 - 1"
    "g_active (hsh_alloc sh) = unat (hsh_user_slots sh) + 1"
proof -
  obtain D r rl where "shard_at G D r rl k bs held a sh" using assms(1) unfolding shard_ok_def by blast
  note i = shard_atD(5,9,1,4) [OF this]
  show "g_active (hsh_alloc sh) = unat (hsh_user_slots sh) + 1" using service_payloads(4) [OF i(1)] .
  have "unat (pool_count (g_pool (hsh_alloc sh))) * 65536 < 2 ^ 64" using service_payloads(3) [OF i(1)] by (simp add: pool_wf_def wf_config)
  then show "unat (cursor (hsh_alloc sh)) < 2 ^ 64 - 1" using i(2) assms(2) by simp
  show "(a, gc_shard_layout G) \<in> set bs" "\<not> hsh_service_lock sh" by (rule i(3,4))+
qed

text \<open>The storages of one shard lie in one of its blocks and are apart.\<close>

lemma shard_ok_storage:
  assumes "shard_ok G k bs held a sh"
  obtains r rl where "(r, rl) \<in> set bs"
    "\<forall>x st. held x = Some st \<longrightarrow> layout_valid st \<and> x \<noteq> 0 \<and> is_aligned x (lay_align st) \<and> unat r \<le> unat x \<and> unat x + unat (lay_size st) \<le> unat r + unat (lay_size rl)"
    "\<forall>x y st st'. held x = Some st \<longrightarrow> held y = Some st' \<longrightarrow> x \<noteq> y \<longrightarrow>
       apart (unat x, unat x + unat (lay_size st)) (unat y, unat y + unat (lay_size st'))"
proof -
  obtain D r rl where "shard_at G D r rl k bs held a sh" using assms unfolding shard_ok_def by blast
  note i = shard_atD(2,5,7,8) [OF this]
  show ?thesis
    using service_payloads(1) [OF i(2)] i(3,4) service_payloads(2) [OF i(2)] by (intro that [OF i(1)]) (auto dest: order_trans)
qed

lemma shard_ok_alloc:
  assumes G: "const_ok G" and s: "shard_ok G k bs held a sh" "k < 2 ^ 63" "unat t \<le> unat (hsh_user_slots sh)" "layout_valid st"
  shows "quietly (alloc_with_token (gc_backend G) (active_threads (hsh_alloc sh)) (gc_classes G) (gc_hg G) st \<lparr>tok_id = t\<rparr>) (hsh_alloc sh)
    (\<lambda>p c. if p = 0 then shard_ok G (Suc k) bs held a (sh\<lparr>hsh_alloc := c\<rparr>) \<and> out_of_memory (gc_classes G) (gc_hg G) st (hsh_alloc sh)
       else held p = None \<and> shard_ok G (Suc k) bs (held(p \<mapsto> st)) a (sh\<lparr>hsh_alloc := c\<rparr>))"
proof -
  let ?n = "unat (hsh_user_slots sh) + 1"
  have n: "active_threads (hsh_alloc sh) = ?n" using shard_ok_facts(4) [OF s(1,2)] by (simp add: active_threads_def)
  obtain D r rl where "shard_at G D r rl k bs held a sh" using s(1) unfolding shard_ok_def by blast
  note o = shard_atD [OF this]
  have v: "allocator_valid (gc_classes G) (gc_hg G)" using G by (simp add: const_ok_def)
  have ok: "shard_ok G (Suc k) bs held' a (sh\<lparr>hsh_alloc := c\<rparr>)"
    if "pool_grown (hsh_alloc sh) c" "in_service ?n (gc_classes G) D (gc_hg G) held' c" for held' c
    unfolding shard_ok_def shard_at_def using o that by (intro exI [of _ D] exI [of _ r] exI [of _ rl]) (auto simp: pool_grown_def dummies_outside_def pool_end_def)
  show ?thesis
    unfolding n by (rule quietly_mono [OF alloc_in_service [OF v s(4) o(5) _ shard_ok_facts(3) [OF s(1,2)]]])
      (use s(3) ok in \<open>auto simp: call_post_def split: if_splits\<close>)
qed

lemma shard_ok_dealloc:
  assumes s: "shard_ok G k bs held a sh" "unat t \<le> unat (hsh_user_slots sh)" "held p = Some st"
  shows "quietly (dealloc_with_token (gc_classes G) (gc_hg G) p st \<lparr>tok_id = t\<rparr>) (hsh_alloc sh)
    (\<lambda>_ c. shard_ok G k bs (held(p := None)) a (sh\<lparr>hsh_alloc := c\<rparr>))"
proof -
  let ?n = "unat (hsh_user_slots sh) + 1"
  obtain D r rl where "shard_at G D r rl k bs held a sh" using s(1) unfolding shard_ok_def by blast
  note o = shard_atD [OF this]
  show ?thesis
    by (rule quietly_mono [OF dealloc_in_service [OF o(5) s(3) _ o(3)]])
      (use s(2) o in \<open>auto simp: shard_ok_def shard_at_def intro!: exI [of _ D] exI [of _ r] exI [of _ rl]\<close>)
qed

lemma shard_ok_write:
  assumes "shard_ok G k bs held a sh" "client_write held (hsh_alloc sh) c"
  shows "shard_ok G k bs held a (sh\<lparr>hsh_alloc := c\<rparr>)"
proof -
  obtain D r rl where "shard_at G D r rl k bs held a sh" using assms(1) unfolding shard_ok_def by blast
  note o = shard_atD [OF this]
  note w = write_in_service [OF o(5,6) assms(2)]
  show ?thesis unfolding shard_ok_def shard_at_def using o w by (intro exI [of _ D] exI [of _ r] exI [of _ rl]) simp
qed

end
