(* ===== verification/Wrapper_Service.thy ===== *)
theory Wrapper_Service
  imports Global_Service
begin

text \<open>
  The wrapper as a whole, every call left alone: the list of shards, the blocks of the system allocator, and the storages
  that shards and system allocator have given out.
\<close>

section \<open>The state between calls\<close>

definition bound :: "global_state \<Rightarrow> address \<Rightarrow> usize \<Rightarrow> bool" where
  "bound s a t \<longleftrightarrow> (\<exists>shs. shard_list (gs_shard s) (ga_head (gs_ga s)) shs \<and> token_ok (gs_shard s) shs a t)"

text \<open>
  \<open>B a\<close> are the blocks of the shard at \<open>a\<close>, \<open>C a\<close> the storages it has given out, \<open>ys\<close> the storages that come
  from the system allocator; together the blocks are all that the system allocator has given to the wrapper.
\<close>

definition wrapper_at where
  "wrapper_at G k shs B C ys s \<longleftrightarrow> shard_list (gs_shard s) (ga_head (gs_ga s)) shs \<and> distinct shs \<and> \<not> ga_create_lock (gs_ga s)
     \<and> sys_wf (gs_sys s) \<and> mset (gs_sys s) = mset (concat (List.map B shs) @ ys)
     \<and> (\<forall>a \<in> set shs. shard_ok G k (B a) (C a) a (gs_shard s a)) \<and> (\<forall>a. a \<notin> set shs \<longrightarrow> C a = Map.empty)"

definition wrapper_ok :: "global_const \<Rightarrow> nat \<Rightarrow> (address \<Rightarrow> address \<rightharpoonup> layout) \<Rightarrow> (address \<times> layout) list \<Rightarrow> global_state \<Rightarrow> bool" where
  "wrapper_ok G k C ys s \<longleftrightarrow> (\<exists>shs B. wrapper_at G k shs B C ys s)"

lemma wrapper_atD:
  assumes "wrapper_at G k shs B C ys s"
  shows "shard_list (gs_shard s) (ga_head (gs_ga s)) shs" "distinct shs" "\<not> ga_create_lock (gs_ga s)"
    "sys_wf (gs_sys s)" "mset (gs_sys s) = mset (concat (List.map B shs) @ ys)"
    "a \<in> set shs \<Longrightarrow> shard_ok G k (B a) (C a) a (gs_shard s a)" "a \<notin> set shs \<Longrightarrow> C a = Map.empty"
  using assms unfolding wrapper_at_def by blast+

lemma bound_at:
  assumes "wrapper_at G k shs B C ys s"
  shows "bound s a t \<longleftrightarrow> token_ok (gs_shard s) shs a t"
  using wrapper_atD(1) [OF assms] chain_unique unfolding bound_def by blast

text \<open>Bindings stay valid.\<close>

definition keeps_bound :: "global_state \<Rightarrow> global_state \<Rightarrow> bool" where
  "keeps_bound s t \<longleftrightarrow> (\<forall>a k. bound s a k \<longrightarrow> bound t a k)"

lemma keeps_bound_trans: "keeps_bound s t \<Longrightarrow> keeps_bound t u \<Longrightarrow> keeps_bound s u"
  by (simp add: keeps_bound_def)

lemma keeps_bound_at:
  assumes "wrapper_at G k shs B C ys s" "wrapper_at G k' shs' B' C' ys' t" "set shs \<subseteq> set shs'"
    "\<And>a. a \<in> set shs \<Longrightarrow> hsh_user_slots (gs_shard t a) = hsh_user_slots (gs_shard s a)"
  shows "keeps_bound s t"
  using assms(3,4) unfolding keeps_bound_def bound_at [OF assms(1)] bound_at [OF assms(2)] token_ok_def by auto

lemma unmoved_ok:
  assumes "unmoved s t"
  shows "wrapper_ok G k C ys s \<Longrightarrow> wrapper_ok G k C ys t" "bound t a n = bound s a n" "keeps_bound s t"
proof -
  have e: "gs_shard t = gs_shard s" "gs_sys t = gs_sys s" "ga_head (gs_ga t) = ga_head (gs_ga s)"
      "ga_create_lock (gs_ga t) = ga_create_lock (gs_ga s)" using assms by (simp_all add: unmoved_def)
  show "wrapper_ok G k C ys s \<Longrightarrow> wrapper_ok G k C ys t" unfolding wrapper_ok_def wrapper_at_def e .
  show b: "bound t a n = bound s a n" for a n unfolding bound_def e ..
  show "keeps_bound s t" by (simp add: keeps_bound_def b)
qed

lemma wrapper_ok_mono: "wrapper_ok G k C ys s \<Longrightarrow> k \<le> k' \<Longrightarrow> wrapper_ok G k' C ys s"
  unfolding wrapper_ok_def wrapper_at_def using shard_ok_mono by blast

lemma grown_ok:
  assumes G: "const_ok G" and w: "wrapper_ok G k C ys s" and g: "grown G s a t" "sys_wf (gs_sys t)"
  shows "wrapper_ok G k C ys t" "keeps_bound s t" "unat n \<le> unat (hsh_user_slots (gs_shard t a)) \<Longrightarrow> bound t a n"
proof -
  obtain shs B where at: "wrapper_at G k shs B C ys s" using w unfolding wrapper_ok_def by blast
  note d = wrapper_atD [OF at]
  obtain us bs sh where a: "a \<noteq> 0" "fresh_shard G a us bs sh" "gs_shard t = (gs_shard s)(a := sh\<lparr>hsh_next := ga_head (gs_ga s)\<rparr>)"
      "gs_sys t = bs @ gs_sys s" "ga_head (gs_ga t) = a" "ga_create_lock (gs_ga t) = ga_create_lock (gs_ga s)"
    using g(1) unfolding grown_def by blast
  have dist: "distinct (bs @ gs_sys s)" using g(2) a(4) by (simp add: sys_wf_def)
  then have bs: "sys_wf bs" using sys_wf_subset [OF g(2), of bs] a(4) by simp
  note f = fresh_shard_ok [OF G a(2) bs]
  have "(a, gc_shard_layout G) \<in> set bs" using f(1) by (auto simp: shard_ok_def shard_at_def)
  have new: "a \<notin> set shs"
  proof
    assume "a \<in> set shs"
    then have "(a, gc_shard_layout G) \<in> set (concat (List.map B shs) @ ys)"
      using d(6) [of a] by (auto simp: shard_ok_def shard_at_def)
    then have "(a, gc_shard_layout G) \<in> set (gs_sys s)" using d(5) by (metis set_mset_mset)
    with dist \<open>(a, gc_shard_layout G) \<in> set bs\<close> show False by auto
  qed
  have "shard_list (gs_shard t) (ga_head (gs_ga s)) shs = shard_list (gs_shard s) (ga_head (gs_ga s)) shs"
    by (rule chain_cong) (use new a(3) in auto)
  moreover have "List.map (B(a := bs)) shs = List.map B shs" using new by auto
  moreover have "shard_ok G k ((B(a := bs)) b) (C b) b (gs_shard t b)" if "b \<in> set (a # shs)" for b
  proof (cases "b = a")
    case True
    then show ?thesis using shard_ok_mono [OF f(1), of k] d(7) [OF new] a(3) by simp
  next
    case False
    then show ?thesis using that d(6) [of b] a(3) by simp
  qed
  ultimately have at': "wrapper_at G k (a # shs) (B(a := bs)) C ys t"
    using d g(2) new a by (auto simp: wrapper_at_def)
  then show "wrapper_ok G k C ys t" unfolding wrapper_ok_def by blast
  show "keeps_bound s t" by (rule keeps_bound_at [OF at at']) (use new a(3) in auto)
  show "unat n \<le> unat (hsh_user_slots (gs_shard t a)) \<Longrightarrow> bound t a n" unfolding bound_at [OF at'] by (simp add: token_ok_def)
qed

text \<open>One shard changes: its core, and what that has given out.\<close>

lemma shard_step_ok:
  assumes w: "wrapper_at G k shs B C ys s" and a: "a \<in> set shs" "shard_ok G k' (B a) c a ((gs_shard s a)\<lparr>hsh_alloc := x\<rparr>)" "k \<le> k'"
    and t: "gs_shard t = (gs_shard s)(a := (gs_shard s a)\<lparr>hsh_alloc := x\<rparr>)" "gs_sys t = gs_sys s"
      "ga_head (gs_ga t) = ga_head (gs_ga s)" "ga_create_lock (gs_ga t) = ga_create_lock (gs_ga s)"
  shows "wrapper_ok G k' (C(a := c)) ys t" "keeps_bound s t"
proof -
  note d = wrapper_atD [OF w]
  have "shard_list (gs_shard t) (ga_head (gs_ga s)) shs = shard_list (gs_shard s) (ga_head (gs_ga s)) shs"
    by (rule chain_cong) (use t(1) in auto)
  moreover have "shard_ok G k' (B b) ((C(a := c)) b) b (gs_shard t b)" if "b \<in> set shs" for b
    using shard_ok_mono [OF d(6) [OF that] a(3)] a(2) t(1) by (cases "b = a") simp_all
  moreover have "(C(a := c)) b = Map.empty" if "b \<notin> set shs" for b using d(7) [OF that] that a(1) by (cases "b = a") simp_all
  ultimately have at: "wrapper_at G k' shs B (C(a := c)) ys t" using d t by (simp add: wrapper_at_def)
  then show "wrapper_ok G k' (C(a := c)) ys t" unfolding wrapper_ok_def by blast
  show "keeps_bound s t" by (rule keeps_bound_at [OF w at]) (use t(1) in auto)
qed

section \<open>Storages\<close>

text \<open>The storage at \<open>x\<close> comes from the shard at \<open>a\<close>, or from the system allocator where \<open>a\<close> is null.\<close>

definition stored where
  "stored C ys a x st \<longleftrightarrow> (if a = 0 then (x, st) \<in> set ys else C a x = Some st)"

lemma wrapper_blocks:
  assumes w: "wrapper_at G k shs B C ys s"
  shows "a \<in> set shs \<Longrightarrow> z \<in> set (B a) \<Longrightarrow> z \<in> set (gs_sys s)" "z \<in> set ys \<Longrightarrow> z \<in> set (gs_sys s)"
    "a \<in> set shs \<Longrightarrow> z \<in> set (B a) \<Longrightarrow> z \<notin> set ys"
    "a \<in> set shs \<Longrightarrow> b \<in> set shs \<Longrightarrow> a \<noteq> b \<Longrightarrow> z \<in> set (B a) \<Longrightarrow> z \<notin> set (B b)"
proof -
  note d = wrapper_atD [OF w]
  have e: "set (gs_sys s) = set (concat (List.map B shs) @ ys)" using d(5) by (rule mset_eq_setD)
  have dist: "distinct (concat (List.map B shs) @ ys)"
    using d(4) mset_eq_imp_distinct_iff [OF d(5)] by (simp add: sys_wf_def)
  show "a \<in> set shs \<Longrightarrow> z \<in> set (B a) \<Longrightarrow> z \<in> set (gs_sys s)" "z \<in> set ys \<Longrightarrow> z \<in> set (gs_sys s)" using e by auto
  show "a \<in> set shs \<Longrightarrow> z \<in> set (B a) \<Longrightarrow> z \<notin> set ys" using dist by auto
  show "z \<notin> set (B b)" if ab: "a \<in> set shs" "b \<in> set shs" "a \<noteq> b" "z \<in> set (B a)"
  proof
    assume zb: "z \<in> set (B b)"
    have "distinct (concat (List.map B xs)) \<Longrightarrow> a \<in> set xs \<Longrightarrow> b \<in> set xs \<Longrightarrow> False" for xs
      using ab zb by (induction xs) auto
    then show False using dist ab by auto
  qed
qed

lemma stored_place:
  assumes w: "wrapper_at G k shs B C ys s" and st: "stored C ys a x st"
  obtains z where "z \<in> set (gs_sys s)" "unat (fst z) \<le> unat x" "unat x + unat (lay_size st) \<le> unat (fst z) + unat (lay_size (snd z))"
    "x \<noteq> 0" "is_aligned x (lay_align st)" "a \<noteq> 0 \<Longrightarrow> a \<in> set shs \<and> z \<in> set (B a)" "a = 0 \<Longrightarrow> z = (x, st) \<and> z \<in> set ys"
    "unat x + unat (lay_size st) < 2 ^ 64"
    "\<And>y st'. a \<noteq> 0 \<Longrightarrow> stored C ys a y st' \<Longrightarrow> unat (fst z) \<le> unat y \<and> unat y + unat (lay_size st') \<le> unat (fst z) + unat (lay_size (snd z))
       \<and> (x \<noteq> y \<longrightarrow> apart (unat x, unat x + unat (lay_size st)) (unat y, unat y + unat (lay_size st')))"
proof (cases "a = 0")
  case True
  then have y: "(x, st) \<in> set ys" using st by (simp add: stored_def)
  note z = wrapper_blocks(2) [OF w y] sys_wf_block [OF wrapper_atD(4) [OF w] wrapper_blocks(2) [OF w y]]
  show ?thesis by (rule that [OF z(1)]) (use z True y in simp_all)
next
  case False
  then have c: "C a x = Some st" using st by (simp add: stored_def)
  have a: "a \<in> set shs" using wrapper_atD(7) [OF w, of a] c by (cases "a \<in> set shs") simp_all
  obtain r rl where r: "(r, rl) \<in> set (B a)"
      "\<forall>x st. C a x = Some st \<longrightarrow> layout_valid st \<and> x \<noteq> 0 \<and> is_aligned x (lay_align st) \<and> unat r \<le> unat x \<and> unat x + unat (lay_size st) \<le> unat r + unat (lay_size rl)"
      "\<forall>x y st st'. C a x = Some st \<longrightarrow> C a y = Some st' \<longrightarrow> x \<noteq> y \<longrightarrow>
         apart (unat x, unat x + unat (lay_size st)) (unat y, unat y + unat (lay_size st'))"
    using shard_ok_storage [OF wrapper_atD(6) [OF w a]] by blast
  note z = wrapper_blocks(1) [OF w a r(1)] sys_wf_block [OF wrapper_atD(4) [OF w] wrapper_blocks(1) [OF w a r(1)]]
  show ?thesis
  proof (rule that [OF z(1)])
    show "unat (fst (r, rl)) \<le> unat y \<and> unat y + unat (lay_size st') \<le> unat (fst (r, rl)) + unat (lay_size (snd (r, rl)))
       \<and> (x \<noteq> y \<longrightarrow> apart (unat x, unat x + unat (lay_size st)) (unat y, unat y + unat (lay_size st')))"
      if "stored C ys a y st'" for y st' using that False r(2,3) c by (simp add: stored_def)
  qed (use z r(2) c False a r(1) in \<open>auto dest: order_le_less_trans\<close>)
qed

lemma stored_apart:
  assumes w: "wrapper_at G k shs B C ys s" and st: "stored C ys a x st" "stored C ys b y st'" "(a, x, st) \<noteq> (b, y, st')"
  shows "apart (unat x, unat x + unat (lay_size st)) (unat y, unat y + unat (lay_size st'))"
proof -
  obtain z where z: "z \<in> set (gs_sys s)" "unat (fst z) \<le> unat x" "unat x + unat (lay_size st) \<le> unat (fst z) + unat (lay_size (snd z))"
    "a \<noteq> 0 \<Longrightarrow> a \<in> set shs \<and> z \<in> set (B a)" "a = 0 \<Longrightarrow> z = (x, st) \<and> z \<in> set ys"
    "\<And>y st'. a \<noteq> 0 \<Longrightarrow> stored C ys a y st' \<Longrightarrow> (x \<noteq> y \<longrightarrow> apart (unat x, unat x + unat (lay_size st)) (unat y, unat y + unat (lay_size st')))"
    by (rule stored_place [OF w st(1)]) blast
  obtain z' where z': "z' \<in> set (gs_sys s)" "unat (fst z') \<le> unat y" "unat y + unat (lay_size st') \<le> unat (fst z') + unat (lay_size (snd z'))"
    "b \<noteq> 0 \<Longrightarrow> b \<in> set shs \<and> z' \<in> set (B b)" "b = 0 \<Longrightarrow> z' = (y, st') \<and> z' \<in> set ys"
    by (rule stored_place [OF w st(2)]) blast
  show ?thesis
  proof (cases "a = b \<and> a \<noteq> 0")
    case True
    then have "x \<noteq> y" using st by (auto simp: stored_def)
    moreover have "a \<noteq> 0" "stored C ys a y st'" using True st(2) by blast+
    ultimately show ?thesis using z(6) by blast
  next
    case False
    have "z \<noteq> z'"
    proof (cases "a = 0")
      case True
      then show ?thesis using z(5) z'(4,5) st(3) wrapper_blocks(3) [OF w, of b z'] by (cases "b = 0") auto
    next
      case nz: False
      then show ?thesis
        using z(4) z'(4,5) False wrapper_blocks(3) [OF w, of a z] wrapper_blocks(4) [OF w, of a b z] by (cases "b = 0") auto
    qed
    then have "apart (unat (fst z), unat (fst z) + unat (lay_size (snd z))) (unat (fst z'), unat (fst z') + unat (lay_size (snd z')))"
      using sys_wf_apart [OF wrapper_atD(4) [OF w], of "fst z" "snd z" "fst z'" "snd z'"] z(1) z'(1) by (simp add: prod_eq_iff)
    then show ?thesis using z(2,3) z'(2,3) by (auto simp: apart_def)
  qed
qed

end
