(* ===== verification/Wrapper_Calls.thy ===== *)
theory Wrapper_Calls
  imports Wrapper_Service
begin

text \<open>
  The calls of \<^verbatim>\<open>GlobalAlloc\<close>, each left alone: they return, and keep the state of the wrapper in order as long as the system
  allocator keeps its promise.
\<close>

section \<open>Progress of one call\<close>

text \<open>During a call blocks are only added, and headers are left alone until the end.\<close>

definition onward :: "global_state \<Rightarrow> global_state \<Rightarrow> bool" where
  "onward s t \<longleftrightarrow> (\<exists>bs. gs_sys t = bs @ gs_sys s) \<and> gs_hdr t = gs_hdr s \<and> ga_create_lock (gs_ga t) = ga_create_lock (gs_ga s)"

lemma onward_refl [simp]: "onward s s"
  by (simp add: onward_def)

lemma onward_trans [trans]: "onward s t \<Longrightarrow> onward t u \<Longrightarrow> onward s u"
  unfolding onward_def by (metis append_assoc)

lemma onward_unmoved: "unmoved s t \<Longrightarrow> onward s t"
  by (simp add: onward_def unmoved_def)

lemma onward_grown: "grown G s a t \<Longrightarrow> onward s t"
  unfolding onward_def grown_def by blast

lemma onward_wf: "onward s t \<Longrightarrow> sys_wf (gs_sys t) \<Longrightarrow> sys_wf (gs_sys s)"
  unfolding onward_def using sys_wf_append by metis

lemma alone_bump:
  assumes "alone w" "\<And>g. ga_head (f g) = ga_head g" "\<And>g. ga_create_lock (f g) = ga_create_lock g"
  shows "alone (g_put (on_ga f) w)" "gw_tls (g_put (on_ga f) w) = gw_tls w" "unmoved (gw_st w) (gw_st (g_put (on_ga f) w))"
  using assms by (simp_all add: alone_op unmoved_def)

lemma alone_core_shape:
  assumes "alone w" "core_call a p w = (r, w')"
  shows "alone w'" "gw_tls w' = gw_tls w" "onward (gw_st w) (gw_st w')"
proof -
  obtain c where "w' = w\<lparr>gw_st := on_shard a (hsh_alloc_update (\<lambda>_. c)) (gw_st w), gw_core := tl (gw_core w)\<rparr>"
    using assms(2) by (auto simp: core_call_def Let_def split: prod.splits)
  then show "alone w'" "gw_tls w' = gw_tls w" "onward (gw_st w) (gw_st w')" using assms(1) by (simp_all add: alone_def onward_def)
qed

section \<open>Calls into the core\<close>

lemma core_alloc_ok:
  assumes G: "const_ok G" and w: "alone w" "wrapper_ok G k C ys (gw_st w)" "k < 2 ^ 63" and b: "bound (gw_st w) a t" "layout_valid st"
    and r: "core_alloc G a st t w = (p, w')"
  shows "p = 0 \<Longrightarrow> wrapper_ok G (Suc k) C ys (gw_st w')" "p \<noteq> 0 \<Longrightarrow> wrapper_ok G (Suc k) (C(a := (C a)(p \<mapsto> st))) ys (gw_st w')"
    "p \<noteq> 0 \<Longrightarrow> C a p = None" "keeps_bound (gw_st w) (gw_st w')"
proof -
  obtain shs B where at: "wrapper_at G k shs B C ys (gw_st w)" using w(2) unfolding wrapper_ok_def by blast
  have a: "a \<in> set shs" "unat t \<le> unat (hsh_user_slots (gs_shard (gw_st w) a))" using b(1) by (simp_all add: bound_at [OF at] token_ok_def)
  note q = shard_ok_alloc [OF G wrapper_atD(6) [OF at a(1)] w(3) a(2) b(2)]
  obtain c where c: "if p = 0 then shard_ok G (Suc k) (B a) (C a) a ((gs_shard (gw_st w) a)\<lparr>hsh_alloc := c\<rparr>)
         \<and> out_of_memory (gc_classes G) (gc_hg G) st (hsh_alloc (gs_shard (gw_st w) a))
       else C a p = None \<and> shard_ok G (Suc k) (B a) ((C a)(p \<mapsto> st)) a ((gs_shard (gw_st w) a)\<lparr>hsh_alloc := c\<rparr>)"
      "w' = w\<lparr>gw_st := on_shard a (hsh_alloc_update (\<lambda>_. c)) (gw_st w)\<rparr>"
    by (rule alone_core [OF w(1) refl q r [unfolded core_alloc_def]])
  have t: "gs_shard (gw_st w') = (gs_shard (gw_st w))(a := (gs_shard (gw_st w) a)\<lparr>hsh_alloc := c\<rparr>)" "gs_sys (gw_st w') = gs_sys (gw_st w)"
      "ga_head (gs_ga (gw_st w')) = ga_head (gs_ga (gw_st w))" "ga_create_lock (gs_ga (gw_st w')) = ga_create_lock (gs_ga (gw_st w))"
    by (simp_all add: c(2) fun_eq_iff)
  note s = shard_step_ok [OF at a(1) _ _ t, of "Suc k"]
  show "p = 0 \<Longrightarrow> wrapper_ok G (Suc k) C ys (gw_st w')" using s(1) [of "C a"] c(1) by simp
  show "p \<noteq> 0 \<Longrightarrow> wrapper_ok G (Suc k) (C(a := (C a)(p \<mapsto> st))) ys (gw_st w')" "p \<noteq> 0 \<Longrightarrow> C a p = None" using s(1) c(1) by simp_all
  show "keeps_bound (gw_st w) (gw_st w')" using s(2) c(1) by (cases "p = 0") auto
qed

lemma core_dealloc_ok:
  assumes w: "alone w" "wrapper_ok G k C ys (gw_st w)" and b: "bound (gw_st w) a t" "C a p = Some st"
  shows "alone (core_dealloc G a p st t w)" "wrapper_ok G k (C(a := (C a)(p := None))) ys (gw_st (core_dealloc G a p st t w))"
    "keeps_bound (gw_st w) (gw_st (core_dealloc G a p st t w))" "gs_hdr (gw_st (core_dealloc G a p st t w)) = gs_hdr (gw_st w)"
    "gs_sys (gw_st (core_dealloc G a p st t w)) = gs_sys (gw_st w)" "gw_tls (core_dealloc G a p st t w) = gw_tls w"
proof -
  obtain shs B where at: "wrapper_at G k shs B C ys (gw_st w)" using w(2) unfolding wrapper_ok_def by blast
  have a: "a \<in> set shs" "unat t \<le> unat (hsh_user_slots (gs_shard (gw_st w) a))" using b(1) by (simp_all add: bound_at [OF at] token_ok_def)
  obtain r w' where r: "core_call a (\<lambda>n. dealloc_with_token (gc_classes G) (gc_hg G) p st \<lparr>tok_id = t\<rparr>) w = (r, w')" by (meson surj_pair)
  note q = shard_ok_dealloc [OF wrapper_atD(6) [OF at a(1)] a(2) b(2)]
  obtain c where c: "shard_ok G k (B a) ((C a)(p := None)) a ((gs_shard (gw_st w) a)\<lparr>hsh_alloc := c\<rparr>)"
      "w' = w\<lparr>gw_st := on_shard a (hsh_alloc_update (\<lambda>_. c)) (gw_st w)\<rparr>"
    by (rule alone_core [OF w(1) refl q r])
  have d: "core_dealloc G a p st t w = w'" by (simp add: core_dealloc_def r)
  have t: "gs_shard (gw_st w') = (gs_shard (gw_st w))(a := (gs_shard (gw_st w) a)\<lparr>hsh_alloc := c\<rparr>)" "gs_sys (gw_st w') = gs_sys (gw_st w)"
      "ga_head (gs_ga (gw_st w')) = ga_head (gs_ga (gw_st w))" "ga_create_lock (gs_ga (gw_st w')) = ga_create_lock (gs_ga (gw_st w))"
    by (simp_all add: c(2) fun_eq_iff)
  note s = shard_step_ok [OF at a(1) c(1) order_refl t]
  show "wrapper_ok G k (C(a := (C a)(p := None))) ys (gw_st (core_dealloc G a p st t w))"
    "keeps_bound (gw_st w) (gw_st (core_dealloc G a p st t w))" unfolding d by (rule s)+
  show "alone (core_dealloc G a p st t w)" "gs_hdr (gw_st (core_dealloc G a p st t w)) = gs_hdr (gw_st w)"
    "gs_sys (gw_st (core_dealloc G a p st t w)) = gs_sys (gw_st w)" "gw_tls (core_dealloc G a p st t w) = gw_tls w"
    using w(1) by (simp_all add: d c(2))
qed

section \<open>Binding\<close>

lemma alone_any:
  assumes G: "const_ok G" and w: "alone w" "shard_list (gs_shard (gw_st w)) (ga_head (gs_ga (gw_st w))) shs" "\<not> ga_create_lock (gs_ga (gw_st w))"
  obtains r w' where "acquire_token_from_any_shard G w = Some (r, w')" "alone w'" "gw_tls w' = gw_tls w" "onward (gw_st w) (gw_st w')"
    "\<forall>k C ys. wrapper_ok G k C ys (gw_st w) \<longrightarrow> sys_wf (gs_sys (gw_st w')) \<longrightarrow> wrapper_ok G k C ys (gw_st w')
       \<and> keeps_bound (gw_st w) (gw_st w') \<and> (\<forall>a t slot. r = Some (a, t, slot) \<longrightarrow> bound (gw_st w') a t)"
proof -
  obtain got v where v: "acquire_walk (ga_head (gs_ga (gw_st w))) w = Some (got, v)" "alone v" "gw_tls v = gw_tls w" "unmoved (gw_st w) (gw_st v)"
      and tok: "\<And>b t slot. got = Some (b, t, slot) \<Longrightarrow> token_ok (gs_shard (gw_st w)) shs b t"
    using alone_walk [OF w(1,2)] by blast
  have start: "acquire_token_from_any_shard G w = (case got of Some r \<Rightarrow> Some (Some r, v) | None \<Rightarrow>
      create_and_link_shard G (region_spans (gw_st v)) v \<bind> (\<lambda>(made, w). case made of
        None \<Rightarrow> Some (None, bump_ga ga_token_acquisition_failures_update w)
      | Some new_shard \<Rightarrow> (case acquire_user_token new_shard w of
          (Some (token, slot), w) \<Rightarrow> Some (Some (new_shard, token, slot), w)
        | (None, w) \<Rightarrow> acquire_token_from_any_shard G w)))"
    by (subst acquire_token_from_any_shard.simps) (simp add: alone_op(1) [OF w(1)] v(1))
  show ?thesis
  proof (cases got)
    case (Some y)
    obtain b t slot where y: "y = (b, t, slot)" by (cases y)
    have "bound (gw_st w) b t" using tok [of b t slot] w(2) Some y unfolding bound_def by blast
    then have "bound (gw_st v) b t" using unmoved_ok(2) [OF v(4)] by simp
    then show ?thesis
      using Some y v start onward_unmoved [OF v(4)] unmoved_ok(1,3) [OF v(4)] by (intro that [of got v]) auto
  next
    case None
    have lf: "\<not> ga_create_lock (gs_ga (gw_st v))" using v(4) w(3) by (simp add: unmoved_def)
    obtain made u where u: "create_and_link_shard G (region_spans (gw_st v)) v = Some (made, u)" "alone u" "gw_tls u = gw_tls v"
        "case made of None \<Rightarrow> unmoved (gw_st v) (gw_st u) | Some a \<Rightarrow> grown G (gw_st v) a (gw_st u)"
      using alone_create_link [OF v(2) lf] by blast
    show ?thesis
    proof (cases made)
      case n: None
      let ?u = "bump_ga ga_token_acquisition_failures_update u"
      note bp = alone_bump [OF u(2), of "ga_token_acquisition_failures_update (\<lambda>k. k + 1)", simplified]
      have uv: "unmoved (gw_st w) (gw_st ?u)" using v(4) u(4) n bp(3) by (auto intro: unmoved_trans)
      have "acquire_token_from_any_shard G w = Some (None, ?u)" by (simp add: start None u(1) n)
      then show ?thesis
        using bp v(3) u(3) onward_unmoved [OF uv] unmoved_ok(1,3) [OF uv] by (intro that [of None ?u]) auto
    next
      case m: (Some a)
      have g: "grown G (gw_st v) a (gw_st u)" using u(4) m by simp
      obtain x w' where x: "acquire_user_token a u = (x, w')" by (meson surj_pair)
      note q = alone_acquire [OF u(2) x]
      obtain us bs sh where f: "fresh_shard G a us bs sh" "gs_shard (gw_st u) a = sh\<lparr>hsh_next := ga_head (gs_ga (gw_st v))\<rparr>"
          "0 < us \<longrightarrow> gs_cell (gw_st u) (hsh_token_in_use sh) = 0"
        using g unfolding grown_def by auto
      have us: "us \<noteq> 0" "hsh_user_slots sh = us"
        using f(1) by (auto simp: fresh_shard_def dest: shard_layouts_Some(1))
      then have "x \<noteq> None" using q(5) f(2,3) by (simp add: word_neq_0_conv)
      then obtain t slot where xs: "x = Some (t, slot)" by auto
      have eq: "acquire_token_from_any_shard G w = Some (Some (a, t, slot), w')" by (simp add: start None u(1) m x xs)
      have on: "onward (gw_st w) (gw_st w')"
        using onward_unmoved [OF v(4)] onward_grown [OF g] onward_unmoved [OF q(3)] by (blast intro: onward_trans)
      have "wrapper_ok G k C ys (gw_st w') \<and> keeps_bound (gw_st w) (gw_st w') \<and> bound (gw_st w') a t"
        if ok: "wrapper_ok G k C ys (gw_st w)" "sys_wf (gs_sys (gw_st w'))" for k C ys
      proof -
        have wf: "sys_wf (gs_sys (gw_st u))" using onward_wf [OF onward_unmoved [OF q(3)] ok(2)] .
        note gr = grown_ok [OF G unmoved_ok(1) [OF v(4) ok(1)] g wf]
        have "unat t \<le> unat (hsh_user_slots (gs_shard (gw_st u) a))" using q(4) xs by simp
        then show ?thesis
          using unmoved_ok [OF q(3)] gr unmoved_ok(3) [OF v(4)] by (metis keeps_bound_trans)
      qed
      then show ?thesis using eq q(1,2) u(3) v(3) on by (intro that [of "Some (a, t, slot)" w']) auto
    qed
  qed
qed

text \<open>What a thread is bound to.\<close>

definition tls_ok :: "global_state \<Rightarrow> thread_locals \<Rightarrow> bool" where
  "tls_ok s t \<longleftrightarrow> (tl_shard t \<noteq> 0 \<longrightarrow> tl_token_id t \<noteq> usize_max \<longrightarrow> bound s (tl_shard t) (tl_token_id t))"

lemma tls_ok_keeps: "tls_ok s t \<Longrightarrow> keeps_bound s s' \<Longrightarrow> tls_ok s' t"
  by (simp add: tls_ok_def keeps_bound_def)

definition at_rest :: "global_state \<Rightarrow> bool" where
  "at_rest s \<longleftrightarrow> (\<exists>shs. shard_list (gs_shard s) (ga_head (gs_ga s)) shs) \<and> \<not> ga_create_lock (gs_ga s)"

lemma wrapper_at_rest: "wrapper_ok G k C ys s \<Longrightarrow> at_rest s"
  unfolding wrapper_ok_def wrapper_at_def at_rest_def by blast

lemma alone_bind:
  assumes G: "const_ok G" and w: "alone w" "at_rest (gw_st w)"
  obtains r w' where "bind_thread G w = Some (r, w')" "alone w'" "onward (gw_st w) (gw_st w')"
    "\<forall>a t. r = Some (a, t) \<longrightarrow> tl_shard (gw_tls w') = a"
    "\<forall>k C ys. wrapper_ok G k C ys (gw_st w) \<longrightarrow> tls_ok (gw_st w) (gw_tls w) \<longrightarrow> sys_wf (gs_sys (gw_st w')) \<longrightarrow> wrapper_ok G k C ys (gw_st w')
       \<and> keeps_bound (gw_st w) (gw_st w') \<and> tls_ok (gw_st w') (gw_tls w') \<and> (\<forall>a t. r = Some (a, t) \<longrightarrow> bound (gw_st w') a t)"
proof (cases "bound_token G (gw_tls w) = None \<and> tl_guard (gw_tls w)")
  case False
  then have e: "bind_thread G w = Some (bound_token G (gw_tls w), w)" by (auto simp: bind_thread_def split: option.splits)
  show ?thesis
    by (rule that [OF e w(1)]) (auto simp: bound_token_def tls_ok_def keeps_bound_def split: if_splits)
next
  case True
  obtain shs where s: "shard_list (gs_shard (gw_st w)) (ga_head (gs_ga (gw_st w))) shs" "\<not> ga_create_lock (gs_ga (gw_st w))"
    using w(2) by (auto simp: at_rest_def)
  obtain r v where v: "acquire_token_from_any_shard G w = Some (r, v)" "alone v" "gw_tls v = gw_tls w" "onward (gw_st w) (gw_st v)"
    "\<forall>k C ys. wrapper_ok G k C ys (gw_st w) \<longrightarrow> sys_wf (gs_sys (gw_st v)) \<longrightarrow> wrapper_ok G k C ys (gw_st v)
       \<and> keeps_bound (gw_st w) (gw_st v) \<and> (\<forall>a t slot. r = Some (a, t, slot) \<longrightarrow> bound (gw_st v) a t)"
    using alone_any [OF G w(1) s] by blast
  show ?thesis
  proof (cases r)
    case None
    then have "bind_thread G w = Some (None, v)" using True v(1) by (simp add: bind_thread_def)
    then show ?thesis by (rule that [OF _ v(2,4)]) (use v(3,5) tls_ok_keeps in auto)
  next
    case (Some y)
    obtain a t slot where y: "y = (a, t, slot)" by (cases y)
    let ?v = "v\<lparr>gw_tls := (gw_tls v)\<lparr>tl_alloc_id := gc_self G, tl_shard := a, tl_token_id := t, tl_token_slot := slot\<rparr>\<rparr>"
    have "bind_thread G w = Some (Some (a, t), ?v)" using True v(1) Some y by (simp add: bind_thread_def)
    then show ?thesis by (rule that) (use v(2,4,5) Some y in \<open>auto simp: tls_ok_def\<close>)
  qed
qed

section \<open>Allocation from the shards\<close>

lemma alone_release: "alone w \<Longrightarrow> alone (release_user_token a t w)" "gw_tls (release_user_token a t w) = gw_tls w"
  "alone w \<Longrightarrow> unmoved (gw_st w) (gw_st (release_user_token a t w))"
  "alone w \<Longrightarrow> gs_cell (gw_st w) c = 0 \<Longrightarrow> gs_cell (gw_st (release_user_token a t w)) c = 0"
  by (simp_all add: release_user_token_def Let_def alone_op set_cell_def unmoved_def)

text \<open>
  What a call for storage leaves behind: the storage belongs to the shard that the thread is bound to now.  The call has
  asked each core at most once, and at most \<open>k' - k\<close> cores.
\<close>

definition served where
  "served G k k' C ys st raw w w' \<longleftrightarrow> (wrapper_ok G k C ys (gw_st w) \<longrightarrow> tls_ok (gw_st w) (gw_tls w) \<longrightarrow> k' < 2 ^ 63 \<longrightarrow> layout_valid st \<longrightarrow>
     sys_wf (gs_sys (gw_st w')) \<longrightarrow> keeps_bound (gw_st w) (gw_st w') \<and> tls_ok (gw_st w') (gw_tls w')
     \<and> (if raw = 0 then wrapper_ok G k' C ys (gw_st w')
        else C (tl_shard (gw_tls w')) raw = None \<and> tl_shard (gw_tls w') \<noteq> 0
          \<and> wrapper_ok G k' (C(tl_shard (gw_tls w') := (C (tl_shard (gw_tls w')))(raw \<mapsto> st))) ys (gw_st w')))"

lemma served_unmoved:
  assumes s: "served G k k' C ys st raw w v" and u: "unmoved (gw_st v) (gw_st w')" "gw_tls w' = gw_tls v"
  shows "served G k k' C ys st raw w w'"
proof -
  have e: "gs_sys (gw_st w') = gs_sys (gw_st v)" using u(1) by (simp add: unmoved_def)
  have b: "keeps_bound (gw_st w) (gw_st w') = keeps_bound (gw_st w) (gw_st v)" "tls_ok (gw_st w') x = tls_ok (gw_st v) x" for x
    using unmoved_ok(2) [OF u(1)] by (simp_all add: keeps_bound_def tls_ok_def)
  show ?thesis using s unmoved_ok(1) [OF u(1)] unfolding served_def e b u(2) by (auto split: if_splits)
qed

lemma served_core:
  assumes G: "const_ok G" and w: "alone w" and r: "core_alloc G a st t w = (p, w')" and b: "bound (gw_st w) a t" "tl_shard (gw_tls w) = a" "a \<noteq> 0"
  shows "served G k (Suc k) C ys st p w w'"
proof -
  have tl: "gw_tls w' = gw_tls w" using alone_core_shape(2) [OF w r [unfolded core_alloc_def]] .
  show ?thesis
    unfolding served_def
  proof (intro impI)
    assume ok: "wrapper_ok G k C ys (gw_st w)" "tls_ok (gw_st w) (gw_tls w)" "Suc k < 2 ^ 63" "layout_valid st"
    note c = core_alloc_ok [OF G w ok(1) Suc_lessD [OF ok(3)] b(1) ok(4) r]
    show "keeps_bound (gw_st w) (gw_st w') \<and> tls_ok (gw_st w') (gw_tls w')
     \<and> (if p = 0 then wrapper_ok G (Suc k) C ys (gw_st w')
        else C (tl_shard (gw_tls w')) p = None \<and> tl_shard (gw_tls w') \<noteq> 0
          \<and> wrapper_ok G (Suc k) (C(tl_shard (gw_tls w') := (C (tl_shard (gw_tls w')))(p \<mapsto> st))) ys (gw_st w'))"
      using c tls_ok_keeps [OF ok(2) c(4)] b(2,3) tl by simp
  qed
qed

lemma alone_grow:
  assumes G: "const_ok G" and w: "alone w" "\<not> ga_create_lock (gs_ga (gw_st w))"
  obtains raw w' where "grow_and_retry G st a t w = Some (raw, w')" "alone w'" "onward (gw_st w) (gw_st w')"
    "\<forall>k C ys. served G k (Suc k) C ys st raw w w'"
proof -
  let ?k = "max (growth_spans st) (region_spans (gw_st w))"
  have ga: "ga_head (ga_wfspan_allocations_update f g) = ga_head g" "ga_create_lock (ga_wfspan_allocations_update f g) = ga_create_lock g"
    "ga_head (ga_wfspan_allocation_failures_update f g) = ga_head g" "ga_create_lock (ga_wfspan_allocation_failures_update f g) = ga_create_lock g" for f g
    by simp_all
  obtain made u where u: "create_and_link_shard G ?k w = Some (made, u)" "alone u" "gw_tls u = gw_tls w"
      "case made of None \<Rightarrow> unmoved (gw_st w) (gw_st u) | Some a \<Rightarrow> grown G (gw_st w) a (gw_st u)"
    using alone_create_link [OF w] by blast
  show ?thesis
  proof (cases made)
    case None
    note bp = alone_bump [OF u(2) ga(3,4)]
    let ?u = "bump_ga ga_wfspan_allocation_failures_update u"
    have un: "unmoved (gw_st w) (gw_st ?u)" using u(4) None bp(3) by (auto intro: unmoved_trans)
    have "served G k (Suc k) C ys st 0 w w" for k C ys
      by (auto simp: served_def keeps_bound_def intro: wrapper_ok_mono)
    then have "served G k (Suc k) C ys st 0 w ?u" for k C ys by (rule served_unmoved [OF _ un]) (simp add: u(3))
    moreover have "grow_and_retry G st a t w = Some (0, ?u)" using u(1) None by (simp add: grow_and_retry_def Let_def)
    ultimately show ?thesis using bp(1) onward_unmoved [OF un] by (intro that [of 0 ?u]) simp_all
  next
    case (Some b)
    let ?v = "release_user_token a t u"
    note rl = alone_release(1,3) [OF u(2), of a t] alone_release(4) [OF u(2), of _ a t]
    have g: "grown G (gw_st w) b (gw_st u)" using u(4) Some by simp
    obtain x y where x: "acquire_user_token b ?v = (x, y)" by (meson surj_pair)
    note q = alone_acquire [OF rl(1) x]
    obtain us bs sh where f: "b \<noteq> 0" "fresh_shard G b us bs sh" "gs_shard (gw_st u) b = sh\<lparr>hsh_next := ga_head (gs_ga (gw_st w))\<rparr>"
        "0 < us \<longrightarrow> gs_cell (gw_st u) (hsh_token_in_use sh) = 0"
      using g unfolding grown_def by auto
    have us: "us \<noteq> 0" "hsh_user_slots sh = us" using f(2) by (auto simp: fresh_shard_def dest: shard_layouts_Some(1))
    have sv: "gs_shard (gw_st ?v) = gs_shard (gw_st u)" using rl(2) by (simp add: unmoved_def)
    then have "x \<noteq> None" using q(5) rl(3) f(3,4) us by (simp add: word_neq_0_conv)
    then obtain tk slot where xs: "x = Some (tk, slot)" by auto
    let ?y = "y\<lparr>gw_tls := (gw_tls y)\<lparr>tl_shard := b, tl_token_id := tk, tl_token_slot := slot\<rparr>\<rparr>"
    have y: "alone ?y" using q(1) by simp
    obtain raw z where z: "core_alloc G b st tk ?y = (raw, z)" by (meson surj_pair)
    note cs = alone_core_shape [OF y z [unfolded core_alloc_def]]
    let ?w = "if raw \<noteq> 0 then bump_ga ga_wfspan_allocations_update z else bump_ga ga_wfspan_allocation_failures_update z"
    have bp: "alone ?w" "gw_tls ?w = gw_tls z" "unmoved (gw_st z) (gw_st ?w)"
      using alone_bump [OF cs(1) ga(1,2)] alone_bump [OF cs(1) ga(3,4)] by simp_all
    have eq: "grow_and_retry G st a t w = Some (raw, ?w)" using u(1) Some x xs z by (simp add: grow_and_retry_def Let_def)
    have un: "unmoved (gw_st u) (gw_st ?y)" using rl(2) q(3) by (auto intro: unmoved_trans)
    have on: "onward (gw_st ?y) (gw_st ?w)" using cs(3) onward_unmoved [OF bp(3)] by (rule onward_trans)
    then have on': "onward (gw_st u) (gw_st ?w)" using onward_unmoved [OF un] by (blast intro: onward_trans)
    have "served G k (Suc k) C ys st raw w ?w" for k C ys
      unfolding served_def
    proof (intro impI)
      assume ok: "wrapper_ok G k C ys (gw_st w)" "tls_ok (gw_st w) (gw_tls w)" "Suc k < 2 ^ 63" "layout_valid st" "sys_wf (gs_sys (gw_st ?w))"
      note gr = grown_ok [OF G ok(1) g onward_wf [OF on' ok(5)]]
      have tk: "unat tk \<le> unat (hsh_user_slots (gs_shard (gw_st u) b))" using q(4) xs sv by simp
      have bd: "bound (gw_st ?y) b tk" using gr(3) [OF tk] unmoved_ok(2) [OF un] by simp
      have kb: "keeps_bound (gw_st w) (gw_st ?y)" using gr(2) unmoved_ok(3) [OF un] by (rule keeps_bound_trans)
      have "served G k (Suc k) C ys st raw ?y ?w"
        by (rule served_unmoved [OF served_core [OF G y z bd] bp(3,2)]) (simp_all add: f(1))
      moreover have "tls_ok (gw_st ?y) (gw_tls ?y)" using bd by (simp add: tls_ok_def)
      ultimately show "keeps_bound (gw_st w) (gw_st ?w) \<and> tls_ok (gw_st ?w) (gw_tls ?w)
         \<and> (if raw = 0 then wrapper_ok G (Suc k) C ys (gw_st ?w)
            else C (tl_shard (gw_tls ?w)) raw = None \<and> tl_shard (gw_tls ?w) \<noteq> 0
              \<and> wrapper_ok G (Suc k) (C(tl_shard (gw_tls ?w) := (C (tl_shard (gw_tls ?w)))(raw \<mapsto> st))) ys (gw_st ?w))"
        using ok(3-5) unmoved_ok(1) [OF un gr(1)] keeps_bound_trans [OF kb] unfolding served_def by metis
    qed
    moreover have "onward (gw_st w) (gw_st ?w)" using onward_grown [OF g] on' by (rule onward_trans)
    ultimately show ?thesis using eq bp(1) by (intro that [of raw ?w]) simp_all
  qed
qed

lemma served_from:
  assumes on: "onward (gw_st v) (gw_st w')" and kb: "keeps_bound (gw_st w) (gw_st v)"
    and v: "wrapper_ok G k C ys (gw_st v)" "tls_ok (gw_st v) (gw_tls v)" "served G k k' C ys st raw v w'"
  shows "served G k k' C ys st raw w w'"
  using v keeps_bound_trans [OF kb] unfolding served_def by metis

lemma served_then:
  assumes on: "onward (gw_st v) (gw_st w')" and s: "served G k k' C ys st 0 w v" "served G k' k'' C ys st raw v w'" "k' \<le> k''"
  shows "served G k k'' C ys st raw w w'"
  unfolding served_def
proof (intro impI)
  assume ok: "wrapper_ok G k C ys (gw_st w)" "tls_ok (gw_st w) (gw_tls w)" "k'' < 2 ^ 63" "layout_valid st" "sys_wf (gs_sys (gw_st w'))"
  have v: "keeps_bound (gw_st w) (gw_st v)" "tls_ok (gw_st v) (gw_tls v)" "wrapper_ok G k' C ys (gw_st v)"
    using s(1,3) ok onward_wf [OF on ok(5)] by (simp_all add: served_def)
  show "keeps_bound (gw_st w) (gw_st w') \<and> tls_ok (gw_st w') (gw_tls w')
     \<and> (if raw = 0 then wrapper_ok G k'' C ys (gw_st w')
        else C (tl_shard (gw_tls w')) raw = None \<and> tl_shard (gw_tls w') \<noteq> 0
          \<and> wrapper_ok G k'' (C(tl_shard (gw_tls w') := (C (tl_shard (gw_tls w')))(raw \<mapsto> st))) ys (gw_st w'))"
    using s(2) v(2,3) ok(3-5) keeps_bound_trans [OF v(1)] by (simp add: served_def)
qed

lemma served_mono: "served G k k' C ys st raw w w' \<Longrightarrow> k' \<le> k'' \<Longrightarrow> served G k k'' C ys st raw w w'"
  unfolding served_def by (cases "raw = 0") (auto intro: wrapper_ok_mono)

lemma alone_wfspan:
  assumes G: "const_ok G" and w: "alone w" "at_rest (gw_st w)"
  obtains raw w' where "alloc_from_wfspan G st w = Some (raw, w')" "alone w'" "onward (gw_st w) (gw_st w')"
    "\<forall>k C ys. served G k (k + 2) C ys st raw w w'"
proof -
  obtain r v where b: "bind_thread G w = Some (r, v)" "alone v" "onward (gw_st w) (gw_st v)" "\<forall>a t. r = Some (a, t) \<longrightarrow> tl_shard (gw_tls v) = a"
    "\<forall>k C ys. wrapper_ok G k C ys (gw_st w) \<longrightarrow> tls_ok (gw_st w) (gw_tls w) \<longrightarrow> sys_wf (gs_sys (gw_st v)) \<longrightarrow> wrapper_ok G k C ys (gw_st v)
       \<and> keeps_bound (gw_st w) (gw_st v) \<and> tls_ok (gw_st v) (gw_tls v) \<and> (\<forall>a t. r = Some (a, t) \<longrightarrow> bound (gw_st v) a t)"
    using alone_bind [OF G w] by blast
  have nz: "r = Some (a, t) \<Longrightarrow> a \<noteq> 0" for a t using bind_thread_keeps [OF b(1)] by blast
  show ?thesis
  proof (cases r)
    case None
    let ?v = "bump_ga ga_token_acquisition_failures_update v"
    have bp: "alone ?v" "gw_tls ?v = gw_tls v" "unmoved (gw_st v) (gw_st ?v)"
      using alone_bump [OF b(2), of "ga_token_acquisition_failures_update (\<lambda>k. k + 1)"] by simp_all
    have "served G k k C ys st 0 w v" for k C ys using b(5) by (simp add: served_def)
    then have "served G k (k + 2) C ys st 0 w ?v" for k C ys
      using served_mono [OF served_unmoved [OF _ bp(3,2)], of G k k C ys st 0 w "k + 2"] by simp
    moreover have "alloc_from_wfspan G st w = Some (0, ?v)" by (simp add: alloc_from_wfspan_def b(1) None)
    ultimately show ?thesis
      using bp(1) onward_trans [OF b(3) onward_unmoved [OF bp(3)]] by (intro that [of 0 ?v]) simp_all
  next
    case (Some y)
    obtain a t where y: "y = (a, t)" by (cases y)
    have sh: "tl_shard (gw_tls v) = a" "a \<noteq> 0" using b(4) nz Some y by simp_all
    obtain x u where u: "core_alloc G a st t v = (x, u)" by (meson surj_pair)
    note cs = alone_core_shape [OF b(2) u [unfolded core_alloc_def]]
    have core: "served G k (Suc k) C ys st x w u" for k C ys
      unfolding served_def
    proof (intro impI)
      assume ok: "wrapper_ok G k C ys (gw_st w)" "tls_ok (gw_st w) (gw_tls w)" "Suc k < 2 ^ 63" "layout_valid st" "sys_wf (gs_sys (gw_st u))"
      have v: "wrapper_ok G k C ys (gw_st v)" "keeps_bound (gw_st w) (gw_st v)" "tls_ok (gw_st v) (gw_tls v)" "bound (gw_st v) a t"
        using b(5) ok(1,2) onward_wf [OF cs(3) ok(5)] Some y by auto
      have "served G k (Suc k) C ys st x w u" by (rule served_from [OF cs(3) v(2,1,3) served_core [OF G b(2) u v(4) sh]])
      then show "keeps_bound (gw_st w) (gw_st u) \<and> tls_ok (gw_st u) (gw_tls u)
         \<and> (if x = 0 then wrapper_ok G (Suc k) C ys (gw_st u)
            else C (tl_shard (gw_tls u)) x = None \<and> tl_shard (gw_tls u) \<noteq> 0
              \<and> wrapper_ok G (Suc k) (C(tl_shard (gw_tls u) := (C (tl_shard (gw_tls u)))(x \<mapsto> st))) ys (gw_st u))"
        using ok unfolding served_def by blast
    qed
    have on: "onward (gw_st w) (gw_st u)" using b(3) cs(3) by (rule onward_trans)
    show ?thesis
    proof (cases "x = 0")
      case False
      let ?u = "bump_ga ga_wfspan_allocations_update u"
      have bp: "alone ?u" "gw_tls ?u = gw_tls u" "unmoved (gw_st u) (gw_st ?u)"
        using alone_bump [OF cs(1), of "ga_wfspan_allocations_update (\<lambda>k. k + 1)"] by simp_all
      have "served G k (k + 2) C ys st x w ?u" for k C ys by (rule served_mono [OF served_unmoved [OF core bp(3,2)]]) simp
      moreover have "alloc_from_wfspan G st w = Some (x, ?u)" by (simp add: alloc_from_wfspan_def b(1) Some y u False)
      ultimately show ?thesis using bp(1) onward_trans [OF on onward_unmoved [OF bp(3)]] by (intro that [of x ?u]) simp_all
    next
      case True
      have "\<not> ga_create_lock (gs_ga (gw_st u))" using on w(2) by (simp add: onward_def at_rest_def)
      then obtain raw w' where g: "grow_and_retry G st a t u = Some (raw, w')" "alone w'" "onward (gw_st u) (gw_st w')"
          "\<forall>k C ys. served G k (Suc k) C ys st raw u w'"
        using alone_grow [OF G cs(1)] by blast
      have "served G k (k + 2) C ys st raw w w'" for k C ys
        by (rule served_then [OF g(3) core [unfolded True] served_mono [OF g(4) [rule_format]]]) simp_all
      moreover have "alloc_from_wfspan G st w = Some (raw, w')" by (simp add: alloc_from_wfspan_def b(1) Some y u True g(1))
      ultimately show ?thesis using g(2) onward_trans [OF on g(3)] by (intro that [of raw w']) simp_all
    qed
  qed
qed

end
