(* ===== verification/Wrapper_Payloads.thy ===== *)
theory Wrapper_Payloads
  imports Wrapper_Calls
begin

text \<open>
  Payloads of the hosted wrapper.  Every payload that clients hold lies in a storage behind its header, and allocations
  and frees, each left alone, keep the storages given out and the payloads held in step.
\<close>

section \<open>What the clients hold\<close>

text \<open>
  A client's payload with the layout it asked for and the shard its header names, null for the system allocator.
\<close>

type_synonym clients = "address \<rightharpoonup> layout \<times> address"

definition payload_storage :: "clients \<Rightarrow> address \<Rightarrow> address \<Rightarrow> layout \<Rightarrow> bool" where
  "payload_storage held a x st \<longleftrightarrow> (\<exists>p lay adj. held p = Some (lay, a) \<and> layout_for_allocation lay = Some adj
     \<and> x = p - al_offset adj \<and> st = al_storage adj)"

definition headers_ok :: "clients \<Rightarrow> (address \<Rightarrow> allocation_header) \<Rightarrow> bool" where
  "headers_ok held hdr \<longleftrightarrow> (\<forall>p lay a. held p = Some (lay, a) \<longrightarrow> layout_valid lay \<and> (\<exists>adj. layout_for_allocation lay = Some adj
     \<and> header_written p adj (if a = 0 then BACKEND_SYSTEM else BACKEND_WFSPAN) a hdr))"

definition session_at where
  "session_at G k shs B C ys held s \<longleftrightarrow> wrapper_at G k shs B C ys s \<and> (\<forall>a x st. stored C ys a x st \<longleftrightarrow> payload_storage held a x st)
     \<and> headers_ok held (gs_hdr s)"

definition session_ok :: "global_const \<Rightarrow> nat \<Rightarrow> clients \<Rightarrow> global_state \<Rightarrow> bool" where
  "session_ok G k held s \<longleftrightarrow> (\<exists>shs B C ys. session_at G k shs B C ys held s)"

lemma session_okI:
  assumes "wrapper_ok G k C ys s" "\<And>a x st. stored C ys a x st = payload_storage held a x st" "headers_ok held (gs_hdr s)"
  shows "session_ok G k held s"
  using assms unfolding session_ok_def session_at_def wrapper_ok_def by blast

lemma session_okE:
  assumes "session_ok G k held s"
  obtains C ys where "wrapper_ok G k C ys s" "\<forall>a x st. stored C ys a x st = payload_storage held a x st" "headers_ok held (gs_hdr s)"
  using assms unfolding session_ok_def session_at_def wrapper_ok_def by blast

text \<open>A payload lies in its storage behind its header.\<close>

definition stored_payload where
  "stored_payload C ys p lay a adj \<longleftrightarrow> layout_for_allocation lay = Some adj \<and> layout_valid lay
     \<and> stored C ys a (p - al_offset adj) (al_storage adj)"

lemma stored_payload_place:
  assumes w: "wrapper_at G k shs B C ys s" and p: "stored_payload C ys p lay a adj"
  shows "is_aligned p (lay_align lay)" "unat p + unat (lay_size lay) = unat (p - al_offset adj) + unat (lay_size (al_storage adj))"
    "unat (p - al_offset adj) + 48 \<le> unat p" "unat p + unat (lay_size lay) < 2 ^ 64"
    "\<exists>z \<in> set (gs_sys s). unat (fst z) \<le> unat (p - al_offset adj) \<and> unat p + unat (lay_size lay) \<le> unat (fst z) + unat (lay_size (snd z))"
proof -
  let ?x = "p - al_offset adj"
  have d: "layout_for_allocation lay = Some adj" "layout_valid lay" "stored C ys a ?x (al_storage adj)"
    using p by (simp_all add: stored_payload_def)
  obtain z where z: "z \<in> set (gs_sys s)" "unat (fst z) \<le> unat ?x"
      "unat ?x + unat (lay_size (al_storage adj)) \<le> unat (fst z) + unat (lay_size (snd z))"
      "is_aligned ?x (lay_align (al_storage adj))" "unat ?x + unat (lay_size (al_storage adj)) < 2 ^ 64"
    by (rule stored_place [OF w d(3)]) blast
  note pl = payload_place [OF d(1,2) z(4,5)]
  have x: "?x + al_offset adj = p" by simp
  show "is_aligned p (lay_align lay)" "unat p + unat (lay_size lay) = unat ?x + unat (lay_size (al_storage adj))" "unat ?x + 48 \<le> unat p"
    using pl(1-3) by (simp_all only: x)
  then show "unat p + unat (lay_size lay) < 2 ^ 64"
    "\<exists>z \<in> set (gs_sys s). unat (fst z) \<le> unat ?x \<and> unat p + unat (lay_size lay) \<le> unat (fst z) + unat (lay_size (snd z))"
    using z by auto
qed

lemma storage_determines:
  assumes "layout_for_allocation lay = Some adj" "layout_valid lay" "layout_for_allocation lay' = Some adj'" "layout_valid lay'"
    and "al_storage adj = al_storage adj'"
  shows "al_offset adj = al_offset adj'"
proof -
  have "storage_align lay = storage_align lay'"
    using storage_facts(4) [OF assms(1,2)] storage_facts(4) [OF assms(3,4)] assms(5) by simp
  then have "payload_offset lay = payload_offset lay'" by (simp add: payload_offset_def)
  then show ?thesis using storage_facts(2) [OF assms(1,2)] storage_facts(2) [OF assms(3,4)] by (simp add: word_eq_iff_unat)
qed

lemma stored_payloads_apart:
  assumes w: "wrapper_at G k shs B C ys s" and p: "stored_payload C ys p lay a adj" "stored_payload C ys q lay' b adj'"
    and ne: "p \<noteq> q \<or> a \<noteq> b"
  shows "apart (unat p - 48, unat p + unat (lay_size lay)) (unat q - 48, unat q + unat (lay_size lay'))"
proof -
  have d: "layout_for_allocation lay = Some adj" "layout_valid lay" "stored C ys a (p - al_offset adj) (al_storage adj)"
      "layout_for_allocation lay' = Some adj'" "layout_valid lay'" "stored C ys b (q - al_offset adj') (al_storage adj')"
    using p by (simp_all add: stored_payload_def)
  have "(a, p - al_offset adj, al_storage adj) \<noteq> (b, q - al_offset adj', al_storage adj')"
    using ne storage_determines [OF d(1,2,4,5)] by auto
  from stored_apart [OF w d(3,6) this] show ?thesis
    using stored_payload_place(2,3) [OF w p(1)] stored_payload_place(2,3) [OF w p(2)] by (auto simp: apart_def)
qed

lemma session_payload:
  assumes "session_at G k shs B C ys held s" "held p = Some (lay, a)"
  obtains adj where "stored_payload C ys p lay a adj" "header_written p adj (if a = 0 then BACKEND_SYSTEM else BACKEND_WFSPAN) a (gs_hdr s)"
proof -
  obtain adj where adj: "layout_valid lay" "layout_for_allocation lay = Some adj"
      "header_written p adj (if a = 0 then BACKEND_SYSTEM else BACKEND_WFSPAN) a (gs_hdr s)"
    using assms unfolding session_at_def headers_ok_def by blast
  then have "payload_storage held a (p - al_offset adj) (al_storage adj)" using assms(2) unfolding payload_storage_def by blast
  then have "stored_payload C ys p lay a adj" using assms(1) adj by (simp add: session_at_def stored_payload_def)
  then show ?thesis using adj(3) by (rule that)
qed

section \<open>Allocation\<close>

lemma finish_in_state:
  "finish_in raw adj backend a w = (p, w') \<Longrightarrow> p = raw + al_offset adj \<and> gw_tls w' = gw_tls w \<and> gw_env w' = gw_env w \<and> gw_core w' = gw_core w
     \<and> (\<exists>h. ah_shard h = a \<and> gw_st w' = (gw_st w)\<lparr>gs_hdr := (gs_hdr (gw_st w))(p - HEADER_SIZE := h)\<rparr>)"
  by (auto simp: finish_in_def finish_allocation_def Let_def
      intro!: exI [of _ "\<lparr>ah_magic = HEADER_MAGIC, ah_backend = backend, ah_shard = a, ah_storage_size = lay_size (al_storage adj),
        ah_storage_align = lay_align (al_storage adj), ah_offset = al_offset adj\<rparr>"])

lemma payload_storage_add:
  assumes "held p = None" "layout_for_allocation lay = Some adj"
  shows "payload_storage (held(p \<mapsto> (lay, a))) b y st \<longleftrightarrow> payload_storage held b y st \<or> (b, y, st) = (a, p - al_offset adj, al_storage adj)"
proof
  show "payload_storage (held(p \<mapsto> (lay, a))) b y st \<Longrightarrow> payload_storage held b y st \<or> (b, y, st) = (a, p - al_offset adj, al_storage adj)"
    unfolding payload_storage_def using assms(2) by (auto split: if_splits)
  assume r: "payload_storage held b y st \<or> (b, y, st) = (a, p - al_offset adj, al_storage adj)"
  show "payload_storage (held(p \<mapsto> (lay, a))) b y st"
  proof (cases "payload_storage held b y st")
    case True
    then obtain q l d where "held q = Some (l, b)" "layout_for_allocation l = Some d" "y = q - al_offset d" "st = al_storage d"
      unfolding payload_storage_def by blast
    with assms(1) show ?thesis unfolding payload_storage_def by (intro exI [of _ q] exI [of _ l] exI [of _ d]) auto
  next
    case False
    with r have "(b, y, st) = (a, p - al_offset adj, al_storage adj)" by blast
    with assms(2) show ?thesis unfolding payload_storage_def by (intro exI [of _ p] exI [of _ lay] exI [of _ adj]) simp
  qed
qed

lemma hdr_frame:
  "wrapper_ok G k C ys (s\<lparr>gs_hdr := h\<rparr>) = wrapper_ok G k C ys s" "bound (s\<lparr>gs_hdr := h\<rparr>) = bound s"
  "keeps_bound s' (s\<lparr>gs_hdr := h\<rparr>) = keeps_bound s' s" "tls_ok (s\<lparr>gs_hdr := h\<rparr>) t = tls_ok s t"
  "at_rest (s\<lparr>gs_hdr := h\<rparr>) = at_rest s"
  by (simp_all add: wrapper_ok_def wrapper_at_def bound_def [abs_def] keeps_bound_def tls_ok_def at_rest_def)

text \<open>A new storage becomes a payload.\<close>

lemma add_payload:
  assumes s: "\<forall>a x st. stored C ys a x st = payload_storage held a x st" "headers_ok held hdr"
    and w: "wrapper_ok G k C' ys' (gw_st v)" "gs_hdr (gw_st v) = hdr"
    and add: "\<And>b x st. stored C' ys' b x st \<longleftrightarrow> stored C ys b x st \<or> (b, x, st) = (a, raw, al_storage adj)" "\<not> stored C ys a raw (al_storage adj)"
    and lay: "layout_for_allocation lay = Some adj" "layout_valid lay"
    and f: "finish_in raw adj (if a = 0 then BACKEND_SYSTEM else BACKEND_WFSPAN) a v = (p, w')"
  shows "session_ok G k (held(p \<mapsto> (lay, a))) (gw_st w')" "held p = None" "p \<noteq> 0" "ah_shard (gs_hdr (gw_st w') (p - HEADER_SIZE)) = a"
proof -
  obtain shs B where at: "wrapper_at G k shs B C' ys' (gw_st v)" using w(1) unfolding wrapper_ok_def by blast
  have o: "al_offset adj = al_offset adj \<and> p = raw + al_offset adj"
    and st: "\<exists>h. ah_shard h = a \<and> gw_st w' = (gw_st v)\<lparr>gs_hdr := hdr(p - HEADER_SIZE := h)\<rparr>"
    using finish_in_state [OF f] w(2) by auto
  have x: "p - al_offset adj = raw" using o by simp
  have new: "stored_payload C' ys' p lay a adj" using lay add(1) x by (simp add: stored_payload_def)
  show "p \<noteq> 0" using stored_payload_place(3) [OF at new] by auto
  show "ah_shard (gs_hdr (gw_st w') (p - HEADER_SIZE)) = a" using st by auto
  show none: "held p = None"
  proof (rule ccontr)
    assume "held p \<noteq> None"
    then obtain lay' b where h: "held p = Some (lay', b)" by auto
    then obtain adj' where adj': "layout_for_allocation lay' = Some adj'" "layout_valid lay'" using s(2) unfolding headers_ok_def by blast
    then have old: "stored C ys b (p - al_offset adj') (al_storage adj')" using s(1) h unfolding payload_storage_def by blast
    then have pl: "stored_payload C' ys' p lay' b adj'" using adj' add(1) by (simp add: stored_payload_def)
    have "(a, raw, al_storage adj) \<noteq> (b, p - al_offset adj', al_storage adj')" using old add(2) by auto
    then have "apart (unat raw, unat raw + unat (lay_size (al_storage adj))) (unat (p - al_offset adj'), unat (p - al_offset adj') + unat (lay_size (al_storage adj')))"
      using add(1) old by (intro stored_apart [OF at]) auto
    then show False
      using stored_payload_place(2,3) [OF at new] stored_payload_place(2,3) [OF at pl] by (auto simp: apart_def x)
  qed
  have hw: "header_written p adj (if a = 0 then BACKEND_SYSTEM else BACKEND_WFSPAN) a (gs_hdr (gw_st w'))"
    by (rule finish_in_header(1) [OF lay _ f]) simp
  have same: "gs_hdr (gw_st w') (q - HEADER_SIZE) = hdr (q - HEADER_SIZE)" if "q \<noteq> p" for q using st that by auto
  have "headers_ok (held(p \<mapsto> (lay, a))) (gs_hdr (gw_st w'))"
    unfolding headers_ok_def
  proof (intro allI impI)
    fix q l b assume q: "(held(p \<mapsto> (lay, a))) q = Some (l, b)"
    show "layout_valid l \<and> (\<exists>adj. layout_for_allocation l = Some adj \<and> header_written q adj (if b = 0 then BACKEND_SYSTEM else BACKEND_WFSPAN) b (gs_hdr (gw_st w')))"
    proof (cases "q = p")
      case True
      with q lay hw show ?thesis by auto
    next
      case False
      with q s(2) same show ?thesis unfolding headers_ok_def header_written_def by (metis fun_upd_other)
    qed
  qed
  moreover have "payload_storage (held(p \<mapsto> (lay, a))) b y st' \<longleftrightarrow> payload_storage held b y st' \<or> (b, y, st') = (a, raw, al_storage adj)" for b y st'
    using payload_storage_add [where held = held and p = p, OF none lay(1)] by (simp only: x)
  moreover have "wrapper_ok G k C' ys' (gw_st w')" using w(1) st hdr_frame(1) by auto
  ultimately show "session_ok G k (held(p \<mapsto> (lay, a))) (gw_st w')" using add(1) s(1) by (intro session_okI [of G k C' ys']) auto
qed

text \<open>The view of the clients after an allocation returned \<open>p\<close>.\<close>

definition payload_of :: "layout \<Rightarrow> address \<Rightarrow> gworld \<Rightarrow> clients \<Rightarrow> clients" where
  "payload_of lay p w held = (if p = 0 then held else held(p \<mapsto> (lay, ah_shard (gs_hdr (gw_st w) (p - HEADER_SIZE)))))"

text \<open>Why an allocation may fail: the storage does not fit a layout, or the system allocator has answered null.\<close>

definition no_memory :: "layout \<Rightarrow> gworld \<Rightarrow> gworld \<Rightarrow> bool" where
  "no_memory lay w w' \<longleftrightarrow> layout_for_allocation lay = None \<or> gw_sys w' = [] \<or> 0 \<in> set (gw_sys w)"

text \<open>What an allocation keeps; the payload is a new one.\<close>

definition alloc_ok where
  "alloc_ok G lay p w w' \<longleftrightarrow> (\<forall>k held. session_ok G k held (gw_st w) \<longrightarrow> tls_ok (gw_st w) (gw_tls w) \<longrightarrow> k + 2 < 2 ^ 63 \<longrightarrow>
     sys_wf (gs_sys (gw_st w')) \<longrightarrow> session_ok G (k + 2) (payload_of lay p w' held) (gw_st w')
     \<and> keeps_bound (gw_st w) (gw_st w') \<and> tls_ok (gw_st w') (gw_tls w') \<and> (if p = 0 then no_memory lay w w' else held p = None))"

lemma alloc_okD:
  assumes "alloc_ok G lay p w w'" "session_ok G k held (gw_st w)" "tls_ok (gw_st w) (gw_tls w)" "k + 2 < 2 ^ 63" "sys_wf (gs_sys (gw_st w'))"
  shows "session_ok G (k + 2) (payload_of lay p w' held) (gw_st w')" "keeps_bound (gw_st w) (gw_st w')" "tls_ok (gw_st w') (gw_tls w')"
    "if p = 0 then no_memory lay w w' else held p = None"
  using assms unfolding alloc_ok_def by blast+

lemma session_ok_frame:
  assumes "unmoved s t" "gs_hdr t = gs_hdr s"
  shows "session_ok G k held s \<Longrightarrow> session_ok G k held t"
proof -
  have e: "gs_shard t = gs_shard s" "gs_sys t = gs_sys s" "ga_head (gs_ga t) = ga_head (gs_ga s)"
      "ga_create_lock (gs_ga t) = ga_create_lock (gs_ga s)" using assms(1) by (simp_all add: unmoved_def)
  show "session_ok G k held s \<Longrightarrow> session_ok G k held t" unfolding session_ok_def session_at_def wrapper_at_def e assms(2) .
qed

lemma session_ok_mono: "session_ok G k held s \<Longrightarrow> k \<le> k' \<Longrightarrow> session_ok G k' held s"
  by (meson session_okE session_okI wrapper_ok_mono)

lemma session_at_rest: "session_ok G k held s \<Longrightarrow> at_rest s"
  by (meson session_okE wrapper_at_rest)

lemma sys_block_ok:
  assumes w: "wrapper_ok G k C ys s" and t: "gs_shard t = gs_shard s" "ga_head (gs_ga t) = ga_head (gs_ga s)"
      "ga_create_lock (gs_ga t) = ga_create_lock (gs_ga s)" "sys_wf (gs_sys t)"
    and b: "mset (gs_sys t) + mset ys = mset (gs_sys s) + mset ys'"
  shows "wrapper_ok G k C ys' t" "keeps_bound s t"
proof -
  obtain shs B where at: "wrapper_at G k shs B C ys s" using w unfolding wrapper_ok_def by blast
  note d = wrapper_atD [OF at]
  have "mset (gs_sys t) + mset ys = (mset (concat (List.map B shs)) + mset ys') + mset ys" using b d(5) by (simp add: ac_simps)
  then have "mset (gs_sys t) = mset (concat (List.map B shs) @ ys')" by simp
  then have at': "wrapper_at G k shs B C ys' t" using d t by (simp add: wrapper_at_def)
  then show "wrapper_ok G k C ys' t" unfolding wrapper_ok_def by blast
  show "keeps_bound s t" by (rule keeps_bound_at [OF at at']) (simp_all add: t(1))
qed

text \<open>The storage comes from the shard that the thread is bound to.\<close>

lemma finish_served:
  assumes lay: "layout_for_allocation lay = Some adj" "layout_valid lay" and raw: "raw \<noteq> 0"
    and v: "\<forall>k C ys. served G k (k + 2) C ys (al_storage adj) raw w v" "gs_hdr (gw_st v) = gs_hdr (gw_st w)"
    and f: "finish_in raw adj BACKEND_WFSPAN (tl_shard (gw_tls v)) v = (p, w')"
  shows "alloc_ok G lay p w w'"
  unfolding alloc_ok_def
proof (intro allI impI)
  fix k held
  assume ok: "session_ok G k held (gw_st w)" "tls_ok (gw_st w) (gw_tls w)" "k + 2 < 2 ^ 63" "sys_wf (gs_sys (gw_st w'))"
  let ?a = "tl_shard (gw_tls v)"
  obtain C ys where s: "wrapper_ok G k C ys (gw_st w)" "\<forall>a x st. stored C ys a x st = payload_storage held a x st" "headers_ok held (gs_hdr (gw_st w))"
    using session_okE [OF ok(1)] .
  obtain h where h: "gw_st w' = (gw_st v)\<lparr>gs_hdr := h\<rparr>" "gw_tls w' = gw_tls v" using finish_in_state [OF f] by blast
  have sv: "keeps_bound (gw_st w) (gw_st v)" "tls_ok (gw_st v) (gw_tls v)" "C ?a raw = None" "?a \<noteq> 0"
      "wrapper_ok G (k + 2) (C(?a := (C ?a)(raw \<mapsto> al_storage adj))) ys (gw_st v)"
    using v(1) s(1) ok(2-4) storage_facts(1) [OF lay] raw h(1) by (simp_all add: served_def)
  have f': "finish_in raw adj (if ?a = 0 then BACKEND_SYSTEM else BACKEND_WFSPAN) ?a v = (p, w')" using f sv(4) by simp
  have add: "stored (C(?a := (C ?a)(raw \<mapsto> al_storage adj))) ys b x st \<longleftrightarrow> stored C ys b x st \<or> (b, x, st) = (?a, raw, al_storage adj)" for b x st
    using sv(3,4) by (auto simp: stored_def)
  have new: "\<not> stored C ys ?a raw (al_storage adj)" using sv(3,4) by (simp add: stored_def)
  note ap = add_payload [OF s(2,3) sv(5) v(2) add new lay f']
  have "payload_of lay p w' held = held(p \<mapsto> (lay, ?a))" using ap(3,4) by (simp add: payload_of_def)
  then show "session_ok G (k + 2) (payload_of lay p w' held) (gw_st w')
     \<and> keeps_bound (gw_st w) (gw_st w') \<and> tls_ok (gw_st w') (gw_tls w') \<and> (if p = 0 then no_memory lay w w' else held p = None)"
    using ap(1-3) sv(1,2) by (simp add: h hdr_frame)
qed

text \<open>The storage is a new block of the system allocator.\<close>

lemma finish_system:
  assumes lay: "layout_for_allocation lay = Some adj" "layout_valid lay"
    and v: "\<forall>k C ys. served G k (k + 2) C ys (al_storage adj) 0 w v" "gs_hdr (gw_st v) = gs_hdr (gw_st w)"
    and u: "gs_shard (gw_st u) = gs_shard (gw_st v)" "ga_head (gs_ga (gw_st u)) = ga_head (gs_ga (gw_st v))"
      "ga_create_lock (gs_ga (gw_st u)) = ga_create_lock (gs_ga (gw_st v))" "gs_sys (gw_st u) = (x, al_storage adj) # gs_sys (gw_st v)"
      "gs_hdr (gw_st u) = gs_hdr (gw_st v)" "gw_tls u = gw_tls v"
    and f: "finish_in x adj BACKEND_SYSTEM 0 u = (p, w')"
  shows "alloc_ok G lay p w w'"
  unfolding alloc_ok_def
proof (intro allI impI)
  fix k held
  assume ok: "session_ok G k held (gw_st w)" "tls_ok (gw_st w) (gw_tls w)" "k + 2 < 2 ^ 63" "sys_wf (gs_sys (gw_st w'))"
  obtain C ys where s: "wrapper_ok G k C ys (gw_st w)" "\<forall>a x st. stored C ys a x st = payload_storage held a x st" "headers_ok held (gs_hdr (gw_st w))"
    using session_okE [OF ok(1)] .
  obtain h where h: "gw_st w' = (gw_st u)\<lparr>gs_hdr := h\<rparr>" "gw_tls w' = gw_tls v" using finish_in_state [OF f] u(6) by auto
  have wf: "sys_wf (gs_sys (gw_st v))" "(x, al_storage adj) \<notin> set (gs_sys (gw_st v))" "sys_wf (gs_sys (gw_st u))"
    using ok(4) u(4) h(1) sys_wf_append [of "[(x, al_storage adj)]"] by (auto simp: sys_wf_def)
  have lw: "keeps_bound (gw_st w) (gw_st v)" "tls_ok (gw_st v) (gw_tls v)" "wrapper_ok G (k + 2) C ys (gw_st v)"
    using v(1) s(1) ok(2,3) wf(1) storage_facts(1) [OF lay] by (simp_all add: served_def)
  have "(x, al_storage adj) \<notin> set ys" using lw(3) wf(2) wrapper_blocks(2) unfolding wrapper_ok_def by blast
  then have new: "\<not> stored C ys 0 x (al_storage adj)" by (simp add: stored_def)
  note sb = sys_block_ok [OF lw(3) u(1-3) wf(3), of "(x, al_storage adj) # ys", unfolded u(4), simplified]
  have f': "finish_in x adj (if 0 = (0 :: address) then BACKEND_SYSTEM else BACKEND_WFSPAN) 0 u = (p, w')" using f by simp
  have add: "stored C ((x, al_storage adj) # ys) b y st \<longleftrightarrow> stored C ys b y st \<or> (b, y, st) = (0, x, al_storage adj)" for b y st
    by (auto simp: stored_def)
  have hdr: "gs_hdr (gw_st u) = gs_hdr (gw_st w)" by (simp only: u(5) v(2))
  note ap = add_payload [OF s(2,3) sb(1) hdr add new lay f']
  have "payload_of lay p w' held = held(p \<mapsto> (lay, 0))" using ap(3,4) by (simp add: payload_of_def)
  then show "session_ok G (k + 2) (payload_of lay p w' held) (gw_st w')
     \<and> keeps_bound (gw_st w) (gw_st w') \<and> tls_ok (gw_st w') (gw_tls w') \<and> (if p = 0 then no_memory lay w w' else held p = None)"
    using ap(1-3) keeps_bound_trans [OF lw(1) sb(2)] tls_ok_keeps [OF lw(2) sb(2)] by (simp add: h hdr_frame)
qed

lemma finish_null:
  assumes v: "\<forall>k C ys. served G k (k + 2) C ys st 0 w v" "layout_valid st" "gs_hdr (gw_st v) = gs_hdr (gw_st w)"
    and u: "gw_st u = gw_st v" "gw_tls u = gw_tls v" and null: "no_memory lay w u"
  shows "alloc_ok G lay 0 w u"
  unfolding alloc_ok_def payload_of_def u
proof (intro allI impI)
  fix k held
  assume ok: "session_ok G k held (gw_st w)" "tls_ok (gw_st w) (gw_tls w)" "k + 2 < 2 ^ 63" "sys_wf (gs_sys (gw_st v))"
  obtain C ys where s: "wrapper_ok G k C ys (gw_st w)" "\<forall>a x st. stored C ys a x st = payload_storage held a x st" "headers_ok held (gs_hdr (gw_st w))"
    using session_okE [OF ok(1)] .
  have "keeps_bound (gw_st w) (gw_st v)" "tls_ok (gw_st v) (gw_tls v)" "wrapper_ok G (k + 2) C ys (gw_st v)"
    using v(1,2) s(1) ok(2-4) by (simp_all add: served_def)
  then show "session_ok G (k + 2) (if (0 :: address) = 0 then held else held(0 \<mapsto> (lay, ah_shard (gs_hdr (gw_st v) (0 - HEADER_SIZE))))) (gw_st v)
     \<and> keeps_bound (gw_st w) (gw_st v) \<and> tls_ok (gw_st v) (gw_tls v) \<and> (if (0 :: address) = 0 then no_memory lay w u else held 0 = None)"
    using s(2,3) v(3) null by (auto intro: session_okI)
qed

lemma alone_ga_alloc:
  assumes G: "const_ok G" and w: "alone w" "at_rest (gw_st w)" "layout_valid lay"
  obtains p w' where "ga_alloc G lay w = Some (p, w')" "alone w'" "alloc_ok G lay p w w'"
proof (cases "layout_for_allocation lay")
  case None
  then have "ga_alloc G lay w = Some (0, w)" by (simp add: ga_alloc_def)
  then show ?thesis using w(1) by (rule that) (auto simp: alloc_ok_def payload_of_def keeps_bound_def no_memory_def None intro: session_ok_mono)
next
  case (Some adj)
  obtain raw v where v: "alloc_from_wfspan G (al_storage adj) w = Some (raw, v)" "alone v" "onward (gw_st w) (gw_st v)"
      "\<forall>k C ys. served G k (k + 2) C ys (al_storage adj) raw w v"
    using alone_wfspan [OF G w(1,2)] by blast
  have hdr: "gs_hdr (gw_st v) = gs_hdr (gw_st w)" using v(3) by (simp add: onward_def)
  show ?thesis
  proof (cases "raw = 0")
    case False
    obtain p w' where f: "finish_in raw adj BACKEND_WFSPAN (tl_shard (gw_tls v)) v = (p, w')" by (meson surj_pair)
    have "ga_alloc G lay w = Some (p, w')" using Some v(1) False f by (simp add: ga_alloc_def)
    moreover have "alone w'" using finish_in_state [OF f] v(2) by (simp add: alone_def)
    ultimately show ?thesis using finish_served [OF Some w(3) False v(4) hdr f] by (rule that)
  next
    case True
    have e: "ga_alloc G lay w = Some (alloc_system adj v)" using Some v(1) True by (simp add: ga_alloc_def)
    obtain x u where x: "sys_alloc (al_storage adj) v = (x, u)" by (meson surj_pair)
    note al = alone_sys_alloc [OF v(2) x]
    show ?thesis
    proof (cases "x = 0")
      case z: True
      then have "gw_st u = gw_st v" "gw_tls u = gw_tls v" using al(2) by (auto simp: given_def)
      moreover have "no_memory lay w u" using x z wfspan_sys [OF v(1)] by (auto simp: no_memory_def sys_alloc_def split: list.splits)
      ultimately have "alloc_ok G lay 0 w u" by (rule finish_null [OF v(4) [unfolded True] storage_facts(1) [OF Some w(3)] hdr])
      with al(1) show ?thesis
        by (intro that [of 0 u]) (simp_all add: e alloc_system_def x z)
    next
      case nz: False
      then obtain as where u: "u = v\<lparr>gw_st := (gw_st v)\<lparr>gs_sys := (x, al_storage adj) # gs_sys (gw_st v)\<rparr>, gw_sys := as\<rparr>"
        using al(2) by (auto simp: given_def)
      let ?u = "bump_ga ga_system_allocations_update u"
      have bp: "gw_st ?u = on_ga (ga_system_allocations_update (\<lambda>k. k + 1)) (gw_st u)" using al(1) by (simp add: alone_op)
      obtain p w' where f: "finish_in x adj BACKEND_SYSTEM 0 ?u = (p, w')" by (meson surj_pair)
      have us: "gs_shard (gw_st ?u) = gs_shard (gw_st v)" "ga_head (gs_ga (gw_st ?u)) = ga_head (gs_ga (gw_st v))"
          "ga_create_lock (gs_ga (gw_st ?u)) = ga_create_lock (gs_ga (gw_st v))" "gs_sys (gw_st ?u) = (x, al_storage adj) # gs_sys (gw_st v)"
          "gs_hdr (gw_st ?u) = gs_hdr (gw_st v)" "gw_tls ?u = gw_tls v"
        unfolding bp by (simp_all add: u)
      have "alone ?u" using al(1) by (simp add: alone_op)
      then have "alone w'" using finish_in_state [OF f] by (simp add: alone_def)
      moreover have "ga_alloc G lay w = Some (p, w')" by (simp add: e alloc_system_def x nz f)
      ultimately show ?thesis using finish_system [OF Some w(3) v(4) [unfolded True] hdr us f] by (intro that)
    qed
  qed
qed

section \<open>Deallocation\<close>

lemma payload_storage_remove:
  assumes h: "headers_ok held hdr" "held p = Some (lay, a)" "layout_for_allocation lay = Some adj"
  shows "payload_storage (held(p := None)) b y st \<longleftrightarrow> payload_storage held b y st \<and> (b, y, st) \<noteq> (a, p - al_offset adj, al_storage adj)"
proof
  assume "payload_storage (held(p := None)) b y st"
  then obtain q l d where q: "q \<noteq> p" "held q = Some (l, b)" "layout_for_allocation l = Some d" "y = q - al_offset d" "st = al_storage d"
    unfolding payload_storage_def by (auto split: if_splits)
  have "layout_valid l" "layout_valid lay" using h(1,2) q(2) unfolding headers_ok_def by blast+
  then have "(b, y, st) \<noteq> (a, p - al_offset adj, al_storage adj)" using storage_determines [OF q(3) _ h(3)] q(1,4,5) by auto
  with q show "payload_storage held b y st \<and> (b, y, st) \<noteq> (a, p - al_offset adj, al_storage adj)" unfolding payload_storage_def by blast
next
  assume r: "payload_storage held b y st \<and> (b, y, st) \<noteq> (a, p - al_offset adj, al_storage adj)"
  then obtain q l d where q: "held q = Some (l, b)" "layout_for_allocation l = Some d" "y = q - al_offset d" "st = al_storage d"
    unfolding payload_storage_def by blast
  then have "q \<noteq> p" using r h(2,3) by auto
  with q show "payload_storage (held(p := None)) b y st" unfolding payload_storage_def by (intro exI [of _ q] exI [of _ l] exI [of _ d]) simp
qed

text \<open>The core takes a storage back, through the token of the thread or through the service token under its lock.\<close>

lemma alone_dealloc_to_wfspan:
  assumes w: "alone w" "wrapper_ok G k C ys (gw_st w)" "tls_ok (gw_st w) (gw_tls w)" and c: "C a x = Some st" "a \<noteq> 0"
  obtains w' where "dealloc_to_wfspan G a x st w = Some ((), w')" "alone w'" "gw_tls w' = gw_tls w" "gs_hdr (gw_st w') = gs_hdr (gw_st w)"
    "wrapper_ok G k (C(a := (C a)(x := None))) ys (gw_st w')" "keeps_bound (gw_st w) (gw_st w')"
proof (cases "tl_shard (gw_tls w) = a \<and> tl_token_id (gw_tls w) \<noteq> usize_max")
  case True
  then have "bound (gw_st w) a (tl_token_id (gw_tls w))" using w(3) c(2) by (auto simp: tls_ok_def)
  note d = core_dealloc_ok [OF w(1,2) this c(1)]
  have "dealloc_to_wfspan G a x st w = Some ((), core_dealloc G a x st (tl_token_id (gw_tls w)) w)"
    using True c(2) by (simp add: dealloc_to_wfspan_def)
  then show ?thesis by (rule that [OF _ d(1,6,4,2,3)])
next
  case False
  obtain shs B where at: "wrapper_at G k shs B C ys (gw_st w)" using w(2) unfolding wrapper_ok_def by blast
  let ?s = "gw_st w"
  have a: "a \<in> set shs" using wrapper_atD(7) [OF at, of a] c(1) by (cases "a \<in> set shs") simp_all
  note so = wrapper_atD(6) [OF at a]
  have free: "\<not> hsh_service_lock (gs_shard ?s a)" using so by (auto simp: shard_ok_def shard_at_def)
  define v where "v = bump_ga ga_service_token_deallocations_update (w\<lparr>gw_st := set_service_lock a True ?s\<rparr>)"
  have v: "alone v" "gw_tls v = gw_tls w" "gw_st v = on_ga (ga_service_token_deallocations_update (\<lambda>k. k + 1)) (set_service_lock a True ?s)"
    using w(1) by (simp_all add: v_def alone_op)
  have ha: "hsh_alloc (gs_shard (gw_st v) a) = hsh_alloc (gs_shard ?s a)" by (simp add: v(3) set_service_lock_def)
  obtain r u where r: "core_call a (\<lambda>n. dealloc_with_token (gc_classes G) (gc_hg G) x st \<lparr>tok_id = SERVICE_TOKEN_ID\<rparr>) v = (r, u)" by (meson surj_pair)
  have q: "quietly (dealloc_with_token (gc_classes G) (gc_hg G) x st \<lparr>tok_id = SERVICE_TOKEN_ID\<rparr>) (hsh_alloc (gs_shard (gw_st v) a))
      (\<lambda>_ c. shard_ok G k (B a) ((C a)(x := None)) a ((gs_shard ?s a)\<lparr>hsh_alloc := c\<rparr>))"
    unfolding ha by (rule shard_ok_dealloc [OF so _ c(1)]) (simp add: SERVICE_TOKEN_ID_def)
  obtain c' where c': "shard_ok G k (B a) ((C a)(x := None)) a ((gs_shard ?s a)\<lparr>hsh_alloc := c'\<rparr>)"
      "u = v\<lparr>gw_st := on_shard a (hsh_alloc_update (\<lambda>_. c')) (gw_st v)\<rparr>"
    by (rule alone_core [OF v(1) refl q r])
  let ?w = "unlock (set_service_lock a) u"
  have u: "alone u" "gw_tls u = gw_tls w" "gw_st u = on_shard a (hsh_alloc_update (\<lambda>_. c')) (gw_st v)" using v by (simp_all add: c'(2))
  have st: "gw_st ?w = set_service_lock a False (gw_st u)" using u(1) by (simp add: unlock_def alone_op)
  have "dealloc_to_wfspan G a x st w = Some ((), ?w)"
    using False c(2) alone_lock [OF w(1), of "service_lock_held a" "set_service_lock a"] free r
    by (auto simp: dealloc_to_wfspan_def core_dealloc_def service_lock_held_def simp flip: v_def)
  moreover have "alone ?w" "gw_tls ?w = gw_tls w" using u by (simp_all add: unlock_def alone_op)
  moreover have t: "gs_shard (gw_st ?w) = (gs_shard ?s)(a := (gs_shard ?s a)\<lparr>hsh_alloc := c'\<rparr>)" "gs_sys (gw_st ?w) = gs_sys ?s"
      "ga_head (gs_ga (gw_st ?w)) = ga_head (gs_ga ?s)" "ga_create_lock (gs_ga (gw_st ?w)) = ga_create_lock (gs_ga ?s)"
      "gs_hdr (gw_st ?w) = gs_hdr ?s"
    unfolding st u(3) using free by (simp_all add: v(3) set_service_lock_def fun_eq_iff)
  moreover note shard_step_ok [OF at a c'(1) order_refl t(1-4)]
  ultimately show ?thesis by (intro that [of ?w])
qed

lemma alone_ga_dealloc:
  assumes w: "alone w" "session_ok G k held (gw_st w)" "tls_ok (gw_st w) (gw_tls w)" and p: "held p = Some (lay, a)"
  obtains w' where "ga_dealloc G p lay' w = Some ((), w')" "alone w'" "gw_tls w' = gw_tls w" "session_ok G k (held(p := None)) (gw_st w')"
    "keeps_bound (gw_st w) (gw_st w')" "gs_hdr (gw_st w') = gs_hdr (gw_st w)"
proof -
  obtain shs B C ys where at: "session_at G k shs B C ys held (gw_st w)" using w(2) unfolding session_ok_def by blast
  then have s: "wrapper_at G k shs B C ys (gw_st w)" "\<And>a x st. stored C ys a x st = payload_storage held a x st" "headers_ok held (gs_hdr (gw_st w))"
    unfolding session_at_def by blast+
  have ok: "wrapper_ok G k C ys (gw_st w)" using s(1) unfolding wrapper_ok_def by blast
  obtain adj where adj: "stored_payload C ys p lay a adj" "header_written p adj (if a = 0 then BACKEND_SYSTEM else BACKEND_WFSPAN) a (gs_hdr (gw_st w))"
    using session_payload [OF at p] .
  let ?x = "p - al_offset adj" and ?st = "al_storage adj"
  have lay: "layout_for_allocation lay = Some adj" and st: "stored C ys a ?x ?st" using adj(1) by (simp_all add: stored_payload_def)
  have "p \<noteq> 0" using stored_payload_place(3) [OF s(1) adj(1)] by auto
  note rec = dealloc_recovers [OF adj(2) this, of G lay']
  have hd: "headers_ok (held(p := None)) (gs_hdr (gw_st w))" using s(3) unfolding headers_ok_def by (auto split: if_splits)
  have fin: "session_ok G k (held(p := None)) t"
    if "wrapper_ok G k C' ys' t" "gs_hdr t = gs_hdr (gw_st w)" "\<And>b y st. stored C' ys' b y st \<longleftrightarrow> stored C ys b y st \<and> (b, y, st) \<noteq> (a, ?x, ?st)" for C' ys' t
    using that hd s(2) payload_storage_remove [OF s(3) p lay] by (intro session_okI [of G k C' ys']) auto
  show ?thesis
  proof (cases "a = 0")
    case False
    have c: "C a ?x = Some ?st" using st False by (simp add: stored_def)
    obtain w' where w': "dealloc_to_wfspan G a ?x ?st w = Some ((), w')" "alone w'" "gw_tls w' = gw_tls w" "gs_hdr (gw_st w') = gs_hdr (gw_st w)"
        "wrapper_ok G k (C(a := (C a)(?x := None))) ys (gw_st w')" "keeps_bound (gw_st w) (gw_st w')"
      using alone_dealloc_to_wfspan [OF w(1) ok w(3) c False] .
    have "ga_dealloc G p lay' w = Some ((), w')" using rec w'(1) False by simp
    moreover have "session_ok G k (held(p := None)) (gw_st w')"
      by (rule fin [OF w'(5,4)]) (use c False in \<open>auto simp: stored_def\<close>)
    ultimately show ?thesis using w'(2,3,6,4) by (intro that [of w'])
  next
    case True
    have y: "(?x, ?st) \<in> set ys" using st True by (simp add: stored_def)
    let ?w = "sys_dealloc ?x ?st (bump_ga ga_system_deallocations_update w)"
    have e: "gw_st ?w = (on_ga (ga_system_deallocations_update (\<lambda>k. k + 1)) (gw_st w))\<lparr>gs_sys := remove1 (?x, ?st) (gs_sys (gw_st w))\<rparr>"
        "alone ?w" "gw_tls ?w = gw_tls w"
      using w(1) by (simp_all add: alone_sys_dealloc alone_op)
    have dist: "distinct (gs_sys (gw_st w))" "distinct ys"
      using wrapper_atD(4,5) [OF s(1)] mset_eq_imp_distinct_iff [OF wrapper_atD(5) [OF s(1)]] by (auto simp: sys_wf_def)
    have "sys_wf (remove1 (?x, ?st) (gs_sys (gw_st w)))"
      by (rule sys_wf_subset [OF wrapper_atD(4) [OF s(1)]]) (use dist set_remove1_subset in auto)
    moreover have "(?x, ?st) \<in> set (gs_sys (gw_st w))" using wrapper_blocks(2) [OF s(1) y] .
    then have "mset (remove1 (?x, ?st) (gs_sys (gw_st w))) + mset ys = mset (gs_sys (gw_st w)) + mset (remove1 (?x, ?st) ys)"
      using y by simp
    ultimately have sb: "wrapper_ok G k C (remove1 (?x, ?st) ys) (gw_st ?w)" "keeps_bound (gw_st w) (gw_st ?w)"
      using sys_block_ok [OF ok, of "gw_st ?w" "remove1 (?x, ?st) ys"] by (simp_all add: e)
    have "session_ok G k (held(p := None)) (gw_st ?w)"
      by (rule fin [OF sb(1)]) (use True dist(2) e in \<open>auto simp: stored_def\<close>)
    moreover have "ga_dealloc G p lay' w = Some ((), ?w)" using rec True by (simp add: BACKEND_SYSTEM_def BACKEND_WFSPAN_def)
    ultimately show ?thesis using e(2,3) sb(2) by (intro that [of ?w]) (simp_all add: e(1))
  qed
qed

end
