(* ===== verification/Global_Sessions.thy ===== *)
theory Global_Sessions
  imports Wrapper_Payloads
begin

text \<open>
  Sessions of the hosted wrapper: any sequence of \<^verbatim>\<open>GlobalAlloc\<close> calls, thread exits and writes of the clients, by any
  threads, each call left alone while it runs, over a system allocator that keeps its promise.
\<close>

section \<open>Writes\<close>

text \<open>
  A write of a client may change the bytes of the payloads, every header cell that overlaps a payload, and in
  the memory of a core every cell that overlaps a storage it gave out: the wrapper writes the header of a payload there, the
  client the payload.
\<close>

definition write_reaches :: "clients \<Rightarrow> address \<Rightarrow> nat \<Rightarrow> bool" where
  "write_reaches held x m \<longleftrightarrow> (\<exists>p lay a. held p = Some (lay, a) \<and> unat x < unat p + unat (lay_size lay) \<and> unat p < unat x + m)"

definition clients_write :: "clients \<Rightarrow> global_state \<Rightarrow> global_state \<Rightarrow> bool" where
  "clients_write held s t \<longleftrightarrow> (\<exists>core hdr bytes C. (\<forall>a x st. C a x = Some st \<longleftrightarrow> a \<noteq> 0 \<and> payload_storage held a x st)
     \<and> t = s\<lparr>gs_shard := \<lambda>a. (gs_shard s a)\<lparr>hsh_alloc := core a\<rparr>, gs_hdr := hdr, gs_byte := bytes\<rparr>
     \<and> (\<forall>a. client_write (C a) (hsh_alloc (gs_shard s a)) (core a))
     \<and> (\<forall>x. \<not> write_reaches held x (unat HEADER_SIZE) \<longrightarrow> hdr x = gs_hdr s x)
     \<and> (\<forall>x. \<not> write_reaches held x 1 \<longrightarrow> bytes x = gs_byte s x))"

lemma headers_out_of_reach:
  assumes at: "session_at G k shs B C ys held s" and p: "held p = Some (lay, a)"
  shows "\<not> write_reaches held (p - HEADER_SIZE) (unat HEADER_SIZE)"
proof
  assume "write_reaches held (p - HEADER_SIZE) (unat HEADER_SIZE)"
  then obtain q l b where q: "held q = Some (l, b)" "unat (p - HEADER_SIZE) < unat q + unat (lay_size l)" "unat q < unat (p - HEADER_SIZE) + 48"
    unfolding write_reaches_def header_consts by blast
  have w: "wrapper_at G k shs B C ys s" using at by (simp add: session_at_def)
  obtain adj where adj: "stored_payload C ys p lay a adj" using session_payload [OF at p] .
  obtain d where d: "stored_payload C ys q l b d" using session_payload [OF at q(1)] .
  have "48 \<le> unat p" using stored_payload_place(3) [OF w adj] by simp
  then have u: "unat (p - HEADER_SIZE) = unat p - 48" by (simp add: unat_sub_le word_le_nat_alt header_consts)
  show False
  proof (cases "q = p")
    case True
    then show ?thesis using q(3) u \<open>48 \<le> unat p\<close> by simp
  next
    case False
    then have "apart (unat p - 48, unat p + unat (lay_size lay)) (unat q - 48, unat q + unat (lay_size l))"
      using stored_payloads_apart [OF w adj d] by simp
    moreover have "48 \<le> unat q" using stored_payload_place(3) [OF w d] by simp
    ultimately show ?thesis using q(2,3) u \<open>48 \<le> unat p\<close> by (auto simp: apart_def)
  qed
qed

lemma clients_write_ok:
  assumes s: "session_ok G k held s" and w: "clients_write held s t"
  shows "session_ok G k held t" "keeps_bound s t"
proof -
  obtain shs B C ys where at: "session_at G k shs B C ys held s" using s unfolding session_ok_def by blast
  then have d: "wrapper_at G k shs B C ys s" "\<And>a x st. stored C ys a x st = payload_storage held a x st" "headers_ok held (gs_hdr s)"
    unfolding session_at_def by blast+
  obtain core hdr bytes C' where c: "\<forall>a x st. C' a x = Some st \<longleftrightarrow> a \<noteq> 0 \<and> payload_storage held a x st"
      "t = s\<lparr>gs_shard := \<lambda>a. (gs_shard s a)\<lparr>hsh_alloc := core a\<rparr>, gs_hdr := hdr, gs_byte := bytes\<rparr>"
      "\<forall>a. client_write (C' a) (hsh_alloc (gs_shard s a)) (core a)"
      "\<forall>x. \<not> write_reaches held x (unat HEADER_SIZE) \<longrightarrow> hdr x = gs_hdr s x"
    using w unfolding clients_write_def by blast
  have "C' a x = C a x" for a x
  proof (cases "a = 0")
    case True
    then have "C a = Map.empty" using wrapper_atD(1,7) [OF d(1)] chain_null_free by blast
    then show ?thesis using c(1) True by (cases "C' a x") auto
  next
    case False
    have "C' a x = Some st \<longleftrightarrow> C a x = Some st" for st using c(1) False d(2) [of a x st] by (simp add: stored_def)
    then show ?thesis by (cases "C a x"; cases "C' a x") auto
  qed
  then have C: "C' = C" by (simp add: fun_eq_iff)
  have "shard_list (gs_shard t) (ga_head (gs_ga s)) shs = shard_list (gs_shard s) (ga_head (gs_ga s)) shs"
    by (rule chain_cong) (simp add: c(2))
  moreover have "shard_ok G k (B a) (C a) a (gs_shard t a)" if "a \<in> set shs" for a
    using shard_ok_write [OF wrapper_atD(6) [OF d(1) that]] c(3) C by (simp add: c(2))
  ultimately have at': "wrapper_at G k shs B C ys t" using wrapper_atD [OF d(1)] by (simp add: wrapper_at_def c(2))
  have "headers_ok held hdr"
    using d(3) headers_out_of_reach [OF at] c(4) unfolding headers_ok_def header_written_def by metis
  then have "session_at G k shs B C ys held t" using at' d(2) by (simp add: session_at_def c(2))
  then show "session_ok G k held t" unfolding session_ok_def by blast
  show "keeps_bound s t" by (rule keeps_bound_at [OF d(1) at']) (simp_all add: c(2))
qed

section \<open>Reallocation\<close>

text \<open>The view of the clients after a reallocation of \<open>p\<close> to \<open>n\<close> bytes returned \<open>q\<close>.\<close>

definition realloc_of :: "address \<Rightarrow> layout \<Rightarrow> usize \<Rightarrow> address \<Rightarrow> gworld \<Rightarrow> clients \<Rightarrow> clients" where
  "realloc_of p lay n q w held = (case from_size_align n (lay_align lay) of None \<Rightarrow> held
     | Some new \<Rightarrow> if n = 0 then held(p := None) else if q = 0 then held else (payload_of new q w held)(p := None))"

lemma write_bytes_frame: "unmoved s (write_bytes p bs s)" "gs_hdr (write_bytes p bs s) = gs_hdr s"
  by (simp_all add: write_bytes_def unmoved_def)

lemma session_nonnull:
  assumes "session_ok G k held s" "held p = Some (lay, a)"
  shows "p \<noteq> 0"
proof -
  obtain shs B C ys where at: "session_at G k shs B C ys held s" using assms(1) unfolding session_ok_def by blast
  obtain adj where "stored_payload C ys p lay a adj" using session_payload [OF at assms(2)] .
  then show ?thesis using stored_payload_place(3) at unfolding session_at_def by fastforce
qed

lemma alone_ga_realloc:
  assumes G: "const_ok G" and w: "alone w" "session_ok G k held (gw_st w)" "tls_ok (gw_st w) (gw_tls w)" "k + 2 < 2 ^ 63" and p: "held p = Some (lay, a)"
    and sys: "\<forall>new q v. from_size_align n (lay_align lay) = Some new \<longrightarrow> ga_alloc G new w = Some (q, v) \<longrightarrow> sys_wf (gs_sys (gw_st v))"
  obtains q w' where "ga_realloc G p lay n w = Some (q, w')" "alone w'" "session_ok G (k + 2) (realloc_of p lay n q w' held) (gw_st w')"
    "keeps_bound (gw_st w) (gw_st w')" "tls_ok (gw_st w') (gw_tls w')"
proof -
  have pz: "p \<noteq> 0" using session_nonnull [OF w(2) p] .
  show ?thesis
  proof (cases "from_size_align n (lay_align lay)")
    case None
    then have "ga_realloc G p lay n w = Some (0, w)" by (simp add: ga_realloc_def)
    then show ?thesis
      by (rule that) (use w None session_ok_mono [OF w(2)] in \<open>simp_all add: realloc_of_def keeps_bound_def\<close>)
  next
    case (Some new)
    then have new: "layout_valid new" unfolding from_size_align_Some by blast
    show ?thesis
    proof (cases "n = 0")
      case True
      obtain w' where d: "ga_dealloc G p lay w = Some ((), w')" "alone w'" "gw_tls w' = gw_tls w" "session_ok G k (held(p := None)) (gw_st w')"
          "keeps_bound (gw_st w) (gw_st w')"
        using alone_ga_dealloc [OF w(1-3) p] by blast
      have "ga_realloc G p lay n w = Some (0, w')" using Some d(1) pz True by (simp add: ga_realloc_def)
      then show ?thesis
        by (rule that [OF _ d(2) _ d(5)])
          (use Some True session_ok_mono [OF d(4), of "k + 2"] tls_ok_keeps [OF w(3) d(5)] d(3) in \<open>simp_all add: realloc_of_def\<close>)
    next
      case False
      obtain q v where v: "ga_alloc G new w = Some (q, v)" "alone v" "alloc_ok G new q w v"
        using alone_ga_alloc [OF G w(1) session_at_rest [OF w(2)] new] .
      have ok: "session_ok G (k + 2) (payload_of new q v held) (gw_st v)" "keeps_bound (gw_st w) (gw_st v)" "tls_ok (gw_st v) (gw_tls v)" "q \<noteq> 0 \<longrightarrow> held q = None"
        using v(3) w(2-4) sys Some v(1) by (simp_all add: alloc_ok_def)
      show ?thesis
      proof (cases "q = 0")
        case True
        have "ga_realloc G p lay n w = Some (0, v)" using Some False pz v(1) True by (simp add: ga_realloc_def)
        then show ?thesis
          by (rule that [OF _ v(2) _ ok(2,3)]) (use Some False True ok(1) in \<open>simp add: realloc_of_def payload_of_def\<close>)
      next
        case q: False
        let ?v = "v\<lparr>gw_st := write_bytes q (read_bytes p (unat (min (lay_size lay) n)) (gw_st v)) (gw_st v)\<rparr>"
        note wb = write_bytes_frame [where s = "gw_st v" and p = q and bs = "read_bytes p (unat (min (lay_size lay) n)) (gw_st v)"]
        have v': "alone ?v" "session_ok G (k + 2) (payload_of new q v held) (gw_st ?v)" "tls_ok (gw_st ?v) (gw_tls ?v)"
          using v(2) session_ok_frame [OF wb ok(1)] tls_ok_keeps [OF ok(3) unmoved_ok(3) [OF wb(1)]] by simp_all
        have p': "payload_of new q v held p = Some (lay, a)" using p ok(4) q by (auto simp: payload_of_def)
        obtain w' where d: "ga_dealloc G p lay ?v = Some ((), w')" "alone w'" "gw_tls w' = gw_tls ?v"
            "session_ok G (k + 2) ((payload_of new q v held)(p := None)) (gw_st w')" "keeps_bound (gw_st ?v) (gw_st w')" "gs_hdr (gw_st w') = gs_hdr (gw_st ?v)"
          using alone_ga_dealloc [OF v' p'] by blast
        have "ga_realloc G p lay n w = Some (q, w')" using Some False pz v(1) q d(1) by (simp add: ga_realloc_def Let_def)
        moreover have "gs_hdr (gw_st w') = gs_hdr (gw_st v)" using d(6) wb(2) by simp
        then have "realloc_of p lay n q w' held = (payload_of new q v held)(p := None)"
          using Some False q by (simp add: realloc_of_def payload_of_def)
        moreover have kb: "keeps_bound (gw_st v) (gw_st w')" using d(5) unmoved_ok(3) [OF wb(1)] keeps_bound_trans by simp
        moreover have "tls_ok (gw_st w') (gw_tls w')" using tls_ok_keeps [OF ok(3) kb] d(3) by simp
        ultimately show ?thesis using d(2,4) keeps_bound_trans [OF ok(2) kb] by (intro that [of q w']) simp_all
      qed
    qed
  qed
qed

section \<open>Sessions\<close>

definition call_world :: "global_state \<Rightarrow> thread_locals \<Rightarrow> address list \<Rightarrow> gworld" where
  "call_world s t answers = \<lparr>gw_st = s, gw_tls = t, gw_env = [], gw_sys = answers, gw_core = []\<rparr>"

text \<open>
  \<open>wsession G s0 m s T held\<close>: from \<open>s0\<close>, after \<open>m\<close> allocating calls, the wrapper is in the state \<open>s\<close>, the thread \<open>i\<close> has the
  thread-local cells \<open>T i\<close>, and the clients hold the payloads of \<open>held\<close>.  Whatever \<^verbatim>\<open>System\<close> answers, the blocks it has
  given out are as it promises.
\<close>

inductive wsession :: "global_const \<Rightarrow> global_state \<Rightarrow> nat \<Rightarrow> global_state \<Rightarrow> (nat \<Rightarrow> thread_locals) \<Rightarrow> clients \<Rightarrow> bool"
  for G s0 where
  ws_start: "wsession G s0 0 s0 (\<lambda>_. tls_new) Map.empty"
| ws_alloc: "wsession G s0 m s T held \<Longrightarrow> layout_valid lay \<Longrightarrow> ga_alloc G lay (call_world s (T i) answers) = Some (p, w) \<Longrightarrow>
    sys_wf (gs_sys (gw_st w)) \<Longrightarrow> wsession G s0 (Suc m) (gw_st w) (T(i := gw_tls w)) (payload_of lay p w held)"
| ws_zeroed: "wsession G s0 m s T held \<Longrightarrow> layout_valid lay \<Longrightarrow> alloc_zeroed G lay (call_world s (T i) answers) = Some (p, w) \<Longrightarrow>
    sys_wf (gs_sys (gw_st w)) \<Longrightarrow> wsession G s0 (Suc m) (gw_st w) (T(i := gw_tls w)) (payload_of lay p w held)"
| ws_free: "wsession G s0 m s T held \<Longrightarrow> held p = Some (lay, a) \<Longrightarrow> ga_dealloc G p lay (call_world s (T i) answers) = Some (u, w) \<Longrightarrow>
    wsession G s0 m (gw_st w) (T(i := gw_tls w)) (held(p := None))"
| ws_realloc: "wsession G s0 m s T held \<Longrightarrow> held p = Some (lay, a) \<Longrightarrow> ga_realloc G p lay n (call_world s (T i) answers) = Some (q, w) \<Longrightarrow>
    \<forall>new x v. from_size_align n (lay_align lay) = Some new \<longrightarrow> ga_alloc G new (call_world s (T i) answers) = Some (x, v) \<longrightarrow> sys_wf (gs_sys (gw_st v)) \<Longrightarrow>
    wsession G s0 (Suc m) (gw_st w) (T(i := gw_tls w)) (realloc_of p lay n q w held)"
| ws_exit: "wsession G s0 m s T held \<Longrightarrow> guard_drop (call_world s (T i) answers) = w \<Longrightarrow>
    wsession G s0 m (gw_st w) (T(i := gw_tls w)) held"
| ws_write: "wsession G s0 m s T held \<Longrightarrow> clients_write held s t \<Longrightarrow> wsession G s0 m t T held"

definition fresh_wrapper :: "global_state \<Rightarrow> bool" where
  "fresh_wrapper s \<longleftrightarrow> (\<exists>c. gs_ga s = with_config c) \<and> gs_sys s = []"

lemma call_world_alone [simp]: "alone (call_world s t answers)" "gw_st (call_world s t answers) = s" "gw_tls (call_world s t answers) = t"
  by (simp_all add: alone_def call_world_def)

lemma fresh_session:
  assumes "fresh_wrapper s"
  shows "session_ok G 0 Map.empty s"
proof -
  have "wrapper_at G 0 [] (\<lambda>_. []) (\<lambda>_. Map.empty) [] s"
    using assms by (auto simp: fresh_wrapper_def with_config_def wrapper_at_def sys_wf_def)
  then show ?thesis
    unfolding session_ok_def session_at_def by (force simp: stored_def payload_storage_def headers_ok_def)
qed

lemma threads_step:
  assumes "\<forall>i. tls_ok s (T i)" "keeps_bound s t" "tls_ok t x"
  shows "\<forall>j. tls_ok t ((T(i := x)) j)"
  using assms tls_ok_keeps by (simp add: fun_upd_apply) blast

lemma session_alloc_step:
  assumes G: "const_ok G" and s: "session_ok G k held s" "tls_ok s x" "k + 2 < 2 ^ 63" "layout_valid lay"
    and a: "ga_alloc G lay (call_world s x answers) = Some (p, w)" "sys_wf (gs_sys (gw_st w))"
  shows "session_ok G (k + 2) (payload_of lay p w held) (gw_st w)" "keeps_bound s (gw_st w)" "tls_ok (gw_st w) (gw_tls w)"
proof -
  have "at_rest (gw_st (call_world s x answers))" using session_at_rest [OF s(1)] by simp
  then obtain q v where "ga_alloc G lay (call_world s x answers) = Some (q, v)" "alloc_ok G lay q (call_world s x answers) v"
    using alone_ga_alloc [OF G call_world_alone(1) _ s(4)] by blast
  then show "session_ok G (k + 2) (payload_of lay p w held) (gw_st w)" "keeps_bound s (gw_st w)" "tls_ok (gw_st w) (gw_tls w)"
    using a s(1-3) by (simp_all add: alloc_ok_def)
qed

lemma session_invariant:
  assumes G: "const_ok G" "fresh_wrapper s0" and s: "wsession G s0 m s T held" "m < 2 ^ 61"
  shows "session_ok G (2 * m) held s \<and> (\<forall>i. tls_ok s (T i))"
  using s
proof (induction rule: wsession.induct)
  case ws_start
  then show ?case using fresh_session [OF G(2)] by (simp add: tls_ok_def tls_new_def)
next
  case (ws_alloc m s T held lay i answers p w)
  then have IH: "session_ok G (2 * m) held s" "\<forall>i. tls_ok s (T i)" and k: "2 * m + 2 < 2 ^ 63" by simp_all
  note a = session_alloc_step [OF G(1) IH(1) spec [OF IH(2), of i] k ws_alloc.hyps(2-4)]
  show ?case using a(1) threads_step [OF IH(2) a(2,3)] by simp
next
  case (ws_zeroed m s T held lay i answers p w)
  then have IH: "session_ok G (2 * m) held s" "\<forall>i. tls_ok s (T i)" and k: "2 * m + 2 < 2 ^ 63" by simp_all
  obtain v where v: "ga_alloc G lay (call_world s (T i) answers) = Some (p, v)" "gw_tls w = gw_tls v"
      "unmoved (gw_st v) (gw_st w)" "gs_hdr (gw_st w) = gs_hdr (gw_st v)"
    using ws_zeroed.hyps(3) write_bytes_frame by (auto simp: alloc_zeroed_def bind_Some_iff split: if_splits)
  have "sys_wf (gs_sys (gw_st v))" using ws_zeroed.hyps(4) v(3) by (simp add: unmoved_def)
  note a = session_alloc_step [OF G(1) IH(1) spec [OF IH(2), of i] k ws_zeroed.hyps(2) v(1) this]
  have "payload_of lay p w held = payload_of lay p v held" using v(4) by (simp add: payload_of_def)
  moreover have kb: "keeps_bound s (gw_st w)" "tls_ok (gw_st w) (gw_tls w)"
    using keeps_bound_trans [OF a(2) unmoved_ok(3) [OF v(3)]] tls_ok_keeps [OF a(3) unmoved_ok(3) [OF v(3)]] v(2) by simp_all
  ultimately show ?case using session_ok_frame [OF v(3,4) a(1)] threads_step [OF IH(2) kb] by simp
next
  case (ws_free m s T held p lay a i answers u w)
  then have IH: "session_ok G (2 * m) held s" "\<forall>i. tls_ok s (T i)" by simp_all
  obtain w' where w': "ga_dealloc G p lay (call_world s (T i) answers) = Some ((), w')" "gw_tls w' = T i"
      "session_ok G (2 * m) (held(p := None)) (gw_st w')" "keeps_bound s (gw_st w')"
    using alone_ga_dealloc [of "call_world s (T i) answers" G "2 * m" held p lay a lay] IH ws_free.hyps(2) by auto
  have e: "w = w'" using ws_free.hyps(3) w'(1) by simp
  have "tls_ok (gw_st w') (gw_tls w')" using tls_ok_keeps [OF spec [OF IH(2), of i] w'(4)] by (simp only: w'(2))
  from threads_step [OF IH(2) w'(4) this] w'(3) show ?case unfolding e by blast
next
  case (ws_realloc m s T held p lay a n i answers q w)
  then have IH: "session_ok G (2 * m) held s" "\<forall>i. tls_ok s (T i)" and k: "2 * m + 2 < 2 ^ 63" by simp_all
  have pre: "session_ok G (2 * m) held (gw_st (call_world s (T i) answers))"
      "tls_ok (gw_st (call_world s (T i) answers)) (gw_tls (call_world s (T i) answers))" using IH by simp_all
  obtain q' w' where w': "ga_realloc G p lay n (call_world s (T i) answers) = Some (q', w')"
      "session_ok G (2 * m + 2) (realloc_of p lay n q' w' held) (gw_st w')" "keeps_bound s (gw_st w')" "tls_ok (gw_st w') (gw_tls w')"
    using alone_ga_realloc [OF G(1) call_world_alone(1) pre k ws_realloc.hyps(2,4)] by (simp only: call_world_alone) blast
  have e: "q = q'" "w = w'" using ws_realloc.hyps(3) w'(1) by simp_all
  show ?case using threads_step [OF IH(2) w'(3,4)] w'(2) by (simp add: e)
next
  case (ws_exit m s T held i answers w)
  then have IH: "session_ok G (2 * m) held s" "\<forall>i. tls_ok s (T i)" by simp_all
  have w: "unmoved s (gw_st w)" "gs_hdr (gw_st w) = gs_hdr s" "tls_ok (gw_st w) (gw_tls w)"
    using ws_exit.hyps(2) by (auto simp: guard_drop_def Let_def alone_op tls_ok_def)
  show ?case using session_ok_frame [OF w(1,2) IH(1)] threads_step [OF IH(2) unmoved_ok(3) [OF w(1)] w(3)] by blast
next
  case (ws_write m s T held t)
  then have IH: "session_ok G (2 * m) held s" "\<forall>i. tls_ok s (T i)" by simp_all
  then show ?case using clients_write_ok [OF IH(1) ws_write.hyps(2)] tls_ok_keeps by blast
qed

section \<open>What the clients can rely on\<close>

text \<open>
  C2. Clients of a fresh wrapper, whatever they allocate, zeroed or not, reallocate, free and write, and whichever threads
  come and go, hold payloads that are aligned as requested and lie, header included, in memory that the system allocator
  has given to the wrapper and not been given back; no two payloads and headers overlap, whether they come from one
  shard, from two shards or from the system allocator.
\<close>

theorem wrapper_payloads_sound:
  assumes "const_ok G" and "fresh_wrapper s0" and "wsession G s0 m s T held" and "m < 2 ^ 61"
  shows "(\<forall>p lay a. held p = Some (lay, a) \<longrightarrow> p \<noteq> 0 \<and> is_aligned p (lay_align lay)
       \<and> (\<exists>(b, l) \<in> set (gs_sys s). unat b + 48 \<le> unat p \<and> unat p + unat (lay_size lay) \<le> unat b + unat (lay_size l)))
    \<and> (\<forall>p q lay lay' a b. held p = Some (lay, a) \<longrightarrow> held q = Some (lay', b) \<longrightarrow> p \<noteq> q \<longrightarrow>
         apart (unat p - 48, unat p + unat (lay_size lay)) (unat q - 48, unat q + unat (lay_size lay')))"
proof -
  have ok: "session_ok G (2 * m) held s" using session_invariant [OF assms] by blast
  then obtain shs B C ys where at: "session_at G (2 * m) shs B C ys held s" unfolding session_ok_def by blast
  then have w: "wrapper_at G (2 * m) shs B C ys s" by (simp add: session_at_def)
  have "is_aligned p (lay_align lay) \<and> (\<exists>(b, l) \<in> set (gs_sys s). unat b + 48 \<le> unat p \<and> unat p + unat (lay_size lay) \<le> unat b + unat (lay_size l))"
    if p: "held p = Some (lay, a)" for p lay a
  proof -
    obtain adj where "stored_payload C ys p lay a adj" using session_payload [OF at p] .
    note f = stored_payload_place [OF w this]
    then obtain z where z: "z \<in> set (gs_sys s)" "unat (fst z) + 48 \<le> unat p" "unat p + unat (lay_size lay) \<le> unat (fst z) + unat (lay_size (snd z))"
      by force
    with f(1) show ?thesis by (intro conjI bexI [of _ z]) (simp_all add: split_beta)
  qed
  moreover have "apart (unat p - 48, unat p + unat (lay_size lay)) (unat q - 48, unat q + unat (lay_size lay'))"
    if pq: "held p = Some (lay, a)" "held q = Some (lay', b)" "p \<noteq> q" for p q lay lay' a b
  proof -
    obtain adj where "stored_payload C ys p lay a adj" using session_payload [OF at pq(1)] .
    moreover obtain adj' where "stored_payload C ys q lay' b adj'" using session_payload [OF at pq(2)] .
    ultimately show ?thesis using stored_payloads_apart [OF w] pq(3) by blast
  qed
  ultimately show ?thesis using session_nonnull [OF ok] by blast
qed

text \<open>
  C7. Every call returns, for every thread and whatever the system allocator answers: an allocation of any layout and a free
  of any payload held.  As long as the blocks of the system allocator are as it promises, an allocation returns null only
  when header and payload do not fit a layout or the system allocator itself has answered null, and a payload that is
  returned is not one that is already held.
\<close>

theorem wrapper_calls_return:
  assumes "const_ok G" and "fresh_wrapper s0" and "wsession G s0 m s T held" and "m + 1 < 2 ^ 61"
  shows "(\<forall>lay. layout_valid lay \<longrightarrow> (\<exists>p w. ga_alloc G lay (call_world s (T i) answers) = Some (p, w)
       \<and> (sys_wf (gs_sys (gw_st w)) \<longrightarrow> (if p = 0 then layout_for_allocation lay = None \<or> gw_sys w = [] \<or> 0 \<in> set answers else held p = None))))
    \<and> (\<forall>p lay a. held p = Some (lay, a) \<longrightarrow> (\<exists>w. ga_dealloc G p lay (call_world s (T i) answers) = Some ((), w)))"
proof -
  have m: "m < 2 ^ 61" "2 * m + 2 < 2 ^ 63" using assms(4) by simp_all
  have ok: "session_ok G (2 * m) held s" "tls_ok s (T i)" using session_invariant [OF assms(1-3) m(1)] by blast+
  let ?w = "call_world s (T i) answers"
  have "\<exists>p w. ga_alloc G lay ?w = Some (p, w)
      \<and> (sys_wf (gs_sys (gw_st w)) \<longrightarrow> (if p = 0 then layout_for_allocation lay = None \<or> gw_sys w = [] \<or> 0 \<in> set answers else held p = None))"
    if lay: "layout_valid lay" for lay
  proof -
    have "at_rest (gw_st ?w)" using session_at_rest [OF ok(1)] by simp
    then obtain p w where p: "ga_alloc G lay ?w = Some (p, w)" "alloc_ok G lay p ?w w"
      using alone_ga_alloc [OF assms(1) call_world_alone(1) _ lay] by blast
    have "if p = 0 then layout_for_allocation lay = None \<or> gw_sys w = [] \<or> 0 \<in> set answers else held p = None" if "sys_wf (gs_sys (gw_st w))"
      using alloc_okD(4) [OF p(2) _ _ m(2) that, of held] ok by (cases "p = 0") (simp_all add: no_memory_def, simp add: call_world_def)
    with p(1) show ?thesis by blast
  qed
  moreover have "\<exists>w. ga_dealloc G p lay ?w = Some ((), w)" if "held p = Some (lay, a)" for p lay a
    using alone_ga_dealloc [of ?w G "2 * m" held p lay a lay] ok that by auto
  ultimately show ?thesis by blast
qed

text \<open>
  C4. Nothing is leaked: when the clients have freed all they held, whichever threads freed it, what the wrapper keeps of the
  system allocator's memory are the four blocks of each shard, the storage of every payload served by the system
  allocator has gone back to it, and in the core of every shard no block, run or slot is in use and every span given
  out is in one place.
\<close>

theorem wrapper_nothing_leaked:
  assumes "const_ok G" and "fresh_wrapper s0" and "wsession G s0 m s T Map.empty" and "m < 2 ^ 61"
  shows "\<exists>shs. shard_list (gs_shard s) (ga_head (gs_ga s)) shs \<and> distinct shs \<and> length (gs_sys s) = 4 * length shs
    \<and> (\<forall>a \<in> set shs. (a, gc_shard_layout G) \<in> set (gs_sys s)
         \<and> all_idle (unat (hsh_user_slots (gs_shard s a)) + 1) (gc_classes G) (hsh_alloc (gs_shard s a)))"
proof -
  have "session_ok G (2 * m) Map.empty s" using session_invariant [OF assms] by blast
  then obtain shs B C ys where at: "wrapper_at G (2 * m) shs B C ys s" "\<And>a x st. stored C ys a x st = payload_storage Map.empty a x st"
    unfolding session_ok_def session_at_def by blast
  have no: "\<not> stored C ys a x st" for a x st by (simp add: at(2) payload_storage_def)
  have ys: "ys = []" using no [of 0] by (cases ys) (auto simp: stored_def)
  have C: "C a = Map.empty" if "a \<in> set shs" for a
  proof -
    have "a \<noteq> 0" using wrapper_atD(1) [OF at(1)] chain_null_free that by blast
    then show ?thesis using no [of a] by (auto simp: stored_def fun_eq_iff) (metis option.exhaust)
  qed
  have sh: "shard_ok G (2 * m) (B a) Map.empty a (gs_shard s a)" if "a \<in> set shs" for a
    using wrapper_atD(6) [OF at(1) that] C [OF that] by simp
  have "length (gs_sys s) = length (concat (List.map B shs))"
    using arg_cong [OF wrapper_atD(5) [OF at(1)], of size] ys by simp
  also have "\<dots> = 4 * length shs"
  proof -
    have four: "length (B a) = 4" if "a \<in> set shs" for a using sh [OF that] unfolding shard_ok_def shard_at_def by blast
    have "length (concat (List.map B xs)) = 4 * length xs" if "set xs \<subseteq> set shs" for xs
      using that four by (induction xs) auto
    then show ?thesis by blast
  qed
  finally have len: "length (gs_sys s) = 4 * length shs" .
  have "(a, gc_shard_layout G) \<in> set (gs_sys s) \<and> all_idle (unat (hsh_user_slots (gs_shard s a)) + 1) (gc_classes G) (hsh_alloc (gs_shard s a))"
    if a: "a \<in> set shs" for a
  proof -
    obtain D r rl where "shard_at G D r rl (2 * m) (B a) Map.empty a (gs_shard s a)" using sh [OF a] unfolding shard_ok_def by blast
    note o = shard_atD [OF this]
    show ?thesis using wrapper_blocks(1) [OF at(1) a o(1)] all_returned [OF o(5)] by blast
  qed
  with wrapper_atD(1,2) [OF at(1)] len show ?thesis by blast
qed

section \<open>An example\<close>

text \<open>
  One thread per shard and four spans per region; the system allocator has memory for one shard, with its metadata at 65536,
  its region at 1048576, its token cell at 131072 and the shard itself at 196608.
\<close>

definition hosted_const :: global_const where
  "hosted_const = \<lparr>gc_self = 64, gc_backend = Cmpxchg16b, gc_classes = 11, gc_hg = 16384,
     gc_rows = \<lparr>heap_size = 512, heap_align = 64, records_size = 48, records_align = 16, run_records_size = 272, run_records_align = 16,
        dummy_off = \<lambda>l. of_nat (16 * (case l of SpanLane c \<Rightarrow> c | RunLane r \<Rightarrow> 11 + r))\<rparr>,
     gc_shard_layout = \<lparr>lay_size = 1024, lay_align = 64\<rparr>, gc_memory = zero_memory\<rparr>"

definition hosted_start :: global_state where
  "hosted_start = gw_st (global_start [])"

definition hosted_blocks :: "(address \<times> layout) list" where
  "hosted_blocks = [(196608, \<lparr>lay_size = 1024, lay_align = 64\<rparr>), (131072, \<lparr>lay_size = 8, lay_align = 8\<rparr>),
     (1048576, \<lparr>lay_size = 262144, lay_align = 65536\<rparr>), (65536, \<lparr>lay_size = 1664, lay_align = 64\<rparr>)]"

abbreviation hosted_lay :: layout where
  "hosted_lay \<equiv> \<lparr>lay_size = 100, lay_align = 8\<rparr>"

lemma hosted_const_ok: "const_ok hosted_const"
proof -
  have al: "is_power_of_two 64" "is_power_of_two 16" using is_power_of_two_exp [of 6] is_power_of_two_exp [of 4] by simp_all
  let ?i = "\<lambda>l. case l of SpanLane c \<Rightarrow> c | RunLane r \<Rightarrow> 11 + r"
  have i: "?i l < 28" if "l \<in> set (lanes 11)" for l using that by (auto simp: lanes_def wf_config)
  have u: "unat (of_nat (16 * ?i l) :: usize) = 16 * ?i l" if "l \<in> set (lanes 11)" for l
    using i [OF that] by (intro unat_of_nat_small) simp
  have "unat (of_nat (16 * ?i l) :: usize) + 16 \<le> 512" if "l \<in> set (lanes 11)" for l using u [OF that] i [OF that] by simp
  moreover have "inj_on (\<lambda>l. of_nat (16 * ?i l) :: usize) (set (lanes 11))"
  proof (rule inj_onI)
    fix l l' assume l: "l \<in> set (lanes 11)" "l' \<in> set (lanes 11)" "(of_nat (16 * ?i l) :: usize) = of_nat (16 * ?i l')"
    then have "?i l = ?i l'" using u by (metis mult_cancel1 numeral_eq_Suc zero_neq_numeral)
    then show "l = l'" using l(1,2) by (auto simp: lanes_def split: lane.splits)
  qed
  ultimately show ?thesis
    by (simp add: const_ok_def hosted_const_def rows_valid_def al allocator_valid_def wf_config checked_mul_def)
qed

lemma hosted_layouts: "shard_layouts hosted_const 1 4 =
    Some (2, \<lparr>lay_size = 1664, lay_align = 64\<rparr>, \<lparr>lay_size = 262144, lay_align = 65536\<rparr>, \<lparr>lay_size = 8, lay_align = 8\<rparr>)"
proof -
  have al: "is_power_of_two 64" "is_power_of_two 65536" "is_power_of_two 8"
    using is_power_of_two_exp [of 6] is_power_of_two_exp [of 16] is_power_of_two_exp [of 3] by simp_all
  show ?thesis
    by (simp add: shard_layouts_def hosted_const_def metadata_region_size_def metadata_offsets_def align_up_usize_def
        checked_add_def checked_mul_def from_size_align_def layout_valid_def Let_def metadata_region_align_def max_usize_def
        wf_config al)
qed

lemma hosted_metadata: "\<exists>core. from_metadata_region (gc_rows hosted_const) 11 2 65536 1664 zero_memory = Some (core, 1664)"
  by (simp add: from_metadata_region_def hosted_const_def metadata_offsets_def align_up_usize_def checked_add_def checked_mul_def
      metadata_region_align_def max_usize_def)

lemma hosted_sys_wf: "sys_wf hosted_blocks"
  by (simp add: sys_wf_def hosted_blocks_def is_aligned_def apart_def)

definition hosted_call :: gworld where
  "hosted_call = call_world hosted_start tls_new [65536, 1048576, 131072, 196608]"

lemma hosted_create:
  obtains v core where "create_and_link_shard hosted_const 4 hosted_call = Some (Some 196608, v)" "alone v" "gw_tls v = tls_new"
    "gs_sys (gw_st v) = hosted_blocks" "gs_cell (gw_st v) 131072 = 0"
    "gs_shard (gw_st v) 196608 = \<lparr>hsh_next = 0, hsh_user_slots = 1, hsh_token_in_use = 131072, hsh_service_lock = False,
       hsh_region_spans = 4, hsh_alloc = init 11 1048576 262144 core\<rparr>"
    "fresh_shard hosted_const 196608 1 hosted_blocks ((gs_shard (gw_st v) 196608)\<lparr>hsh_next := 0\<rparr>)"
proof -
  obtain core where core: "from_metadata_region (gc_rows hosted_const) 11 2 65536 1664 zero_memory = Some (core, 1664)"
    using hosted_metadata by blast
  have c: "gc_classes hosted_const = 11" "gc_memory hosted_const = zero_memory" "gc_shard_layout hosted_const = \<lparr>lay_size = 1024, lay_align = 64\<rparr>"
    by (simp_all add: hosted_const_def)
  let ?sh = "\<lparr>hsh_next = 0, hsh_user_slots = 1, hsh_token_in_use = 131072, hsh_service_lock = False,
       hsh_region_spans = 4, hsh_alloc = init 11 1048576 262144 core\<rparr>"
  define s where "s = set_create_lock True hosted_start"
  have s: "threads_per_shard s = 1" "region_spans s = 4" "ga_head (gs_ga s) = 0" "gs_sys s = []"
    by (simp_all add: s_def hosted_start_def global_start_def threads_per_shard_def region_spans_def set_create_lock_def ga_new_def with_config_def config_new_def)
  have l: "lock create_lock_held set_create_lock hosted_call = Some (hosted_call\<lparr>gw_st := s\<rparr>)"
    unfolding s_def hosted_call_def
    by (subst alone_lock) (simp_all add: create_lock_held_def hosted_start_def global_start_def ga_new_def with_config_def config_new_def)
  obtain st where st: "shard_create hosted_const 1 4 (hosted_call\<lparr>gw_st := s\<rparr>) = (196608, \<lparr>gw_st = st, gw_tls = tls_new, gw_env = [], gw_sys = [], gw_core = []\<rparr>)"
      "gs_ga st = gs_ga s" "gs_sys st = hosted_blocks" "gs_cell st 131072 = 0" "gs_shard st 196608 = ?sh"
    by (simp add: shard_create_def hosted_layouts shard_install_def c core sys_alloc_def hosted_call_def call_world_def g_put_def g_op_def seen_def Let_def)
      (simp add: clear_cells_def set_cell_def on_shard_def s(4) hosted_blocks_def)
  have "fresh_shard hosted_const 196608 1 hosted_blocks ?sh"
    unfolding fresh_shard_def
    by (rule exI [of _ 4], rule exI [of _ 2], rule exI, rule exI, rule exI, rule exI [of _ 65536], rule exI [of _ 1048576], rule exI [of _ 131072],
        rule exI [of _ core], rule exI [of _ 1664], rule conjI [OF hosted_layouts]) (simp add: core c shard_blocks_def hosted_blocks_def)
  moreover let ?v = "\<lparr>gw_st = on_ga (ga_create_lock_update (\<lambda>_. False)) (on_ga (ga_shard_count_update (\<lambda>k. k + 1)) (on_ga (ga_head_update (\<lambda>_. 196608))
      (on_shard 196608 (hsh_next_update (\<lambda>_. 0)) st))), gw_tls = tls_new, gw_env = [], gw_sys = [], gw_core = []\<rparr>"
  have "create_and_link_shard hosted_const 4 hosted_call = Some (Some 196608, ?v)"
    using s st(1,2) by (simp add: create_and_link_shard_def l g_op_def g_put_def seen_def Let_def unlock_def set_create_lock_def)
  ultimately show ?thesis using st(3-5) by (intro that [of ?v core]) (simp_all add: alone_def)
qed

text \<open>The storage of the request is served from the first span of the new shard.\<close>

lemma hosted_storage: "layout_for_allocation hosted_lay = Some \<lparr>al_storage = \<lparr>lay_size = 148, lay_align = 8\<rparr>, al_offset = 48\<rparr>" "layout_valid hosted_lay"
  "layout_valid \<lparr>lay_size = 148, lay_align = 8\<rparr>" "small_class 11 \<lparr>lay_size = 148, lay_align = 8\<rparr> = Some 4"
proof -
  have al: "is_power_of_two 8" using is_power_of_two_exp [of 3] by simp
  show v: "layout_valid hosted_lay" "layout_valid \<lparr>lay_size = 148, lay_align = 8\<rparr>" by (simp_all add: layout_valid_def al)
  show "layout_for_allocation hosted_lay = Some \<lparr>al_storage = \<lparr>lay_size = 148, lay_align = 8\<rparr>, al_offset = 48\<rparr>"
    using layout_for_allocation_eq [OF v(1)] by (simp add: payload_offset_def storage_align_def)
  have "(2 :: nat) ^ (c + 4) < 148" if "c < 4" for c using power_increasing [of "c + 4" 7 "2 :: nat"] that by simp
  then show "small_class 11 \<lparr>lay_size = 148, lay_align = 8\<rparr> = Some 4" by (auto simp: small_class_Some size_to_class_Some linorder_not_le)
qed

lemma hosted_bind:
  obtains y core where "bind_thread hosted_const hosted_call = Some (Some (196608, 1), y)" "alone y" "tl_shard (gw_tls y) = 196608"
    "gs_sys (gw_st y) = hosted_blocks" "gs_shard (gw_st y) 196608 = \<lparr>hsh_next = 0, hsh_user_slots = 1, hsh_token_in_use = 131072,
       hsh_service_lock = False, hsh_region_spans = 4, hsh_alloc = init 11 1048576 262144 core\<rparr>"
    "shard_ok hosted_const 0 hosted_blocks Map.empty 196608 (gs_shard (gw_st y) 196608)"
proof -
  let ?G = hosted_const
  obtain v core where v: "create_and_link_shard ?G 4 hosted_call = Some (Some 196608, v)" "alone v" "gw_tls v = tls_new"
      "gs_sys (gw_st v) = hosted_blocks" "gs_cell (gw_st v) 131072 = 0"
      "gs_shard (gw_st v) 196608 = \<lparr>hsh_next = 0, hsh_user_slots = 1, hsh_token_in_use = 131072, hsh_service_lock = False,
       hsh_region_spans = 4, hsh_alloc = init 11 1048576 262144 core\<rparr>"
      "fresh_shard ?G 196608 1 hosted_blocks ((gs_shard (gw_st v) 196608)\<lparr>hsh_next := 0\<rparr>)"
    by (rule hosted_create)
  define x where "x = v\<lparr>gw_st := set_cell 131072 1 (gw_st v)\<rparr>"
  have a: "acquire_user_token 196608 v = (Some (1, 131072), x)"
    by (simp add: acquire_user_token_def Let_def v(6) alone_op(1) [OF v(2)] cell_cas_def v(5) x_def)
  have h: "ga_head (gs_ga (gw_st hosted_call)) = 0" "region_spans (gw_st hosted_call) = 4" "bound_token ?G (gw_tls hosted_call) = None" "tl_guard (gw_tls hosted_call)"
      "alone hosted_call"
    by (simp_all add: hosted_call_def hosted_start_def global_start_def ga_new_def with_config_def config_new_def region_spans_def bound_token_def tls_new_def)
  have "acquire_walk 0 hosted_call = Some (None, hosted_call)" by (subst acquire_walk.simps) simp
  then have "acquire_token_from_any_shard ?G hosted_call = Some (Some (196608, 1, 131072), x)"
    by (subst acquire_token_from_any_shard.simps) (simp add: alone_op(1) [OF h(5)] h v(1) a)
  then obtain y where b: "bind_thread ?G hosted_call = Some (Some (196608, 1), y)" "gw_st y = gw_st x" "alone y" "tl_shard (gw_tls y) = 196608"
    using v(2) by (simp add: bind_thread_def h x_def)
  have "shard_ok ?G 0 hosted_blocks Map.empty 196608 (gs_shard (gw_st v) 196608)"
    using fresh_shard_ok(1) [OF hosted_const_ok v(7) hosted_sys_wf, of 0] by (simp add: v(6))
  with b v(4,6) show ?thesis by (intro that [of y core]) (simp_all add: x_def)
qed

lemma hosted_alloc:
  obtains p w where "ga_alloc hosted_const hosted_lay hosted_call = Some (p, w)" "p \<noteq> 0" "gs_sys (gw_st w) = hosted_blocks"
    "ah_shard (gs_hdr (gw_st w) (p - HEADER_SIZE)) = 196608"
proof -
  let ?st = "\<lparr>lay_size = 148, lay_align = 8\<rparr> :: layout" and ?G = hosted_const
  obtain y core where b: "bind_thread ?G hosted_call = Some (Some (196608, 1), y)" "alone y" "tl_shard (gw_tls y) = 196608" "gs_sys (gw_st y) = hosted_blocks"
    and sh: "gs_shard (gw_st y) 196608 = \<lparr>hsh_next = 0, hsh_user_slots = 1, hsh_token_in_use = 131072,
       hsh_service_lock = False, hsh_region_spans = 4, hsh_alloc = init 11 1048576 262144 core\<rparr>"
    and ok: "shard_ok ?G 0 hosted_blocks Map.empty 196608 (gs_shard (gw_st y) 196608)" by (rule hosted_bind)
  obtain raw z where z: "core_alloc ?G 196608 ?st 1 y = (raw, z)" by (meson surj_pair)
  note cs = alone_core_shape [OF b(2) z [unfolded core_alloc_def]]
  have c: "gc_classes ?G = 11" "gc_hg ?G = 16384" by (simp_all add: hosted_const_def)
  have t1: "unat (1 :: usize) \<le> unat (hsh_user_slots (gs_shard (gw_st y) 196608))" by (simp add: sh)
  have q: "quietly (alloc_with_token (gc_backend ?G) (active_threads (hsh_alloc (gs_shard (gw_st y) 196608))) (gc_classes ?G) (gc_hg ?G) ?st \<lparr>tok_id = 1\<rparr>)
      (hsh_alloc (gs_shard (gw_st y) 196608)) (\<lambda>p c. if p = 0 then out_of_memory 11 16384 ?st (hsh_alloc (gs_shard (gw_st y) 196608))
        else shard_ok ?G 1 hosted_blocks [p \<mapsto> ?st] 196608 ((gs_shard (gw_st y) 196608)\<lparr>hsh_alloc := c\<rparr>))"
    by (rule quietly_mono [OF shard_ok_alloc [OF hosted_const_ok ok _ t1 hosted_storage(3)]]) (auto simp: c split: if_splits)
  obtain cc where cc: "if raw = 0 then out_of_memory 11 16384 ?st (hsh_alloc (gs_shard (gw_st y) 196608))
        else shard_ok ?G 1 hosted_blocks [raw \<mapsto> ?st] 196608 ((gs_shard (gw_st y) 196608)\<lparr>hsh_alloc := cc\<rparr>)"
      "z = y\<lparr>gw_st := on_shard 196608 (hsh_alloc_update (\<lambda>_. cc)) (gw_st y)\<rparr>"
    by (rule alone_core [OF b(2) refl q z [unfolded core_alloc_def]])
  have "raw \<noteq> 0"
  proof
    assume "raw = 0"
    then have "out_of_memory 11 16384 ?st (init 11 1048576 262144 core)" using cc(1) by (simp add: sh)
    then have "pool_count (g_pool (init 11 1048576 262144 core)) \<le> cursor (init 11 1048576 262144 core)"
      by (simp add: out_of_memory_def hosted_storage(4))
    then show False
      using set_region_unat [of 1048576 262144 "g_pool (init_lists 11 core)"] by (simp add: init_def Let_def word_le_nat_alt set_region_def)
  qed
  define h where "h = [raw \<mapsto> ?st]"
  with \<open>raw \<noteq> 0\<close> have so: "shard_ok ?G 1 hosted_blocks h 196608 ((gs_shard (gw_st y) 196608)\<lparr>hsh_alloc := cc\<rparr>)" using cc(1) by simp
  obtain D r rl where "shard_at ?G D r rl 1 hosted_blocks h 196608 ((gs_shard (gw_st y) 196608)\<lparr>hsh_alloc := cc\<rparr>)"
    using so unfolding shard_ok_def by (elim exE)
  note o = shard_atD [OF this]
  have "unat raw + 148 < 2 ^ 64"
    using service_payloads(1) [OF o(5), of raw ?st] o(8) sys_wf_block [OF hosted_sys_wf o(2)] by (simp add: h_def)
  then have "unat (raw + 48) = unat raw + 48" by (subst unat_add_nowrap) simp_all
  then have nz: "raw + 48 \<noteq> 0" by (auto simp flip: unat_zero_iff)
  let ?adj = "\<lparr>al_storage = ?st, al_offset = 48\<rparr>"
  obtain p w where f: "finish_in raw ?adj BACKEND_WFSPAN 196608 (bump_ga ga_wfspan_allocations_update z) = (p, w)" by (meson surj_pair)
  have eq: "ga_alloc ?G hosted_lay hosted_call = Some (p, w)"
    using \<open>raw \<noteq> 0\<close> f b(3) cs(2) by (simp add: ga_alloc_def hosted_storage(1) alloc_from_wfspan_def b(1) z)
  have sys: "gs_sys (gw_st w) = hosted_blocks" "ah_shard (gs_hdr (gw_st w) (p - HEADER_SIZE)) = 196608"
    using finish_in_state [OF f] cs(1) b(4) by (auto simp: alone_op) (simp_all add: cc(2))
  have "p \<noteq> 0" using finish_in_state [OF f] nz by simp
  with eq sys show ?thesis by (intro that [of p w])
qed

lemma hosted_session:
  obtains p s T where "wsession hosted_const hosted_start 1 s T [p \<mapsto> (hosted_lay, 196608)]" "gs_sys s = hosted_blocks" "p \<noteq> 0"
proof -
  obtain p w where w: "ga_alloc hosted_const hosted_lay hosted_call = Some (p, w)" "p \<noteq> 0" "gs_sys (gw_st w) = hosted_blocks"
      "ah_shard (gs_hdr (gw_st w) (p - HEADER_SIZE)) = 196608" by (rule hosted_alloc)
  have "wsession hosted_const hosted_start (Suc 0) (gw_st w) ((\<lambda>_. tls_new)(0 := gw_tls w)) (payload_of hosted_lay p w Map.empty)"
    by (rule ws_alloc [OF ws_start hosted_storage(2), where i = 0]) (use w hosted_sys_wf in \<open>auto simp: hosted_call_def\<close>)
  then show ?thesis using w by (intro that [of "gw_st w"]) (simp_all add: payload_of_def)
qed

lemma hosted_fresh: "fresh_wrapper hosted_start"
  by (auto simp: fresh_wrapper_def hosted_start_def global_start_def ga_new_def)

theorem wrapper_payloads_sound_witness:
  "\<exists>p s T. wsession hosted_const hosted_start 1 s T [p \<mapsto> (hosted_lay, 196608)] \<and> is_aligned p 8
     \<and> (\<exists>(b, l) \<in> set hosted_blocks. unat b + 48 \<le> unat p \<and> unat p + 100 \<le> unat b + unat (lay_size l))"
proof -
  obtain p s T where s: "wsession hosted_const hosted_start 1 s T [p \<mapsto> (hosted_lay, 196608)]" "gs_sys s = hosted_blocks"
    using hosted_session by blast
  from wrapper_payloads_sound [OF hosted_const_ok hosted_fresh s(1), THEN conjunct1, rule_format, of p hosted_lay 196608] s
  show ?thesis by (intro exI [of _ p] exI [of _ s] exI [of _ T]) simp
qed

theorem wrapper_calls_return_witness:
  "\<exists>p s T. wsession hosted_const hosted_start 1 s T [p \<mapsto> (hosted_lay, 196608)]
     \<and> (\<exists>q w. ga_alloc hosted_const hosted_lay (call_world s (T 1) []) = Some (q, w))
     \<and> (\<exists>w. ga_dealloc hosted_const p hosted_lay (call_world s (T 1) []) = Some ((), w))"
proof -
  obtain p s T where s: "wsession hosted_const hosted_start 1 s T [p \<mapsto> (hosted_lay, 196608)]" using hosted_session by blast
  have m: "(1 :: nat) + 1 < 2 ^ 61" by simp
  note r = wrapper_calls_return [OF hosted_const_ok hosted_fresh s m, of 1 "[]"]
  have "\<exists>q w. ga_alloc hosted_const hosted_lay (call_world s (T 1) []) = Some (q, w)" using r hosted_storage(2) by blast
  moreover have "\<exists>w. ga_dealloc hosted_const p hosted_lay (call_world s (T 1) []) = Some ((), w)"
    using conjunct2 [OF r, rule_format, of p hosted_lay 196608] by simp
  ultimately show ?thesis using s by blast
qed

theorem wrapper_nothing_leaked_witness:
  "\<exists>s T. wsession hosted_const hosted_start 1 s T Map.empty
     \<and> (\<exists>shs. shard_list (gs_shard s) (ga_head (gs_ga s)) shs \<and> length (gs_sys s) = 4 * length shs)"
proof -
  obtain p s T where s: "wsession hosted_const hosted_start 1 s T [p \<mapsto> (hosted_lay, 196608)]" using hosted_session by blast
  have i: "session_ok hosted_const 2 [p \<mapsto> (hosted_lay, 196608)] s" "tls_ok s (T 1)"
    using session_invariant [OF hosted_const_ok hosted_fresh s] by simp_all
  obtain w where w: "ga_dealloc hosted_const p hosted_lay (call_world s (T 1) []) = Some ((), w)"
    using alone_ga_dealloc [of "call_world s (T 1) []" hosted_const 2 "[p \<mapsto> (hosted_lay, 196608)]" p hosted_lay 196608 hosted_lay] i by auto
  have "wsession hosted_const hosted_start 1 (gw_st w) (T(1 := gw_tls w)) ([p \<mapsto> (hosted_lay, 196608)](p := None))"
    by (rule ws_free [OF s _ w]) simp
  then have t: "wsession hosted_const hosted_start 1 (gw_st w) (T(1 := gw_tls w)) Map.empty" by simp
  from wrapper_nothing_leaked [OF hosted_const_ok hosted_fresh t] t show ?thesis by (simp, blast)
qed

end
